(* ===== verification/Prelude.thy ===== *)
theory Prelude
  imports Main
begin

text \<open>
  Shared ground of the development: the part of the JavaScript language and of its standard
  library that the user interfaces under \<^verbatim>\<open>src/v2/lens3/ui\<close> and
  \<^verbatim>\<open>src/v2/lens3/ui2\<close> use.

  \<^item> values (\<open>jsval\<close>): the values JSON can carry plus \<open>undefined\<close> and \<open>NaN\<close>. Numbers are
    integers: every number the server sends and every number the code computes is one (times
    in seconds or milliseconds, indices, sizes). Strings are lists of characters with codes
    below 256. Objects are association lists in insertion order;
  \<^item> conversions (\<open>to_string\<close>, \<open>to_number\<close>, \<open>truthy\<close>, the loose comparison with a string);
  \<^item> property reads and iteration, which raise a \<open>TypeError\<close> where the language does;
  \<^item> \<open>JSON.stringify\<close>;
  \<^item> a monad of computations that change a state and may raise: the state changes made before
    an exception stay, as they do in JavaScript. \<open>js_keeps P m\<close> says that \<open>m\<close> keeps the
    state predicate \<open>P\<close> on normal and on abrupt completion; its rules are collected in
    \<open>js_keeps_intros\<close>, the symbolic execution rules in \<open>js_exec\<close>.
\<close>

named_theorems js_exec \<open>symbolic execution of the state and exception monad\<close>
named_theorems js_keeps_intros \<open>preservation of a state predicate, by the structure of the program\<close>

section \<open>Errors and values\<close>

datatype js_error = TypeError | RangeError | Thrown string

datatype jsval =
    JUndef
  | JNull
  | JBool bool
  | JNum int
  | JNaN
  | JStr string
  | JArr "jsval list"
  | JObj "(string \<times> jsval) list"

section \<open>Decimal numerals\<close>

definition digit_char :: "nat \<Rightarrow> char" where
  "digit_char n = char_of (48 + n mod 10)"

definition digit_val :: "char \<Rightarrow> nat option" where
  "digit_val c = (let n = of_char c in if 48 \<le> n \<and> n \<le> 57 then Some (n - 48) else None)"

fun dec_nat :: "nat \<Rightarrow> string" where
  "dec_nat n = (if n < 10 then [digit_char n] else dec_nat (n div 10) @ [digit_char n])"

declare dec_nat.simps [simp del]

definition dec_int :: "int \<Rightarrow> string" where
  "dec_int n = (if n < 0 then CHR ''-'' # dec_nat (nat (- n)) else dec_nat (nat n))"

fun read_nat_acc :: "nat \<Rightarrow> string \<Rightarrow> nat option" where
  "read_nat_acc a [] = Some a"
| "read_nat_acc a (c # cs) =
     (case digit_val c of None \<Rightarrow> None | Some d \<Rightarrow> read_nat_acc (10 * a + d) cs)"

definition read_nat :: "string \<Rightarrow> nat option" where
  "read_nat s = (if s = [] then None else read_nat_acc 0 s)"

text \<open>\<open>pad k n\<close> prints the last \<open>k\<close> digits of \<open>n\<close>, with leading zeros.\<close>

fun pad :: "nat \<Rightarrow> nat \<Rightarrow> string" where
  "pad 0 n = []"
| "pad (Suc k) n = pad k (n div 10) @ [digit_char n]"

lemma digit_val_digit_char [simp]: "digit_val (digit_char n) = Some (n mod 10)"
proof -
  have "n mod 10 < 10" by simp
  then have "(48 + n mod 10) mod 256 = 48 + n mod 10" by (intro mod_less) linarith
  then show ?thesis
    by (simp add: digit_val_def digit_char_def Let_def)
qed

lemma read_nat_acc_append:
  "read_nat_acc a (xs @ ys) =
     (case read_nat_acc a xs of None \<Rightarrow> None | Some b \<Rightarrow> read_nat_acc b ys)"
  by (induction a xs rule: read_nat_acc.induct) (auto split: option.splits)

lemma read_nat_acc_dec_nat [simp]: "read_nat_acc 0 (dec_nat n) = Some n"
proof (induction n rule: dec_nat.induct)
  case (1 n)
  show ?case
  proof (cases "n < 10")
    case True
    then show ?thesis by (simp add: dec_nat.simps [of n])
  next
    case False
    with "1.IH" show ?thesis
      by (simp add: dec_nat.simps [of n] read_nat_acc_append)
  qed
qed

lemma dec_nat_nonempty [simp]: "dec_nat n \<noteq> []"
  by (subst dec_nat.simps) simp

lemma read_nat_dec_nat [simp]: "read_nat (dec_nat n) = Some n"
  by (simp add: read_nat_def)

lemma dec_nat_inject [simp]: "dec_nat m = dec_nat n \<longleftrightarrow> m = n"
  by (metis option.inject read_nat_dec_nat)

lemma length_pad [simp]: "length (pad k n) = k"
  by (induction k arbitrary: n) auto

lemma mod_10_pow_Suc: "n mod (10 ^ Suc k) = 10 * (n div 10 mod 10 ^ k) + n mod (10 :: nat)"
  using mod_mult2_eq [of n 10 "10 ^ k"] by simp

lemma read_nat_acc_pad:
  "read_nat_acc a (pad k n) = Some (a * 10 ^ k + n mod 10 ^ k)"
  by (induction k arbitrary: n)
    (simp_all add: read_nat_acc_append mod_10_pow_Suc algebra_simps del: power_Suc,
     simp add: algebra_simps)

lemma read_nat_pad: "0 < k \<Longrightarrow> n < 10 ^ k \<Longrightarrow> read_nat (pad k n) = Some n"
  by (cases k) (auto simp: read_nat_def read_nat_acc_pad simp del: pad.simps dest: arg_cong [where f = length])

text \<open>Digit strings never contain a character that is not a digit.\<close>

lemma digit_char_neq:
  "digit_val c = None \<Longrightarrow> digit_char n \<noteq> c"
  by (metis digit_val_digit_char option.discI)

lemma dec_nat_digits: "c \<in> set (dec_nat n) \<Longrightarrow> digit_val c \<noteq> None"
proof (induction n rule: dec_nat.induct)
  case (1 n)
  then show ?case
    by (cases "n < 10") (auto simp: dec_nat.simps [of n])
qed

lemma pad_digits: "c \<in> set (pad k n) \<Longrightarrow> digit_val c \<noteq> None"
  by (induction k arbitrary: n) auto

lemma dec_nat_hd_neq: "digit_val c = None \<Longrightarrow> dec_nat n \<noteq> c # cs"
  using dec_nat_digits [of c n] by auto

lemma dec_int_inject [simp]: "dec_int m = dec_int n \<longleftrightarrow> m = n"
proof -
  have "digit_val (CHR ''-'') = None" by (simp add: digit_val_def)
  then show ?thesis
    by (auto simp: dec_int_def dec_nat_hd_neq dest: sym [of "CHR ''-'' # _"])
qed

section \<open>Conversions\<close>

fun join :: "string \<Rightarrow> string list \<Rightarrow> string" where
  "join sep [] = []"
| "join sep [x] = x"
| "join sep (x # y # ys) = x @ sep @ join sep (y # ys)"

text \<open>\<open>ToString\<close>; an array joins its elements with commas, \<open>undefined\<close> and \<open>null\<close> as nothing.\<close>

fun to_string :: "jsval \<Rightarrow> string" where
  "to_string JUndef = ''undefined''"
| "to_string JNull = ''null''"
| "to_string (JBool b) = (if b then ''true'' else ''false'')"
| "to_string (JNum n) = dec_int n"
| "to_string JNaN = ''NaN''"
| "to_string (JStr s) = s"
| "to_string (JArr xs) =
     join '','' (map (\<lambda>x. if x = JUndef \<or> x = JNull then [] else to_string x) xs)"
| "to_string (JObj kvs) = ''[object Object]''"

definition is_space :: "char \<Rightarrow> bool" where
  "is_space c \<longleftrightarrow> (of_char c :: nat) \<in> {9, 10, 11, 12, 13, 32, 160}"

definition trim :: "string \<Rightarrow> string" where
  "trim s = rev (dropWhile is_space (rev (dropWhile is_space s)))"

text \<open>
  \<open>StringToNumber\<close> on the empty string and on integer literals; other literals (fractions,
  exponents, hexadecimal, \<open>Infinity\<close>) do not occur in the data of the interfaces and read as
  \<open>NaN\<close> here.
\<close>

definition str_to_number :: "string \<Rightarrow> int option" where
  "str_to_number s =
     (case trim s of
        [] \<Rightarrow> Some 0
      | c # cs \<Rightarrow>
          if c = CHR ''-'' then map_option (\<lambda>n. - int n) (read_nat cs)
          else if c = CHR ''+'' then map_option int (read_nat cs)
          else map_option int (read_nat (c # cs)))"

fun to_number :: "jsval \<Rightarrow> int option" where
  "to_number JUndef = None"
| "to_number JNull = Some 0"
| "to_number (JBool b) = Some (if b then 1 else 0)"
| "to_number (JNum n) = Some n"
| "to_number JNaN = None"
| "to_number (JStr s) = str_to_number s"
| "to_number (JArr xs) = str_to_number (to_string (JArr xs))"
| "to_number (JObj kvs) = None"

fun truthy :: "jsval \<Rightarrow> bool" where
  "truthy JUndef = False"
| "truthy JNull = False"
| "truthy (JBool b) = b"
| "truthy (JNum n) = (n \<noteq> 0)"
| "truthy JNaN = False"
| "truthy (JStr s) = (s \<noteq> [])"
| "truthy (JArr xs) = True"
| "truthy (JObj kvs) = True"

text \<open>\<open>x == "lit"\<close> and \<open>x == 0\<close>.\<close>

fun eq_str :: "jsval \<Rightarrow> string \<Rightarrow> bool" where
  "eq_str (JStr s) lit = (s = lit)"
| "eq_str (JNum n) lit = (str_to_number lit = Some n)"
| "eq_str (JBool b) lit = (str_to_number lit = Some (if b then 1 else 0))"
| "eq_str (JArr xs) lit = (to_string (JArr xs) = lit)"
| "eq_str (JObj kvs) lit = (to_string (JObj kvs) = lit)"
| "eq_str _ lit = False"

fun eq_zero :: "jsval \<Rightarrow> bool" where
  "eq_zero (JNum n) = (n = 0)"
| "eq_zero (JStr s) = (str_to_number s = Some 0)"
| "eq_zero (JBool b) = (\<not> b)"
| "eq_zero (JArr xs) = (str_to_number (to_string (JArr xs)) = Some 0)"
| "eq_zero _ = False"

section \<open>Property reads and iteration\<close>

definition array_index :: "string \<Rightarrow> nat option" where
  "array_index k = (case read_nat k of None \<Rightarrow> None | Some i \<Rightarrow> if dec_nat i = k then Some i else None)"

fun get_prop :: "jsval \<Rightarrow> string \<Rightarrow> js_error + jsval" where
  "get_prop JUndef k = Inl TypeError"
| "get_prop JNull k = Inl TypeError"
| "get_prop (JObj kvs) k = Inr (case map_of kvs k of None \<Rightarrow> JUndef | Some v \<Rightarrow> v)"
| "get_prop (JArr xs) k =
     Inr (if k = ''length'' then JNum (int (length xs))
          else case array_index k of
                 None \<Rightarrow> JUndef
               | Some i \<Rightarrow> if i < length xs then xs ! i else JUndef)"
| "get_prop (JStr s) k =
     Inr (if k = ''length'' then JNum (int (length s))
          else case array_index k of
                 None \<Rightarrow> JUndef
               | Some i \<Rightarrow> if i < length s then JStr [s ! i] else JUndef)"
| "get_prop _ k = Inr JUndef"

text \<open>The elements a \<open>for ... of\<close> loop visits.\<close>

fun iter :: "jsval \<Rightarrow> js_error + jsval list" where
  "iter (JArr xs) = Inr xs"
| "iter (JStr s) = Inr (map (\<lambda>c. JStr [c]) s)"
| "iter _ = Inl TypeError"

text \<open>The receiver of an array method (\<open>filter\<close>, \<open>map\<close>).\<close>

fun as_array :: "jsval \<Rightarrow> js_error + jsval list" where
  "as_array (JArr xs) = Inr xs"
| "as_array _ = Inl TypeError"

lemma array_index_dec_nat [simp]: "array_index (dec_nat i) = Some i"
  by (simp add: array_index_def)

lemma dec_nat_not_word: "digit_val c = None \<Longrightarrow> dec_nat i \<noteq> c # cs"
  using dec_nat_digits [of c i] by auto

lemma dec_nat_not_length [simp]: "dec_nat i \<noteq> ''length''"
  by (rule dec_nat_not_word) (simp add: digit_val_def)

section \<open>Fallible pure computations\<close>

definition err_bind :: "js_error + 'a \<Rightarrow> ('a \<Rightarrow> js_error + 'b) \<Rightarrow> js_error + 'b" where
  "err_bind m f = (case m of Inl e \<Rightarrow> Inl e | Inr x \<Rightarrow> f x)"

fun err_map :: "('a \<Rightarrow> js_error + 'b) \<Rightarrow> 'a list \<Rightarrow> js_error + 'b list" where
  "err_map f [] = Inr []"
| "err_map f (x # xs) = err_bind (f x) (\<lambda>y. err_bind (err_map f xs) (\<lambda>ys. Inr (y # ys)))"

fun err_filter :: "('a \<Rightarrow> js_error + bool) \<Rightarrow> 'a list \<Rightarrow> js_error + 'a list" where
  "err_filter f [] = Inr []"
| "err_filter f (x # xs) =
     err_bind (f x) (\<lambda>b. err_bind (err_filter f xs) (\<lambda>ys. Inr (if b then x # ys else ys)))"

lemma err_bind_simps [simp]:
  "err_bind (Inl e) f = Inl e" "err_bind (Inr x) f = f x"
  by (simp_all add: err_bind_def)

lemma err_bind_eq_Inr:
  "err_bind m f = Inr y \<longleftrightarrow> (\<exists>x. m = Inr x \<and> f x = Inr y)"
  by (cases m) auto

lemma err_bindE:
  "err_bind m f = Inr y \<Longrightarrow> (\<And>x. m = Inr x \<Longrightarrow> f x = Inr y \<Longrightarrow> thesis) \<Longrightarrow> thesis"
  by (cases m) auto

lemma err_bind_ok:
  "\<exists>x. m = Inr x \<Longrightarrow> (\<And>x. \<exists>y. f x = Inr y) \<Longrightarrow> \<exists>y. err_bind m f = Inr y"
  by auto

lemma err_map_Inr:
  "(\<And>x. x \<in> set xs \<Longrightarrow> f x = Inr (g x)) \<Longrightarrow> err_map f xs = Inr (map g xs)"
  by (induction xs) auto

lemma err_filter_Inr:
  "(\<And>x. x \<in> set xs \<Longrightarrow> f x = Inr (g x)) \<Longrightarrow> err_filter f xs = Inr (filter g xs)"
  by (induction xs) auto

lemma err_map_length: "err_map f xs = Inr ys \<Longrightarrow> length ys = length xs"
  by (induction xs arbitrary: ys) (auto simp: err_bind_eq_Inr)

lemma err_map_nth:
  "err_map f xs = Inr ys \<Longrightarrow> i < length xs \<Longrightarrow> f (xs ! i) = Inr (ys ! i)"
  by (induction xs arbitrary: ys i) (auto simp: err_bind_eq_Inr nth_Cons split: nat.splits)

lemma err_map_set:
  "err_map f xs = Inr ys \<Longrightarrow> y \<in> set ys \<Longrightarrow> \<exists>x \<in> set xs. f x = Inr y"
  by (induction xs arbitrary: ys) (auto simp: err_bind_eq_Inr)

section \<open>JSON.stringify\<close>

definition hex_digit :: "nat \<Rightarrow> char" where
  "hex_digit n = (if n < 10 then char_of (48 + n) else char_of (87 + n))"

definition json_char :: "char \<Rightarrow> string" where
  "json_char c =
     (let n = of_char c :: nat in
      if n = 34 then [CHR 0x5C, CHR 0x22]
      else if n = 92 then [CHR 0x5C, CHR 0x5C]
      else if n = 8 then [CHR 0x5C, CHR ''b'']
      else if n = 12 then [CHR 0x5C, CHR ''f'']
      else if n = 10 then [CHR 0x5C, CHR ''n'']
      else if n = 13 then [CHR 0x5C, CHR ''r'']
      else if n = 9 then [CHR 0x5C, CHR ''t'']
      else if n < 32 then [CHR 0x5C, CHR ''u'', CHR ''0'', CHR ''0'', hex_digit (n div 16), hex_digit (n mod 16)]
      else [c])"

definition json_quote :: "string \<Rightarrow> string" where
  "json_quote s = CHR 0x22 # concat (map json_char s) @ [CHR 0x22]"

fun json_stringify :: "jsval \<Rightarrow> string" where
  "json_stringify JUndef = ''undefined''"
| "json_stringify JNull = ''null''"
| "json_stringify (JBool b) = (if b then ''true'' else ''false'')"
| "json_stringify (JNum n) = dec_int n"
| "json_stringify JNaN = ''null''"
| "json_stringify (JStr s) = json_quote s"
| "json_stringify (JArr xs) =
     ''['' @ join '','' (map (\<lambda>x. if x = JUndef then ''null'' else json_stringify x) xs) @ '']''"
| "json_stringify (JObj kvs) =
     ''{'' @ join '','' (map (\<lambda>(k, v). json_quote k @ '':'' @ json_stringify v)
                         (filter (\<lambda>(k, v). v \<noteq> JUndef) kvs)) @ ''}''"

section \<open>Computations with a state and exceptions\<close>

type_synonym ('s, 'a) js = "'s \<Rightarrow> (js_error + 'a) \<times> 's"

definition js_return :: "'a \<Rightarrow> ('s, 'a) js" where
  "js_return x = (\<lambda>s. (Inr x, s))"

definition js_throw :: "js_error \<Rightarrow> ('s, 'a) js" where
  "js_throw e = (\<lambda>s. (Inl e, s))"

definition js_lift :: "js_error + 'a \<Rightarrow> ('s, 'a) js" where
  "js_lift r = (\<lambda>s. (r, s))"

definition js_gets :: "('s \<Rightarrow> 'a) \<Rightarrow> ('s, 'a) js" where
  "js_gets f = (\<lambda>s. (Inr (f s), s))"

definition js_modify :: "('s \<Rightarrow> 's) \<Rightarrow> ('s, unit) js" where
  "js_modify f = (\<lambda>s. (Inr (), f s))"

definition js_bind :: "('s, 'a) js \<Rightarrow> ('a \<Rightarrow> ('s, 'b) js) \<Rightarrow> ('s, 'b) js" where
  "js_bind m f = (\<lambda>s. case m s of (Inl e, s') \<Rightarrow> (Inl e, s') | (Inr x, s') \<Rightarrow> f x s')"

text \<open>A sequence of statements.\<close>

fun js_block :: "('s, unit) js list \<Rightarrow> ('s, unit) js" where
  "js_block [] = js_return ()"
| "js_block (m # ms) = js_bind m (\<lambda>_. js_block ms)"

declare js_block.simps [simp del, js_exec]

text \<open>The state after a computation, however it ended.\<close>

definition js_state :: "('s, 'a) js \<Rightarrow> 's \<Rightarrow> 's" where
  "js_state m s = snd (m s)"

lemma js_exec_simps [js_exec]:
  "js_return x s = (Inr x, s)"
  "js_throw e s = (Inl e, s)"
  "js_lift r s = (r, s)"
  "js_gets g s = (Inr (g s), s)"
  "js_modify h s = (Inr (), h s)"
  "js_bind m f s = (case m s of (Inl e, s') \<Rightarrow> (Inl e, s') | (Inr x, s') \<Rightarrow> f x s')"
  by (simp_all add: js_return_def js_throw_def js_lift_def js_gets_def js_modify_def js_bind_def)

lemma js_bind_lift:
  "js_bind (js_lift (Inl e)) f s = (Inl e, s)" "js_bind (js_lift (Inr x)) f s = f x s"
  by (simp_all add: js_exec)

definition js_keeps :: "('s \<Rightarrow> bool) \<Rightarrow> ('s, 'a) js \<Rightarrow> bool" where
  "js_keeps P m \<longleftrightarrow> (\<forall>s. P s \<longrightarrow> P (snd (m s)))"

lemma js_keepsI: "(\<And>s. P s \<Longrightarrow> P (snd (m s))) \<Longrightarrow> js_keeps P m"
  by (simp add: js_keeps_def)

lemma js_keepsD: "js_keeps P m \<Longrightarrow> P s \<Longrightarrow> P (snd (m s))"
  by (simp add: js_keeps_def)

lemma js_keeps_state: "js_keeps P m \<Longrightarrow> P s \<Longrightarrow> P (js_state m s)"
  by (simp add: js_keeps_def js_state_def)

lemma js_keeps_return [js_keeps_intros]: "js_keeps P (js_return x)"
  and js_keeps_throw [js_keeps_intros]: "js_keeps P (js_throw e)"
  and js_keeps_lift [js_keeps_intros]: "js_keeps P (js_lift r)"
  and js_keeps_gets [js_keeps_intros]: "js_keeps P (js_gets g)"
  by (simp_all add: js_keeps_def js_exec)

lemma js_keeps_modify: "(\<And>s. P s \<Longrightarrow> P (h s)) \<Longrightarrow> js_keeps P (js_modify h)"
  by (simp add: js_keeps_def js_exec)

lemma js_keeps_bind [js_keeps_intros]:
  "js_keeps P m \<Longrightarrow> (\<And>x. js_keeps P (f x)) \<Longrightarrow> js_keeps P (js_bind m f)"
  by (force simp: js_keeps_def js_exec split: prod.splits sum.splits)

text \<open>What a binding reads, and what it lifts, is known in the rest of the program.\<close>

lemma js_keeps_bind_lift:
  "(\<And>x. r = Inr x \<Longrightarrow> js_keeps P (f x)) \<Longrightarrow> js_keeps P (js_bind (js_lift r) f)"
  by (cases r) (simp_all add: js_keeps_def js_exec)

lemma js_keeps_bind_gets:
  "(\<And>s. P s \<Longrightarrow> P (snd (f (g s) s))) \<Longrightarrow> js_keeps P (js_bind (js_gets g) f)"
  by (simp add: js_keeps_def js_exec)

lemma js_bind_establish:
  "P (snd (m s)) \<Longrightarrow> (\<And>x. js_keeps P (f x)) \<Longrightarrow> P (snd (js_bind m f s))"
  by (force simp: js_keeps_def js_exec split: prod.splits sum.splits)

lemma js_block_Cons_ok: "m s = (Inr x, t) \<Longrightarrow> js_block (m # ms) s = js_block ms t"
  by (simp add: js_block.simps js_exec)

lemma js_keeps_block [js_keeps_intros]:
  "(\<And>m. m \<in> set ms \<Longrightarrow> js_keeps P m) \<Longrightarrow> js_keeps P (js_block ms)"
  by (induction ms) (auto simp: js_block.simps intro: js_keeps_return js_keeps_bind)

lemma js_block_append: "js_block (ms @ ns) = js_bind (js_block ms) (\<lambda>_. js_block ns)"
  by (induction ms)
    (simp_all add: js_block.simps js_bind_def js_return_def fun_eq_iff split: prod.splits sum.splits)

lemma js_keeps_if [js_keeps_intros]:
  "(b \<Longrightarrow> js_keeps P m) \<Longrightarrow> (\<not> b \<Longrightarrow> js_keeps P n) \<Longrightarrow> js_keeps P (if b then m else n)"
  by simp

end
