(* ===== verification/JsDate.thy ===== *)
theory JsDate
  imports Prelude
begin

text \<open>
  The \<open>Date\<close> object of the ECMAScript standard library, as far as the interfaces use it: time
  values are milliseconds since the epoch (\<open>None\<close> is the invalid date, whose time value is
  \<open>NaN\<close>), the proleptic Gregorian calendar, \<open>toISOString\<close>, and the date-time string format of
  \<open>Date.parse\<close>. Strings outside that format are parsed by rules the standard leaves to the
  implementation: a parameter \<open>fb\<close> stands for them.

  The main facts: the calendar is a bijection between day numbers and valid civil dates
  (\<open>civil_make_day\<close>, \<open>make_day_civil\<close>), and parsing the text that \<open>toISOString\<close> prints
  gives back the time (\<open>iso_parse_seconds\<close>).
\<close>

section \<open>The calendar\<close>

definition ms_per_day :: int where
  "ms_per_day = 86400000"

definition is_leap :: "int \<Rightarrow> bool" where
  "is_leap y \<longleftrightarrow> y mod 4 = 0 \<and> (y mod 100 \<noteq> 0 \<or> y mod 400 = 0)"

definition day_from_year :: "int \<Rightarrow> int" where
  "day_from_year y =
     365 * (y - 1970) + (y - 1969) div 4 - (y - 1901) div 100 + (y - 1601) div 400"

text \<open>The year of a day number: an estimate from the mean year, corrected by one.\<close>

definition year_from_day :: "int \<Rightarrow> int" where
  "year_from_day d =
     (let y = 1970 + d * 400 div 146097 in
      if d < day_from_year y then y - 1
      else if day_from_year (y + 1) \<le> d then y + 1 else y)"

definition month_start :: "int \<Rightarrow> int \<Rightarrow> int" where
  "month_start y m =
     (let l = (if is_leap y then 1 else 0) in
      if m \<le> 0 then 0 else if m = 1 then 31 else if m = 2 then 59 + l
      else if m = 3 then 90 + l else if m = 4 then 120 + l else if m = 5 then 151 + l
      else if m = 6 then 181 + l else if m = 7 then 212 + l else if m = 8 then 243 + l
      else if m = 9 then 273 + l else if m = 10 then 304 + l else if m = 11 then 334 + l
      else 365 + l)"

definition month_len :: "int \<Rightarrow> int \<Rightarrow> int" where
  "month_len y m = month_start y (m + 1) - month_start y m"

definition month_in_year :: "int \<Rightarrow> int \<Rightarrow> int" where
  "month_in_year y k =
     (if k < month_start y 1 then 0 else if k < month_start y 2 then 1
      else if k < month_start y 3 then 2 else if k < month_start y 4 then 3
      else if k < month_start y 5 then 4 else if k < month_start y 6 then 5
      else if k < month_start y 7 then 6 else if k < month_start y 8 then 7
      else if k < month_start y 9 then 8 else if k < month_start y 10 then 9
      else if k < month_start y 11 then 10 else 11)"

text \<open>\<open>MakeDay\<close>: months count from 0 and overflow into the year, days count from 1.\<close>

definition make_day :: "int \<Rightarrow> int \<Rightarrow> int \<Rightarrow> int" where
  "make_day y m d =
     (let ym = y + m div 12; mn = m mod 12
      in day_from_year ym + month_start ym mn + d - 1)"

definition civil :: "int \<Rightarrow> int \<times> int \<times> int" where
  "civil n =
     (let y = year_from_day n; k = n - day_from_year y; m = month_in_year y k
      in (y, m, k - month_start y m + 1))"

definition week_day :: "int \<Rightarrow> int" where
  "week_day n = (n + 4) mod 7"

definition valid_civil :: "int \<Rightarrow> int \<Rightarrow> int \<Rightarrow> bool" where
  "valid_civil y m d \<longleftrightarrow> 0 \<le> m \<and> m \<le> 11 \<and> 1 \<le> d \<and> d \<le> month_len y m"

subsection \<open>The year\<close>

lemma div_le_lt: "0 < n \<Longrightarrow> n * (a div n) \<le> a" "0 < n \<Longrightarrow> a < n * (a div n) + n" for a n :: int
proof -
  assume n: "0 < n"
  have e: "n * (a div n) + a mod n = a" by simp
  show "n * (a div n) \<le> a" using e pos_mod_sign [OF n, of a] by linarith
next
  assume n: "0 < n"
  have e: "n * (a div n) + a mod n = a" by simp
  show "a < n * (a div n) + n" using e pos_mod_bound [OF n, of a] by linarith
qed

lemma year_estimate_low:
  "146097 * q \<le> d * 400 \<Longrightarrow> 4 * a \<le> q \<Longrightarrow> q + 68 < 100 * b + 100 \<Longrightarrow> 400 * c \<le> q + 368 \<Longrightarrow>
   365 * (q - 1) + a - b + c \<le> (d :: int)"
  by simp

lemma year_estimate_high:
  "d * 400 < 146097 * q + 146097 \<Longrightarrow> q + 3 < 4 * a + 4 \<Longrightarrow> 100 * b \<le> q + 71 \<Longrightarrow>
   q + 371 < 400 * c + 400 \<Longrightarrow> (d :: int) < 365 * (q + 2) + a - b + c"
  by simp

lemma year_estimate:
  "day_from_year (1970 + d * 400 div 146097 - 1) \<le> d"
  "d < day_from_year (1970 + d * 400 div 146097 + 2)"
proof -
  define q where "q = d * 400 div 146097"
  have q: "146097 * q \<le> d * 400" "d * 400 < 146097 * q + 146097"
    using div_le_lt [of 146097 "d * 400"] by (simp_all add: q_def)
  have e: "1970 + q - 1 - 1970 = q - 1" "1970 + q - 1 - 1969 = q" "1970 + q - 1 - 1901 = q + 68"
    "1970 + q - 1 - 1601 = q + 368" "1970 + q + 2 - 1970 = q + 2" "1970 + q + 2 - 1969 = q + 3"
    "1970 + q + 2 - 1901 = q + 71" "1970 + q + 2 - 1601 = q + 371"
    by simp_all
  have p4: "0 < (4 :: int)" and p100: "0 < (100 :: int)" and p400: "0 < (400 :: int)"
    by simp_all
  show "day_from_year (1970 + d * 400 div 146097 - 1) \<le> d"
    unfolding q_def [symmetric] day_from_year_def e
    by (rule year_estimate_low [OF q(1) div_le_lt(1) [OF p4] div_le_lt(2) [OF p100]
          div_le_lt(1) [OF p400]])
  show "d < day_from_year (1970 + d * 400 div 146097 + 2)"
    unfolding q_def [symmetric] day_from_year_def e
    by (rule year_estimate_high [OF q(2) div_le_lt(2) [OF p4] div_le_lt(1) [OF p100]
          div_le_lt(2) [OF p400]])
qed

lemma year_from_day_bracket:
  "day_from_year (year_from_day d) \<le> d" "d < day_from_year (year_from_day d + 1)"
proof -
  define y where "y = 1970 + d * 400 div 146097"
  have lo: "day_from_year (y - 1) \<le> d" and hi: "d < day_from_year (y + 2)"
    unfolding y_def by (rule year_estimate)+
  have yd: "year_from_day d =
      (if d < day_from_year y then y - 1 else if day_from_year (y + 1) \<le> d then y + 1 else y)"
    unfolding year_from_day_def y_def Let_def by (rule refl)
  show "day_from_year (year_from_day d) \<le> d"
    unfolding yd using lo by simp
  have "y + 1 + 1 = y + 2" "y - 1 + 1 = y" by simp_all
  then show "d < day_from_year (year_from_day d + 1)"
    unfolding yd using hi by (simp add: add.commute [of y] split: if_splits)
qed

lemma div_succ:
  fixes a n :: int
  assumes n: "0 < n"
  shows "(a + 1) div n = a div n + (if (a + 1) mod n = 0 then 1 else 0)"
proof -
  have e: "n * (a div n) + a mod n = a" by simp
  have b: "0 \<le> a mod n" "a mod n < n" using n by simp_all
  show ?thesis
  proof (cases "a mod n = n - 1")
    case True
    then have h: "a + 1 = n * (a div n + 1)"
      using e by (simp only: distrib_left mult_1_right)
    then have "(a + 1) div n = a div n + 1"
      using n by (metis nonzero_mult_div_cancel_left less_irrefl)
    moreover have "(a + 1) mod n = 0" by (subst h) simp
    ultimately show ?thesis by simp
  next
    case False
    then have r: "0 \<le> a mod n + 1" "a mod n + 1 < n" using b by linarith+
    have h: "a + 1 = n * (a div n) + (a mod n + 1)" using e by linarith
    have "(a + 1) div n = a div n" by (rule int_div_pos_eq [OF h r])
    moreover have "(a + 1) mod n = a mod n + 1" by (rule int_mod_pos_eq [OF h r])
    ultimately show ?thesis using b by simp
  qed
qed

lemma year_len_arith:
  "365 * (a + 1) + (b + i) - (c + j) + (d + k) = 365 * a + b - c + d + 365 + i - j + (k :: int)"
  by simp

lemma year_len: "day_from_year (y + 1) = day_from_year y + (if is_leap y then 366 else 365)"
proof -
  have m4: "(y - 1968) mod 4 = 0 \<longleftrightarrow> y mod 4 = 0"
    using mod_diff_right_eq [of y 1968 4] by simp
  have m100: "(y - 1900) mod 100 = 0 \<longleftrightarrow> y mod 100 = 0"
    using mod_diff_right_eq [of y 1900 100] by simp
  have m400: "(y - 1600) mod 400 = 0 \<longleftrightarrow> y mod 400 = 0"
    using mod_diff_right_eq [of y 1600 400] by simp
  have h1: "y mod 400 = 0 \<Longrightarrow> y mod 100 = 0" and h2: "y mod 100 = 0 \<Longrightarrow> y mod 4 = 0"
    using mod_mod_cancel [of 100 400 y] mod_mod_cancel [of 4 100 y] by simp_all
  have d4: "(y - 1968) div 4 = (y - 1969) div 4 + (if y mod 4 = 0 then 1 else 0)"
    using div_succ [of 4 "y - 1969"] m4 by simp
  have d100: "(y - 1900) div 100 = (y - 1901) div 100 + (if y mod 100 = 0 then 1 else 0)"
    using div_succ [of 100 "y - 1901"] m100 by simp
  have d400: "(y - 1600) div 400 = (y - 1601) div 400 + (if y mod 400 = 0 then 1 else 0)"
    using div_succ [of 400 "y - 1601"] m400 by simp
  have e: "y + 1 - 1970 = y - 1970 + 1" "y + 1 - 1969 = y - 1968" "y + 1 - 1901 = y - 1900"
    "y + 1 - 1601 = y - 1600"
    by simp_all
  have "day_from_year (y + 1) = day_from_year y + 365 + (if y mod 4 = 0 then 1 else 0)
      - (if y mod 100 = 0 then 1 else 0) + (if y mod 400 = 0 then 1 else 0)"
    unfolding day_from_year_def e d4 d100 d400 by (rule year_len_arith)
  also have "\<dots> = day_from_year y + (if is_leap y then 366 else 365)"
    unfolding is_leap_def using h1 h2
    by (cases "y mod 4 = 0"; cases "y mod 100 = 0"; cases "y mod 400 = 0") simp_all
  finally show ?thesis .
qed

lemma day_from_year_step: "day_from_year y < day_from_year (y + 1)"
  by (simp add: year_len)

lemma day_from_year_mono: "y \<le> z \<Longrightarrow> day_from_year y \<le> day_from_year z"
proof (induction z rule: int_ge_induct)
  case (step i)
  then show ?case using day_from_year_step [of i] by linarith
qed simp

lemma year_from_day_unique:
  "day_from_year y \<le> d \<Longrightarrow> d < day_from_year (y + 1) \<Longrightarrow> year_from_day d = y"
  using year_from_day_bracket [of d] day_from_year_mono [of "y + 1" "year_from_day d"]
    day_from_year_mono [of "year_from_day d + 1" y]
  by linarith

subsection \<open>The month\<close>

lemma month_cases:
  fixes m :: int
  assumes "0 \<le> m" "m \<le> 11"
  obtains "m = 0" | "m = 1" | "m = 2" | "m = 3" | "m = 4" | "m = 5" | "m = 6" | "m = 7"
    | "m = 8" | "m = 9" | "m = 10" | "m = 11"
proof -
  have "m = 0 \<or> m = 1 \<or> m = 2 \<or> m = 3 \<or> m = 4 \<or> m = 5 \<or> m = 6 \<or> m = 7
    \<or> m = 8 \<or> m = 9 \<or> m = 10 \<or> m = 11"
    using assms by presburger
  then show thesis using that by blast
qed

lemma month_start_table:
  "month_start y 0 = 0" "month_start y 1 = 31"
  "month_start y 2 = (if is_leap y then 60 else 59)"
  "month_start y 3 = (if is_leap y then 91 else 90)"
  "month_start y 4 = (if is_leap y then 121 else 120)"
  "month_start y 5 = (if is_leap y then 152 else 151)"
  "month_start y 6 = (if is_leap y then 182 else 181)"
  "month_start y 7 = (if is_leap y then 213 else 212)"
  "month_start y 8 = (if is_leap y then 244 else 243)"
  "month_start y 9 = (if is_leap y then 274 else 273)"
  "month_start y 10 = (if is_leap y then 305 else 304)"
  "month_start y 11 = (if is_leap y then 335 else 334)"
  "month_start y 12 = (if is_leap y then 366 else 365)"
  by (simp_all add: month_start_def)

lemma month_in_year_unique:
  assumes "0 \<le> m" "m \<le> 11" "month_start y m \<le> k" "k < month_start y (m + 1)"
  shows "month_in_year y k = m"
proof (cases "is_leap y")
  case True
  from assms(1,2) show ?thesis
    by (cases rule: month_cases)
      (use assms(3,4) True in \<open>simp_all add: month_in_year_def month_start_table\<close>)
next
  case False
  from assms(1,2) show ?thesis
    by (cases rule: month_cases)
      (use assms(3,4) False in \<open>simp_all add: month_in_year_def month_start_table\<close>)
qed

lemma month_exists:
  assumes "0 \<le> k" "k < month_start y 12"
  obtains m where "0 \<le> m" "m \<le> 11" "month_start y m \<le> k" "k < month_start y (m + 1)"
proof -
  have "\<exists>m \<in> {0..11}. month_start y m \<le> k \<and> k < month_start y (m + 1)"
  proof (rule ccontr)
    assume "\<not> ?thesis"
    then have up: "month_start y m \<le> k \<Longrightarrow> month_start y (m + 1) \<le> k" if "0 \<le> m" "m \<le> 11" for m
      using that by force
    have "month_start y 1 \<le> k" "month_start y 2 \<le> k" "month_start y 3 \<le> k"
      "month_start y 4 \<le> k" "month_start y 5 \<le> k" "month_start y 6 \<le> k"
      "month_start y 7 \<le> k" "month_start y 8 \<le> k" "month_start y 9 \<le> k"
      "month_start y 10 \<le> k" "month_start y 11 \<le> k" "month_start y 12 \<le> k"
      using up [of 0] up [of 1] up [of 2] up [of 3] up [of 4] up [of 5] up [of 6] up [of 7]
        up [of 8] up [of 9] up [of 10] up [of 11] assms(1)
      by (simp_all add: month_start_table(1))
    with assms(2) show False by simp
  qed
  with that show ?thesis by auto
qed

lemma month_in_year_bracket:
  assumes "0 \<le> k" "k < month_start y 12"
  shows "month_start y (month_in_year y k) \<le> k"
    and "k < month_start y (month_in_year y k + 1)"
    and "0 \<le> month_in_year y k" and "month_in_year y k \<le> 11"
  using month_exists [OF assms] month_in_year_unique by metis+

lemma month_start_12: "month_start y 12 = (if is_leap y then 366 else 365)"
  by (simp add: month_start_def)

lemma month_start_le_12: "0 \<le> m \<Longrightarrow> m \<le> 11 \<Longrightarrow> month_start y (m + 1) \<le> month_start y 12"
  by (cases rule: month_cases, assumption+) (simp_all add: month_start_table)

lemma month_start_nonneg: "0 \<le> month_start y m"
  by (simp add: month_start_def Let_def)

subsection \<open>Civil dates and day numbers\<close>

lemma make_day_simple:
  "0 \<le> m \<Longrightarrow> m \<le> 11 \<Longrightarrow> make_day y m d = day_from_year y + month_start y m + d - 1"
  by (simp add: make_day_def Let_def)

lemma civil_make_day:
  assumes "valid_civil y m d"
  shows "civil (make_day y m d) = (y, m, d)"
proof -
  let ?k = "month_start y m + d - 1"
  have m: "0 \<le> m" "m \<le> 11" and d: "1 \<le> d" "d \<le> month_len y m"
    using assms by (simp_all add: valid_civil_def)
  have n: "make_day y m d = day_from_year y + ?k"
    using m by (simp add: make_day_simple)
  have k: "month_start y m \<le> ?k" "?k < month_start y (m + 1)"
    using d by (simp_all add: month_len_def)
  have "0 \<le> ?k" "?k < month_start y 12"
    using k month_start_nonneg [of y m] month_start_le_12 [OF m, of y] by linarith+
  then have "year_from_day (day_from_year y + ?k) = y"
    by (intro year_from_day_unique) (simp_all add: year_len month_start_12 split: if_splits)
  moreover have "month_in_year y ?k = m"
    by (rule month_in_year_unique [OF m k])
  ultimately show ?thesis
    by (simp add: civil_def n Let_def)
qed

lemma civil_valid: "civil n = (y, m, d) \<Longrightarrow> valid_civil y m d"
  using month_in_year_bracket [of "n - day_from_year (year_from_day n)" "year_from_day n"]
    year_from_day_bracket [of n]
  by (auto simp: civil_def Let_def valid_civil_def month_len_def month_start_12 year_len
      split: if_splits)

lemma make_day_civil: "civil n = (y, m, d) \<Longrightarrow> make_day y m d = n"
  using civil_valid [of n y m d]
  by (auto simp: valid_civil_def make_day_simple) (auto simp: civil_def Let_def)

section \<open>Time values\<close>

definition time_clip :: "int \<Rightarrow> int option" where
  "time_clip t = (if \<bar>t\<bar> \<le> 8640000000000000 then Some t else None)"

definition day_of :: "int \<Rightarrow> int" where "day_of t = t div ms_per_day"
definition hour_of :: "int \<Rightarrow> int" where "hour_of t = t mod ms_per_day div 3600000"
definition minute_of :: "int \<Rightarrow> int" where "minute_of t = t mod 3600000 div 60000"
definition second_of :: "int \<Rightarrow> int" where "second_of t = t mod 60000 div 1000"
definition milli_of :: "int \<Rightarrow> int" where "milli_of t = t mod 1000"

definition make_time :: "int \<Rightarrow> int \<Rightarrow> int \<Rightarrow> int \<Rightarrow> int" where
  "make_time h mi s ms = h * 3600000 + mi * 60000 + s * 1000 + ms"

definition make_date :: "int \<Rightarrow> int \<Rightarrow> int" where
  "make_date n tm = n * ms_per_day + tm"

lemma make_date_of_fields:
  "make_date (day_of t) (make_time (hour_of t) (minute_of t) (second_of t) (milli_of t)) = t"
proof -
  have "t mod 3600000 = (t mod ms_per_day) mod 3600000"
    using mod_mod_cancel [of 3600000 ms_per_day t] by (simp add: ms_per_day_def)
  moreover have "t mod 60000 = (t mod 3600000) mod 60000"
    using mod_mod_cancel [of 60000 3600000 t] by simp
  moreover have "t mod 1000 = (t mod 60000) mod 1000"
    using mod_mod_cancel [of 1000 60000 t] by simp
  moreover have "a div b * b + a mod b = a" for a b :: int by simp
  ultimately show ?thesis
    unfolding make_date_def make_time_def day_of_def hour_of_def minute_of_def second_of_def
      milli_of_def
    by (metis (no_types) add.assoc)
qed

lemma hour_of_range: "0 \<le> hour_of t" "hour_of t \<le> 23"
proof -
  have b: "0 \<le> t mod ms_per_day" "t mod ms_per_day < ms_per_day"
    by (simp_all add: ms_per_day_def)
  show "0 \<le> hour_of t" using b(1) by (simp add: hour_of_def pos_imp_zdiv_nonneg_iff)
  show "hour_of t \<le> 23"
    using b(2) div_le_lt(1) [of 3600000 "t mod ms_per_day"]
    by (simp add: hour_of_def ms_per_day_def)
qed

lemma minute_of_range: "0 \<le> minute_of t" "minute_of t \<le> 59"
proof -
  have b: "0 \<le> t mod 3600000" "t mod 3600000 < 3600000" by simp_all
  show "0 \<le> minute_of t" using b(1) by (simp add: minute_of_def pos_imp_zdiv_nonneg_iff)
  show "minute_of t \<le> 59"
    using b(2) div_le_lt(1) [of 60000 "t mod 3600000"] by (simp add: minute_of_def)
qed

lemma second_of_range: "0 \<le> second_of t" "second_of t \<le> 59"
proof -
  have b: "0 \<le> t mod 60000" "t mod 60000 < 60000" by simp_all
  show "0 \<le> second_of t" using b(1) by (simp add: second_of_def pos_imp_zdiv_nonneg_iff)
  show "second_of t \<le> 59"
    using b(2) div_le_lt(1) [of 1000 "t mod 60000"] by (simp add: second_of_def)
qed

section \<open>The date-time string format\<close>

definition iso_year :: "int \<Rightarrow> string" where
  "iso_year y =
     (if 0 \<le> y \<and> y \<le> 9999 then pad 4 (nat y)
      else if y < 0 then CHR ''-'' # pad 6 (nat (- y)) else CHR ''+'' # pad 6 (nat y))"

definition iso_date_string :: "int \<Rightarrow> string" where
  "iso_date_string n =
     (case civil n of (y, m, d) \<Rightarrow>
        iso_year y @ ''-'' @ pad 2 (nat (m + 1)) @ ''-'' @ pad 2 (nat d))"

definition iso_time_string :: "int \<Rightarrow> string" where
  "iso_time_string t =
     pad 2 (nat (hour_of t)) @ '':'' @ pad 2 (nat (minute_of t)) @ '':'' @
     pad 2 (nat (second_of t))"

text \<open>\<open>Date.prototype.toISOString\<close> on a valid time value.\<close>

definition to_iso_string :: "int \<Rightarrow> string" where
  "to_iso_string t =
     iso_date_string (day_of t) @ ''T'' @ iso_time_string t @ ''.'' @ pad 3 (nat (milli_of t)) @ ''Z''"

definition str_field :: "string \<Rightarrow> nat \<Rightarrow> nat \<Rightarrow> nat option" where
  "str_field s i n = read_nat (take n (drop i s))"

definition iso_date :: "string \<Rightarrow> int option" where
  "iso_date s =
     (if length s = 10 \<and> s ! 4 = CHR ''-'' \<and> s ! 7 = CHR ''-'' then
        (case (str_field s 0 4, str_field s 5 2, str_field s 8 2) of
           (Some y, Some m, Some d) \<Rightarrow>
             if valid_civil (int y) (int m - 1) (int d)
             then Some (make_day (int y) (int m - 1) (int d)) else None
         | _ \<Rightarrow> None)
      else None)"

definition iso_time :: "string \<Rightarrow> int option" where
  "iso_time s =
     (if length s = 8 \<and> s ! 2 = CHR '':'' \<and> s ! 5 = CHR '':'' then
        (case (str_field s 0 2, str_field s 3 2, str_field s 6 2) of
           (Some h, Some mi, Some sc) \<Rightarrow>
             if h \<le> 23 \<and> mi \<le> 59 \<and> sc \<le> 59
             then Some (make_time (int h) (int mi) (int sc) 0) else None
         | _ \<Rightarrow> None)
      else None)"

text \<open>
  The forms \<open>YYYY-MM-DD\<close> (read as UTC), \<open>YYYY-MM-DDTHH:mm:ssZ\<close> and
  \<open>YYYY-MM-DDTHH:mm:ss.sssZ\<close> of the format.
\<close>

definition iso_parse :: "string \<Rightarrow> int option" where
  "iso_parse s =
     (if length s = 10 then map_option (\<lambda>n. make_date n 0) (iso_date s)
      else if length s = 20 \<and> s ! 10 = CHR ''T'' \<and> s ! 19 = CHR ''Z'' then
        (case (iso_date (take 10 s), iso_time (take 8 (drop 11 s))) of
           (Some n, Some tm) \<Rightarrow> Some (make_date n tm) | _ \<Rightarrow> None)
      else if length s = 24 \<and> s ! 10 = CHR ''T'' \<and> s ! 19 = CHR ''.'' \<and> s ! 23 = CHR ''Z'' then
        (case (iso_date (take 10 s), iso_time (take 8 (drop 11 s)), str_field s 20 3) of
           (Some n, Some tm, Some ms) \<Rightarrow> Some (make_date n (tm + int ms)) | _ \<Rightarrow> None)
      else None)"

definition date_parse :: "(string \<Rightarrow> int option) \<Rightarrow> string \<Rightarrow> int option" where
  "date_parse fb s = (case iso_parse s of Some t \<Rightarrow> time_clip t | None \<Rightarrow> fb s)"

text \<open>Seconds of the years 0 to 9999, which the four-digit year can print.\<close>

definition four_digit_seconds :: "int \<Rightarrow> bool" where
  "four_digit_seconds t \<longleftrightarrow> -62167219200 \<le> t \<and> t < 253402300800"

subsection \<open>Reading back what was printed\<close>

lemma month_len_le: "0 \<le> m \<Longrightarrow> m \<le> 11 \<Longrightarrow> month_len y m \<le> 31"
  by (cases rule: month_cases, assumption+) (simp_all add: month_len_def month_start_table)

lemma civil_day_range: "civil n = (y, m, d) \<Longrightarrow> 0 \<le> m \<and> m \<le> 11 \<and> 1 \<le> d \<and> d \<le> 31"
  using civil_valid [of n y m d] month_len_le [of m y] by (auto simp: valid_civil_def)

lemma iso_date_printed:
  assumes "civil n = (y, m, d)" "0 \<le> y" "y \<le> 9999"
  shows "length (iso_date_string n) = 10" and "iso_date (iso_date_string n) = Some n"
proof -
  have s: "iso_date_string n = pad 4 (nat y) @ ''-'' @ pad 2 (nat (m + 1)) @ ''-'' @ pad 2 (nat d)"
    using assms by (simp add: iso_date_string_def iso_year_def)
  have r: "read_nat (pad 4 (nat y)) = Some (nat y)" "read_nat (pad 2 (nat (m + 1))) = Some (nat (m + 1))"
    "read_nat (pad 2 (nat d)) = Some (nat d)"
    using assms civil_day_range [OF assms(1)] by (auto intro!: read_nat_pad)
  show "length (iso_date_string n) = 10" by (simp add: s)
  show "iso_date (iso_date_string n) = Some n"
    using civil_valid [OF assms(1)] make_day_civil [OF assms(1)] assms(2)
      civil_day_range [OF assms(1)]
    by (simp add: iso_date_def s str_field_def r nth_append del: pad.simps)
qed

lemma iso_time_printed:
  "length (iso_time_string t) = 8"
  "iso_time (iso_time_string t) = Some (make_time (hour_of t) (minute_of t) (second_of t) 0)"
proof -
  have r: "read_nat (pad 2 (nat (hour_of t))) = Some (nat (hour_of t))"
    "read_nat (pad 2 (nat (minute_of t))) = Some (nat (minute_of t))"
    "read_nat (pad 2 (nat (second_of t))) = Some (nat (second_of t))"
    using hour_of_range [of t] minute_of_range [of t] second_of_range [of t]
    by (auto intro!: read_nat_pad)
  show "length (iso_time_string t) = 8" by (simp add: iso_time_string_def)
  show "iso_time (iso_time_string t) = Some (make_time (hour_of t) (minute_of t) (second_of t) 0)"
    using hour_of_range [of t] minute_of_range [of t] second_of_range [of t]
    by (simp add: iso_time_def iso_time_string_def str_field_def r nth_append nat_le_iff
        del: pad.simps)
qed

lemma day_from_year_bounds: "day_from_year 0 = -719528" "day_from_year 10000 = 2932897"
  by (simp_all add: day_from_year_def)

lemma four_digit_year:
  assumes "four_digit_seconds t" "civil (day_of (t * 1000)) = (y, m, d)"
  shows "0 \<le> y" "y \<le> 9999"
proof -
  define n where "n = day_of (t * 1000)"
  have n: "-719528 \<le> n" "n < 2932897"
  proof -
    show "-719528 \<le> n"
      using assms(1) div_le_lt(2) [of ms_per_day "t * 1000"]
      by (simp add: n_def day_of_def ms_per_day_def four_digit_seconds_def)
    show "n < 2932897"
      using assms(1) div_le_lt(1) [of ms_per_day "t * 1000"]
      by (simp add: n_def day_of_def ms_per_day_def four_digit_seconds_def)
  qed
  have y: "y = year_from_day n"
    using assms(2) by (simp add: n_def civil_def Let_def)
  have "day_from_year 0 < day_from_year (y + 1)"
    using year_from_day_bracket(2) [of n] n(1) by (simp add: y day_from_year_bounds)
  then show "0 \<le> y"
    using day_from_year_mono [of "y + 1" 0] by linarith
  have "day_from_year y < day_from_year 10000"
    using year_from_day_bracket(1) [of n] n(2) by (simp add: y day_from_year_bounds)
  then show "y \<le> 9999"
    using day_from_year_mono [of 10000 y] by linarith
qed

lemma milli_of_seconds [simp]: "milli_of (t * 1000) = 0"
  by (simp add: milli_of_def)

text \<open>The first 19 characters of \<open>toISOString\<close>: date and time to the second.\<close>

lemma take_to_iso_string:
  assumes "four_digit_seconds t"
  shows "take 19 (to_iso_string (t * 1000)) =
      iso_date_string (day_of (t * 1000)) @ ''T'' @ iso_time_string (t * 1000)"
proof -
  obtain y m d where c: "civil (day_of (t * 1000)) = (y, m, d)" by (metis surj_pair)
  show ?thesis
    using iso_date_printed(1) [OF c four_digit_year [OF assms c]]
    by (simp add: to_iso_string_def iso_time_printed(1))
qed

lemma iso_parse_seconds:
  assumes "four_digit_seconds t"
  shows "iso_parse (take 19 (to_iso_string (t * 1000)) @ ''Z'') = Some (t * 1000)"
proof -
  obtain y m d where c: "civil (day_of (t * 1000)) = (y, m, d)" by (metis surj_pair)
  note p = iso_date_printed [OF c four_digit_year [OF assms c]]
  have "make_date (day_of (t * 1000))
      (make_time (hour_of (t * 1000)) (minute_of (t * 1000)) (second_of (t * 1000)) 0) = t * 1000"
    using make_date_of_fields [of "t * 1000"] by simp
  then show ?thesis
    by (simp add: take_to_iso_string [OF assms] iso_parse_def p iso_time_printed nth_append)
qed

end
