(* ===== verification/VueShared.thy ===== *)
theory VueShared
  imports Prelude
begin

text \<open>
  The shared helpers of Vue in \<^verbatim>\<open>src/v2/lens3/ui/assets/index.js\<close> (lines 42 to 232) that the
  interface's renderers use: names of props and handlers, classes and styles in the forms a
  template may give them, the text shown for a value, and \<open>renderList\<close> (the \<open>v-for\<close> loop).
  The names are ASCII, and case conversion is ASCII. The memo table of
  \<open>cacheStringFunction\<close> never changes a result and is left out; so is the cache argument of
  \<open>renderList\<close>, which no caller passes.

  Shown below: a prop name written with hyphens reads back as the name it came from; the class
  string holds exactly the class names the template gives, in order; the style of a list is the
  union of its items, the later ones winning.
\<close>

section \<open>Names\<close>

definition upper_char :: "char \<Rightarrow> char" where
  "upper_char c = (let n = of_char c :: nat in if 97 \<le> n \<and> n \<le> 122 then char_of (n - 32) else c)"

definition lower_char :: "char \<Rightarrow> char" where
  "lower_char c = (let n = of_char c :: nat in if 65 \<le> n \<and> n \<le> 90 then char_of (n + 32) else c)"

definition is_upper :: "char \<Rightarrow> bool" where
  "is_upper c = (let n = of_char c :: nat in 65 \<le> n \<and> n \<le> 90)"

definition is_lower :: "char \<Rightarrow> bool" where
  "is_lower c = (let n = of_char c :: nat in 97 \<le> n \<and> n \<le> 122)"

text \<open>The class \<open>\w\<close> of regular expressions.\<close>

definition word_char :: "char \<Rightarrow> bool" where
  "word_char c \<longleftrightarrow> is_upper c \<or> is_lower c \<or> digit_val c \<noteq> None \<or> c = CHR ''_''"

fun split_on :: "char \<Rightarrow> string \<Rightarrow> string list" where
  "split_on d [] = [[]]"
| "split_on d (c # cs) =
     (if c = d then [] # split_on d cs
      else case split_on d cs of [] \<Rightarrow> [[c]] | w # ws \<Rightarrow> (c # w) # ws)"

definition makeMap :: "string \<Rightarrow> bool \<Rightarrow> string \<Rightarrow> bool" where
  "makeMap str expectsLowerCase val =
     ((if expectsLowerCase then map lower_char val else val) \<in> set (split_on (CHR '','') str))"

definition isOn :: "string \<Rightarrow> bool" where
  "isOn key =
     (2 < length key \<and> key ! 0 = CHR ''o'' \<and> key ! 1 = CHR ''n'' \<and>
      (122 < (of_char (key ! 2) :: nat) \<or> (of_char (key ! 2) :: nat) < 97))"

definition isModelListener :: "string \<Rightarrow> bool" where
  "isModelListener key = (take 9 key = ''onUpdate:'')"

definition remove_first :: "'a \<Rightarrow> 'a list \<Rightarrow> 'a list" where
  "remove_first el arr = remove1 el arr"

definition isReservedProp :: "string \<Rightarrow> bool" where
  "isReservedProp = makeMap
     '',key,ref,ref_for,ref_key,onVnodeBeforeMount,onVnodeMounted,onVnodeBeforeUpdate,onVnodeUpdated,onVnodeBeforeUnmount,onVnodeUnmounted''
     False"

text \<open>A canonical numeral of a non-negative integer (indices are below \<open>2^53\<close>).\<close>

definition isIntegerKey :: "string \<Rightarrow> bool" where
  "isIntegerKey key = (array_index key \<noteq> None)"

text \<open>\<open>str.replace(/-(\w)/g, (_, c) => c ? c.toUpperCase() : "")\<close>\<close>

fun camelize :: "string \<Rightarrow> string" where
  "camelize (h # c # cs) =
     (if h = CHR ''-'' \<and> word_char c then upper_char c # camelize cs
      else h # camelize (c # cs))"
| "camelize cs = cs"

text \<open>
  \<open>str.replace(/\B([A-Z])/g, "-$1").toLowerCase()\<close>: a capital gets a hyphen when the character
  before it is a word character.
\<close>

fun hyphenate_from :: "bool \<Rightarrow> string \<Rightarrow> string" where
  "hyphenate_from w [] = []"
| "hyphenate_from w (c # cs) =
     (if is_upper c \<and> w then [CHR ''-''] else []) @ lower_char c # hyphenate_from (word_char c) cs"

definition hyphenate :: "string \<Rightarrow> string" where
  "hyphenate str = hyphenate_from False str"

fun capitalize :: "string \<Rightarrow> string" where
  "capitalize [] = []"
| "capitalize (c # cs) = upper_char c # cs"

definition toHandlerKey :: "string \<Rightarrow> string" where
  "toHandlerKey str = (if str = [] then [] else ''on'' @ capitalize str)"

section \<open>Styles and classes\<close>

text \<open>\<open>res[key] = value\<close> on an object in insertion order.\<close>

fun set_key :: "(string \<times> 'v) list \<Rightarrow> string \<Rightarrow> 'v \<Rightarrow> (string \<times> 'v) list" where
  "set_key [] k v = [(k, v)]"
| "set_key ((k', v') # kvs) k v = (if k' = k then (k', v) # kvs else (k', v') # set_key kvs k v)"

definition assign_all :: "(string \<times> 'v) list \<Rightarrow> (string \<times> 'v) list \<Rightarrow> (string \<times> 'v) list" where
  "assign_all res kvs = foldl (\<lambda>r (k, v). set_key r k v) res kvs"

text \<open>\<open>cssText.replace(/\/\*[^]*?\*\//g, "")\<close>: an open comment that is never closed stays.\<close>

fun after_close :: "string \<Rightarrow> string option" where
  "after_close (a # b # cs) =
     (if a = CHR ''*'' \<and> b = CHR ''/'' then Some cs else after_close (b # cs))"
| "after_close _ = None"

lemma after_close_shorter: "after_close cs = Some ds \<Longrightarrow> length ds < length cs"
  by (induction cs rule: after_close.induct) (auto split: if_splits)

function strip_comments :: "string \<Rightarrow> string" where
  "strip_comments [] = []"
| "strip_comments (c # cs) =
     (case (if c = CHR ''/'' \<and> cs \<noteq> [] \<and> hd cs = CHR ''*'' then after_close (tl cs) else None) of
        Some ds \<Rightarrow> strip_comments ds
      | None \<Rightarrow> c # strip_comments cs)"
  by pat_completeness auto
termination
  by (relation "measure length") (auto split: if_splits dest!: after_close_shorter)

text \<open>The negative lookahead of \<open>/;(?![^(]*\))/\<close>: a closing parenthesis before any opening one.\<close>

fun in_parens :: "string \<Rightarrow> bool" where
  "in_parens [] = False"
| "in_parens (c # cs) = (c = CHR '')'' \<or> (c \<noteq> CHR ''('' \<and> in_parens cs))"

fun split_items :: "string \<Rightarrow> string list" where
  "split_items [] = [[]]"
| "split_items (c # cs) =
     (if c = CHR '';'' \<and> \<not> in_parens cs then [] # split_items cs
      else case split_items cs of [] \<Rightarrow> [[c]] | w # ws \<Rightarrow> (c # w) # ws)"

text \<open>\<open>item.split(/:([^]+)/)\<close>: the text before and after the first colon that has a text after it.\<close>

fun split_property :: "string \<Rightarrow> (string \<times> string) option" where
  "split_property [] = None"
| "split_property (c # cs) =
     (if c = CHR '':'' \<and> cs \<noteq> [] then Some ([], cs)
      else map_option (\<lambda>(a, b). (c # a, b)) (split_property cs))"

definition parseStringStyle :: "string \<Rightarrow> (string \<times> jsval) list" where
  "parseStringStyle cssText =
     foldl (\<lambda>ret item.
        case split_property item of
          None \<Rightarrow> ret
        | Some (k, v) \<Rightarrow> set_key ret (trim k) (JStr (trim v)))
       [] (split_items (strip_comments cssText))"

text \<open>The properties a \<open>for ... in\<close> loop visits on a normalized value.\<close>

fun own_props :: "jsval \<Rightarrow> (string \<times> jsval) list" where
  "own_props (JObj kvs) = kvs"
| "own_props _ = []"

fun normalizeStyle :: "jsval \<Rightarrow> jsval" where
  "normalizeStyle (JArr value) =
     JObj (foldl (\<lambda>res item.
        assign_all res
          (case item of
             JStr s \<Rightarrow> parseStringStyle s
           | _ \<Rightarrow> own_props (normalizeStyle item)))
       [] value)"
| "normalizeStyle (JStr s) = JStr s"
| "normalizeStyle (JObj kvs) = JObj kvs"
| "normalizeStyle _ = JUndef"

fun normalizeClass :: "jsval \<Rightarrow> string" where
  "normalizeClass (JStr s) = trim s"
| "normalizeClass (JArr vs) =
     trim (concat (map (\<lambda>v. let normalized = normalizeClass v in
       if normalized \<noteq> [] then normalized @ '' '' else []) vs))"
| "normalizeClass (JObj kvs) =
     trim (concat (map (\<lambda>(name, v). if truthy v then name @ '' '' else []) kvs))"
| "normalizeClass _ = []"

text \<open>Writes the two properties in place, so the props object keeps its order.\<close>

definition normalizeProps :: "(string \<times> jsval) list option \<Rightarrow> (string \<times> jsval) list option" where
  "normalizeProps props =
     (case props of
        None \<Rightarrow> None
      | Some ps \<Rightarrow>
          let klass = (case map_of ps ''class'' of None \<Rightarrow> JUndef | Some v \<Rightarrow> v);
              style = (case map_of ps ''style'' of None \<Rightarrow> JUndef | Some v \<Rightarrow> v);
              ps1 = (if truthy klass \<and> (case klass of JStr s \<Rightarrow> False | _ \<Rightarrow> True)
                     then set_key ps ''class'' (JStr (normalizeClass klass)) else ps)
          in Some (if truthy style then set_key ps1 ''style'' (normalizeStyle style) else ps1))"

definition isSpecialBooleanAttr :: "string \<Rightarrow> bool" where
  "isSpecialBooleanAttr =
     makeMap ''itemscope,allowfullscreen,formnovalidate,ismap,nomodule,novalidate,readonly'' False"

definition includeBooleanAttr :: "jsval \<Rightarrow> bool" where
  "includeBooleanAttr value = (truthy value \<or> value = JStr [])"

section \<open>The text of a value\<close>

text \<open>The replacer unwraps an object marked as a ref; JSON data has no other case of it.\<close>

lemma size_value_of_key: "map_of kvs k = Some v \<Longrightarrow> size v < size (JObj kvs)"
  by (induction kvs) (auto split: if_splits)

function replacer :: "jsval \<Rightarrow> jsval" where
  "replacer v =
     (case v of
        JObj kvs \<Rightarrow>
          (if (case map_of kvs ''__v_isRef'' of None \<Rightarrow> False | Some b \<Rightarrow> truthy b)
           then (case map_of kvs ''value'' of None \<Rightarrow> JUndef | Some w \<Rightarrow> replacer w)
           else v)
      | _ \<Rightarrow> v)"
  by auto
termination
  by (relation "measure size") (use size_value_of_key in fastforce)+

declare replacer.simps [simp del]

lemma size_replacer: "size (replacer v) \<le> size v"
proof (induction v rule: replacer.induct)
  case (1 v)
  show ?case
  proof (cases v)
    case (JObj kvs)
    have "size (replacer w) \<le> size v"
      if "case map_of kvs ''__v_isRef'' of None \<Rightarrow> False | Some b \<Rightarrow> truthy b" "map_of kvs ''value'' = Some w" for w
      using "1.IH" [OF JObj that] size_value_of_key [OF that(2)] JObj by simp
    then show ?thesis
      by (subst replacer.simps) (simp add: JObj split: option.split)
  qed (subst replacer.simps, simp)+
qed

definition newline :: "nat \<Rightarrow> string" where
  "newline ind = CHR 0x0A # replicate ind (CHR '' '')"

text \<open>\<open>JSON.stringify(v, replacer, 2)\<close> of a value inside \<open>ind\<close> spaces.\<close>

function stringify_indented :: "nat \<Rightarrow> jsval \<Rightarrow> string" where
  "stringify_indented ind v =
     (case replacer v of
        JArr xs \<Rightarrow>
          if xs = [] then ''[]''
          else ''['' @ newline (ind + 2) @
            join ('','' @ newline (ind + 2)) (map (stringify_indented (ind + 2)) xs) @
            newline ind @ '']''
      | JObj kvs \<Rightarrow>
          let ps = filter (\<lambda>(k, w). replacer w \<noteq> JUndef) kvs in
          if ps = [] then ''{}''
          else ''{'' @ newline (ind + 2) @
            join ('','' @ newline (ind + 2))
              (map (\<lambda>(k, w). json_quote k @ '': '' @ stringify_indented (ind + 2) w) ps) @
            newline ind @ ''}''
      | JUndef \<Rightarrow> ''null''
      | w \<Rightarrow> json_stringify w)"
  by auto
termination
proof (relation "measure (size \<circ> snd)", goal_cases)
  case 1
  then show ?case by simp
next
  case (2 ind v xs x)
  then have "size x < size (replacer v)" by (simp add: less_Suc_eq_le size_list_estimation')
  then show ?case using size_replacer [of v] by simp
next
  case (3 ind v kvs ps p k w)
  then have "(k, w) \<in> set kvs" by auto
  then have "size w < size (JObj kvs)"
    using size_list_estimation' [of "(k, w)" kvs "size w" "size_prod (\<lambda>x. 0) size"] by simp
  then show ?case using size_replacer [of v] 3(1) by simp
qed

declare stringify_indented.simps [simp del]

fun toDisplayString :: "jsval \<Rightarrow> string" where
  "toDisplayString (JStr s) = s"
| "toDisplayString JUndef = []"
| "toDisplayString JNull = []"
| "toDisplayString (JArr xs) = stringify_indented 0 (JArr xs)"
| "toDisplayString (JObj kvs) = stringify_indented 0 (JObj kvs)"
| "toDisplayString v = to_string v"

section \<open>The list loop\<close>

text \<open>
  \<open>renderItem\<close> gets the item, its index or key, and for an object the index of the key.
  \<open>new Array(n)\<close> raises for a negative number and for \<open>NaN\<close>.
\<close>

fun renderList ::
  "jsval \<Rightarrow> (jsval \<Rightarrow> jsval \<Rightarrow> nat option \<Rightarrow> js_error + 'b) \<Rightarrow> js_error + 'b list" where
  "renderList (JArr xs) renderItem =
     err_map (\<lambda>i. renderItem (xs ! i) (JNum (int i)) None) [0..<length xs]"
| "renderList (JStr s) renderItem =
     err_map (\<lambda>i. renderItem (JStr [s ! i]) (JNum (int i)) None) [0..<length s]"
| "renderList (JNum n) renderItem =
     (if n < 0 then Inl RangeError
      else err_map (\<lambda>i. renderItem (JNum (int i + 1)) (JNum (int i)) None) [0..<nat n])"
| "renderList JNaN renderItem = Inl RangeError"
| "renderList (JObj kvs) renderItem =
     err_map (\<lambda>i. renderItem (snd (kvs ! i)) (JStr (fst (kvs ! i))) (Some i)) [0..<length kvs]"
| "renderList _ renderItem = Inr []"

section \<open>Hyphens and capitals\<close>

lemma of_char_of_small: "n < 256 \<Longrightarrow> (of_char (char_of n :: char) :: nat) = n"
  by simp

lemma upper_lower_char: "is_upper c \<Longrightarrow> upper_char (lower_char c) = c"
  by (auto simp: is_upper_def upper_char_def lower_char_def Let_def)

lemma lower_char_not_upper: "\<not> is_upper c \<Longrightarrow> lower_char c = c"
  by (auto simp: is_upper_def lower_char_def Let_def)

lemma word_lower_char: "is_upper c \<Longrightarrow> word_char (lower_char c)"
  by (auto simp: is_upper_def lower_char_def word_char_def is_lower_def Let_def)

lemma hyphen_not_word [simp]: "\<not> word_char (CHR ''-'')"
  by (simp add: word_char_def is_upper_def is_lower_def digit_val_def Let_def)

lemma camelize_plain: "h \<noteq> CHR ''-'' \<Longrightarrow> camelize (h # cs) = h # camelize cs"
  by (cases cs) simp_all

lemma camelize_hyphenate_from:
  "\<forall>c \<in> set cs. word_char c \<Longrightarrow> camelize (hyphenate_from True cs) = cs"
proof (induction cs)
  case (Cons c cs)
  then have "c \<noteq> CHR ''-''" by auto
  with Cons show ?case
    by (cases "is_upper c")
      (simp_all add: upper_lower_char word_lower_char lower_char_not_upper camelize_plain)
qed simp

text \<open>
  A prop name of word characters that does not start with a capital is
  read back by \<open>camelize\<close> from the form with hyphens that \<open>hyphenate\<close> gives it, as a template
  writes it.
\<close>

lemma camelize_hyphenate:
  assumes "\<forall>c \<in> set s. word_char c" and "s = [] \<or> \<not> is_upper (hd s)"
  shows "camelize (hyphenate s) = s"
proof (cases s)
  case (Cons c cs)
  with assms have "c \<noteq> CHR ''-''" "word_char c" "\<not> is_upper c" by auto
  with assms Cons show ?thesis
    by (simp add: hyphenate_def lower_char_not_upper camelize_plain camelize_hyphenate_from)
qed (simp add: hyphenate_def)

theorem camelize_hyphenate_witness:
  "hyphenate ''closeOnContentClick'' = ''close-on-content-click'' \<and>
   camelize (hyphenate ''closeOnContentClick'') = ''closeOnContentClick''"
proof
  show "hyphenate ''closeOnContentClick'' = ''close-on-content-click''" by code_simp
  show "camelize (hyphenate ''closeOnContentClick'') = ''closeOnContentClick''"
    by (rule camelize_hyphenate) code_simp+
qed

section \<open>Class names\<close>

text \<open>The names of a class string: its maximal runs of characters that are not spaces.\<close>

fun cons_word :: "char \<Rightarrow> bool \<Rightarrow> string list \<Rightarrow> string list" where
  "cons_word c glue ws = (if glue then (c # hd ws) # tl ws else [c] # ws)"

fun words :: "string \<Rightarrow> string list" where
  "words [] = []"
| "words (c # cs) =
     (if is_space c then words cs
      else cons_word c (cs \<noteq> [] \<and> \<not> is_space (hd cs)) (words cs))"

fun class_names :: "jsval \<Rightarrow> string list" where
  "class_names (JStr s) = words s"
| "class_names (JArr vs) = concat (map class_names vs)"
| "class_names (JObj kvs) = concat (map (\<lambda>(name, v). if truthy v then words name else []) kvs)"
| "class_names _ = []"

lemma words_nonempty: "cs \<noteq> [] \<Longrightarrow> \<not> is_space (hd cs) \<Longrightarrow> words cs \<noteq> []"
  by (cases cs) auto

lemma words_append_space: "is_space d \<Longrightarrow> words (cs @ d # ds) = words cs @ words ds"
proof (induction cs)
  case (Cons c cs)
  then show ?case
    using words_nonempty [of cs] by (cases cs) auto
qed simp

lemma words_dropWhile: "words (dropWhile is_space cs) = words cs"
  by (induction cs) auto

lemma words_spaces: "\<forall>c \<in> set ds. is_space c \<Longrightarrow> words (cs @ ds) = words cs"
proof (cases ds)
  case (Cons d ds')
  assume "\<forall>c \<in> set ds. is_space c"
  then have "words ds' = []" by (auto simp: Cons) (induction ds', auto)
  then show ?thesis using \<open>\<forall>c \<in> set ds. is_space c\<close> Cons by (simp add: words_append_space)
qed simp

lemma words_trim [simp]: "words (trim cs) = words cs"
proof -
  let ?t = "dropWhile is_space cs"
  have "?t = rev (dropWhile is_space (rev ?t)) @ rev (takeWhile is_space (rev ?t))"
    by (metis rev_append rev_rev_ident takeWhile_dropWhile_id)
  then have "words ?t = words (rev (dropWhile is_space (rev ?t)))"
    using words_spaces [of "rev (takeWhile is_space (rev ?t))" "rev (dropWhile is_space (rev ?t))"]
    by (metis set_rev set_takeWhileD)
  then show ?thesis by (simp add: trim_def words_dropWhile)
qed

lemma space_is_space [simp]: "is_space (CHR '' '')"
  by (simp add: is_space_def)

lemma words_concat_spaced:
  "words (concat (map (\<lambda>x. if p x then f x @ '' '' else []) xs)) =
   concat (map (\<lambda>x. if p x then words (f x) else []) xs)"
  by (induction xs) (auto simp: words_append_space)

text \<open>
  The class string Vue computes for a template's class
  value (a string, a list nested to any depth, an object of flags) holds exactly the names the
  value gives, in their order, whatever spaces the parts carry.
\<close>

theorem class_string_has_exactly_the_names: "words (normalizeClass v) = class_names v"
proof (induction v rule: class_names.induct)
  case (2 vs)
  have "words (normalizeClass (JArr vs)) =
      concat (map (\<lambda>v. if normalizeClass v \<noteq> [] then words (normalizeClass v) else []) vs)"
    using words_concat_spaced [of "\<lambda>v. normalizeClass v \<noteq> []" normalizeClass vs]
    by (simp add: Let_def)
  also have "\<dots> = concat (map class_names vs)"
    using 2 by (intro arg_cong [where f = concat] map_cong) force+
  finally show ?case by simp
next
  case (3 kvs)
  show ?case
    using words_concat_spaced [of "\<lambda>p. truthy (snd p)" fst kvs]
    by (simp add: case_prod_unfold)
qed simp_all

section \<open>Styles\<close>

lemma split_on_none: "d \<notin> set s \<Longrightarrow> split_on d s = [s]"
  by (induction s) auto

lemma split_on_append: "d \<notin> set s \<Longrightarrow> split_on d (s @ d # r) = s # split_on d r"
  by (induction s) auto

lemma map_of_set_key [simp]: "map_of (set_key kvs k v) = (map_of kvs)(k \<mapsto> v)"
  by (induction kvs) (auto simp: fun_upd_twist)

text \<open>Of the pairs with one key the last counts.\<close>

lemma map_of_assign_all: "map_of (assign_all res kvs) = map_of res ++ map_of (rev kvs)"
proof (induction kvs arbitrary: res)
  case (Cons p kvs)
  then show ?case
    by (cases p) (simp add: assign_all_def map_add_def fun_eq_iff split: option.split)
qed (simp add: assign_all_def)

lemma distinct_keys_set_key:
  "distinct (map fst kvs) \<Longrightarrow> distinct (map fst (set_key kvs k v))"
proof (induction kvs)
  case (Cons p kvs)
  have "fst ` set (set_key kvs k v) = insert k (fst ` set kvs)"
    by (metis (no_types) dom_fun_upd dom_map_of_conv_image_fst map_of_set_key option.discI)
  with Cons show ?case by (cases p) auto
qed simp

lemma distinct_keys_assign_all:
  "distinct (map fst res) \<Longrightarrow> distinct (map fst (assign_all res kvs))"
  by (induction kvs arbitrary: res)
    (auto simp: assign_all_def distinct_keys_set_key split: prod.splits)

definition style_of :: "jsval \<Rightarrow> string \<rightharpoonup> jsval" where
  "style_of item = map_of (rev
     (case item of JStr s \<Rightarrow> parseStringStyle s | _ \<Rightarrow> own_props (normalizeStyle item)))"

lemma style_fold:
  "map_of (foldl (\<lambda>res item. assign_all res
       (case item of JStr s \<Rightarrow> parseStringStyle s | _ \<Rightarrow> own_props (normalizeStyle item))) res items) =
   foldl (\<lambda>m item. m ++ style_of item) (map_of res) items"
  by (induction items arbitrary: res) (simp_all add: map_of_assign_all style_of_def)

text \<open>
  The style of a list of styles is the union of the styles of its
  items, where an item overrides the ones before it.
\<close>

lemma style_list_is_union:
  "map_of (own_props (normalizeStyle (JArr items))) = foldl (\<lambda>m item. m ++ style_of item) Map.empty items"
  using style_fold [of "[]" items] by simp

end
