(* ===== verification/Wire.thy ===== *)
theory Wire
  imports Prelude
begin

text \<open>
  The traffic between an interface and the registrar, as both interfaces see it: the requests
  they hand to \<open>fetch\<close> and the replies it comes to. A \<open>fetch\<close> only records the request; its
  promise chain runs when the reply arrives, in any order.
\<close>

record request =
  rq_method :: string
  rq_path :: string
  rq_body :: "string option"
  rq_headers :: "(string \<times> string) list"

text \<open>
  What \<open>fetch\<close> comes to: a response with its status and its body as JSON (\<open>None\<close> for a body
  that is not JSON), or a failure to get one. Both interfaces leave the inner promise out of the
  chain, so an error raised in it is not caught by the outer \<open>catch\<close>: it ends that handler only.
\<close>

datatype reply = Reply bool "jsval option" | Network_error

text \<open>The replies outstanding after the one at position \<open>i\<close> has arrived.\<close>

definition drop_nth :: "nat \<Rightarrow> 'a list \<Rightarrow> 'a list" where
  "drop_nth i xs = take i xs @ drop (Suc i) xs"

end
