(* ===== verification/App.thy ===== *)
theory App
  imports JsDate VueShared Wire
begin

text \<open>
  The Vue interface: the application code in \<^verbatim>\<open>src/v2/lens3/ui/assets/index.js\<close>, from
  \<open>pool_data_\<close> to \<open>submit_request\<close> (lines 21327 to 21579) and the methods of its components
  (\<open>_sfc_main$8\<close> to \<open>_sfc_main$3\<close>). All components hold the one reactive object \<open>pool_data\<close>, so
  the state \<open>app\<close> has one record \<open>app_data\<close> with the fields of the source, next to the token,
  the requests sent, the requests whose replies are outstanding, the clipboard and what the
  browser provides (the base path, the clock, the offset of the time zone in minutes at a
  time). A \<open>Date\<close> is its time value, \<open>None\<close> for an invalid one.

  Console output has no effect on the state and is left out, but what its arguments evaluate,
  and so may raise, is kept. The module is strict code: a write to a property of a value that
  is not an object raises.
\<close>

section \<open>State\<close>

record app_data =
  buckets_directory :: jsval
  user :: jsval
  group :: jsval
  group_choices :: jsval
  lens3_version :: jsval
  s3_url :: jsval
  footer_banner :: jsval
  data_base_path :: jsval
  pool_list :: jsval
  buckets :: jsval
  secrets :: jsval
  probe_key :: jsval
  expiration_time :: jsval
  online_status :: jsval
  user_enabled_status :: jsval
  minio_state :: jsval
  minio_reason :: jsval
  modification_time :: jsval
  access_key_set :: jsval
  secrets_rw :: jsval
  secrets_ro :: jsval
  secrets_wo :: jsval
  pool_name :: jsval
  bucket_name :: jsval
  bucket_policy :: jsval
  key_expiration_time :: "int option"
  edit_pool_visible :: jsval
  menu_visible :: jsval
  dialog_text :: jsval
  dialog_visible :: jsval

definition init_app_data :: "int \<Rightarrow> app_data" where
  "init_app_data now =
     \<lparr>buckets_directory = JStr [], user = JStr [], group = JStr [], group_choices = JArr [],
      lens3_version = JStr [], s3_url = JStr [], footer_banner = JStr [], data_base_path = JStr [],
      pool_list = JArr [], buckets = JArr [], secrets = JArr [], probe_key = JStr [],
      expiration_time = JStr [], online_status = JStr [], user_enabled_status = JStr [],
      minio_state = JStr [], minio_reason = JStr [], modification_time = JStr [],
      access_key_set = JObj [], secrets_rw = JArr [], secrets_ro = JArr [], secrets_wo = JArr [],
      pool_name = JStr [], bucket_name = JStr [], bucket_policy = JStr [],
      key_expiration_time = Some now, edit_pool_visible = JBool False, menu_visible = JBool False,
      dialog_text = JStr [], dialog_visible = JBool False\<rparr>"

text \<open>The functions passed to \<open>submit_request\<close> for the reply.\<close>

datatype process_fn = Set_user_info_data | Set_pool_list | Set_pool_data | List_pools

record app =
  data :: app_data
  x_csrf_token :: jsval
  sent :: "request list"
  inflight :: "(string \<times> process_fn) list"
  clipboard :: "string list"
  dark :: jsval
  theme_name :: string
  base_path :: string
  now_ms :: int
  tz_offset :: "int \<Rightarrow> int"

text \<open>An assignment \<open>pool_data.f = v\<close> whose right-hand side may raise.\<close>

definition assign :: "(jsval \<Rightarrow> app_data \<Rightarrow> app_data) \<Rightarrow> js_error + jsval \<Rightarrow> (app, unit) js" where
  "assign f r = js_bind (js_lift r) (\<lambda>v. js_modify (data_update (f v)))"

section \<open>Times\<close>

definition format_time_z :: "jsval \<Rightarrow> js_error + jsval" where
  "format_time_z d =
     (if eq_zero d then Inr (JNum 0)
      else case to_number d of
             None \<Rightarrow> Inl RangeError
           | Some n \<Rightarrow>
               (case time_clip (n * 1000) of
                  None \<Rightarrow> Inl RangeError
                | Some t \<Rightarrow> Inr (JStr (take 10 (to_iso_string t)))))"

definition format_key :: "jsval \<Rightarrow> js_error + jsval" where
  "format_key k =
     err_bind (get_prop k ''access_key'') (\<lambda>a.
     err_bind (get_prop k ''secret_key'') (\<lambda>sk.
     err_bind (err_bind (get_prop k ''expiration_time'') format_time_z) (\<lambda>e. Inr
       (JObj [(''access_key'', a), (''secret_key'', sk), (''expiration_time'', e)]))))"

definition format_time_in_keys :: "jsval list \<Rightarrow> js_error + jsval" where
  "format_time_in_keys keys = err_bind (err_map format_key keys) (\<lambda>ks. Inr (JArr ks))"

section \<open>Requests\<close>

definition request_headers :: "jsval \<Rightarrow> (string \<times> string) list" where
  "request_headers token =
     (''Content-Type'', ''application/json'') #
     (if eq_str token [] then [] else [(''X-CSRF-Token'', to_string token)])"

definition submit_request ::
  "string \<Rightarrow> string \<Rightarrow> string \<Rightarrow> string option \<Rightarrow> process_fn \<Rightarrow> (app, unit) js" where
  "submit_request op_name method path body process_response =
     js_modify (\<lambda>s. s
       \<lparr>sent := sent s @
          [\<lparr>rq_method = method, rq_path = path, rq_body = body,
            rq_headers = request_headers (x_csrf_token s)\<rparr>],
        inflight := inflight s @ [(op_name, process_response)]\<rparr>)"

definition api_get_user_info :: "(app, unit) js" where
  "api_get_user_info = js_bind (js_gets base_path) (\<lambda>base.
     submit_request ''Get user-info'' ''GET'' (base @ ''/user-info'') None Set_user_info_data)"

definition api_list_pools :: "(app, unit) js" where
  "api_list_pools = js_bind (js_gets base_path) (\<lambda>base.
     submit_request ''List pools'' ''GET'' (base @ ''/pool'') None Set_pool_list)"

definition api_make_pool :: "(app, unit) js" where
  "api_make_pool =
     js_bind (js_gets (\<lambda>s. buckets_directory (data s))) (\<lambda>directory.
     js_bind (js_gets (\<lambda>s. group (data s))) (\<lambda>gid.
     js_bind (js_gets base_path) (\<lambda>base.
       let args = JObj [(''buckets_directory'', directory), (''owner_gid'', gid)]
       in submit_request ''Make pool'' ''POST'' (base @ ''/pool'') (Some (json_stringify args))
            List_pools)))"

definition api_delete_pool :: "jsval \<Rightarrow> (app, unit) js" where
  "api_delete_pool pool = js_bind (js_gets base_path) (\<lambda>base.
     submit_request ''Delete pool'' ''DELETE'' (base @ ''/pool/'' @ to_string pool)
       (Some (json_stringify (JObj []))) List_pools)"

definition api_make_bucket :: "jsval \<Rightarrow> jsval \<Rightarrow> jsval \<Rightarrow> (app, unit) js" where
  "api_make_bucket pool name policy = js_bind (js_gets base_path) (\<lambda>base.
     let args = JObj [(''name'', name), (''bkt_policy'', policy)]
     in submit_request ''Make bucket'' ''PUT'' (base @ ''/pool/'' @ to_string pool @ ''/bucket'')
          (Some (json_stringify args)) Set_pool_data)"

text \<open>The three operations below take the pool as a parameter and use \<open>pool_data.pool_name\<close>.\<close>

definition pool_path :: "(app, string) js" where
  "pool_path = js_gets (\<lambda>s. base_path s @ ''/pool/'' @ to_string (pool_name (data s)))"

definition api_delete_bucket :: "jsval \<Rightarrow> jsval \<Rightarrow> (app, unit) js" where
  "api_delete_bucket pool name = js_bind pool_path (\<lambda>path.
     submit_request ''Delete bucket'' ''DELETE'' (path @ ''/bucket/'' @ to_string name)
       (Some (json_stringify (JObj []))) Set_pool_data)"

text \<open>
  \<open>Math.floor(getTime() / 1e3 - getTimezoneOffset() * 60)\<close>: the offset is a number of minutes.
\<close>

definition secret_expiration :: "(int \<Rightarrow> int) \<Rightarrow> int option \<Rightarrow> jsval" where
  "secret_expiration tz d = (case d of None \<Rightarrow> JNaN | Some t \<Rightarrow> JNum (t div 1000 - tz t * 60))"

definition api_make_secret :: "jsval \<Rightarrow> string \<Rightarrow> (app, unit) js" where
  "api_make_secret pool rw =
     js_bind (js_gets (\<lambda>s. secret_expiration (tz_offset s) (key_expiration_time (data s)))) (\<lambda>expiration.
     js_bind pool_path (\<lambda>path.
       let args = JObj [(''key_policy'', JStr rw), (''expiration_time'', expiration)]
       in submit_request ''Make secret'' ''POST'' (path @ ''/secret'') (Some (json_stringify args))
            Set_pool_data))"

definition api_delete_secret :: "jsval \<Rightarrow> jsval \<Rightarrow> (app, unit) js" where
  "api_delete_secret pool key = js_bind pool_path (\<lambda>path.
     submit_request ''Delete secret'' ''DELETE'' (path @ ''/secret/'' @ to_string key)
       (Some (json_stringify (JObj []))) Set_pool_data)"

section \<open>Replies\<close>

definition set_user_info_data :: "jsval \<Rightarrow> (app, unit) js" where
  "set_user_info_data d =
     js_bind (js_lift (get_prop d ''user_info'')) (\<lambda>u.
     js_bind (js_lift (get_prop u ''api_version'')) (\<lambda>_.
     js_bind (js_lift (get_prop d ''x_csrf_token'')) (\<lambda>t. js_block
       [(if t = JUndef \<or> t = JNull then js_return () else js_modify (x_csrf_token_update (\<lambda>_. t))),
        js_bind (js_gets base_path) (\<lambda>base. assign (\<lambda>v. data_base_path_update (\<lambda>_. v)) (Inr (JStr base))),
        assign (\<lambda>v. user_update (\<lambda>_. v)) (get_prop u ''uid''),
        assign (\<lambda>v. group_update (\<lambda>_. v)) (err_bind (get_prop u ''groups'') (\<lambda>g. get_prop g ''0'')),
        assign (\<lambda>v. group_choices_update (\<lambda>_. v)) (get_prop u ''groups''),
        assign (\<lambda>v. lens3_version_update (\<lambda>_. v)) (get_prop u ''lens3_version''),
        assign (\<lambda>v. s3_url_update (\<lambda>_. v)) (get_prop u ''s3_url''),
        assign (\<lambda>v. footer_banner_update (\<lambda>_. v)) (get_prop u ''footer_banner''),
        assign (\<lambda>v. edit_pool_visible_update (\<lambda>_. v)) (Inr (JBool False)),
        api_list_pools])))"

definition set_pool_list :: "jsval \<Rightarrow> (app, unit) js" where
  "set_pool_list d =
     js_bind (js_lift (get_prop d ''pool_list'')) (\<lambda>dd.
     js_bind (js_lift (get_prop dd ''length'')) (\<lambda>_. js_block
       [assign (\<lambda>v. pool_list_update (\<lambda>_. v)) (Inr dd),
        assign (\<lambda>v. edit_pool_visible_update (\<lambda>_. v)) (Inr (JBool False))]))"

definition field_is :: "string \<Rightarrow> string \<Rightarrow> jsval \<Rightarrow> js_error + bool" where
  "field_is k lit d = err_bind (get_prop d k) (\<lambda>v. Inr (eq_str v lit))"

definition key_set :: "string \<Rightarrow> jsval \<Rightarrow> jsval" where
  "key_set policy keys = JObj [(''policy'', JStr policy), (''keys'', keys)]"

definition set_pool_data :: "jsval \<Rightarrow> (app, unit) js" where
  "set_pool_data data0 =
     js_bind (js_lift (get_prop data0 ''pool_desc'')) (\<lambda>d. js_block
       [assign (\<lambda>v. pool_name_update (\<lambda>_. v)) (get_prop d ''pool_name''),
        assign (\<lambda>v. buckets_directory_update (\<lambda>_. v)) (get_prop d ''buckets_directory''),
        assign (\<lambda>v. user_update (\<lambda>_. v)) (get_prop d ''owner_uid''),
        assign (\<lambda>v. group_update (\<lambda>_. v)) (get_prop d ''owner_gid''),
        assign (\<lambda>v. buckets_update (\<lambda>_. v)) (get_prop d ''buckets''),
        assign (\<lambda>v. secrets_update (\<lambda>_. v)) (get_prop d ''secrets''),
        assign (\<lambda>v. probe_key_update (\<lambda>_. v)) (get_prop d ''probe_key''),
        assign (\<lambda>v. expiration_time_update (\<lambda>_. v)) (get_prop d ''expiration_time''),
        assign (\<lambda>v. online_status_update (\<lambda>_. v)) (get_prop d ''online_status''),
        assign (\<lambda>v. user_enabled_status_update (\<lambda>_. v)) (get_prop d ''user_enabled_status''),
        assign (\<lambda>v. minio_state_update (\<lambda>_. v)) (get_prop d ''minio_state''),
        assign (\<lambda>v. minio_reason_update (\<lambda>_. v)) (get_prop d ''minio_reason''),
        assign (\<lambda>v. modification_time_update (\<lambda>_. v)) (get_prop d ''modification_time''),
        js_bind (js_lift (get_prop d ''secrets'')) (\<lambda>keys.
        js_bind (js_lift (as_array keys)) (\<lambda>ks.
        js_bind (js_lift (err_filter (field_is ''key_policy'' ''readwrite'') ks)) (\<lambda>rwkeys.
        js_bind (js_lift (err_filter (field_is ''key_policy'' ''readonly'') ks)) (\<lambda>rokeys.
        js_bind (js_lift (err_filter (field_is ''key_policy'' ''writeonly'') ks)) (\<lambda>wokeys. js_block
          [assign (\<lambda>v. secrets_rw_update (\<lambda>_. v)) (format_time_in_keys rwkeys),
           assign (\<lambda>v. secrets_ro_update (\<lambda>_. v)) (format_time_in_keys rokeys),
           assign (\<lambda>v. secrets_wo_update (\<lambda>_. v)) (format_time_in_keys wokeys)]))))),
        js_bind (js_gets data) (\<lambda>p. assign (\<lambda>v. access_key_set_update (\<lambda>_. v)) (Inr (JArr
          [key_set ''readwrite'' (secrets_rw p),
           key_set ''readonly'' (secrets_ro p),
           key_set ''writeonly'' (secrets_wo p)]))),
        assign (\<lambda>v. bucket_name_update (\<lambda>_. v)) (Inr (JStr [])),
        assign (\<lambda>v. bucket_policy_update (\<lambda>_. v)) (Inr (JStr ''none'')),
        assign (\<lambda>v. edit_pool_visible_update (\<lambda>_. v)) (Inr (JBool True))])"

definition edit_pool :: "nat \<Rightarrow> (app, unit) js" where
  "edit_pool i =
     js_bind (js_gets (\<lambda>s. pool_list (data s))) (\<lambda>l.
     js_bind (js_lift (get_prop l (dec_nat i))) (\<lambda>d.
       set_pool_data (JObj [(''pool_desc'', d)])))"

fun run_process :: "process_fn \<Rightarrow> jsval \<Rightarrow> (app, unit) js" where
  "run_process Set_user_info_data d = set_user_info_data d"
| "run_process Set_pool_list d = set_pool_list d"
| "run_process Set_pool_data d = set_pool_data d"
| "run_process List_pools d = api_list_pools"

definition error_slots :: "jsval \<Rightarrow> js_error + jsval" where
  "error_slots d =
     err_bind (get_prop d ''status'') (\<lambda>status.
     err_bind (get_prop d ''reason'') (\<lambda>reason.
       Inr (JObj [(''status'', status), (''reason'', reason)])))"

fun on_reply :: "string \<Rightarrow> process_fn \<Rightarrow> reply \<Rightarrow> (app, unit) js" where
  "on_reply op_name k Network_error = js_return ()"
| "on_reply op_name k (Reply ok None) = js_throw (Thrown ''SyntaxError'')"
| "on_reply op_name k (Reply ok (Some d)) =
     (if \<not> ok then
        js_bind (js_lift (error_slots d)) (\<lambda>slots. js_block
          [assign (\<lambda>v. dialog_text_update (\<lambda>_. v)) (Inr (JStr (op_name @ '' failed: '' @ json_stringify slots))),
           assign (\<lambda>v. dialog_visible_update (\<lambda>_. v)) (Inr (JBool True)),
           js_throw (Thrown (json_stringify d))])
      else run_process k d)"

section \<open>Methods of the components\<close>

definition write_clipboard :: "jsval \<Rightarrow> (app, unit) js" where
  "write_clipboard v = js_modify (\<lambda>s. s\<lparr>clipboard := clipboard s @ [to_string v]\<rparr>)"

definition kick_copy_url_to_clipboard :: "(app, unit) js" where
  "kick_copy_url_to_clipboard = js_bind (js_gets (\<lambda>s. s3_url (data s))) write_clipboard"

definition change_theme :: "jsval \<Rightarrow> (app, unit) js" where
  "change_theme d = js_modify (theme_name_update (\<lambda>_. if truthy d then ''dark'' else ''light''))"

text \<open>\<open>data()\<close> of the component \<open>PoolMake\<close>, which runs when the page is mounted.\<close>

definition pool_make_data :: "(app, unit) js" where
  "pool_make_data = api_get_user_info"

definition kick_make_pool :: "(app, unit) js" where
  "kick_make_pool = api_make_pool"

definition kick_edit_pool :: "nat \<Rightarrow> (app, unit) js" where
  "kick_edit_pool i = edit_pool i"

definition kick_delete_pool :: "nat \<Rightarrow> (app, unit) js" where
  "kick_delete_pool i =
     js_bind (js_gets (\<lambda>s. pool_list (data s))) (\<lambda>l.
     js_bind (js_lift (get_prop l (dec_nat i))) (\<lambda>d.
     js_bind (js_lift (get_prop d ''pool_name'')) api_delete_pool))"

definition current_pool :: "(app, jsval) js" where
  "current_pool = js_gets (\<lambda>s. pool_name (data s))"

definition kick_make_bucket :: "(app, unit) js" where
  "kick_make_bucket =
     js_bind current_pool (\<lambda>pool.
     js_bind (js_gets (\<lambda>s. bucket_name (data s))) (\<lambda>name.
     js_bind (js_gets (\<lambda>s. bucket_policy (data s))) (\<lambda>policy. api_make_bucket pool name policy)))"

definition kick_delete_bucket :: "jsval \<Rightarrow> (app, unit) js" where
  "kick_delete_bucket name = js_bind current_pool (\<lambda>pool. api_delete_bucket pool name)"

definition kick_make_secret :: "string \<Rightarrow> (app, unit) js" where
  "kick_make_secret rw = js_bind current_pool (\<lambda>pool. api_make_secret pool rw)"

definition kick_delete_secret :: "jsval \<Rightarrow> (app, unit) js" where
  "kick_delete_secret key = js_bind current_pool (\<lambda>pool. api_delete_secret pool key)"

definition kick_copy_to_clipboard :: "jsval \<Rightarrow> (app, unit) js" where
  "kick_copy_to_clipboard v = write_clipboard v"

end
