(* ===== verification/App_View.thy ===== *)
theory App_View
  imports App
begin

text \<open>
  The templates of the Vue interface: the render functions \<open>_sfc_render\<close> to \<open>_sfc_render$6\<close>
  and the root components in \<^verbatim>\<open>src/v2/lens3/ui/assets/index.js\<close>, as functions from the state
  to a tree of elements and components with their attributes, handlers and slots. A raised
  error (a read of a property of \<open>null\<close> or \<open>undefined\<close>) is the error of the function. Patch
  flags and the lists of dynamic props, which only tell the renderer what may change, and the
  memo slots \<open>_cache\<close> are left out. \<open>Slot_props\<close> marks the props that an \<open>activator\<close> slot is
  given by its component and merges into its button.

  \<open>run_handler\<close> says what each handler of the tree does.
\<close>

section \<open>Trees\<close>

text \<open>The fields a form control is bound to.\<close>

datatype model_field =
    F_buckets_directory | F_user | F_group | F_pool_list | F_bucket_name | F_bucket_policy
  | F_menu_visible | F_dialog_text | F_dark | F_pool_dialog nat

datatype handler =
    Kick_make_pool
  | Kick_edit_pool nat
  | Kick_delete_pool nat
  | Kick_make_bucket
  | Kick_delete_bucket jsval
  | Kick_make_secret string
  | Kick_delete_secret jsval
  | Kick_copy_to_clipboard jsval
  | Kick_copy_url_to_clipboard
  | Change_theme
  | Close_menu
  | Close_dialog
  | Close_reason nat
  | Update model_field
  | Update_key_expiration_time
  | Update_readonly string

datatype attr =
    Attr string jsval
  | Date_attr string "int option"
  | On string handler
  | Slot_props

datatype vnode =
    Text string
  | Comment
  | Elem string "attr list" "(string \<times> vnode list) list"

abbreviation str_attr :: "string \<Rightarrow> string \<Rightarrow> attr" where
  "str_attr k v \<equiv> Attr k (JStr v)"

definition el :: "string \<Rightarrow> attr list \<Rightarrow> vnode list \<Rightarrow> vnode" where
  "el t as ks = Elem t as [(''default'', ks)]"

definition leaf :: "string \<Rightarrow> attr list \<Rightarrow> vnode" where
  "leaf t as = Elem t as []"

fun attr_handlers :: "attr list \<Rightarrow> handler list" where
  "attr_handlers [] = []"
| "attr_handlers (On e h # as) = h # attr_handlers as"
| "attr_handlers (_ # as) = attr_handlers as"

fun handlers :: "vnode \<Rightarrow> handler list" where
  "handlers (Elem t as ss) = attr_handlers as @ concat (map (\<lambda>(n, ks). concat (map handlers ks)) ss)"
| "handlers _ = []"

section \<open>About menu, bar and footer\<close>

definition nbsp :: string where
  "nbsp = '' '' @ [CHR 0xA0] @ '' ''"

definition about_text :: "vnode list" where
  "about_text =
     [el ''p'' [] [Text '' Lens3 is an AWS-S3 service by running multiple server instances. It forwards S3 requests to a server instance with regard to the bucket registeration. ''],
      el ''p'' []
        [Text '' For the usage, see the Lens3 user-guide.md in: '',
         el ''a'' [str_attr ''href'' ''https://github.com/RIKEN-RCCS/lens3/blob/main/v2/doc/user-guide.md'']
           [Text ''github.com'']]]"

definition simpler_ui_text :: vnode where
  "simpler_ui_text =
     el ''p'' [] [Text ('' A simpler UI is available at '' @ [CHR 0x22] @ ''ui2/index.html'' @ [CHR 0x22] @ ''. '')]"

definition about_menu :: "app_data \<Rightarrow> vnode" where
  "about_menu d =
     el ''VCard'' [str_attr ''variant'' ''outlined'', str_attr ''class'' ''text-body-1 pa-4'', str_attr ''min-width'' ''33%'']
       [el ''VCardTitle'' [] [Text ''About Lens3''],
        el ''VCardText'' [str_attr ''density'' ''comfortable'']
          (about_text @
           [el ''p'' []
              [Text ('' Lens3's S3 end-point is: '' @ toDisplayString (s3_url d) @ '' ''),
               el ''VBtn'' [str_attr ''variant'' ''text'', On ''onClick'' Kick_copy_url_to_clipboard]
                 [Text '' (copy link)'']],
            simpler_ui_text,
            el ''p'' [] [Text ('' Lens3 version: '' @ toDisplayString (lens3_version d))]]),
        el ''VCardActions'' []
          [el ''VBtn'' [On ''onClick'' Close_menu, str_attr ''block'' [], str_attr ''variant'' ''text'']
             [Text '' Close '']]]"

definition default_bar :: "app \<Rightarrow> vnode" where
  "default_bar s =
     Elem ''VAppBar'' [str_attr ''flat'' []]
       [(''append'', [leaf ''VBtn'' [str_attr ''icon'' ''mdi-dots-vertical'', str_attr ''disabled'' []]]),
        (''default'',
         [Elem ''VMenu''
            [Attr ''modelValue'' (menu_visible (data s)), On ''onUpdate:modelValue'' (Update F_menu_visible),
             Attr ''close-on-content-click'' (JBool False), str_attr ''location'' ''bottom'']
            [(''activator'',
              [el ''VAppBarNavIcon'' [Slot_props] [leaf ''VIcon'' [str_attr ''icon'' ''mdi-information'']]]),
             (''default'', [about_menu (data s)])],
          el ''VAppBarTitle'' [] [Text '' Lens3 ''],
          leaf ''VSpacer'' [],
          el ''VToolbarItems'' []
            [leaf ''VSwitch''
               [Attr ''modelValue'' (dark s), On ''onUpdate:modelValue'' (Update F_dark),
                str_attr ''flat'' [], str_attr ''prepend-icon'' ''mdi-white-balance-sunny'',
                str_attr ''append-icon'' ''mdi-moon-waning-crescent'', On ''onChange'' Change_theme]]])]"

definition default_footer :: "app_data \<Rightarrow> vnode" where
  "default_footer d =
     el ''VFooter'' [str_attr ''class'' ''bg-grey-lighten-1'']
       [leaf ''VSpacer'' [],
        el ''div'' [str_attr ''class'' ''text-center''] [Text (toDisplayString (footer_banner d))],
        leaf ''VSpacer'' []]"

section \<open>Making a pool\<close>

definition heading :: "string \<Rightarrow> vnode" where
  "heading t = el ''div'' [str_attr ''class'' ''text-h5 text-center w-100''] [Text t]"

definition info_card :: "string \<Rightarrow> vnode" where
  "info_card t =
     el ''VCard'' [str_attr ''variant'' ''outlined'', str_attr ''class'' ''w-100 ma-4'']
       [el ''VCardText'' [] [Text t]]"

text \<open>A button under a tooltip.\<close>

definition tip_button :: "string \<Rightarrow> attr list \<Rightarrow> vnode" where
  "tip_button t as =
     Elem ''VTooltip'' [str_attr ''text'' t] [(''activator'', [leaf ''VBtn'' (as @ [Slot_props])])]"

definition pool_make :: "app_data \<Rightarrow> vnode" where
  "pool_make d =
     el ''VContainer'' [str_attr ''class'' ''align-center text-center fill-height'']
       [heading ''Manage Pools'',
        info_card '' A pool is a directory where S3 buckets are created. Each pool is associated to a backend server instance. A server instance will run in the pool directory and shares files there. The first thing to do is to create a new pool. '',
        el ''VRow'' [str_attr ''align'' ''center'']
          [leaf ''VSpacer'' [],
           el ''VCard'' [str_attr ''class'' ''w-75 pa-4 ma-4'']
             [el ''VCardTitle'' [] [Text ''New pool''],
              leaf ''VTextField''
                [str_attr ''label'' ''Buckets directory (absolute path)'',
                 Attr ''modelValue'' (buckets_directory d), On ''onUpdate:modelValue'' (Update F_buckets_directory)],
              leaf ''VTextField''
                [str_attr ''label'' ''User'', str_attr ''cols'' ''auto'',
                 Attr ''modelValue'' (user d), On ''onUpdate:modelValue'' (Update F_user), str_attr ''readonly'' []],
              leaf ''VSelect''
                [str_attr ''label'' ''Group'', str_attr ''cols'' ''auto'', str_attr ''variant'' ''underlined'',
                 Attr ''modelValue'' (group d), On ''onUpdate:modelValue'' (Update F_group),
                 str_attr ''required'' [], Attr ''items'' (group_choices d)],
              tip_button ''Create a pool'' [str_attr ''icon'' ''mdi-plus-circle'', On ''onClick'' Kick_make_pool]],
           leaf ''VSpacer'' []]]"

section \<open>The list of pools\<close>

definition table_row :: "string \<Rightarrow> vnode list \<Rightarrow> vnode" where
  "table_row label ks = el ''tr'' [] [el ''td'' [] [Text label], el ''td'' [] ks]"

text \<open>The button that opens the reason of the backend state; no reason is a hyphen.\<close>

definition reason_button :: "nat \<Rightarrow> jsval \<Rightarrow> jsval \<Rightarrow> vnode" where
  "reason_button n reason dialog =
     (if eq_str reason ''-'' then Comment
      else el ''VBtn'' [Attr ''key'' (JNum 0), str_attr ''variant'' ''plain'']
        [Text '' Reason '',
         el ''VDialog''
           [Attr ''modelValue'' dialog, On ''onUpdate:modelValue'' (Update (F_pool_dialog n)),
            str_attr ''activator'' ''parent'', str_attr ''width'' ''auto'']
           [el ''VCard'' []
              [el ''VCardText'' [] [Text (toDisplayString reason)],
               el ''VCardActions'' []
                 [el ''VBtn'' [On ''onClick'' (Close_reason n), str_attr ''variant'' ''text'', str_attr ''block'' []]
                    [Text '' Close '']]]]])"

definition pool_card :: "nat \<Rightarrow> jsval \<Rightarrow> js_error + vnode" where
  "pool_card n p =
     err_bind (get_prop p ''buckets_directory'') (\<lambda>dir.
     err_bind (get_prop p ''owner_uid'') (\<lambda>uid.
     err_bind (get_prop p ''owner_gid'') (\<lambda>gid.
     err_bind (get_prop p ''minio_state'') (\<lambda>state.
     err_bind (get_prop p ''minio_reason'') (\<lambda>reason.
     err_bind (get_prop p ''dialog'') (\<lambda>dialog.
     err_bind (get_prop p ''online_status'') (\<lambda>online.
     err_bind (get_prop p ''user_enabled_status'') (\<lambda>enabled.
     err_bind (get_prop p ''pool_name'') (\<lambda>name. Inr
       (el ''VSlideGroupItem'' [Attr ''key'' (JNum (int n))]
          [el ''VCard'' [str_attr ''outlined'' [], str_attr ''class'' ''ma-4'']
             [el ''VCardItem'' [] [el ''VCardTitle'' [] [Text (toDisplayString dir)]],
              el ''VTable'' [str_attr ''density'' ''compact'', str_attr ''class'' ''text-left'']
                [el ''tbody'' []
                   [table_row ''uid'' [Text (toDisplayString uid)],
                    table_row ''gid'' [Text (toDisplayString gid)],
                    table_row ''backend-state''
                      [Text (toDisplayString state @ '' ''), reason_button n reason dialog],
                    table_row ''online?'' [Text (toDisplayString online)],
                    table_row ''enabled?'' [Text (toDisplayString enabled)],
                    table_row ''internal-id'' [Text (toDisplayString name)]]],
              el ''VRow'' [str_attr ''class'' ''pa-3 ma-1 align-center'']
                [tip_button ''Edit this pool in a bottom pane''
                   [str_attr ''icon'' ''mdi-pencil'', str_attr ''variant'' ''plain'', On ''onClick'' (Kick_edit_pool n)],
                 Text nbsp,
                 tip_button ''Delete this pool (not undoable)''
                   [str_attr ''icon'' ''mdi-delete-forever'', str_attr ''variant'' ''plain'',
                    On ''onClick'' (Kick_delete_pool n)]]]]))))))))))"

text \<open>\<open>renderList(pool_list.length, (_, n) => ...)\<close> reads \<open>pool_list[n]\<close> in every slot.\<close>

definition pool_cards :: "jsval \<Rightarrow> jsval \<Rightarrow> js_error + vnode list" where
  "pool_cards pools len =
     renderList len (\<lambda>item n i.
       case n of
         JNum k \<Rightarrow> err_bind (get_prop pools (dec_nat (nat k))) (pool_card (nat k))
       | _ \<Rightarrow> Inl TypeError)"

definition pool_list_view :: "app_data \<Rightarrow> js_error + vnode" where
  "pool_list_view d =
     err_bind (get_prop (pool_list d) ''length'') (\<lambda>len.
       if truthy len then
         err_bind (pool_cards (pool_list d) len) (\<lambda>cards. Inr
           (el ''VContainer'' [Attr ''key'' (JNum 0), str_attr ''class'' ''d-flex align-center text-center fill-height'']
              [heading ''List Pools'',
               info_card ('' Pool list is a slider list of the pools. You can select a pool by clicking '' @
                 [CHR 0x22] @ ''edit'' @ [CHR 0x22] @ '' button (a pencil icon). Or, delete one by '' @
                 [CHR 0x22] @ ''delete'' @ [CHR 0x22] @ '' button (a trash can). ''),
               el ''VCol'' [str_attr ''class'' ''pa-1 ma-1'']
                 [el ''VSlideGroup''
                    [Attr ''modelValue'' (pool_list d), On ''onUpdate:modelValue'' (Update F_pool_list),
                     str_attr ''center-active'' []]
                    cards]]))
       else Inr Comment)"

section \<open>Editing a pool\<close>

definition readonly_input :: "string \<Rightarrow> string \<Rightarrow> jsval \<Rightarrow> vnode" where
  "readonly_input field width v =
     leaf ''input''
       [On ''onUpdate:modelValue'' (Update_readonly field), str_attr ''size'' width,
        str_attr ''readonly'' [], Attr ''vModelText'' v]"

definition icon_button :: "string \<Rightarrow> string \<Rightarrow> handler \<Rightarrow> vnode" where
  "icon_button t icon h =
     tip_button t [str_attr ''icon'' icon, str_attr ''variant'' ''plain'', On ''onClick'' h]"

definition bucket_row :: "jsval \<Rightarrow> js_error + vnode" where
  "bucket_row b =
     err_bind (get_prop b ''name'') (\<lambda>name.
     err_bind (get_prop b ''bkt_policy'') (\<lambda>policy. Inr
       (el ''tr'' []
          [el ''td'' [] [readonly_input ''name'' ''30'' name],
           el ''td'' [] [readonly_input ''bkt_policy'' ''30'' policy],
           el ''td'' [] [icon_button ''Delete a bucket'' ''mdi-delete-forever'' (Kick_delete_bucket name)]])))"

definition key_row :: "jsval \<Rightarrow> js_error + vnode" where
  "key_row k =
     err_bind (get_prop k ''access_key'') (\<lambda>access.
     err_bind (get_prop k ''secret_key'') (\<lambda>secret.
     err_bind (get_prop k ''expiration_time'') (\<lambda>expiration. Inr
       (el ''tr'' []
          [el ''td'' []
             [readonly_input ''access_key'' ''22'' access,
              icon_button ''Copy access key to clipboard'' ''mdi-clipboard-text'' (Kick_copy_to_clipboard access)],
           el ''td'' []
             [readonly_input ''secret_key'' ''50'' secret,
              icon_button ''Copy secret key to clipboard'' ''mdi-clipboard-text'' (Kick_copy_to_clipboard secret)],
           el ''td'' [] [readonly_input ''expiration_time'' ''10'' expiration],
           el ''td'' []
             [icon_button ''Delete this key (not undoable)'' ''mdi-delete-forever'' (Kick_delete_secret access)]]))))"

definition table_heading :: "string \<Rightarrow> vnode" where
  "table_heading t = el ''th'' [str_attr ''class'' ''text-left''] [Text t]"

definition key_set_table :: "jsval \<Rightarrow> js_error + vnode" where
  "key_set_table keyset =
     err_bind (get_prop keyset ''policy'') (\<lambda>policy.
     err_bind (get_prop keyset ''keys'') (\<lambda>keys.
     err_bind (renderList keys (\<lambda>k _ _. key_row k)) (\<lambda>rows. Inr
       (el ''div'' [str_attr ''class'' ''w-100'']
          [leaf ''VSpacer'' [],
           el ''VTable'' [str_attr ''density'' ''compact'']
             [el ''thead'' []
                [el ''tr'' []
                   [table_heading (''Access key ('' @ toDisplayString policy @ '')''),
                    table_heading ''Secret key'', table_heading ''Expiration'', table_heading ''Delete'']],
              el ''tbody'' [] rows],
           leaf ''VSpacer'' []]))))"

definition new_bucket_card :: "app_data \<Rightarrow> vnode" where
  "new_bucket_card d =
     el ''VRow'' [str_attr ''align'' ''center'']
       [leaf ''VSpacer'' [],
        el ''VCard'' [str_attr ''class'' ''w-75 pa-4 ma-4'']
          [el ''VCardTitle'' [] [Text ''New bucket''],
           leaf ''VTextField''
             [str_attr ''label'' ''Bucket name'', Attr ''modelValue'' (bucket_name d),
              On ''onUpdate:modelValue'' (Update F_bucket_name)],
           leaf ''VSelect''
             [str_attr ''label'' ''Bucket policy for public access'', str_attr ''variant'' ''underlined'',
              Attr ''modelValue'' (bucket_policy d), On ''onUpdate:modelValue'' (Update F_bucket_policy),
              str_attr ''required'' [],
              Attr ''items'' (JArr [JStr ''none'', JStr ''public'', JStr ''upload'', JStr ''download''])],
           tip_button ''Create a bucket'' [str_attr ''icon'' ''mdi-folder-plus'', On ''onClick'' Kick_make_bucket]],
        leaf ''VSpacer'' []]"

definition make_key_button :: "string \<Rightarrow> vnode" where
  "make_key_button policy =
     el ''VBtn'' [str_attr ''prepend-icon'' ''mdi-key-plus'', On ''onClick'' (Kick_make_secret policy)]
       [Text ('' Create '' @ policy @ '' key '')]"

definition new_key_card :: "app \<Rightarrow> vnode" where
  "new_key_card s =
     el ''VRow'' [str_attr ''align'' ''center'']
       [leaf ''VSpacer'' [],
        el ''VCard'' [str_attr ''class'' ''w-75 pa-4 ma-4'']
          [el ''VCardTitle'' [] [Text ''New access key''],
           make_key_button ''readwrite'', Text nbsp,
           make_key_button ''readonly'', Text nbsp,
           make_key_button ''writeonly'',
           leaf ''VSpacer'' [],
           el ''VRow'' [str_attr ''justify'' ''center'']
             [leaf ''VDatePicker''
                [str_attr ''title'' ''Expiration (00:00:00 UTC)'', str_attr ''header'' [],
                 Attr ''hide-actions'' (JBool True), str_attr ''input-mode'' ''keyboard'',
                 Date_attr ''min'' (Some (now_ms s - 24 * 3600 * 1000)),
                 Date_attr ''modelValue'' (key_expiration_time (data s)),
                 On ''onUpdate:modelValue'' Update_key_expiration_time,
                 Attr ''landscape'' (JBool True), str_attr ''elevation'' ''0'']]],
        leaf ''VSpacer'' []]"

definition pool_edit :: "app \<Rightarrow> js_error + vnode" where
  "pool_edit s =
     (if truthy (edit_pool_visible (data s)) then
        err_bind (renderList (buckets (data s)) (\<lambda>b _ _. bucket_row b)) (\<lambda>bucket_rows.
        err_bind (renderList (access_key_set (data s)) (\<lambda>ks _ _. key_set_table ks)) (\<lambda>key_tables. Inr
          (el ''VContainer'' [Attr ''key'' (JNum 0), str_attr ''class'' ''d-flex align-center text-center fill-height'']
             ([heading ''Edit a Pool'',
               el ''div'' [str_attr ''class'' ''text-h6 text-center w-100'']
                 [Text (toDisplayString (buckets_directory (data s)))],
               info_card '' Edit pool lists buckets and access keys. You can add/delete buckets. A bucket name should be unique in all pools including ones owned by others. '',
               new_bucket_card (data s),
               el ''VTable'' [str_attr ''density'' ''compact'', str_attr ''class'' ''w-100'']
                 [el ''thead'' []
                    [el ''tr'' [] [table_heading ''Bucket'', table_heading ''Policy'', table_heading ''Delete'']],
                  el ''tbody'' [] bucket_rows],
               info_card '' You can also add/delete access keys. An expiration date of an access key has a limit set by the site manager. '',
               leaf ''VDivider'' [Attr ''thickness'' (JNum 5), str_attr ''class'' ''border-opacity-0''],
               new_key_card s] @ key_tables))))
      else Inr Comment)"

section \<open>The error dialog and the page\<close>

definition alert_popup :: "app_data \<Rightarrow> vnode" where
  "alert_popup d =
     (if truthy (dialog_visible d) then
        el ''VDialog''
          [Attr ''key'' (JNum 0), Attr ''modelValue'' (dialog_text d),
           On ''onUpdate:modelValue'' (Update F_dialog_text), str_attr ''width'' ''auto'']
          [el ''VCard'' [Attr ''text'' (dialog_text d)]
             [el ''VCardActions'' []
                [el ''VBtn'' [str_attr ''block'' [], On ''onClick'' Close_dialog] [Text ''Close'']]]]
      else Comment)"

definition setting :: "app \<Rightarrow> js_error + vnode" where
  "setting s =
     err_bind (pool_list_view (data s)) (\<lambda>pools.
     err_bind (pool_edit s) (\<lambda>edit. Inr
       (el ''VResponsive'' [str_attr ''class'' ''d-flex align-center text-center fill-height'']
          [pool_make (data s), pools, edit, alert_popup (data s)])))"

definition app_view :: "app \<Rightarrow> js_error + vnode" where
  "app_view s =
     err_bind (setting s) (\<lambda>main. Inr
       (el ''VApp'' [] [default_bar s, el ''VMain'' [] [main], default_footer (data s)]))"

section \<open>Handlers\<close>

text \<open>\<open>pool_data.pool_list[n].dialog = v\<close>\<close>

definition set_pool_dialog :: "nat \<Rightarrow> jsval \<Rightarrow> (app, unit) js" where
  "set_pool_dialog n v =
     js_bind (js_gets (\<lambda>s. pool_list (data s))) (\<lambda>l.
     js_bind (js_lift (get_prop l (dec_nat n))) (\<lambda>d.
       case (l, d) of
         (JArr xs, JObj kvs) \<Rightarrow>
           js_modify (data_update (pool_list_update (\<lambda>_. JArr (xs[n := JObj (set_key kvs ''dialog'' v)]))))
       | (_, JObj kvs) \<Rightarrow> js_return ()
       | (_, JArr xs) \<Rightarrow> js_return ()
       | _ \<Rightarrow> js_throw TypeError))"

fun update_field :: "model_field \<Rightarrow> jsval \<Rightarrow> (app, unit) js" where
  "update_field F_buckets_directory v = assign (\<lambda>v. buckets_directory_update (\<lambda>_. v)) (Inr v)"
| "update_field F_user v = assign (\<lambda>v. user_update (\<lambda>_. v)) (Inr v)"
| "update_field F_group v = assign (\<lambda>v. group_update (\<lambda>_. v)) (Inr v)"
| "update_field F_pool_list v = assign (\<lambda>v. pool_list_update (\<lambda>_. v)) (Inr v)"
| "update_field F_bucket_name v = assign (\<lambda>v. bucket_name_update (\<lambda>_. v)) (Inr v)"
| "update_field F_bucket_policy v = assign (\<lambda>v. bucket_policy_update (\<lambda>_. v)) (Inr v)"
| "update_field F_menu_visible v = assign (\<lambda>v. menu_visible_update (\<lambda>_. v)) (Inr v)"
| "update_field F_dialog_text v = assign (\<lambda>v. dialog_text_update (\<lambda>_. v)) (Inr v)"
| "update_field F_dark v = js_modify (dark_update (\<lambda>_. v))"
| "update_field (F_pool_dialog n) v = set_pool_dialog n v"

text \<open>
  \<open>v\<close> is the argument of the event, for the handlers that take one. The inputs of
  \<open>Update_readonly\<close> are read-only and never raise their event.
\<close>

fun run_handler :: "handler \<Rightarrow> jsval \<Rightarrow> (app, unit) js" where
  "run_handler Kick_make_pool v = kick_make_pool"
| "run_handler (Kick_edit_pool n) v = kick_edit_pool n"
| "run_handler (Kick_delete_pool n) v = kick_delete_pool n"
| "run_handler Kick_make_bucket v = kick_make_bucket"
| "run_handler (Kick_delete_bucket name) v = kick_delete_bucket name"
| "run_handler (Kick_make_secret rw) v = kick_make_secret rw"
| "run_handler (Kick_delete_secret key) v = kick_delete_secret key"
| "run_handler (Kick_copy_to_clipboard x) v = kick_copy_to_clipboard x"
| "run_handler Kick_copy_url_to_clipboard v = kick_copy_url_to_clipboard"
| "run_handler Change_theme v = js_bind (js_gets dark) change_theme"
| "run_handler Close_menu v = assign (\<lambda>v. menu_visible_update (\<lambda>_. v)) (Inr (JBool False))"
| "run_handler Close_dialog v = assign (\<lambda>v. dialog_visible_update (\<lambda>_. v)) (Inr (JBool False))"
| "run_handler (Close_reason n) v = set_pool_dialog n (JBool False)"
| "run_handler (Update f) v = update_field f v"
| "run_handler Update_key_expiration_time v = js_return ()"
| "run_handler (Update_readonly f) v = js_return ()"

text \<open>
  What happens to the page: a handler of the current tree runs, a date is picked, a reply
  arrives, time passes.
\<close>

datatype app_event =
    Handle handler jsval
  | Pick_date "int option"
  | is_Arrive: Arrive nat reply
  | Tick int

fun app_handle :: "app_event \<Rightarrow> (app, unit) js" where
  "app_handle (Handle h v) = run_handler h v"
| "app_handle (Pick_date t) = js_modify (data_update (key_expiration_time_update (\<lambda>_. t)))"
| "app_handle (Arrive i r) =
     js_bind (js_gets inflight) (\<lambda>rs.
       if i < length rs then js_block
         [js_modify (inflight_update (drop_nth i)),
          on_reply (fst (rs ! i)) (snd (rs ! i)) r]
       else js_return ())"
| "app_handle (Tick t) = js_modify (now_ms_update (\<lambda>_. t))"

end
