(* ===== verification/App_Runs.thy ===== *)
theory App_Runs
  imports App_View
begin

text \<open>
  Runs of the Vue interface: the handlers of the rendered page and the arrivals of replies
  interleave freely. \<open>app_reachable G\<close> holds of the states they lead to from the mounted page,
  where \<open>G\<close> says which events are considered.

  The locale \<open>app_frame\<close> covers every function but the three that store a reply:
  a predicate that is closed under the writes of the others is kept by them. \<open>app_events\<close>
  adds what the predicate has to promise about stored replies and covers all events. They are
  interpreted for the token of the requests (\<open>tokens\<close>) and for the data the templates read
  (\<open>rendering\<close>).
\<close>

section \<open>Reachable states\<close>

definition app_loaded :: "app \<Rightarrow> bool" where
  "app_loaded s \<longleftrightarrow>
     (\<exists>t. data s = init_app_data t) \<and> x_csrf_token s = JStr [] \<and> sent s = [] \<and> inflight s = []"

definition on_page :: "app \<Rightarrow> handler \<Rightarrow> bool" where
  "on_page s h = (case app_view s of Inl e \<Rightarrow> False | Inr t \<Rightarrow> h \<in> set (handlers t))"

fun app_enabled :: "app \<Rightarrow> app_event \<Rightarrow> bool" where
  "app_enabled s (Handle h v) = (on_page s h \<and> (\<forall>f. h \<noteq> Update_readonly f) \<and> h \<noteq> Update_key_expiration_time)"
| "app_enabled s (Pick_date t) = on_page s Update_key_expiration_time"
| "app_enabled s (Arrive i r) = (i < length (inflight s))"
| "app_enabled s (Tick t) = True"

inductive app_step :: "(app \<Rightarrow> app_event \<Rightarrow> bool) \<Rightarrow> app \<Rightarrow> app \<Rightarrow> bool" for G where
  app_event: "app_enabled s ev \<Longrightarrow> G s ev \<Longrightarrow> app_step G s (js_state (app_handle ev) s)"

inductive app_reachable :: "(app \<Rightarrow> app_event \<Rightarrow> bool) \<Rightarrow> app \<Rightarrow> bool" for G where
  app_start: "app_loaded s \<Longrightarrow> app_reachable G (js_state pool_make_data s)"
| app_next: "app_reachable G s \<Longrightarrow> app_step G s t \<Longrightarrow> app_reachable G t"

inductive_cases app_stepE: "app_step G s t"

lemma app_reachable_inv:
  assumes "app_reachable G s"
    and "\<And>s. app_loaded s \<Longrightarrow> P (js_state pool_make_data s)"
    and "\<And>s ev. P s \<Longrightarrow> app_enabled s ev \<Longrightarrow> G s ev \<Longrightarrow> P (js_state (app_handle ev) s)"
  shows "P s"
  using assms(1) by induction (auto intro: assms(2,3) elim: app_stepE)

section \<open>Frames\<close>

text \<open>The fields that say which pools, buckets and keys the page shows.\<close>

definition same_shown :: "app_data \<Rightarrow> app_data \<Rightarrow> bool" where
  "same_shown d d' \<longleftrightarrow>
     pool_list d = pool_list d' \<and> buckets d = buckets d' \<and> access_key_set d = access_key_set d' \<and>
     secrets_rw d = secrets_rw d' \<and> secrets_ro d = secrets_ro d' \<and> secrets_wo d = secrets_wo d'"

locale app_frame =
  fixes P :: "app \<Rightarrow> bool"
  assumes frame_data: "P s \<Longrightarrow> same_shown d (data s) \<Longrightarrow> P (s\<lparr>data := d\<rparr>)"
    and frame_request:
      "P s \<Longrightarrow> rq_headers r = request_headers (x_csrf_token s) \<Longrightarrow>
       P (s\<lparr>sent := sent s @ [r], inflight := qs\<rparr>)"
    and frame_inflight: "P s \<Longrightarrow> P (s\<lparr>inflight := qs\<rparr>)"
    and frame_clipboard: "P s \<Longrightarrow> P (s\<lparr>clipboard := c\<rparr>)"
    and frame_dark: "P s \<Longrightarrow> P (s\<lparr>dark := v\<rparr>)"
    and frame_theme: "P s \<Longrightarrow> P (s\<lparr>theme_name := n\<rparr>)"
    and frame_clock: "P s \<Longrightarrow> P (s\<lparr>now_ms := t\<rparr>)"
begin

lemma keeps_data: "(\<And>d. same_shown (f d) d) \<Longrightarrow> js_keeps P (js_modify (data_update f))"
proof (rule js_keeps_modify)
  fix s
  assume "P s" "\<And>d. same_shown (f d) d"
  then show "P (data_update f s)" using frame_data [of s "f (data s)"] by (cases s) simp
qed

lemma keeps_assign: "(\<And>v d. same_shown (f v d) d) \<Longrightarrow> js_keeps P (assign f r)"
  unfolding assign_def by (intro js_keeps_bind js_keeps_lift keeps_data)

lemma keeps_submit_request: "js_keeps P (submit_request op m p b k)"
  unfolding submit_request_def
  by (rule js_keeps_modify) (rule frame_request, simp_all)

lemmas keeps_prims = js_keeps_intros keeps_submit_request

lemma keeps_api:
  "js_keeps P api_get_user_info" "js_keeps P api_list_pools" "js_keeps P api_make_pool"
  "js_keeps P (api_delete_pool p)" "js_keeps P (api_make_bucket p n b)"
  "js_keeps P (api_delete_bucket p n)" "js_keeps P (api_make_secret p w)"
  "js_keeps P (api_delete_secret p k)"
  unfolding api_get_user_info_def api_list_pools_def api_make_pool_def api_delete_pool_def
    api_make_bucket_def api_delete_bucket_def api_make_secret_def api_delete_secret_def
    pool_path_def Let_def
  by (intro keeps_prims)+

lemma keeps_write_clipboard: "js_keeps P (write_clipboard v)"
  unfolding write_clipboard_def
  by (rule js_keeps_modify) (metis frame_clipboard)

lemma keeps_kicks:
  "js_keeps P kick_make_pool" "js_keeps P (kick_delete_pool n)" "js_keeps P kick_make_bucket"
  "js_keeps P (kick_delete_bucket b)" "js_keeps P (kick_make_secret w)"
  "js_keeps P (kick_delete_secret k)" "js_keeps P (kick_copy_to_clipboard v)"
  "js_keeps P kick_copy_url_to_clipboard"
  unfolding kick_make_pool_def kick_delete_pool_def kick_make_bucket_def kick_delete_bucket_def
    kick_make_secret_def kick_delete_secret_def kick_copy_to_clipboard_def
    kick_copy_url_to_clipboard_def current_pool_def
  by (intro js_keeps_intros keeps_api keeps_write_clipboard)+

lemma keeps_simple_updates:
  "f \<noteq> F_pool_list \<Longrightarrow> (\<And>n. f \<noteq> F_pool_dialog n) \<Longrightarrow> js_keeps P (update_field f v)"
  by (cases f) (auto intro!: keeps_assign js_keeps_modify frame_dark simp: same_shown_def)

lemma keeps_change_theme: "js_keeps P (change_theme v)"
  unfolding change_theme_def by (rule js_keeps_modify) (metis frame_theme)

lemma keeps_drop_inflight: "js_keeps P (js_modify (inflight_update (drop_nth i)))"
proof (rule js_keeps_modify)
  show "P s \<Longrightarrow> P (inflight_update (drop_nth i) s)" for s
    using frame_inflight [of s "drop_nth i (inflight s)"] by (cases s) simp
qed

lemma keeps_error_reply:
  "js_keeps P (on_reply op k (Reply False (Some d)))"
  by (auto intro!: js_keeps_intros keeps_assign simp: same_shown_def)

end

text \<open>
  \<open>pool_ok\<close> and \<open>list_ok\<close> are what the stored replies have to satisfy, \<open>info_ok\<close> the replies to
  the request of the user information.
\<close>

locale app_events = app_frame +
  fixes pool_ok list_ok info_ok :: "jsval \<Rightarrow> bool"
  assumes store_pool: "pool_ok d \<Longrightarrow> js_keeps P (set_pool_data d)"
    and store_list: "list_ok d \<Longrightarrow> js_keeps P (set_pool_list d)"
    and store_info: "info_ok d \<Longrightarrow> js_keeps P (set_user_info_data d)"
    and listed_pool_ok:
      "P s \<Longrightarrow> get_prop (pool_list (data s)) (dec_nat n) = Inr d \<Longrightarrow> pool_ok (JObj [(''pool_desc'', d)])"
    and store_dialog: "js_keeps P (set_pool_dialog n v)"
begin

fun reply_ok :: "process_fn \<Rightarrow> jsval \<Rightarrow> bool" where
  "reply_ok Set_user_info_data d = info_ok d"
| "reply_ok Set_pool_list d = list_ok d"
| "reply_ok Set_pool_data d = pool_ok d"
| "reply_ok List_pools d = True"

lemma keeps_kick_edit_pool: "js_keeps P (kick_edit_pool n)"
  unfolding kick_edit_pool_def edit_pool_def
proof (rule js_keeps_bind_gets)
  fix s
  assume "P s"
  then show "P (snd (js_bind (js_lift (get_prop (pool_list (data s)) (dec_nat n)))
      (\<lambda>d. set_pool_data (JObj [(''pool_desc'', d)])) s))"
    using store_pool listed_pool_ok
    by (cases "get_prop (pool_list (data s)) (dec_nat n)")
      (auto simp: js_exec dest: js_keepsD)
qed

lemma keeps_on_reply:
  assumes "\<And>d. r = Reply True (Some d) \<Longrightarrow> reply_ok k d"
  shows "js_keeps P (on_reply op k r)"
proof (cases r)
  case (Reply ok b)
  show ?thesis
  proof (cases b)
    case (Some d)
    show ?thesis
    proof (cases ok)
      case True
      with Reply Some assms have "reply_ok k d" by simp
      then have "js_keeps P (run_process k d)"
        by (cases k) (simp_all add: store_pool store_list store_info keeps_api)
      with True Reply Some show ?thesis by simp
    next
      case False
      with Reply Some show ?thesis using keeps_error_reply [of op k d] by simp
    qed
  qed (simp add: Reply js_keeps_throw)
qed (simp add: js_keeps_return)

lemma keeps_run_handler: "h \<noteq> Update F_pool_list \<Longrightarrow> js_keeps P (run_handler h v)"
proof (cases h)
  case (Update f)
  assume "h \<noteq> Update F_pool_list"
  with Update show ?thesis
    using keeps_simple_updates [of f v] store_dialog by (cases f) auto
qed (auto intro!: keeps_kicks keeps_kick_edit_pool js_keeps_intros keeps_change_theme keeps_assign
       store_dialog simp: same_shown_def)

lemma keeps_arrive:
  assumes "P s" and "\<And>d. i < length (inflight s) \<Longrightarrow> r = Reply True (Some d) \<Longrightarrow> reply_ok (snd (inflight s ! i)) d"
  shows "P (js_state (app_handle (Arrive i r)) s)"
proof (cases "i < length (inflight s)")
  case True
  let ?k = "on_reply (fst (inflight s ! i)) (snd (inflight s ! i)) r"
  have "js_keeps P (js_block [js_modify (inflight_update (drop_nth i)), ?k])"
    using keeps_on_reply assms(2) True by (auto intro!: js_keeps_intros keeps_drop_inflight)
  from js_keepsD [OF this assms(1)] True show ?thesis
    by (simp add: js_state_def js_bind_def js_gets_def)
qed (simp add: assms js_state_def js_exec)

lemma keeps_app_handle:
  assumes "P s" and "\<And>v. ev \<noteq> Handle (Update F_pool_list) v"
    and "\<And>i d. ev = Arrive i (Reply True (Some d)) \<Longrightarrow> i < length (inflight s) \<Longrightarrow> reply_ok (snd (inflight s ! i)) d"
  shows "P (js_state (app_handle ev) s)"
proof (cases ev)
  case (Handle h v)
  with assms(2) [of v] show ?thesis
    using js_keeps_state [OF keeps_run_handler [of h v] assms(1)] by simp
next
  case (Pick_date t)
  show ?thesis
    using js_keeps_state [OF keeps_data assms(1)] Pick_date by (simp add: same_shown_def)
next
  case (Arrive i r)
  then show ?thesis using keeps_arrive [of s i r] assms by simp
next
  case (Tick t)
  show ?thesis using frame_clock [OF assms(1), of t] Tick by (simp add: js_state_def js_exec)
qed

end

section \<open>The token of the requests\<close>

definition carries_token :: "jsval \<Rightarrow> request list \<Rightarrow> app \<Rightarrow> bool" where
  "carries_token v old s \<longleftrightarrow> x_csrf_token s = v \<and>
     (\<exists>new. sent s = old @ new \<and> (\<forall>r \<in> set new. rq_headers r = request_headers v))"

interpretation tokens: app_frame "carries_token v old" for v old
proof (unfold_locales, goal_cases)
  case (2 s r qs)
  then obtain new where "sent s = old @ new" "\<forall>r \<in> set new. rq_headers r = request_headers v"
    by (auto simp: carries_token_def)
  with 2 show ?case by (auto simp: carries_token_def intro!: exI [of _ "new @ [r]"])
qed (auto simp: carries_token_def)

lemma tokens_assign: "js_keeps (carries_token v old) (assign f r)"
  unfolding assign_def
  by (auto intro!: js_keeps_bind js_keeps_lift js_keeps_modify simp: carries_token_def)

lemma tokens_set_pool_data: "js_keeps (carries_token v old) (set_pool_data d)"
  unfolding set_pool_data_def by (auto intro!: js_keeps_intros tokens_assign)

lemma tokens_set_pool_list: "js_keeps (carries_token v old) (set_pool_list d)"
  unfolding set_pool_list_def by (auto intro!: js_keeps_intros tokens_assign)

lemma tokens_set_pool_dialog: "js_keeps (carries_token v old) (set_pool_dialog n w)"
  unfolding set_pool_dialog_def
  by (auto intro!: js_keeps_intros js_keeps_modify simp: carries_token_def split: jsval.split)

interpretation tokens: app_events "carries_token v old" "\<lambda>_. True" "\<lambda>_. True" "\<lambda>_. False" for v old
  by unfold_locales
    (simp_all add: tokens_set_pool_data tokens_set_pool_list tokens_set_pool_dialog)

lemma carries_token_now: "carries_token (x_csrf_token s) (sent s) s"
  by (auto simp: carries_token_def)

text \<open>A reply to the request of the user information changes the token before anything is sent.\<close>

lemma set_user_info_data_token:
  fixes s :: app and d :: jsval
  defines "s' \<equiv> snd (set_user_info_data d s)"
  shows "carries_token (x_csrf_token s') (sent s) s' \<and>
    (x_csrf_token s' = x_csrf_token s \<or> get_prop d ''x_csrf_token'' = Inr (x_csrf_token s'))"
proof -
  consider u w t where "get_prop d ''user_info'' = Inr u" "get_prop u ''api_version'' = Inr w"
      "get_prop d ''x_csrf_token'' = Inr t" | "s' = s"
  proof (cases "get_prop d ''user_info''")
    case (Inl e)
    then show ?thesis using that(2) by (simp add: s'_def set_user_info_data_def js_bind_lift)
  next
    case u: (Inr u)
    then obtain t where t: "get_prop d ''x_csrf_token'' = Inr t" by (cases d) auto
    show ?thesis
    proof (cases "get_prop u ''api_version''")
      case (Inl e)
      then show ?thesis using that(2) u by (simp add: s'_def set_user_info_data_def js_bind_lift)
    qed (use that(1) u t in blast)
  qed
  then show ?thesis
  proof cases
    case 1
    define v where "v = (if t = JUndef \<or> t = JNull then x_csrf_token s else t)"
    define s1 where "s1 = (if t = JUndef \<or> t = JNull then s else s\<lparr>x_csrf_token := t\<rparr>)"
    define rest where "rest = js_block
       [js_bind (js_gets base_path) (\<lambda>base. assign (\<lambda>v. data_base_path_update (\<lambda>_. v)) (Inr (JStr base))),
        assign (\<lambda>v. user_update (\<lambda>_. v)) (get_prop u ''uid''),
        assign (\<lambda>v. group_update (\<lambda>_. v)) (err_bind (get_prop u ''groups'') (\<lambda>g. get_prop g ''0'')),
        assign (\<lambda>v. group_choices_update (\<lambda>_. v)) (get_prop u ''groups''),
        assign (\<lambda>v. lens3_version_update (\<lambda>_. v)) (get_prop u ''lens3_version''),
        assign (\<lambda>v. s3_url_update (\<lambda>_. v)) (get_prop u ''s3_url''),
        assign (\<lambda>v. footer_banner_update (\<lambda>_. v)) (get_prop u ''footer_banner''),
        assign (\<lambda>v. edit_pool_visible_update (\<lambda>_. v)) (Inr (JBool False)),
        api_list_pools]"
    have s': "s' = snd (rest s1)"
      using 1 unfolding s'_def set_user_info_data_def rest_def s1_def
      by (simp add: js_bind_lift js_block_Cons_ok [where x = "()"] js_exec_simps(1,5))
    have "carries_token v (sent s) s1"
      by (simp add: carries_token_def s1_def v_def)
    moreover have "js_keeps (carries_token v (sent s)) rest"
      unfolding rest_def by (auto intro!: js_keeps_intros tokens_assign tokens.keeps_api)
    ultimately have "carries_token v (sent s) s'"
      unfolding s' by (rule js_keepsD [rotated])
    then show ?thesis using 1 by (auto simp: carries_token_def v_def)
  next
    case 2
    then show ?thesis using carries_token_now by simp
  qed
qed


section \<open>The page always renders\<close>

definition nullish :: "jsval \<Rightarrow> bool" where
  "nullish v = (v = JUndef \<or> v = JNull)"

text \<open>The values whose elements a \<open>v-for\<close> can loop over, reading a property of each.\<close>

fun rows_ok :: "jsval \<Rightarrow> bool" where
  "rows_ok (JArr xs) = (\<forall>x \<in> set xs. \<not> nullish x)"
| "rows_ok (JObj kvs) = (\<forall>(k, x) \<in> set kvs. \<not> nullish x)"
| "rows_ok (JNum n) = (0 \<le> n)"
| "rows_ok JNaN = False"
| "rows_ok _ = True"

lemma get_prop_ok: "\<not> nullish v \<Longrightarrow> \<exists>w. get_prop v k = Inr w"
  by (cases v) (auto simp: nullish_def)

lemma renderList_ok:
  assumes "rows_ok v" and "\<And>x k i. \<not> nullish x \<Longrightarrow> \<exists>y. f x k i = Inr y"
  shows "\<exists>ys. renderList v f = Inr ys"
proof -
  have loop: "\<exists>ys. err_map g is = Inr ys" if "\<And>i. i \<in> set is \<Longrightarrow> \<exists>y. g i = Inr y" for g :: "nat \<Rightarrow> js_error + 'a" and "is"
    using that by (induction "is") (auto simp: err_bind_eq_Inr)
  show ?thesis
  proof (cases v)
    case (JArr xs)
    then show ?thesis using assms by (simp, intro loop) simp
  next
    case (JObj kvs)
    then have "i < length kvs \<Longrightarrow> \<not> nullish (snd (kvs ! i))" for i
      using assms(1) nth_mem [of i kvs] by (auto simp: case_prod_unfold)
    then show ?thesis using JObj assms(2) by (simp, intro loop) simp
  qed (use assms in \<open>auto intro!: loop simp: nullish_def\<close>)
qed

text \<open>Each row and card renders on every value but \<open>null\<close> and \<open>undefined\<close>.\<close>

lemma row_ok:
  assumes "\<not> nullish x"
  shows "\<exists>t. bucket_row x = Inr t" "\<exists>t. key_row x = Inr t" "\<exists>t. pool_card n x = Inr t"
  unfolding bucket_row_def key_row_def pool_card_def
  by (intro err_bind_ok get_prop_ok [OF assms] exI, rule refl)+

definition desc_ok :: "jsval \<Rightarrow> bool" where
  "desc_ok d = (case get_prop d ''buckets'' of Inl e \<Rightarrow> True | Inr v \<Rightarrow> rows_ok v)"

definition pool_reply_ok :: "jsval \<Rightarrow> bool" where
  "pool_reply_ok d = (case get_prop d ''pool_desc'' of Inl e \<Rightarrow> True | Inr p \<Rightarrow> desc_ok p)"

definition pools_ok :: "jsval \<Rightarrow> bool" where
  "pools_ok v = (case v of JArr xs \<Rightarrow> list_all (\<lambda>x. \<not> nullish x \<and> desc_ok x) xs | _ \<Rightarrow> False)"

definition list_reply_ok :: "jsval \<Rightarrow> bool" where
  "list_reply_ok d = (case get_prop d ''pool_list'' of Inl e \<Rightarrow> True | Inr l \<Rightarrow> pools_ok l)"

definition keys_ok :: "jsval \<Rightarrow> bool" where
  "keys_ok v = (case v of JArr ks \<Rightarrow> list_all (\<lambda>k. \<not> nullish k) ks | _ \<Rightarrow> False)"

definition renders_ok :: "app \<Rightarrow> bool" where
  "renders_ok s \<longleftrightarrow>
     pools_ok (pool_list (data s)) \<and> rows_ok (buckets (data s)) \<and>
     keys_ok (secrets_rw (data s)) \<and> keys_ok (secrets_ro (data s)) \<and> keys_ok (secrets_wo (data s)) \<and>
     (\<exists>ts. renderList (access_key_set (data s)) (\<lambda>ks _ _. key_set_table ks) = Inr ts)"

lemma keys_ok_rows: "keys_ok v \<Longrightarrow> rows_ok v"
  by (cases v) (auto simp: keys_ok_def list_all_iff)

lemma key_set_table_ok: "keys_ok v \<Longrightarrow> \<exists>t. key_set_table (key_set policy v) = Inr t"
proof -
  assume "keys_ok v"
  then obtain rows where "renderList v (\<lambda>k _ _. key_row k) = Inr rows"
    using renderList_ok [OF keys_ok_rows, of v "\<lambda>k _ _. key_row k"] row_ok by auto
  then show ?thesis by (simp add: key_set_table_def key_set_def)
qed

lemma keys_ok_formatted: "format_time_in_keys ks = Inr v \<Longrightarrow> keys_ok v"
proof -
  assume "format_time_in_keys ks = Inr v"
  then obtain fs where fs: "err_map format_key ks = Inr fs" "v = JArr fs"
    by (auto simp: format_time_in_keys_def err_bind_eq_Inr)
  have "\<not> nullish k" if "k \<in> set fs" for k
    using err_map_set [OF fs(1) that] by (auto simp: format_key_def err_bind_eq_Inr nullish_def)
  with fs show ?thesis by (simp add: keys_ok_def list_all_iff)
qed

interpretation rendering: app_frame renders_ok
  by unfold_locales (auto simp: renders_ok_def same_shown_def)

text \<open>Assignments to the fields the templates read.\<close>

lemma rendering_assign:
  assumes "\<And>v d. r = Inr v \<Longrightarrow> pools_ok (pool_list d) \<Longrightarrow> pools_ok (pool_list (f v d))"
    and "\<And>v d. r = Inr v \<Longrightarrow> rows_ok (buckets d) \<Longrightarrow> rows_ok (buckets (f v d))"
    and "\<And>v d. r = Inr v \<Longrightarrow> keys_ok (secrets_rw d) \<Longrightarrow> keys_ok (secrets_rw (f v d))"
    and "\<And>v d. r = Inr v \<Longrightarrow> keys_ok (secrets_ro d) \<Longrightarrow> keys_ok (secrets_ro (f v d))"
    and "\<And>v d. r = Inr v \<Longrightarrow> keys_ok (secrets_wo d) \<Longrightarrow> keys_ok (secrets_wo (f v d))"
    and "\<And>v d. r = Inr v \<Longrightarrow> access_key_set (f v d) = access_key_set d"
  shows "js_keeps renders_ok (assign f r)"
  unfolding assign_def
  by (intro js_keeps_bind_lift js_keeps_modify) (simp add: renders_ok_def assms)

lemma rendering_key_set:
  "js_keeps renders_ok (js_bind (js_gets data) (\<lambda>p. assign (\<lambda>v. access_key_set_update (\<lambda>_. v)) (Inr (JArr
     [key_set ''readwrite'' (secrets_rw p), key_set ''readonly'' (secrets_ro p),
      key_set ''writeonly'' (secrets_wo p)]))))"
proof (rule js_keeps_bind_gets)
  fix s
  assume ok: "renders_ok s"
  let ?p = "data s"
  obtain a b c where "key_set_table (key_set ''readwrite'' (secrets_rw ?p)) = Inr a"
    "key_set_table (key_set ''readonly'' (secrets_ro ?p)) = Inr b"
    "key_set_table (key_set ''writeonly'' (secrets_wo ?p)) = Inr c"
    using ok key_set_table_ok unfolding renders_ok_def by metis
  then show "renders_ok (snd (assign (\<lambda>v. access_key_set_update (\<lambda>_. v)) (Inr (JArr
     [key_set ''readwrite'' (secrets_rw ?p), key_set ''readonly'' (secrets_ro ?p),
      key_set ''writeonly'' (secrets_wo ?p)])) s))"
    using ok by (simp add: assign_def js_exec renders_ok_def upt_rec)
qed

lemma rendering_set_pool_data:
  assumes "pool_reply_ok d"
  shows "js_keeps renders_ok (set_pool_data d)"
proof -
  have rows: "rows_ok v" if "get_prop d ''pool_desc'' = Inr p" "get_prop p ''buckets'' = Inr v" for p v
    using assms that by (simp add: pool_reply_ok_def desc_ok_def)
  show ?thesis
    unfolding set_pool_data_def
    by (auto intro!: js_keeps_bind_lift js_keeps_block rendering_assign rendering_key_set)
      (erule keys_ok_formatted | erule (1) rows)+
qed

lemma rendering_set_pool_list: "list_reply_ok d \<Longrightarrow> js_keeps renders_ok (set_pool_list d)"
  unfolding set_pool_list_def
  by (auto intro!: js_keeps_bind_lift js_keeps_block rendering_assign simp: list_reply_ok_def)

lemma rendering_set_user_info_data: "js_keeps renders_ok (set_user_info_data d)"
  unfolding set_user_info_data_def
  by (auto intro!: js_keeps_intros rendering_assign rendering.keeps_api js_keeps_modify
      simp: renders_ok_def)

lemma desc_ok_set_dialog: "desc_ok (JObj (set_key kvs ''dialog'' v)) = desc_ok (JObj kvs)"
  by (simp add: desc_ok_def)

lemma rendering_set_pool_dialog: "js_keeps renders_ok (set_pool_dialog n v)"
  unfolding set_pool_dialog_def
proof (rule js_keeps_bind_gets)
  fix s
  assume ok: "renders_ok s"
  then obtain xs where xs: "pool_list (data s) = JArr xs" "\<forall>x \<in> set xs. \<not> nullish x \<and> desc_ok x"
    by (auto simp: renders_ok_def pools_ok_def list_all_iff split: jsval.splits)
  show "renders_ok (snd (js_bind (js_lift (get_prop (pool_list (data s)) (dec_nat n))) (\<lambda>d.
       case (pool_list (data s), d) of
         (JArr xs, JObj kvs) \<Rightarrow>
           js_modify (data_update (pool_list_update (\<lambda>_. JArr (xs[n := JObj (set_key kvs ''dialog'' v)]))))
       | (_, JObj kvs) \<Rightarrow> js_return ()
       | (_, JArr xs) \<Rightarrow> js_return ()
       | _ \<Rightarrow> js_throw TypeError) s))"
  proof (cases "n < length xs")
    case True
    show ?thesis
    proof (cases "xs ! n")
      case (JObj kvs)
      with xs True have "desc_ok (JObj kvs)" by (metis nth_mem)
      with xs JObj True have "pools_ok (JArr (xs[n := JObj (set_key kvs ''dialog'' v)]))"
        by (auto simp: pools_ok_def list_all_iff desc_ok_set_dialog nullish_def dest!: set_update_subset_insert [THEN subsetD])
      with ok xs JObj True show ?thesis by (simp add: js_exec renders_ok_def)
    qed (use ok xs True in \<open>simp_all add: js_exec\<close>)
  qed (use ok xs in \<open>simp_all add: js_exec\<close>)
qed

lemma listed_pool_reply_ok:
  assumes "renders_ok s" and "get_prop (pool_list (data s)) (dec_nat n) = Inr d"
  shows "pool_reply_ok (JObj [(''pool_desc'', d)])"
proof -
  obtain xs where xs: "pool_list (data s) = JArr xs" "\<forall>x \<in> set xs. desc_ok x"
    using assms(1) by (auto simp: renders_ok_def pools_ok_def list_all_iff split: jsval.splits)
  then have "desc_ok d"
    using assms(2) nth_mem [of n xs] by (cases "n < length xs") (auto simp: desc_ok_def)
  then show ?thesis by (simp add: pool_reply_ok_def)
qed

interpretation rendering: app_events renders_ok pool_reply_ok list_reply_ok "\<lambda>_. True"
  by unfold_locales
    (simp_all add: rendering_set_pool_data rendering_set_pool_list rendering_set_user_info_data
      rendering_set_pool_dialog listed_pool_reply_ok)

lemma renders_ok_start: "app_loaded s \<Longrightarrow> renders_ok (js_state pool_make_data s)"
proof -
  assume "app_loaded s"
  then have "renders_ok s"
    by (auto simp: app_loaded_def renders_ok_def init_app_data_def pools_ok_def keys_ok_def)
  then show ?thesis
    unfolding pool_make_data_def by (rule js_keeps_state [OF rendering.keeps_api(1)])
qed

text \<open>
  The replies of a registrar that keeps its side of the contract: a list of pools is an array of
  descriptions, the buckets of a description can be looped over. The slide group of the page
  has no item that can be toggled, so it never writes the list.
\<close>

fun replies_ok :: "app \<Rightarrow> app_event \<Rightarrow> bool" where
  "replies_ok s (Handle h v) = (h \<noteq> Update F_pool_list)"
| "replies_ok s (Arrive i (Reply True (Some d))) =
     (case snd (inflight s ! i) of
        Set_pool_list \<Rightarrow> list_reply_ok d
      | Set_pool_data \<Rightarrow> pool_reply_ok d
      | _ \<Rightarrow> True)"
| "replies_ok s ev = True"

lemma app_reachable_renders_ok: "app_reachable replies_ok s \<Longrightarrow> renders_ok s"
proof (erule app_reachable_inv)
  fix s ev
  assume "renders_ok s" "replies_ok s ev"
  then show "renders_ok (js_state (app_handle ev) s)"
    by (intro rendering.keeps_app_handle)
      (auto split: process_fn.splits simp: rendering.reply_ok.simps)
qed (rule renders_ok_start)

lemma pool_list_view_ok: "pools_ok (pool_list d) \<Longrightarrow> \<exists>t. pool_list_view d = Inr t"
proof -
  assume "pools_ok (pool_list d)"
  then obtain xs where xs: "pool_list d = JArr xs" "\<forall>x \<in> set xs. \<not> nullish x"
    by (auto simp: pools_ok_def list_all_iff split: jsval.splits)
  have card: "\<exists>t. pool_card n x = Inr t" if "x \<in> set xs" for n x
    using row_ok xs(2) that by blast
  have "\<exists>cs. err_map (\<lambda>i. err_bind (get_prop (JArr xs) (dec_nat i)) (pool_card i)) is = Inr cs"
    if "\<forall>i \<in> set is. i < length xs" for "is"
    using that card by (induction "is") (auto simp: err_bind_eq_Inr)
  from this [of "[0..<length xs]"] show ?thesis
    by (auto simp: pool_list_view_def pool_cards_def xs(1))
qed

lemma pool_edit_ok: "renders_ok s \<Longrightarrow> \<exists>t. pool_edit s = Inr t"
proof -
  assume ok: "renders_ok s"
  then obtain rows where "renderList (buckets (data s)) (\<lambda>b _ _. bucket_row b) = Inr rows"
    using renderList_ok [of "buckets (data s)" "\<lambda>b _ _. bucket_row b"] row_ok
    by (auto simp: renders_ok_def)
  with ok show ?thesis by (auto simp: renders_ok_def pool_edit_def)
qed

text \<open>
  C4. In every state reached with well-formed replies, whatever the order in
  which they arrive and whatever the user clicks, the page renders: no template reads a
  property of \<open>null\<close> or \<open>undefined\<close>.
\<close>

theorem app_always_renders:
  assumes "app_reachable replies_ok s"
  shows "\<exists>t. app_view s = Inr t"
  using pool_list_view_ok [of "data s"] pool_edit_ok [of s] app_reachable_renders_ok [OF assms]
  by (auto simp: app_view_def setting_def err_bind_eq_Inr renders_ok_def)

end
