(* ===== verification/Registrar.thy ===== *)
theory Registrar
  imports VueShared
begin

text \<open>
  The registrar's side of the API, from \<^verbatim>\<open>src/v2/lens3/registrar.go\<close>,
  \<^verbatim>\<open>table.go\<close>, \<^verbatim>\<open>poolprop.go\<close> and \<^verbatim>\<open>utility.go\<close>: the records behind a pool, what
  is copied of them into a response and its JSON form, and how the bodies of requests are
  decoded and checked. Records carry the prefix of their entries in the key-value store. The
  interfaces are checked against these definitions in the root theory.

  A 64-bit integer is an \<open>int\<close> with its range written out where a value enters. Decoding
  follows \<open>encoding/json\<close> with \<open>DisallowUnknownFields\<close>: field names match without regard to
  case, \<open>null\<close> leaves a field as it is, a value of another type is an error.
  \<open>check_fields_filled\<close> is given a pointer, for which it is always true, and has no effect.
\<close>

section \<open>Records\<close>

datatype bucket_policy = Bucket_policy_RW | Bucket_policy_RO | Bucket_policy_WO | Bucket_policy_NONE

datatype secret_policy =
    Secret_policy_RW | Secret_policy_RO | Secret_policy_WO | Secret_policy_internal_access

record bucket_record =
  bk_Pool :: string
  bk_Bucket :: string
  bk_Bucket_policy :: bucket_policy
  bk_Expiration_time :: int
  bk_Timestamp :: int

record secret_record =
  sx_Pool :: string
  sx_Access_key :: string
  sx_Secret_key :: string
  sx_Secret_policy :: secret_policy
  sx_Expiration_time :: int
  sx_Timestamp :: int

record pool_prop =
  po_Pool :: string
  po_Bucket_directory :: string
  po_Owner_uid :: string
  po_Owner_gid :: string
  po_Probe_key :: string
  po_Expiration_time :: int
  po_Enabled :: bool
  po_Timestamp :: int
  ps_State :: string
  ps_Reason :: string
  uu_Enabled :: bool
  pp_Buckets :: "bucket_record list"
  pp_Secrets :: "secret_record list"

record bucket_data_ui =
  bu_Pool :: string
  bu_Bucket :: string
  bu_Bucket_policy :: string
  bu_Timestamp :: int

record secret_data_ui =
  su_Pool :: string
  su_Access_key :: string
  su_Secret_key :: string
  su_Secret_policy :: string
  su_Expiration_time :: int
  su_Timestamp :: int

record pool_prop_ui =
  pu_Pool :: string
  pu_Bucket_directory :: string
  pu_Owner_uid :: string
  pu_Owner_gid :: string
  pu_Buckets :: "bucket_data_ui list"
  pu_Secrets :: "secret_data_ui list"
  pu_Probe_key :: string
  pu_Expiration_time :: int
  pu_Online_status :: bool
  pu_User_enabled_status :: bool
  pu_Backend_state :: string
  pu_Backend_reason :: string
  pu_Timestamp :: int

record user_info_ui =
  ui_Api_version :: string
  ui_Uid :: string
  ui_Groups :: "string list"
  ui_Lens3_version :: string
  ui_S3_url :: string
  ui_Footer_banner :: string

section \<open>Policies\<close>

fun export_bucket_policy_to_ui :: "bucket_policy \<Rightarrow> string" where
  "export_bucket_policy_to_ui Bucket_policy_NONE = ''none''"
| "export_bucket_policy_to_ui Bucket_policy_WO = ''upload''"
| "export_bucket_policy_to_ui Bucket_policy_RO = ''download''"
| "export_bucket_policy_to_ui Bucket_policy_RW = ''public''"

definition intern_bucket_policy_from_ui :: "string \<rightharpoonup> bucket_policy" where
  "intern_bucket_policy_from_ui = map_of
     [(''none'', Bucket_policy_NONE), (''upload'', Bucket_policy_WO),
      (''download'', Bucket_policy_RO), (''public'', Bucket_policy_RW)]"

text \<open>A lookup of a policy that the table does not have gives the empty string.\<close>

fun export_secret_policy_to_ui :: "secret_policy \<Rightarrow> string" where
  "export_secret_policy_to_ui Secret_policy_RW = ''readwrite''"
| "export_secret_policy_to_ui Secret_policy_RO = ''readonly''"
| "export_secret_policy_to_ui Secret_policy_WO = ''writeonly''"
| "export_secret_policy_to_ui Secret_policy_internal_access = []"

definition intern_secret_policy_from_ui :: "string \<rightharpoonup> secret_policy" where
  "intern_secret_policy_from_ui = map_of
     [(''readwrite'', Secret_policy_RW), (''readonly'', Secret_policy_RO),
      (''writeonly'', Secret_policy_WO)]"

section \<open>Responses\<close>

definition copy_bucket_data_to_ui :: "bucket_record list \<Rightarrow> bucket_data_ui list" where
  "copy_bucket_data_to_ui m =
     map (\<lambda>d. \<lparr>bu_Pool = bk_Pool d, bu_Bucket = bk_Bucket d,
       bu_Bucket_policy = export_bucket_policy_to_ui (bk_Bucket_policy d),
       bu_Timestamp = bk_Timestamp d\<rparr>) m"

text \<open>Keys for internal access are not shown.\<close>

definition copy_secret_data_to_ui :: "secret_record list \<Rightarrow> secret_data_ui list" where
  "copy_secret_data_to_ui m =
     map (\<lambda>d. \<lparr>su_Pool = sx_Pool d, su_Access_key = sx_Access_key d, su_Secret_key = sx_Secret_key d,
       su_Secret_policy = export_secret_policy_to_ui (sx_Secret_policy d),
       su_Expiration_time = sx_Expiration_time d, su_Timestamp = sx_Timestamp d\<rparr>)
       (filter (\<lambda>d. sx_Secret_policy d \<noteq> Secret_policy_internal_access) m)"

definition copy_pool_prop_to_ui :: "pool_prop \<Rightarrow> pool_prop_ui" where
  "copy_pool_prop_to_ui d =
     \<lparr>pu_Pool = po_Pool d, pu_Bucket_directory = po_Bucket_directory d, pu_Owner_uid = po_Owner_uid d,
      pu_Owner_gid = po_Owner_gid d, pu_Buckets = copy_bucket_data_to_ui (pp_Buckets d),
      pu_Secrets = copy_secret_data_to_ui (pp_Secrets d), pu_Probe_key = po_Probe_key d,
      pu_Expiration_time = po_Expiration_time d, pu_Online_status = po_Enabled d,
      pu_User_enabled_status = uu_Enabled d, pu_Backend_state = ps_State d,
      pu_Backend_reason = ps_Reason d, pu_Timestamp = po_Timestamp d\<rparr>"

definition bucket_data_json :: "bucket_data_ui \<Rightarrow> jsval" where
  "bucket_data_json b = JObj
     [(''pool'', JStr (bu_Pool b)), (''name'', JStr (bu_Bucket b)),
      (''bkt_policy'', JStr (bu_Bucket_policy b)), (''modification_time'', JNum (bu_Timestamp b))]"

definition secret_data_json :: "secret_data_ui \<Rightarrow> jsval" where
  "secret_data_json k = JObj
     [(''owner'', JStr (su_Pool k)), (''access_key'', JStr (su_Access_key k)),
      (''secret_key'', JStr (su_Secret_key k)), (''key_policy'', JStr (su_Secret_policy k)),
      (''expiration_time'', JNum (su_Expiration_time k)), (''modification_time'', JNum (su_Timestamp k))]"

definition pool_prop_json :: "pool_prop_ui \<Rightarrow> jsval" where
  "pool_prop_json p = JObj
     [(''pool_name'', JStr (pu_Pool p)), (''buckets_directory'', JStr (pu_Bucket_directory p)),
      (''owner_uid'', JStr (pu_Owner_uid p)), (''owner_gid'', JStr (pu_Owner_gid p)),
      (''buckets'', JArr (map bucket_data_json (pu_Buckets p))),
      (''secrets'', JArr (map secret_data_json (pu_Secrets p))),
      (''probe_key'', JStr (pu_Probe_key p)), (''expiration_time'', JNum (pu_Expiration_time p)),
      (''online_status'', JBool (pu_Online_status p)),
      (''user_enabled_status'', JBool (pu_User_enabled_status p)),
      (''minio_state'', JStr (pu_Backend_state p)), (''minio_reason'', JStr (pu_Backend_reason p)),
      (''modification_time'', JNum (pu_Timestamp p))]"

definition user_info_json :: "user_info_ui \<Rightarrow> jsval" where
  "user_info_json u = JObj
     [(''api_version'', JStr (ui_Api_version u)), (''uid'', JStr (ui_Uid u)),
      (''groups'', JArr (map JStr (ui_Groups u))), (''lens3_version'', JStr (ui_Lens3_version u)),
      (''s3_url'', JStr (ui_S3_url u)), (''footer_banner'', JStr (ui_Footer_banner u))]"

definition success_json :: "int \<Rightarrow> (string \<times> jsval) list" where
  "success_json now = [(''status'', JStr ''success''), (''time'', JNum now)]"

definition pool_prop_response :: "int \<Rightarrow> pool_prop \<Rightarrow> jsval" where
  "pool_prop_response now p =
     JObj (success_json now @ [(''pool_desc'', pool_prop_json (copy_pool_prop_to_ui p))])"

definition pool_list_response :: "int \<Rightarrow> pool_prop list \<Rightarrow> jsval" where
  "pool_list_response now ps =
     JObj (success_json now @ [(''pool_list'', JArr (map (pool_prop_json \<circ> copy_pool_prop_to_ui) ps))])"

definition user_info_response :: "int \<Rightarrow> string \<Rightarrow> user_info_ui \<Rightarrow> jsval" where
  "user_info_response now token u =
     JObj (success_json now @ [(''x_csrf_token'', JStr token), (''user_info'', user_info_json u)])"

text \<open>
  The details of an error are a map that may be nil, which is sent as null: \<open>return_error_response\<close>
  sends none for an error raised before the user is known.
\<close>

definition error_info_json :: "(string \<times> string) list option \<Rightarrow> jsval" where
  "error_info_json info =
     (case info of None \<Rightarrow> JNull | Some m \<Rightarrow> JObj (map (\<lambda>(k, v). (k, JStr v)) m))"

definition error_response :: "int \<Rightarrow> string \<Rightarrow> (string \<times> string) list option \<Rightarrow> jsval" where
  "error_response now err info =
     JObj [(''status'', JStr ''error''),
       (''reason'', JObj [(''error'', JStr err), (''info'', error_info_json info)]),
       (''time'', JNum now)]"

section \<open>Requests\<close>

record make_pool_request =
  mp_Bucket_directory :: string
  mp_Owner_gid :: string

record make_bucket_request =
  mb_Bucket :: string
  mb_Bucket_policy :: string

record make_secret_request =
  ms_Secret_policy :: string
  ms_Expiration_time :: int

definition key_matches :: "string \<Rightarrow> string \<Rightarrow> bool" where
  "key_matches k name = (map lower_char k = map lower_char name)"

definition int64 :: "int \<Rightarrow> bool" where
  "int64 n = (- (2 ^ 63) \<le> n \<and> n < 2 ^ 63)"

text \<open>The value of a field of type \<open>string\<close>, of type \<open>int64\<close>: the old one for \<open>null\<close>.\<close>

fun go_string :: "jsval \<Rightarrow> string \<Rightarrow> string option" where
  "go_string (JStr s) old = Some s"
| "go_string JNull old = Some old"
| "go_string _ old = None"

fun go_int64 :: "jsval \<Rightarrow> int \<Rightarrow> int option" where
  "go_int64 (JNum n) old = (if int64 n then Some n else None)"
| "go_int64 JNull old = Some old"
| "go_int64 _ old = None"

text \<open>Decoding an object field by field into a struct; \<open>f\<close> is \<open>None\<close> for an unknown field.\<close>

fun decode_fields :: "(string \<Rightarrow> jsval \<Rightarrow> 'r \<Rightarrow> 'r option) \<Rightarrow> (string \<times> jsval) list \<Rightarrow> 'r \<Rightarrow> 'r option" where
  "decode_fields f [] r = Some r"
| "decode_fields f ((k, v) # kvs) r =
     (case f k v r of None \<Rightarrow> None | Some r' \<Rightarrow> decode_fields f kvs r')"

fun decode_struct :: "(string \<Rightarrow> jsval \<Rightarrow> 'r \<Rightarrow> 'r option) \<Rightarrow> 'r \<Rightarrow> jsval \<Rightarrow> 'r option" where
  "decode_struct f zero (JObj kvs) = decode_fields f kvs zero"
| "decode_struct f zero JNull = Some zero"
| "decode_struct f zero _ = None"

definition decode_make_pool_request :: "jsval \<Rightarrow> make_pool_request option" where
  "decode_make_pool_request = decode_struct
     (\<lambda>k v r.
        if key_matches k ''buckets_directory''
        then map_option (\<lambda>x. r\<lparr>mp_Bucket_directory := x\<rparr>) (go_string v (mp_Bucket_directory r))
        else if key_matches k ''owner_gid''
        then map_option (\<lambda>x. r\<lparr>mp_Owner_gid := x\<rparr>) (go_string v (mp_Owner_gid r))
        else None)
     \<lparr>mp_Bucket_directory = [], mp_Owner_gid = []\<rparr>"

definition decode_make_bucket_request :: "jsval \<Rightarrow> make_bucket_request option" where
  "decode_make_bucket_request = decode_struct
     (\<lambda>k v r.
        if key_matches k ''name'' then map_option (\<lambda>x. r\<lparr>mb_Bucket := x\<rparr>) (go_string v (mb_Bucket r))
        else if key_matches k ''bkt_policy''
        then map_option (\<lambda>x. r\<lparr>mb_Bucket_policy := x\<rparr>) (go_string v (mb_Bucket_policy r))
        else None)
     \<lparr>mb_Bucket = [], mb_Bucket_policy = []\<rparr>"

definition decode_make_secret_request :: "jsval \<Rightarrow> make_secret_request option" where
  "decode_make_secret_request = decode_struct
     (\<lambda>k v r.
        if key_matches k ''key_policy''
        then map_option (\<lambda>x. r\<lparr>ms_Secret_policy := x\<rparr>) (go_string v (ms_Secret_policy r))
        else if key_matches k ''expiration_time''
        then map_option (\<lambda>x. r\<lparr>ms_Expiration_time := x\<rparr>) (go_int64 v (ms_Expiration_time r))
        else None)
     \<lparr>ms_Secret_policy = [], ms_Expiration_time = 0\<rparr>"

text \<open>
  The checks of a decoded request. Times are in nanoseconds, \<open>yesterday\<close> is
  \<open>now.AddDate(0, 0, -1)\<close> of the server's calendar and \<open>days\<close> the configured life time.
\<close>

definition check_make_secret_request ::
  "int \<Rightarrow> int \<Rightarrow> int \<Rightarrow> make_secret_request \<Rightarrow> string option" where
  "check_make_secret_request yesterday now days args =
     (if intern_secret_policy_from_ui (ms_Secret_policy args) = None then Some ''Bad policy''
      else
        let e = ms_Expiration_time args * 1000000000 in
        if \<not> (yesterday < e \<and> e < now + days) then Some ''Bad expiration'' else None)"

section \<open>Lemmas\<close>

text \<open>Every policy a response shows is read back by the registrar as the policy it stands for.\<close>

lemma bucket_policy_round_trip:
  "intern_bucket_policy_from_ui (export_bucket_policy_to_ui p) = Some p"
  by (cases p) (simp_all add: intern_bucket_policy_from_ui_def)

lemma secret_policy_round_trip:
  "p \<noteq> Secret_policy_internal_access \<Longrightarrow>
   intern_secret_policy_from_ui (export_secret_policy_to_ui p) = Some p"
  by (cases p) (simp_all add: intern_secret_policy_from_ui_def)

lemma export_secret_policy_cases:
  "p \<noteq> Secret_policy_internal_access \<Longrightarrow>
   export_secret_policy_to_ui p \<in> {''readwrite'', ''readonly'', ''writeonly''}"
  by (cases p) simp_all

end
