(* ===== verification/Key_Lists.thy ===== *)
theory Key_Lists
  imports Registrar JsDate
begin

text \<open>
  Both interfaces sort the keys of a pool by policy and print their expiration times, each with
  its own functions and its own form of the time. The locale \<open>key_lists\<close> states what the
  lists of keys rely on; its lemmas say what the lists hold after a response of the registrar.
  It is interpreted for the Vue interface in \<open>App_Contract\<close> and for the simple interface in
  \<open>Ui2_Contract\<close>.
\<close>

text \<open>An expiration time an interface can print: zero, or a time a \<open>Date\<close> can hold.\<close>

definition printable_time :: "int \<Rightarrow> bool" where
  "printable_time n = (n = 0 \<or> time_clip (n * 1000) \<noteq> None)"

definition keys_of_policy :: "string \<Rightarrow> secret_data_ui list \<Rightarrow> secret_data_ui list" where
  "keys_of_policy policy ks = filter (\<lambda>k. su_Secret_policy k = policy) ks"

definition key_json :: "(int \<Rightarrow> jsval) \<Rightarrow> secret_data_ui \<Rightarrow> jsval" where
  "key_json time k = JObj
     [(''access_key'', JStr (su_Access_key k)), (''secret_key'', JStr (su_Secret_key k)),
      (''expiration_time'', time (su_Expiration_time k))]"

lemma time_clip_Some: "time_clip t = Some u \<Longrightarrow> u = t"
  by (auto simp: time_clip_def split: if_splits)

text \<open>The keys of a policy that a response shows are the pool's keys of that policy.\<close>

lemma keys_of_policy_copied:
  fixes p :: pool_prop
  assumes "w \<noteq> Secret_policy_internal_access"
  shows "map (\<lambda>k. (su_Access_key k, su_Secret_key k))
      (keys_of_policy (export_secret_policy_to_ui w) (pu_Secrets (copy_pool_prop_to_ui p))) =
    map (\<lambda>k. (sx_Access_key k, sx_Secret_key k)) (filter (\<lambda>k. sx_Secret_policy k = w) (pp_Secrets p))"
proof -
  have "sx_Secret_policy k \<noteq> Secret_policy_internal_access \<and>
      export_secret_policy_to_ui (sx_Secret_policy k) = export_secret_policy_to_ui w \<longleftrightarrow>
      sx_Secret_policy k = w" for k :: secret_record
    using assms secret_policy_round_trip by (metis option.inject)
  then show ?thesis
    by (simp add: keys_of_policy_def copy_pool_prop_to_ui_def copy_secret_data_to_ui_def filter_map o_def)
qed

lemma printable_copied:
  "\<forall>k \<in> set (pp_Secrets p). printable_time (sx_Expiration_time k) \<Longrightarrow>
   \<forall>k \<in> set (pu_Secrets (copy_pool_prop_to_ui p)). printable_time (su_Expiration_time k)"
  by (auto simp: copy_pool_prop_to_ui_def copy_secret_data_to_ui_def)

locale key_lists =
  fixes fmt_time fmt_key :: "jsval \<Rightarrow> js_error + jsval"
    and fmt_keys :: "jsval list \<Rightarrow> js_error + jsval"
    and has_field :: "string \<Rightarrow> string \<Rightarrow> jsval \<Rightarrow> js_error + bool"
    and time_text :: "int \<Rightarrow> jsval"
  assumes fmt_time: "printable_time n \<Longrightarrow> fmt_time (JNum n) = Inr (time_text n)"
    and fmt_key: "fmt_key k =
      err_bind (get_prop k ''access_key'') (\<lambda>a.
      err_bind (get_prop k ''secret_key'') (\<lambda>sk.
      err_bind (err_bind (get_prop k ''expiration_time'') fmt_time) (\<lambda>e. Inr
        (JObj [(''access_key'', a), (''secret_key'', sk), (''expiration_time'', e)]))))"
    and fmt_keys: "fmt_keys ks = err_bind (err_map fmt_key ks) (\<lambda>ks. Inr (JArr ks))"
    and has_field: "has_field f lit d = err_bind (get_prop d f) (\<lambda>v. Inr (eq_str v lit))"
begin

lemma filter_keys:
  "err_filter (has_field ''key_policy'' policy) (map secret_data_json ks) =
   Inr (map secret_data_json (keys_of_policy policy ks))"
  by (induction ks) (simp_all add: keys_of_policy_def has_field secret_data_json_def)

lemma format_keys:
  assumes "\<forall>k \<in> set ks. printable_time (su_Expiration_time k)"
  shows "fmt_keys (map secret_data_json (keys_of_policy policy ks)) =
     Inr (JArr (map (key_json time_text) (keys_of_policy policy ks)))"
proof -
  have "fmt_key (secret_data_json k) = Inr (key_json time_text k)" if "k \<in> set ks" for k
    using assms that by (simp add: fmt_key secret_data_json_def key_json_def fmt_time)
  then have "err_map fmt_key (map secret_data_json qs) = Inr (map (key_json time_text) qs)"
    if "set qs \<subseteq> set ks" for qs
    using that by (induction qs) auto
  from this [of "keys_of_policy policy ks"] show ?thesis
    by (auto simp: fmt_keys keys_of_policy_def)
qed

end

end
