(* ===== verification/App_Contract.thy ===== *)
theory App_Contract
  imports App_Runs Key_Lists
begin

text \<open>
  The Vue interface against the registrar: what the page shows after a response that the
  registrar builds from a pool's records, what an error response does, which request each
  button sends, and the way of an expiration date from the date picker to the server and back.
\<close>

section \<open>Encoded responses\<close>

definition date_text :: "int \<Rightarrow> jsval" where
  "date_text n = (if n = 0 then JNum 0 else JStr (take 10 (to_iso_string (n * 1000))))"

abbreviation shown_key :: "secret_data_ui \<Rightarrow> jsval" where
  "shown_key \<equiv> key_json date_text"

interpretation keys: key_lists format_time_z format_key format_time_in_keys field_is date_text
proof (unfold_locales, goal_cases)
  case (1 n)
  then show ?case
    by (auto simp: printable_time_def format_time_z_def date_text_def dest: time_clip_Some split: option.splits)
qed (simp_all only: format_key_def format_time_in_keys_def field_is_def)

section \<open>The pool a response brings\<close>

definition show_pool :: "pool_prop_ui \<Rightarrow> app_data \<Rightarrow> app_data" where
  "show_pool u d = d
     \<lparr>pool_name := JStr (pu_Pool u), buckets_directory := JStr (pu_Bucket_directory u),
      user := JStr (pu_Owner_uid u), group := JStr (pu_Owner_gid u),
      buckets := JArr (map bucket_data_json (pu_Buckets u)),
      secrets := JArr (map secret_data_json (pu_Secrets u)),
      probe_key := JStr (pu_Probe_key u), expiration_time := JNum (pu_Expiration_time u),
      online_status := JBool (pu_Online_status u),
      user_enabled_status := JBool (pu_User_enabled_status u),
      minio_state := JStr (pu_Backend_state u), minio_reason := JStr (pu_Backend_reason u),
      modification_time := JNum (pu_Timestamp u),
      secrets_rw := JArr (map shown_key (keys_of_policy ''readwrite'' (pu_Secrets u))),
      secrets_ro := JArr (map shown_key (keys_of_policy ''readonly'' (pu_Secrets u))),
      secrets_wo := JArr (map shown_key (keys_of_policy ''writeonly'' (pu_Secrets u))),
      access_key_set := JArr (map (\<lambda>w. key_set w (JArr (map shown_key (keys_of_policy w (pu_Secrets u)))))
        [''readwrite'', ''readonly'', ''writeonly'']),
      bucket_name := JStr [], bucket_policy := JStr ''none'', edit_pool_visible := JBool True\<rparr>"

lemma assign_Inr: "assign f (Inr v) s = (Inr (), data_update (f v) s)"
  by (simp add: assign_def js_exec)

lemma set_pool_data_response:
  assumes "\<forall>k \<in> set (pu_Secrets u). printable_time (su_Expiration_time k)"
    and "get_prop d ''pool_desc'' = Inr (pool_prop_json u)"
  shows "set_pool_data d s = (Inr (), data_update (show_pool u) s)"
  using keys.format_keys [OF assms(1)] assms(2)
  unfolding set_pool_data_def pool_prop_json_def
  by (simp add: js_bind_lift js_block_Cons_ok [where x = "()"] assign_Inr keys.filter_keys js_exec_simps(4)
      js_bind_def [of "js_gets _"] js_block.simps(1) js_exec_simps(1) show_pool_def o_def)

text \<open>The buckets and the keys for which a tree has a delete button, in the order of the page.\<close>

definition bucket_targets :: "vnode \<Rightarrow> jsval list" where
  "bucket_targets t =
     List.map_filter (\<lambda>h. case h of Kick_delete_bucket b \<Rightarrow> Some b | _ \<Rightarrow> None) (handlers t)"

definition secret_targets :: "vnode \<Rightarrow> jsval list" where
  "secret_targets t =
     List.map_filter (\<lambda>h. case h of Kick_delete_secret k \<Rightarrow> Some k | _ \<Rightarrow> None) (handlers t)"

definition copy_targets :: "vnode \<Rightarrow> jsval list" where
  "copy_targets t =
     List.map_filter (\<lambda>h. case h of Kick_copy_to_clipboard v \<Rightarrow> Some v | _ \<Rightarrow> None) (handlers t)"

lemma map_filter_append: "List.map_filter f (xs @ ys) = List.map_filter f xs @ List.map_filter f ys"
  by (simp add: List.map_filter_def)

lemma map_filter_concat: "List.map_filter f (concat xss) = concat (map (List.map_filter f) xss)"
  by (induction xss) (simp_all add: map_filter_append List.map_filter_def)

lemmas view_nodes = el_def leaf_def tip_button_def icon_button_def readonly_input_def heading_def
  info_card_def table_heading_def make_key_button_def new_bucket_card_def new_key_card_def

lemma err_map_upt_nth: "err_map (\<lambda>i. f (xs ! i)) [0..<length xs] = err_map f xs"
proof -
  have "err_map (\<lambda>i. f (xs ! i)) is = err_map f (map (\<lambda>i. xs ! i) is)" for "is"
    by (induction "is") auto
  then show ?thesis by (simp add: map_nth)
qed

lemma err_map_map: "err_map f (map g xs) = err_map (\<lambda>x. f (g x)) xs"
  by (induction xs) auto

definition bucket_node :: "bucket_data_ui \<Rightarrow> vnode" where
  "bucket_node b = (case bucket_row (bucket_data_json b) of Inr t \<Rightarrow> t | Inl e \<Rightarrow> Comment)"

definition key_node :: "secret_data_ui \<Rightarrow> vnode" where
  "key_node k = (case key_row (shown_key k) of Inr t \<Rightarrow> t | Inl e \<Rightarrow> Comment)"

lemma rows_of_response:
  "renderList (JArr (map bucket_data_json bs)) (\<lambda>b _ _. bucket_row b) = Inr (map bucket_node bs)"
  "renderList (JArr (map shown_key ks)) (\<lambda>k _ _. key_row k) = Inr (map key_node ks)"
proof -
  have "err_map (\<lambda>b. bucket_row (bucket_data_json b)) bs = Inr (map bucket_node bs)"
    by (rule err_map_Inr) (simp add: bucket_node_def bucket_row_def bucket_data_json_def)
  then show "renderList (JArr (map bucket_data_json bs)) (\<lambda>b _ _. bucket_row b) = Inr (map bucket_node bs)"
    using err_map_upt_nth [of bucket_row "map bucket_data_json bs"] by (simp add: err_map_map)
  have "err_map (\<lambda>k. key_row (shown_key k)) ks = Inr (map key_node ks)"
    by (rule err_map_Inr) (simp add: key_node_def key_row_def key_json_def)
  then show "renderList (JArr (map shown_key ks)) (\<lambda>k _ _. key_row k) = Inr (map key_node ks)"
    using err_map_upt_nth [of key_row "map shown_key ks"] by (simp add: err_map_map)
qed

lemma row_handlers:
  "handlers (bucket_node b) =
     [Update_readonly ''name'', Update_readonly ''bkt_policy'', Kick_delete_bucket (JStr (bu_Bucket b))]"
  "handlers (key_node k) =
     [Update_readonly ''access_key'', Kick_copy_to_clipboard (JStr (su_Access_key k)),
      Update_readonly ''secret_key'', Kick_copy_to_clipboard (JStr (su_Secret_key k)),
      Update_readonly ''expiration_time'', Kick_delete_secret (JStr (su_Access_key k))]"
  by (simp_all add: bucket_node_def bucket_row_def bucket_data_json_def key_node_def key_row_def
      key_json_def view_nodes)

definition key_table :: "string \<Rightarrow> secret_data_ui list \<Rightarrow> vnode" where
  "key_table w ks =
     (case key_set_table (key_set w (JArr (map shown_key ks))) of Inr t \<Rightarrow> t | Inl e \<Rightarrow> Comment)"

lemma key_set_table_response:
  "key_set_table (key_set w (JArr (map shown_key ks))) = Inr (key_table w ks)"
  unfolding key_table_def by (simp add: key_set_table_def key_set_def rows_of_response del: renderList.simps)

lemma key_table_handlers: "handlers (key_table w ks) = concat (map (handlers \<circ> key_node) ks)"
  by (simp add: key_table_def key_set_table_def key_set_def rows_of_response view_nodes o_def
      del: renderList.simps)

lemma pool_edit_response:
  assumes "data s = show_pool u d"
  obtains t where "pool_edit s = Inr t"
    and "handlers t =
      [Update F_bucket_name, Update F_bucket_policy, Kick_make_bucket] @
      concat (map (handlers \<circ> bucket_node) (pu_Buckets u)) @
      [Kick_make_secret ''readwrite'', Kick_make_secret ''readonly'', Kick_make_secret ''writeonly'',
       Update_key_expiration_time] @
      concat (map (\<lambda>w. concat (map (handlers \<circ> key_node) (keys_of_policy w (pu_Secrets u))))
        [''readwrite'', ''readonly'', ''writeonly''])"
proof -
  let ?tables = "map (\<lambda>w. key_table w (keys_of_policy w (pu_Secrets u))) [''readwrite'', ''readonly'', ''writeonly'']"
  have tables: "renderList (access_key_set (data s)) (\<lambda>ks _ _. key_set_table ks) = Inr ?tables"
    using err_map_upt_nth [of key_set_table "map (\<lambda>w. key_set w (JArr (map shown_key
        (keys_of_policy w (pu_Secrets u))))) [''readwrite'', ''readonly'', ''writeonly'']"]
    by (simp add: assms show_pool_def key_set_table_response)
  have rows: "renderList (buckets (data s)) (\<lambda>b _ _. bucket_row b) = Inr (map bucket_node (pu_Buckets u))"
    using rows_of_response(1) [of "pu_Buckets u"] by (simp add: assms show_pool_def del: renderList.simps)
  have "truthy (edit_pool_visible (data s))" by (simp add: assms show_pool_def)
  then show ?thesis
    by (intro that) (simp add: pool_edit_def rows tables, simp add: view_nodes key_table_handlers o_def)
qed

lemmas targets_simps = bucket_targets_def secret_targets_def copy_targets_def map_filter_append
  map_filter_concat map_filter_simps row_handlers o_def

text \<open>
  C2. After a response that carries a pool, from any state, the edit pane
  renders and shows exactly that pool: its delete buttons are those of the pool's buckets, in
  order, and those of its keys, read-write ones first, then read-only, then write-only; every
  key but the internal ones is there once for each time the pool has it. The pool's name is
  the one that later requests address.
\<close>

theorem app_edit_shows_pool:
  fixes p :: pool_prop and s :: app and now :: int
  assumes times: "\<forall>k \<in> set (pp_Secrets p). printable_time (sx_Expiration_time k)"
  defines "s' \<equiv> js_state (set_pool_data (pool_prop_response now p)) s"
  shows "fst (set_pool_data (pool_prop_response now p) s) = Inr () \<and>
    pool_name (data s') = JStr (po_Pool p) \<and>
    (\<exists>t. pool_edit s' = Inr t \<and>
       bucket_targets t = map (JStr \<circ> bk_Bucket) (pp_Buckets p) \<and>
       secret_targets t = concat (map (\<lambda>w. map (JStr \<circ> sx_Access_key)
         (filter (\<lambda>k. sx_Secret_policy k = w) (pp_Secrets p)))
         [Secret_policy_RW, Secret_policy_RO, Secret_policy_WO]))"
proof -
  let ?u = "copy_pool_prop_to_ui p"
  have run: "set_pool_data (pool_prop_response now p) s = (Inr (), data_update (show_pool ?u) s)"
    by (rule set_pool_data_response [OF printable_copied [OF times]])
      (simp add: pool_prop_response_def success_json_def)
  then have s': "data s' = show_pool ?u (data s)" by (simp add: s'_def js_state_def)
  from pool_edit_response [OF this] obtain t where t: "pool_edit s' = Inr t" "handlers t =
      [Update F_bucket_name, Update F_bucket_policy, Kick_make_bucket] @
      concat (map (handlers \<circ> bucket_node) (pu_Buckets ?u)) @
      [Kick_make_secret ''readwrite'', Kick_make_secret ''readonly'', Kick_make_secret ''writeonly'',
       Update_key_expiration_time] @
      concat (map (\<lambda>w. concat (map (handlers \<circ> key_node) (keys_of_policy w (pu_Secrets ?u))))
        [''readwrite'', ''readonly'', ''writeonly''])" .
  have buckets: "bucket_targets t = map (JStr \<circ> bk_Bucket) (pp_Buckets p)"
    by (simp add: targets_simps t(2) copy_pool_prop_to_ui_def copy_bucket_data_to_ui_def)
  have policy: "map (JStr \<circ> su_Access_key) (keys_of_policy (export_secret_policy_to_ui w) (pu_Secrets ?u)) =
      map (JStr \<circ> sx_Access_key) (filter (\<lambda>k. sx_Secret_policy k = w) (pp_Secrets p))"
    if "w \<noteq> Secret_policy_internal_access" for w
    using arg_cong [OF keys_of_policy_copied [OF that, of p], of "map (JStr \<circ> fst)"] by (simp add: o_def)
  have "secret_targets t = concat (map (\<lambda>w. map (JStr \<circ> su_Access_key) (keys_of_policy w (pu_Secrets ?u)))
      [''readwrite'', ''readonly'', ''writeonly''])"
    by (simp add: targets_simps t(2))
  also have "\<dots> = concat (map (\<lambda>w. map (JStr \<circ> sx_Access_key)
      (filter (\<lambda>k. sx_Secret_policy k = w) (pp_Secrets p)))
      [Secret_policy_RW, Secret_policy_RO, Secret_policy_WO])"
    using policy [of Secret_policy_RW] policy [of Secret_policy_RO] policy [of Secret_policy_WO]
    by simp
  finally show ?thesis
    using run s' t(1) buckets by (auto simp: show_pool_def copy_pool_prop_to_ui_def)
qed

section \<open>The list of pools\<close>

definition pool_descs :: "pool_prop list \<Rightarrow> jsval" where
  "pool_descs ps = JArr (map (pool_prop_json \<circ> copy_pool_prop_to_ui) ps)"

definition card_node :: "nat \<Rightarrow> pool_prop \<Rightarrow> vnode" where
  "card_node n p =
     (case pool_card n (pool_prop_json (copy_pool_prop_to_ui p)) of Inr t \<Rightarrow> t | Inl e \<Rightarrow> Comment)"

definition reason_handlers :: "nat \<Rightarrow> pool_prop \<Rightarrow> handler list" where
  "reason_handlers n p = (if ps_Reason p = ''-'' then [] else [Update (F_pool_dialog n), Close_reason n])"

lemma pool_card_response: "pool_card n (pool_prop_json (copy_pool_prop_to_ui p)) = Inr (card_node n p)"
  by (simp add: card_node_def pool_card_def pool_prop_json_def)

lemma card_node_handlers:
  "handlers (card_node n p) = reason_handlers n p @ [Kick_edit_pool n, Kick_delete_pool n]"
  by (simp add: card_node_def pool_card_def pool_prop_json_def copy_pool_prop_to_ui_def view_nodes
      table_row_def reason_button_def reason_handlers_def)

lemma pool_cards_response:
  "pool_cards (pool_descs ps) (JNum (int (length ps))) =
   Inr (map (\<lambda>n. card_node n (ps ! n)) [0..<length ps])"
proof -
  have "err_map (\<lambda>i. err_bind (get_prop (pool_descs ps) (dec_nat i)) (pool_card i)) [0..<length ps] =
      Inr (map (\<lambda>n. card_node n (ps ! n)) [0..<length ps])"
    by (rule err_map_Inr) (simp add: pool_descs_def pool_card_response)
  then show ?thesis by (simp add: pool_cards_def)
qed

text \<open>The nodes of a rendered tree in the order of the page, those of one tag, and the texts shown.\<close>

fun nodes_in :: "vnode \<Rightarrow> vnode list" where
  "nodes_in (Elem t as ss) = Elem t as ss # concat (map (\<lambda>(n, ks). concat (map nodes_in ks)) ss)"
| "nodes_in v = [v]"

fun has_tag :: "string \<Rightarrow> vnode \<Rightarrow> bool" where
  "has_tag t (Elem t' as ss) = (t = t')"
| "has_tag t _ = False"

definition elements :: "string \<Rightarrow> vnode \<Rightarrow> vnode list" where
  "elements t v = filter (has_tag t) (nodes_in v)"

fun texts :: "vnode \<Rightarrow> string list" where
  "texts (Text t) = [t]"
| "texts Comment = []"
| "texts (Elem t as ss) = concat (map (\<lambda>(n, ks). concat (map texts ks)) ss)"

text \<open>What the card of a pool has to show: its directory as the title and its table.\<close>

definition card_table :: "pool_prop \<Rightarrow> string list list" where
  "card_table p =
     [[''uid'', po_Owner_uid p],
      [''gid'', po_Owner_gid p],
      [''backend-state'', ps_State p @ '' ''] @
        (if ps_Reason p = ''-'' then [] else ['' Reason '', ps_Reason p, '' Close '']),
      [''online?'', if po_Enabled p then ''true'' else ''false''],
      [''enabled?'', if uu_Enabled p then ''true'' else ''false''],
      [''internal-id'', po_Pool p]]"

lemma card_node_elements:
  "elements ''VSlideGroupItem'' (card_node n p) = [card_node n p]"
  "map texts (elements ''VCardTitle'' (card_node n p)) = [[po_Bucket_directory p]]"
  "map texts (elements ''tr'' (card_node n p)) = card_table p"
  by (simp_all add: elements_def card_node_def pool_card_def pool_prop_json_def copy_pool_prop_to_ui_def
      view_nodes table_row_def reason_button_def card_table_def)

lemma elements_concat:
  "filter (has_tag t) (concat (map nodes_in ks)) = concat (map (elements t) ks)"
  by (induction ks) (simp_all add: elements_def)

lemma card_nodes_elements:
  "concat (map (elements ''VSlideGroupItem'') (map (\<lambda>n. card_node n (ps ! n)) ns)) =
   map (\<lambda>n. card_node n (ps ! n)) ns"
  by (induction ns) (simp_all add: card_node_elements)

lemma pool_list_view_response:
  assumes "pool_list d = pool_descs ps" and "ps \<noteq> []"
  obtains t where "pool_list_view d = Inr t"
    and "elements ''VSlideGroupItem'' t = map (\<lambda>n. card_node n (ps ! n)) [0..<length ps]"
    and "handlers t = Update F_pool_list # concat (map handlers (map (\<lambda>n. card_node n (ps ! n)) [0..<length ps]))"
proof -
  let ?cards = "map (\<lambda>n. card_node n (ps ! n)) [0..<length ps]"
  have "get_prop (pool_list d) ''length'' = Inr (JNum (int (length ps)))"
    by (simp add: assms(1) pool_descs_def)
  with assms show ?thesis
    by (intro that) (simp add: pool_list_view_def pool_cards_response,
        simp add: view_nodes elements_def elements_concat [of _ ?cards, simplified] card_nodes_elements [simplified],
        simp add: view_nodes o_def)
qed

lemma set_pool_list_response:
  "set_pool_list (pool_list_response now ps) s =
     (Inr (), data_update (\<lambda>d. d\<lparr>pool_list := pool_descs ps, edit_pool_visible := JBool False\<rparr>) s)"
  by (simp add: set_pool_list_def pool_list_response_def success_json_def pool_descs_def js_bind_lift
      js_block_Cons_ok [where x = "()"] assign_Inr js_block.simps(1) js_exec_simps(1) o_def)

text \<open>
  C12. After a response with a list of pools the page shows one
  card for each, in the order of the response: card \<open>n\<close> has the directory, the owner, the state and
  the identifier of pool \<open>n\<close>, and its buttons are one for editing and one for deleting (and those of
  the dialog with the reason of the state, if there is one); the view has no other button. The
  delete button of card \<open>n\<close>, clicked while that list is shown, sends one request that deletes
  pool \<open>n\<close> and no other.
\<close>

theorem app_pool_buttons_address_their_pools:
  fixes s :: app and ps :: "pool_prop list"
  assumes "ps \<noteq> []"
  shows "\<exists>t cards. pool_list_view (data (js_state (set_pool_list (pool_list_response now ps)) s)) = Inr t \<and>
     elements ''VSlideGroupItem'' t = cards \<and> length cards = length ps \<and>
     handlers t = Update F_pool_list # concat (map handlers cards) \<and>
     (\<forall>n < length ps.
        map texts (elements ''VCardTitle'' (cards ! n)) = [[po_Bucket_directory (ps ! n)]] \<and>
        map texts (elements ''tr'' (cards ! n)) = card_table (ps ! n) \<and>
        handlers (cards ! n) = reason_handlers n (ps ! n) @ [Kick_edit_pool n, Kick_delete_pool n]) \<and>
     (\<forall>s' n. pool_list (data s') = pool_list (data (js_state (set_pool_list (pool_list_response now ps)) s)) \<and>
        n < length ps \<longrightarrow>
        sent (js_state (run_handler (Kick_delete_pool n) v) s') = sent s' @
          [\<lparr>rq_method = ''DELETE'', rq_path = base_path s' @ ''/pool/'' @ po_Pool (ps ! n),
            rq_body = Some ''{}'', rq_headers = request_headers (x_csrf_token s')\<rparr>])"
proof -
  let ?d = "data (js_state (set_pool_list (pool_list_response now ps)) s)"
  let ?cards = "map (\<lambda>n. card_node n (ps ! n)) [0..<length ps]"
  have d: "pool_list ?d = pool_descs ps"
    by (simp add: js_state_def set_pool_list_response)
  from pool_list_view_response [OF this assms] obtain t where t: "pool_list_view ?d = Inr t"
    "elements ''VSlideGroupItem'' t = ?cards" "handlers t = Update F_pool_list # concat (map handlers ?cards)" .
  have "sent (js_state (run_handler (Kick_delete_pool n) v) s') = sent s' @
        [\<lparr>rq_method = ''DELETE'', rq_path = base_path s' @ ''/pool/'' @ po_Pool (ps ! n),
          rq_body = Some ''{}'', rq_headers = request_headers (x_csrf_token s')\<rparr>]"
    if "pool_list (data s') = pool_descs ps" "n < length ps" for s' n
    using that
    by (simp add: js_state_def kick_delete_pool_def pool_descs_def pool_prop_json_def js_exec
        copy_pool_prop_to_ui_def api_delete_pool_def submit_request_def)
  with t d show ?thesis
    by (intro exI [of _ t] exI [of _ ?cards]) (simp add: card_node_elements card_node_handlers)
qed

section \<open>Errors\<close>

text \<open>
  C13. An error response of the registrar, to whatever request, changes
  nothing but the alert: the alert is shown with the operation and the reason, the handler ends
  with an error, no request is sent, and closing the alert hides it again.
\<close>

theorem app_error_reply_only_alerts:
  fixes s :: app
  shows "\<exists>slots. error_slots (error_response now err info) = Inr slots \<and>
    on_reply op k (Reply False (Some (error_response now err info))) s =
      (Inl (Thrown (json_stringify (error_response now err info))),
       s\<lparr>data := data s\<lparr>dialog_text := JStr (op @ '' failed: '' @ json_stringify slots),
         dialog_visible := JBool True\<rparr>\<rparr>) \<and>
    alert_popup (data s\<lparr>dialog_text := JStr (op @ '' failed: '' @ json_stringify slots),
      dialog_visible := JBool True\<rparr>) \<noteq> Comment \<and>
    alert_popup (data (js_state (run_handler Close_dialog v) s)) = Comment"
proof -
  let ?d = "error_response now err info"
  obtain slots where slots: "error_slots ?d = Inr slots"
    by (simp add: error_response_def error_slots_def)
  have "on_reply op k (Reply False (Some ?d)) s =
      (Inl (Thrown (json_stringify ?d)),
       s\<lparr>data := data s\<lparr>dialog_text := JStr (op @ '' failed: '' @ json_stringify slots),
         dialog_visible := JBool True\<rparr>\<rparr>)"
    by (cases s) (simp add: slots js_bind_lift assign_Inr js_block_Cons_ok [where x = "()"]
        js_block.simps(2) [of "js_throw _"] js_exec_simps del: json_stringify.simps)
  then show ?thesis
    using slots by (simp add: alert_popup_def el_def js_state_def assign_Inr del: json_stringify.simps)
qed

section \<open>Expiration dates\<close>

lemma expiration_round_trip:
  fixes tz :: "int \<Rightarrow> int"
  assumes "valid_civil y m d" "0 \<le> y" "y \<le> 9999" "make_day y m d \<noteq> 0"
    and picked: "t = make_date (make_day y m d) 0 + tz t * 60000"
  shows "secret_expiration tz (Some t) = JNum (make_day y m d * 86400) \<and>
    format_time_z (JNum (make_day y m d * 86400)) = Inr (JStr (iso_date_string (make_day y m d)))"
proof -
  define n where "n = make_day y m d"
  have c: "civil n = (y, m, d)" using assms(1) by (simp add: n_def civil_make_day)
  have t: "t = 1000 * (n * 86400 + tz t * 60)"
    using picked by (simp add: make_date_def ms_per_day_def n_def algebra_simps)
  have "day_from_year 0 \<le> n \<and> n < day_from_year 10000"
  proof -
    have "year_from_day n = y" using c by (simp add: civil_def Let_def)
    then show ?thesis
      using year_from_day_bracket [of n] day_from_year_mono [of 0 y] day_from_year_mono [of "y + 1" 10000] assms
      by simp
  qed
  then have clip: "time_clip (n * 86400 * 1000) = Some (n * 86400 * 1000)"
    by (auto simp: time_clip_def day_from_year_bounds abs_if)
  have "day_of (n * 86400 * 1000) = n" by (simp add: day_of_def ms_per_day_def)
  then have "take 10 (to_iso_string (n * 86400 * 1000)) = iso_date_string n"
    using iso_date_printed(1) [OF c assms(2,3)] by (simp add: to_iso_string_def)
  with clip assms(4) have "format_time_z (JNum (n * 86400)) = Inr (JStr (iso_date_string n))"
    by (simp add: format_time_z_def n_def)
  moreover have "t div 1000 - tz t * 60 = n * 86400"
    by (subst t, subst nonzero_mult_div_cancel_left) simp_all
  ultimately show ?thesis by (simp add: secret_expiration_def n_def)
qed

text \<open>
  C9. The date picked for a key, local midnight of a civil date in
  any time zone, is sent as midnight UTC of that date, and the page shows that date again for
  the key; the day of the epoch, whose time is zero, means no date.
\<close>

theorem app_expiration_date_round_trip:
  fixes tz :: "int \<Rightarrow> int"
  assumes "valid_civil y m d" "0 \<le> y" "y \<le> 9999" "make_day y m d \<noteq> 0"
    and picked: "t = make_date (make_day y m d) 0 + tz t * 60000"
  shows "secret_expiration tz (Some t) = JNum (make_day y m d * 86400) \<and>
    format_time_z (JNum (make_day y m d * 86400)) = Inr (JStr (iso_date_string (make_day y m d)))"
  using assms by (rule expiration_round_trip)

section \<open>Requests the registrar decodes\<close>

text \<open>
  C10. The three requests of the Vue interface that carry data are decoded
  by the registrar into what the forms hold: the pool's directory and group, the bucket's name
  and policy, the key's policy and its expiration as an integer.
\<close>

theorem app_make_requests_decode:
  fixes s :: app
  assumes "buckets_directory (data s) = JStr dir" "group (data s) = JStr gid"
    and "bucket_name (data s) = JStr name" "bucket_policy (data s) = JStr policy"
    and "key_expiration_time (data s) = Some t" "int64 (t div 1000 - tz_offset s t * 60)"
  shows "\<exists>v1 v2 v3.
    map rq_body (sent (js_state kick_make_pool s)) = map rq_body (sent s) @ [Some (json_stringify v1)] \<and>
    decode_make_pool_request v1 = Some \<lparr>mp_Bucket_directory = dir, mp_Owner_gid = gid\<rparr> \<and>
    map rq_body (sent (js_state kick_make_bucket s)) = map rq_body (sent s) @ [Some (json_stringify v2)] \<and>
    decode_make_bucket_request v2 = Some \<lparr>mb_Bucket = name, mb_Bucket_policy = policy\<rparr> \<and>
    map rq_body (sent (js_state (kick_make_secret rw) s)) = map rq_body (sent s) @ [Some (json_stringify v3)] \<and>
    decode_make_secret_request v3 =
      Some \<lparr>ms_Secret_policy = rw, ms_Expiration_time = t div 1000 - tz_offset s t * 60\<rparr>"
proof -
  let ?v1 = "JObj [(''buckets_directory'', JStr dir), (''owner_gid'', JStr gid)]"
  let ?v2 = "JObj [(''name'', JStr name), (''bkt_policy'', JStr policy)]"
  let ?v3 = "JObj [(''key_policy'', JStr rw), (''expiration_time'', JNum (t div 1000 - tz_offset s t * 60))]"
  have "map rq_body (sent (js_state kick_make_pool s)) = map rq_body (sent s) @ [Some (json_stringify ?v1)]"
    using assms(1,2)
    by (simp add: js_state_def kick_make_pool_def api_make_pool_def submit_request_def js_exec Let_def
        del: json_stringify.simps)
  moreover have "map rq_body (sent (js_state kick_make_bucket s)) = map rq_body (sent s) @ [Some (json_stringify ?v2)]"
    using assms(3,4)
    by (simp add: js_state_def kick_make_bucket_def current_pool_def api_make_bucket_def
        submit_request_def js_exec Let_def del: json_stringify.simps)
  moreover have "map rq_body (sent (js_state (kick_make_secret rw) s)) = map rq_body (sent s) @ [Some (json_stringify ?v3)]"
    using assms(5)
    by (simp add: js_state_def kick_make_secret_def current_pool_def api_make_secret_def pool_path_def
        secret_expiration_def submit_request_def js_exec Let_def del: json_stringify.simps)
  moreover have "decode_make_pool_request ?v1 = Some \<lparr>mp_Bucket_directory = dir, mp_Owner_gid = gid\<rparr>"
    "decode_make_bucket_request ?v2 = Some \<lparr>mb_Bucket = name, mb_Bucket_policy = policy\<rparr>"
    "decode_make_secret_request ?v3 =
       Some \<lparr>ms_Secret_policy = rw, ms_Expiration_time = t div 1000 - tz_offset s t * 60\<rparr>"
    using assms(6)
    by (simp_all add: decode_make_pool_request_def decode_make_bucket_request_def
        decode_make_secret_request_def key_matches_def lower_char_def Let_def)
  ultimately show ?thesis by blast
qed

section \<open>Instances\<close>

definition sample_secret :: "string \<Rightarrow> secret_policy \<Rightarrow> secret_record" where
  "sample_secret k w =
     \<lparr>sx_Pool = ''d4f0c4645fce5734'', sx_Access_key = k, sx_Secret_key = ''s'' @ k, sx_Secret_policy = w,
      sx_Expiration_time = 1893456000, sx_Timestamp = 1700000000\<rparr>"

definition sample_pool :: pool_prop where
  "sample_pool =
     \<lparr>po_Pool = ''d4f0c4645fce5734'', po_Bucket_directory = ''/home/u/pool'', po_Owner_uid = ''u'',
      po_Owner_gid = ''g'', po_Probe_key = ''p'', po_Expiration_time = 1893456000, po_Enabled = True,
      po_Timestamp = 1700000000, ps_State = ''suspended'', ps_Reason = ''server busy'', uu_Enabled = True,
      pp_Buckets =
        [\<lparr>bk_Pool = ''d4f0c4645fce5734'', bk_Bucket = ''bkt1'', bk_Bucket_policy = Bucket_policy_NONE,
          bk_Expiration_time = 0, bk_Timestamp = 1700000000\<rparr>],
      pp_Secrets =
        [sample_secret ''A1'' Secret_policy_RO, sample_secret ''A2'' Secret_policy_internal_access,
         sample_secret ''A3'' Secret_policy_RW]\<rparr>"

definition mounted :: app where
  "mounted =
     \<lparr>data = init_app_data 1700000000000, x_csrf_token = JStr [], sent = [], inflight = [], clipboard = [],
      dark = JBool False, theme_name = ''light'', base_path = ''/lens3.sts'', now_ms = 1700000000000,
      tz_offset = (\<lambda>t. -540)\<rparr>"

lemma mounted_loaded: "app_loaded mounted"
  by (auto simp: app_loaded_def mounted_def)


text \<open>A reply with a list of pools arrives after the user information.\<close>

definition listing :: app where
  "listing = js_state (app_handle (Arrive 0 (Reply True (Some (user_info_response 1700000000 ''tok''
     \<lparr>ui_Api_version = ''v1.2'', ui_Uid = ''u'', ui_Groups = [''g''], ui_Lens3_version = ''v2'',
      ui_S3_url = ''https://s3'', ui_Footer_banner = ''''\<rparr>)))))
     (js_state pool_make_data mounted)"

definition listed :: app where
  "listed = js_state (app_handle (Arrive 0 (Reply True (Some (pool_list_response 1700000000 [sample_pool]))))) listing"

text \<open>An accepted reply is a step when it is outstanding and its content is well formed.\<close>

lemma app_arrive:
  assumes "app_reachable replies_ok s" "inflight s = [(op, k)]"
    and "k = Set_pool_list \<longrightarrow> list_reply_ok d" "k = Set_pool_data \<longrightarrow> pool_reply_ok d"
  shows "app_reachable replies_ok (js_state (app_handle (Arrive 0 (Reply True (Some d)))) s)"
  using assms(2-4)
  by (intro app_next [OF assms(1)] app_event) (auto split: process_fn.split)

lemma listed_reachable: "app_reachable replies_ok listed"
proof -
  have start: "app_reachable replies_ok (js_state pool_make_data mounted)"
    using mounted_loaded by (rule app_start)
  have "inflight (js_state pool_make_data mounted) = [(''Get user-info'', Set_user_info_data)]"
    by code_simp
  then have "app_reachable replies_ok listing"
    unfolding listing_def by (rule app_arrive [OF start]) simp_all
  moreover have "inflight listing = [(''List pools'', Set_pool_list)]" by code_simp
  ultimately show ?thesis
    unfolding listed_def
  proof (rule app_arrive)
    have "list_reply_ok (pool_list_response 1700000000 [sample_pool])" by code_simp
    then show "Set_pool_list = Set_pool_list \<longrightarrow> list_reply_ok (pool_list_response 1700000000 [sample_pool])" ..
  qed blast
qed

theorem app_always_renders_witness: "\<exists>t. app_view listed = Inr t"
  using listed_reachable by (rule app_always_renders)

theorem app_edit_shows_pool_witness:
  "fst (set_pool_data (pool_prop_response 1700000000 sample_pool) mounted) = Inr () \<and>
    pool_name (data (js_state (set_pool_data (pool_prop_response 1700000000 sample_pool)) mounted)) =
      JStr ''d4f0c4645fce5734'' \<and>
    (\<exists>t. pool_edit (js_state (set_pool_data (pool_prop_response 1700000000 sample_pool)) mounted) = Inr t \<and>
       bucket_targets t = [JStr ''bkt1''] \<and> secret_targets t = [JStr ''A3'', JStr ''A1''])"
proof -
  have "\<forall>k \<in> set (pp_Secrets sample_pool). printable_time (sx_Expiration_time k)" by code_simp
  from app_edit_shows_pool [OF this, of 1700000000 mounted] show ?thesis
    by (simp add: sample_pool_def sample_secret_def)
qed

theorem app_pool_buttons_address_their_pools_witness:
  "\<exists>t card. pool_list_view (data (js_state (set_pool_list (pool_list_response 1700000000 [sample_pool])) mounted)) = Inr t \<and>
     elements ''VSlideGroupItem'' t = [card] \<and>
     map texts (elements ''VCardTitle'' card) = [[po_Bucket_directory sample_pool]] \<and>
     map texts (elements ''tr'' card) = card_table sample_pool \<and>
     handlers t = [Update F_pool_list, Update (F_pool_dialog 0), Close_reason 0, Kick_edit_pool 0, Kick_delete_pool 0] \<and>
     (let s' = js_state (set_pool_list (pool_list_response 1700000000 [sample_pool])) mounted
      in sent (js_state (run_handler (Kick_delete_pool 0) JUndef) s') = sent s' @
        [\<lparr>rq_method = ''DELETE'', rq_path = base_path s' @ ''/pool/d4f0c4645fce5734'',
          rq_body = Some ''{}'', rq_headers = request_headers (x_csrf_token s')\<rparr>])"
proof -
  let ?s = "js_state (set_pool_list (pool_list_response 1700000000 [sample_pool])) mounted"
  have r: "reason_handlers 0 sample_pool = [Update (F_pool_dialog 0), Close_reason 0]"
    and id: "po_Pool sample_pool = ''d4f0c4645fce5734''" by code_simp+
  obtain t cards where t: "pool_list_view (data ?s) = Inr t" "elements ''VSlideGroupItem'' t = cards" "length cards = 1"
    "handlers t = Update F_pool_list # concat (map handlers cards)"
    "\<forall>n < 1. map texts (elements ''VCardTitle'' (cards ! n)) = [[po_Bucket_directory ([sample_pool] ! n)]] \<and>
        map texts (elements ''tr'' (cards ! n)) = card_table ([sample_pool] ! n) \<and>
        handlers (cards ! n) = reason_handlers n ([sample_pool] ! n) @ [Kick_edit_pool n, Kick_delete_pool n]"
    "\<forall>s' n. pool_list (data s') = pool_list (data ?s) \<and> n < 1 \<longrightarrow>
        sent (js_state (run_handler (Kick_delete_pool n) JUndef) s') = sent s' @
          [\<lparr>rq_method = ''DELETE'', rq_path = base_path s' @ ''/pool/'' @ po_Pool ([sample_pool] ! n),
            rq_body = Some ''{}'', rq_headers = request_headers (x_csrf_token s')\<rparr>]"
    using app_pool_buttons_address_their_pools [of "[sample_pool]" 1700000000 mounted JUndef] by auto
  obtain card where c: "cards = [card]" using t(3) by (auto simp: length_Suc_conv)
  have "sent (js_state (run_handler (Kick_delete_pool 0) JUndef) ?s) = sent ?s @
      [\<lparr>rq_method = ''DELETE'', rq_path = base_path ?s @ ''/pool/'' @ po_Pool ([sample_pool] ! 0),
        rq_body = Some ''{}'', rq_headers = request_headers (x_csrf_token ?s)\<rparr>]"
    using t(6) by blast
  with t(1,2,4,5) r id c show ?thesis
    unfolding Let_def by (intro exI [of _ t] exI [of _ card]) (simp del: run_handler.simps)
qed

text \<open>Nine hours east of Greenwich, 1 January 2030 is picked.\<close>

theorem app_expiration_date_round_trip_witness:
  "secret_expiration (\<lambda>t. -540) (Some 1893423600000) = JNum 1893456000 \<and>
   format_time_z (JNum 1893456000) = Inr (JStr ''2030-01-01'')"
proof -
  have "make_day 2030 0 1 * 86400 = 1893456000" "iso_date_string (make_day 2030 0 1) = ''2030-01-01''"
    by code_simp+
  moreover have "secret_expiration (\<lambda>t. -540) (Some 1893423600000) = JNum (make_day 2030 0 1 * 86400) \<and>
      format_time_z (JNum (make_day 2030 0 1 * 86400)) = Inr (JStr (iso_date_string (make_day 2030 0 1)))"
    by (rule app_expiration_date_round_trip) (code_simp+)
  ultimately show ?thesis by simp
qed

theorem app_make_requests_decode_witness:
  "\<exists>v1 v2 v3.
    map rq_body (sent (js_state kick_make_pool mounted)) = map rq_body (sent mounted) @ [Some (json_stringify v1)] \<and>
    decode_make_pool_request v1 = Some \<lparr>mp_Bucket_directory = [], mp_Owner_gid = []\<rparr> \<and>
    map rq_body (sent (js_state kick_make_bucket mounted)) = map rq_body (sent mounted) @ [Some (json_stringify v2)] \<and>
    decode_make_bucket_request v2 = Some \<lparr>mb_Bucket = [], mb_Bucket_policy = []\<rparr> \<and>
    map rq_body (sent (js_state (kick_make_secret ''readonly'') mounted)) =
      map rq_body (sent mounted) @ [Some (json_stringify v3)] \<and>
    decode_make_secret_request v3 =
      Some \<lparr>ms_Secret_policy = ''readonly'',
        ms_Expiration_time = 1700000000000 div 1000 - tz_offset mounted 1700000000000 * 60\<rparr>"
  by (rule app_make_requests_decode) (simp_all add: mounted_def init_app_data_def int64_def)

end
