(* ===== verification/Ui2.thy ===== *)
theory Ui2
  imports JsDate Wire
begin

text \<open>
  The simple interface, \<^verbatim>\<open>src/v2/lens3/ui2/lens3ui.js\<close> with its page
  \<^verbatim>\<open>index.html\<close>. The state \<open>ui2\<close> holds the editor data (\<open>pool_data\<close>), the elements of the
  page by their id, the requests sent so far, the requests whose responses have not arrived,
  the clipboard, and what the browser provides (the base path, the clock, and \<open>Date.parse\<close> on
  strings whose meaning the standard leaves open). One definition per function of the file;
  \<open>console\<close> output has no effect on the state and is left out, but what its arguments
  evaluate, and so may raise, is kept.

  A \<open>fetch\<close> only records the request. The promise chain of \<open>submit_request\<close> runs when the
  response arrives (\<open>on_reply\<close>), in any order: events (\<open>ui2_event\<close>) interleave the clicks of
  the user with the arrivals, and \<open>ui2_step\<close> is the transition relation.
\<close>

section \<open>State\<close>

datatype action =
    Kick_edit_pool string
  | Kick_delete_pool string
  | Kick_delete_bucket jsval
  | Kick_copy_to_clipboard jsval
  | Kick_delete_secret jsval

text \<open>A node the code creates: its tag, the properties it sets, its \<open>onclick\<close>, its children.\<close>

datatype node = Node (tag: string) (props: "(string \<times> jsval) list") (onclick: "action option") (kids: "node list")

record element =
  el_value :: string
  el_display :: string
  el_children :: "node list"

record pool_data =
  owner :: jsval
  group_choices :: jsval
  x_csrf_token :: jsval
  pool_name :: jsval
  buckets_directory :: jsval
  pool_desc_list :: jsval
  bucket_list :: jsval
  secrets_rw :: jsval
  secrets_ro :: jsval
  secrets_wo :: jsval
  response_status :: jsval
  response_reason :: jsval
  response_time :: jsval
  response_message :: jsval

text \<open>The continuations \<open>process_response\<close> that the operations pass to \<open>submit_request\<close>.\<close>

datatype then_fn = Set_user_info_data | Set_pool_list_data | Set_pool_data | List_pools_again

record ui2 =
  data :: pool_data
  document :: "string \<rightharpoonup> element"
  sent :: "request list"
  inflight :: "(string \<times> then_fn) list"
  clipboard :: "string list"
  global_desc :: jsval
  base_path :: string
  now_ms :: int
  date_fallback :: "string \<Rightarrow> int option"

definition init_pool_data :: pool_data where
  "init_pool_data =
     \<lparr>owner = JStr '''', group_choices = JArr [], x_csrf_token = JStr '''', pool_name = JStr '''',
      buckets_directory = JStr '''', pool_desc_list = JArr [], bucket_list = JArr [],
      secrets_rw = JArr [], secrets_ro = JArr [], secrets_wo = JArr [],
      response_status = JStr '''', response_reason = JStr '''', response_time = JStr '''',
      response_message = JUndef\<rparr>"

section \<open>The page\<close>

text \<open>\<open>document.getElementById(i)\<close> followed by a use of the element, \<open>null\<close> when there is none.\<close>

definition with_element :: "string \<Rightarrow> (element \<Rightarrow> element) \<Rightarrow> (ui2, unit) js" where
  "with_element i f = (\<lambda>s.
     case document s i of
       None \<Rightarrow> (Inl TypeError, s)
     | Some e \<Rightarrow> (Inr (), s\<lparr>document := (document s)(i \<mapsto> f e)\<rparr>))"

definition element_value :: "string \<Rightarrow> (ui2, string) js" where
  "element_value i = (\<lambda>s.
     case document s i of None \<Rightarrow> (Inl TypeError, s) | Some e \<Rightarrow> (Inr (el_value e), s))"

definition set_display :: "string \<Rightarrow> bool \<Rightarrow> (ui2, unit) js" where
  "set_display i v = with_element i (el_display_update (\<lambda>_. if v then '''' else ''none''))"

definition replace_children :: "string \<Rightarrow> node list \<Rightarrow> (ui2, unit) js" where
  "replace_children i ns = with_element i (el_children_update (\<lambda>_. ns))"

text \<open>The \<open>value\<close> property of an input converts \<open>null\<close> to the empty string.\<close>

definition dom_value :: "jsval \<Rightarrow> string" where
  "dom_value v = (if v = JNull then '''' else to_string v)"

definition assign :: "(jsval \<Rightarrow> pool_data \<Rightarrow> pool_data) \<Rightarrow> js_error + jsval \<Rightarrow> (ui2, unit) js" where
  "assign f r = js_bind (js_lift r) (\<lambda>v. js_modify (data_update (f v)))"

section \<open>Times\<close>

text \<open>\<open>parse_time_z\<close>: an integer for date and time, in a string.\<close>

definition parse_time_z :: "(string \<Rightarrow> int option) \<Rightarrow> string \<Rightarrow> string" where
  "parse_time_z fb s =
     (case date_parse fb s of None \<Rightarrow> ''NaN'' | Some t \<Rightarrow> dec_int (t div 1000))"

definition format_time_z :: "jsval \<Rightarrow> js_error + jsval" where
  "format_time_z d =
     (if eq_str d ''0'' then Inr (JStr ''0'')
      else case to_number d of
             None \<Rightarrow> Inl RangeError
           | Some n \<Rightarrow>
               (case time_clip (n * 1000) of
                  None \<Rightarrow> Inl RangeError
                | Some t \<Rightarrow> Inr (JStr (take 19 (to_iso_string t) @ ''Z''))))"

section \<open>Rendering control\<close>

definition display_pool_list :: "bool \<Rightarrow> (ui2, unit) js" where
  "display_pool_list v = set_display ''pool_list_section'' v"

definition display_pool_edit :: "bool \<Rightarrow> (ui2, unit) js" where
  "display_pool_edit v = js_block
     [set_display ''buckets_section'' v,
      set_display ''secrets_section'' v]"

definition display_pool_make :: "bool \<Rightarrow> (ui2, unit) js" where
  "display_pool_make v = set_display ''pool_make_section'' v"

definition group_option :: "jsval \<Rightarrow> node" where
  "group_option v = Node ''option'' [(''text'', JStr (to_string v)), (''value'', JStr (to_string v))] None []"

text \<open>A new \<open>select\<close> shows its first option.\<close>

definition render_user_info :: "(ui2, unit) js" where
  "render_user_info = js_block
     [js_bind (js_gets (\<lambda>s. owner (data s)))
        (\<lambda>v. with_element ''pool_owner'' (el_value_update (\<lambda>_. dom_value v))),
      js_bind (js_gets (\<lambda>s. group_choices (data s))) (\<lambda>g.
      js_bind (js_lift (iter g)) (\<lambda>vs.
        with_element ''group_choices'' (\<lambda>_.
          \<lparr>el_value = (case vs of [] \<Rightarrow> '''' | v # _ \<Rightarrow> to_string v), el_display = '''',
           el_children = map group_option vs\<rparr>)))]"

definition render_secret_expiration_default :: "(ui2, unit) js" where
  "render_secret_expiration_default =
     js_bind (js_gets now_ms) (\<lambda>now.
       let day7 = now div 1000 + 7 * 24 * 3600 in
       with_element ''secret_expiration''
         (el_value_update (\<lambda>_.
            case time_clip (day7 * 1000) of
              None \<Rightarrow> '''' | Some t \<Rightarrow> iso_date_string (day_of t))))"

record li_item =
  li_label :: string
  li_value :: jsval

definition pool_list_row :: "string \<Rightarrow> li_item list \<Rightarrow> node" where
  "pool_list_row p items =
     Node ''div'' [] None
       [Node ''hr'' [] None [],
        Node ''input'' [(''type'', JStr ''button''), (''value'', JStr ''Edit'')]
          (Some (Kick_edit_pool p)) [],
        Node ''input'' [(''type'', JStr ''button''), (''value'', JStr ''Delete'')]
          (Some (Kick_delete_pool p)) [],
        Node ''ul'' [(''style'', JStr ''list-style: none;'')] None
          (map (\<lambda>i. Node ''li''
             [(''innerHTML'', JStr (''<span class='' @ [CHR 0x22] @ ''label'' @ [CHR 0x22] @ ''>'' @
                 li_label i @ '': </span>'' @ to_string (li_value i)))] None []) items)]"

text \<open>The loop \<open>for (const p in pool_li_items)\<close> runs over the indices as strings.\<close>

definition pool_list_rows :: "li_item list list \<Rightarrow> node list" where
  "pool_list_rows pool_li_items =
     map (\<lambda>p. pool_list_row (dec_nat p) (pool_li_items ! p)) [0..<length pool_li_items]"

definition render_pool_list :: "li_item list list \<Rightarrow> (ui2, unit) js" where
  "render_pool_list pool_li_items =
     replace_children ''list_of_pools'' [Node ''div'' [] None (pool_list_rows pool_li_items)]"

definition disabled_input :: "string \<Rightarrow> string \<Rightarrow> int option \<Rightarrow> node" where
  "disabled_input ty v sz =
     Node ''input''
       ([(''type'', JStr ty), (''value'', JStr v)] @
        (case sz of None \<Rightarrow> [] | Some n \<Rightarrow> [(''size'', JNum n)]) @ [(''disabled'', JBool True)])
       None []"

definition button :: "string \<Rightarrow> action \<Rightarrow> node" where
  "button txt a = Node ''button'' [(''innerText'', JStr txt)] (Some a) []"

definition bucket_row :: "jsval \<Rightarrow> js_error + node" where
  "bucket_row b =
     err_bind (get_prop b ''name'') (\<lambda>name.
     err_bind (get_prop b ''bkt_policy'') (\<lambda>policy. Inr
       (Node ''div'' [] None
          [Node ''span'' [(''className'', JStr ''label'')] None
             [disabled_input ''text'' (dom_value name) (Some 30),
              disabled_input ''text'' (dom_value policy) (Some 10)],
           button ''Delete bucket'' (Kick_delete_bucket name)])))"

definition render_bucket_list :: "(ui2, unit) js" where
  "render_bucket_list =
     js_bind (js_gets (\<lambda>s. bucket_list (data s))) (\<lambda>bs.
     js_bind (js_lift (err_bind (iter bs) (err_map bucket_row)))
       (replace_children ''list_of_buckets''))"

definition secret_row :: "jsval \<Rightarrow> js_error + node" where
  "secret_row k =
     err_bind (get_prop k ''access_key'') (\<lambda>access_key.
     err_bind (get_prop k ''secret_key'') (\<lambda>secret_key.
     err_bind (get_prop k ''expiration_time'') (\<lambda>expiration_time. Inr
       (Node ''div'' [] None
          [Node ''span'' [(''className'', JStr ''label'')] None
             [disabled_input ''text'' (dom_value access_key) (Some 22),
              button ''Copy'' (Kick_copy_to_clipboard access_key)],
           disabled_input ''text'' (dom_value secret_key) (Some 50),
           button ''Copy'' (Kick_copy_to_clipboard secret_key),
           Node ''span'' [(''innerHTML'', JStr ''&emsp;Expires:'')] None [],
           disabled_input ''datetime'' (dom_value expiration_time) None,
           button ''Delete key'' (Kick_delete_secret access_key)]))))"

definition render_secret_list_by_policy :: "string \<Rightarrow> jsval \<Rightarrow> (ui2, unit) js" where
  "render_secret_list_by_policy policy keys =
     js_bind (js_lift (err_bind (iter keys) (err_map secret_row)))
       (replace_children (''list_of_secrets_'' @ policy))"

definition render_secret_list :: "(ui2, unit) js" where
  "render_secret_list = js_block
     [js_bind (js_gets (\<lambda>s. secrets_rw (data s))) (render_secret_list_by_policy ''rw''),
      js_bind (js_gets (\<lambda>s. secrets_ro (data s))) (render_secret_list_by_policy ''ro''),
      js_bind (js_gets (\<lambda>s. secrets_wo (data s))) (render_secret_list_by_policy ''wo'')]"

definition render_buckets_directory :: "(ui2, unit) js" where
  "render_buckets_directory =
     js_bind (js_gets (\<lambda>s. buckets_directory (data s)))
       (\<lambda>v. with_element ''buckets_directory'' (el_value_update (\<lambda>_. dom_value v)))"

definition text_div :: "string \<Rightarrow> node" where
  "text_div s = Node ''div'' [(''innerText'', JStr s)] None []"

definition render_response :: "(ui2, unit) js" where
  "render_response =
     js_bind (js_gets data) (\<lambda>d. replace_children ''server_response''
       [text_div (''Status: '' @ to_string (response_status d)),
        text_div (''Reason: '' @ to_string (response_reason d)),
        text_div (''Timestamp: '' @ to_string (response_time d)),
        text_div (''Message: '' @ to_string (response_message d))])"

section \<open>API operations\<close>

text \<open>Shows a server response with a message. A response field is cleared if data is null.\<close>

definition show_message :: "jsval \<Rightarrow> string \<Rightarrow> (ui2, unit) js" where
  "show_message d msg = js_block
     [assign (\<lambda>v. response_message_update (\<lambda>_. v)) (Inr (JStr msg)),
      if truthy d then js_block
        [assign (\<lambda>v. response_status_update (\<lambda>_. v)) (get_prop d ''status''),
         assign (\<lambda>v. response_reason_update (\<lambda>_. v)) (get_prop d ''reason''),
         js_bind (js_lift (get_prop d ''time'')) (\<lambda>t.
           if truthy t
           then assign (\<lambda>v. response_time_update (\<lambda>_. v)) (format_time_z t)
           else assign (\<lambda>v. response_time_update (\<lambda>_. v)) (Inr (JStr ''''))),
         js_bind (js_lift (get_prop d ''x_csrf_token'')) (\<lambda>t.
           if truthy t
           then assign (\<lambda>v. x_csrf_token_update (\<lambda>_. v)) (Inr t)
           else js_return ())]
      else js_block
        [assign (\<lambda>v. response_status_update (\<lambda>_. v)) (Inr (JStr '''')),
         assign (\<lambda>v. response_reason_update (\<lambda>_. v)) (Inr (JStr '''')),
         assign (\<lambda>v. response_time_update (\<lambda>_. v)) (Inr (JStr ''0''))],
      render_response]"

text \<open>The headers of a request under a token.\<close>

definition request_headers :: "jsval \<Rightarrow> (string \<times> string) list" where
  "request_headers token =
     (''Content-Type'', ''application/json'') #
     (if eq_str token '''' then [] else [(''X-CSRF-Token'', to_string token)])"

definition submit_request ::
  "string \<Rightarrow> string \<Rightarrow> string \<Rightarrow> string option \<Rightarrow> then_fn \<Rightarrow> (ui2, unit) js" where
  "submit_request msg method path body process_response = js_block
     [show_message JNull (msg @ '' ...''),
      js_modify (\<lambda>s. s
        \<lparr>sent := sent s @
           [\<lparr>rq_method = method, rq_path = path, rq_body = body,
             rq_headers = request_headers (x_csrf_token (data s))\<rparr>],
         inflight := inflight s @ [(msg, process_response)]\<rparr>)]"

definition api_get_user_info :: "(ui2, unit) js" where
  "api_get_user_info = js_bind (js_gets base_path) (\<lambda>base.
     submit_request ''get user info'' ''GET'' (base @ ''/user-info'') None Set_user_info_data)"

definition api_list_pools :: "(ui2, unit) js" where
  "api_list_pools = js_bind (js_gets base_path) (\<lambda>base.
     submit_request ''list pools'' ''GET'' (base @ ''/pool'') None Set_pool_list_data)"

definition api_make_pool :: "string \<Rightarrow> string \<Rightarrow> (ui2, unit) js" where
  "api_make_pool directory gid = js_bind (js_gets base_path) (\<lambda>base.
     let args = JObj [(''buckets_directory'', JStr directory), (''owner_gid'', JStr gid)]
     in submit_request ''make pool'' ''POST'' (base @ ''/pool'') (Some (json_stringify args))
          Set_pool_data)"

definition api_delete_pool :: "string \<Rightarrow> (ui2, unit) js" where
  "api_delete_pool i =
     js_bind (js_gets (\<lambda>s. pool_desc_list (data s))) (\<lambda>descs.
     js_bind (js_lift (get_prop descs i)) (\<lambda>desc.
     js_bind (js_lift (get_prop desc ''pool_name'')) (\<lambda>name.
     js_bind (js_gets base_path) (\<lambda>base.
       submit_request ''delete pool'' ''DELETE'' (base @ ''/pool/'' @ to_string name)
         (Some (json_stringify (JObj []))) List_pools_again))))"

definition pool_path :: "(ui2, string) js" where
  "pool_path = js_gets (\<lambda>s. base_path s @ ''/pool/'' @ to_string (pool_name (data s)))"

definition api_make_bucket :: "string \<Rightarrow> string \<Rightarrow> (ui2, unit) js" where
  "api_make_bucket name policy = js_bind pool_path (\<lambda>path.
     let args = JObj [(''name'', JStr name), (''bkt_policy'', JStr policy)]
     in submit_request ''make bucket'' ''PUT'' (path @ ''/bucket'') (Some (json_stringify args))
          Set_pool_data)"

definition api_delete_bucket :: "jsval \<Rightarrow> (ui2, unit) js" where
  "api_delete_bucket name = js_bind pool_path (\<lambda>path.
     submit_request ''delete bucket'' ''DELETE'' (path @ ''/bucket/'' @ to_string name)
       (Some (json_stringify (JObj []))) Set_pool_data)"

definition make_secret_args :: "string \<Rightarrow> string \<Rightarrow> jsval" where
  "make_secret_args rw expiration =
     JObj [(''key_policy'', JStr rw), (''expiration_time'', JStr expiration)]"

definition api_make_secret :: "string \<Rightarrow> string \<Rightarrow> (ui2, unit) js" where
  "api_make_secret rw expiry =
     js_bind (js_gets date_fallback) (\<lambda>fb.
     let expiration = parse_time_z fb expiry in
     js_bind pool_path (\<lambda>path.
       submit_request ''make secret'' ''POST'' (path @ ''/secret'')
         (Some (json_stringify (make_secret_args rw expiration))) Set_pool_data))"

definition api_delete_secret :: "jsval \<Rightarrow> (ui2, unit) js" where
  "api_delete_secret key = js_bind pool_path (\<lambda>path.
     submit_request ''delete access-key'' ''DELETE'' (path @ ''/secret/'' @ to_string key)
       (Some (json_stringify (JObj []))) Set_pool_data)"

definition copy_to_clipboard :: "jsval \<Rightarrow> (ui2, unit) js" where
  "copy_to_clipboard v = js_modify (\<lambda>s. s\<lparr>clipboard := clipboard s @ [to_string v]\<rparr>)"

section \<open>Copying responses into the editor data\<close>

definition field_is :: "string \<Rightarrow> string \<Rightarrow> jsval \<Rightarrow> js_error + bool" where
  "field_is k lit d = err_bind (get_prop d k) (\<lambda>v. Inr (eq_str v lit))"

text \<open>\<open>bkts.filter(d => d["bkt_policy"] == policy).map(d => d["name"]).join(" ")\<close>\<close>

definition names_with_policy :: "jsval \<Rightarrow> string \<Rightarrow> js_error + string" where
  "names_with_policy bkts policy =
     err_bind (as_array bkts) (\<lambda>bs.
     err_bind (err_filter (field_is ''bkt_policy'' policy) bs) (\<lambda>cs.
     err_bind (err_map (\<lambda>d. get_prop d ''name'') cs) (\<lambda>ns. Inr
       (join '' '' (map (\<lambda>n. if n = JUndef \<or> n = JNull then [] else to_string n) ns)))))"

definition make_pool_entry_for_printing :: "jsval \<Rightarrow> js_error + li_item list" where
  "make_pool_entry_for_printing desc =
     err_bind (get_prop desc ''buckets'') (\<lambda>bkts.
     err_bind (names_with_policy bkts ''none'') (\<lambda>bkts_none.
     err_bind (names_with_policy bkts ''upload'') (\<lambda>bkts_upload.
     err_bind (names_with_policy bkts ''download'') (\<lambda>bkts_download.
     err_bind (names_with_policy bkts ''public'') (\<lambda>bkts_public.
     err_bind (get_prop desc ''buckets_directory'') (\<lambda>dir.
     err_bind (get_prop desc ''owner_uid'') (\<lambda>uid.
     err_bind (get_prop desc ''owner_gid'') (\<lambda>gid.
     err_bind (get_prop desc ''pool_name'') (\<lambda>name.
     err_bind (get_prop desc ''minio_state'') (\<lambda>state.
     err_bind (get_prop desc ''minio_reason'') (\<lambda>reason.
     err_bind (err_bind (get_prop desc ''expiration_time'') format_time_z) (\<lambda>expiration.
     err_bind (get_prop desc ''user_enabled_status'') (\<lambda>enabled.
     err_bind (get_prop desc ''online_status'') (\<lambda>online.
     err_bind (err_bind (get_prop desc ''modification_time'') format_time_z) (\<lambda>creation. Inr
       [\<lparr>li_label = ''Buckets directory'', li_value = dir\<rparr>,
        \<lparr>li_label = ''Unix user'', li_value = uid\<rparr>,
        \<lparr>li_label = ''Unix group'', li_value = gid\<rparr>,
        \<lparr>li_label = ''Private buckets'', li_value = JStr bkts_none\<rparr>,
        \<lparr>li_label = ''Public buckets'', li_value = JStr bkts_public\<rparr>,
        \<lparr>li_label = ''Public download buckets'', li_value = JStr bkts_download\<rparr>,
        \<lparr>li_label = ''Public upload buckets'', li_value = JStr bkts_upload\<rparr>,
        \<lparr>li_label = ''Pool-ID'', li_value = name\<rparr>,
        \<lparr>li_label = ''Backend state'',
         li_value = JStr (to_string state @ '' (reason: '' @ to_string reason @ '')'')\<rparr>,
        \<lparr>li_label = ''Expiration date'', li_value = expiration\<rparr>,
        \<lparr>li_label = ''User enabled'', li_value = enabled\<rparr>,
        \<lparr>li_label = ''Pool online'', li_value = online\<rparr>,
        \<lparr>li_label = ''Creation date'', li_value = creation\<rparr>])))))))))))))))"

definition copy_user_info_for_edit :: "jsval \<Rightarrow> (ui2, unit) js" where
  "copy_user_info_for_edit u = js_block
     [assign (\<lambda>v. owner_update (\<lambda>_. v)) (get_prop u ''uid''),
      assign (\<lambda>v. group_choices_update (\<lambda>_. v)) (get_prop u ''groups''),
      render_user_info]"

definition format_key :: "jsval \<Rightarrow> js_error + jsval" where
  "format_key k =
     err_bind (get_prop k ''access_key'') (\<lambda>a.
     err_bind (get_prop k ''secret_key'') (\<lambda>sk.
     err_bind (err_bind (get_prop k ''expiration_time'') format_time_z) (\<lambda>e. Inr
       (JObj [(''access_key'', a), (''secret_key'', sk), (''expiration_time'', e)]))))"

definition format_time_in_keys :: "jsval list \<Rightarrow> js_error + jsval" where
  "format_time_in_keys keys = err_bind (err_map format_key keys) (\<lambda>ks. Inr (JArr ks))"

definition copy_pool_data_for_edit :: "jsval \<Rightarrow> (ui2, unit) js" where
  "copy_pool_data_for_edit desc = js_block
     [assign (\<lambda>v. pool_name_update (\<lambda>_. v)) (get_prop desc ''pool_name''),
      assign (\<lambda>v. buckets_directory_update (\<lambda>_. v)) (get_prop desc ''buckets_directory''),
      assign (\<lambda>v. owner_update (\<lambda>_. v)) (get_prop desc ''owner_uid''),
      assign (\<lambda>v. group_choices_update (\<lambda>_. v)) (get_prop desc ''groups''),
      assign (\<lambda>v. bucket_list_update (\<lambda>_. v)) (get_prop desc ''buckets''),
      js_bind (js_lift (get_prop desc ''secrets'')) (\<lambda>keys.
      js_bind (js_lift (as_array keys)) (\<lambda>ks.
      js_bind (js_lift (err_filter (field_is ''key_policy'' ''readwrite'') ks)) (\<lambda>rw.
      js_bind (js_lift (err_filter (field_is ''key_policy'' ''readonly'') ks)) (\<lambda>ro.
      js_bind (js_lift (err_filter (field_is ''key_policy'' ''writeonly'') ks)) (\<lambda>wo. js_block
        [assign (\<lambda>v. secrets_rw_update (\<lambda>_. v)) (format_time_in_keys rw),
         assign (\<lambda>v. secrets_ro_update (\<lambda>_. v)) (format_time_in_keys ro),
         assign (\<lambda>v. secrets_wo_update (\<lambda>_. v)) (format_time_in_keys wo)]))))),
      render_buckets_directory]"

definition set_user_info_data :: "jsval \<Rightarrow> (ui2, unit) js" where
  "set_user_info_data d =
     js_bind (js_lift (get_prop d ''user_info'')) (\<lambda>u.
     js_bind (js_lift (get_prop u ''api_version'')) (\<lambda>_. js_block
       [copy_user_info_for_edit u,
        display_pool_list False,
        display_pool_edit False]))"

text \<open>The bound of \<open>for (k = 0; k < descs.length; k++)\<close>.\<close>

definition loop_length :: "jsval \<Rightarrow> js_error + nat" where
  "loop_length descs =
     err_bind (get_prop descs ''length'') (\<lambda>l.
       Inr (case to_number l of None \<Rightarrow> 0 | Some n \<Rightarrow> nat n))"

definition pool_list_items :: "jsval \<Rightarrow> js_error + li_item list list" where
  "pool_list_items descs =
     err_bind (loop_length descs) (\<lambda>n.
       err_map (\<lambda>k. err_bind (get_prop descs (dec_nat k)) make_pool_entry_for_printing) [0..<n])"

definition set_pool_list_data :: "jsval \<Rightarrow> (ui2, unit) js" where
  "set_pool_list_data d =
     js_bind (js_lift (get_prop d ''pool_list'')) (\<lambda>descs. js_block
       [assign (\<lambda>v. pool_desc_list_update (\<lambda>_. v)) (Inr descs),
        js_bind (js_lift (pool_list_items descs)) render_pool_list,
        display_pool_list True,
        display_pool_edit False])"

definition set_pool_data :: "jsval \<Rightarrow> (ui2, unit) js" where
  "set_pool_data d =
     js_bind (js_lift (get_prop d ''pool_desc'')) (\<lambda>desc. js_block
       [js_modify (global_desc_update (\<lambda>_. desc)),
        copy_pool_data_for_edit desc,
        render_bucket_list,
        render_secret_list,
        display_pool_list False,
        display_pool_edit True])"

definition run_edit_pool :: "string \<Rightarrow> (ui2, unit) js" where
  "run_edit_pool i = js_block
     [render_secret_expiration_default,
      js_bind (js_gets (\<lambda>s. pool_desc_list (data s))) (\<lambda>descs.
      js_bind (js_lift (get_prop descs i)) (\<lambda>desc. js_block
        [js_modify (global_desc_update (\<lambda>_. desc)),
         set_pool_data (JObj [(''pool_desc'', desc)])]))]"

section \<open>Click actions\<close>

definition start_ui :: "(ui2, unit) js" where
  "start_ui = js_block
     [display_pool_make False, display_pool_list False, display_pool_edit False,
      api_get_user_info]"

definition kick_show_pool_make :: "(ui2, unit) js" where
  "kick_show_pool_make = js_block [display_pool_make True, api_get_user_info]"

definition kick_show_pool_list :: "(ui2, unit) js" where
  "kick_show_pool_list = js_block
     [display_pool_make False, api_list_pools, display_pool_list True, display_pool_edit False]"

definition kick_edit_pool :: "string \<Rightarrow> (ui2, unit) js" where
  "kick_edit_pool p = run_edit_pool p"

definition kick_make_pool :: "(ui2, unit) js" where
  "kick_make_pool =
     js_bind (element_value ''pool_directory'') (\<lambda>directory.
     js_bind (element_value ''group_choices'') (\<lambda>gid. js_block
       [display_pool_make False, api_make_pool directory gid]))"

definition kick_delete_pool :: "string \<Rightarrow> (ui2, unit) js" where
  "kick_delete_pool p = api_delete_pool p"

definition kick_make_bucket :: "(ui2, unit) js" where
  "kick_make_bucket =
     js_bind (element_value ''bucket_name'') (\<lambda>name.
     js_bind (element_value ''bucket_policy'') (\<lambda>policy. api_make_bucket name policy))"

definition kick_delete_bucket :: "jsval \<Rightarrow> (ui2, unit) js" where
  "kick_delete_bucket name = api_delete_bucket name"

definition kick_make_secret :: "string \<Rightarrow> (ui2, unit) js" where
  "kick_make_secret rw =
     js_bind (element_value ''secret_expiration'') (\<lambda>expiry. api_make_secret rw expiry)"

definition kick_delete_secret :: "jsval \<Rightarrow> (ui2, unit) js" where
  "kick_delete_secret key = api_delete_secret key"

definition kick_copy_to_clipboard :: "jsval \<Rightarrow> (ui2, unit) js" where
  "kick_copy_to_clipboard key = copy_to_clipboard key"

definition test_csrf_token :: string where
  "test_csrf_token = ''af3d34829c5f8ee19f8de0f97849bf7fc8a7e268''"

text \<open>Calls the API with a wrong token and puts the token back.\<close>

definition kick_test_csrf :: "(ui2, unit) js" where
  "kick_test_csrf =
     js_bind (js_gets (\<lambda>s. x_csrf_token (data s))) (\<lambda>save. js_block
       [assign (\<lambda>v. x_csrf_token_update (\<lambda>_. v)) (Inr (JStr test_csrf_token)),
        api_list_pools,
        assign (\<lambda>v. x_csrf_token_update (\<lambda>_. v)) (Inr save)])"

definition kick_dump :: "(ui2, unit) js" where
  "kick_dump =
     js_bind (js_gets date_fallback) (\<lambda>fb.
     let t2 = parse_time_z fb ''2023-06-14T15:15:15.000Z'' in
     js_bind (js_lift (format_time_z (JStr t2))) (\<lambda>t3. js_return ()))"

section \<open>Responses\<close>

fun run_then :: "then_fn \<Rightarrow> jsval \<Rightarrow> (ui2, unit) js" where
  "run_then Set_user_info_data d = set_user_info_data d"
| "run_then Set_pool_list_data d = set_pool_list_data d"
| "run_then Set_pool_data d = set_pool_data d"
| "run_then List_pools_again d = api_list_pools"

fun on_reply :: "string \<Rightarrow> then_fn \<Rightarrow> reply \<Rightarrow> (ui2, unit) js" where
  "on_reply msg k Network_error = js_return ()"
| "on_reply msg k (Reply ok None) = js_throw (Thrown ''SyntaxError'')"
| "on_reply msg k (Reply ok (Some d)) =
     (if \<not> ok then js_block
        [show_message d (msg @ '' ... error: '' @ json_stringify d),
         js_throw (Thrown (json_stringify d))]
      else js_block
        [show_message d (msg @ '' ... done: '' @ json_stringify d),
         run_then k d])"

section \<open>Events and runs\<close>

datatype ui2_event =
    Show_pool_make
  | Show_pool_list
  | Make_pool
  | Make_bucket
  | Make_secret string
  | Test_csrf
  | Dump
  | Row action
  | Input string string
  | Tick int
  | is_Arrive: Arrive nat reply

fun perform :: "action \<Rightarrow> (ui2, unit) js" where
  "perform (Kick_edit_pool p) = kick_edit_pool p"
| "perform (Kick_delete_pool p) = kick_delete_pool p"
| "perform (Kick_delete_bucket n) = kick_delete_bucket n"
| "perform (Kick_copy_to_clipboard v) = kick_copy_to_clipboard v"
| "perform (Kick_delete_secret k) = kick_delete_secret k"

fun handle :: "ui2_event \<Rightarrow> (ui2, unit) js" where
  "handle Show_pool_make = kick_show_pool_make"
| "handle Show_pool_list = kick_show_pool_list"
| "handle Make_pool = kick_make_pool"
| "handle Make_bucket = kick_make_bucket"
| "handle (Make_secret rw) = kick_make_secret rw"
| "handle Test_csrf = kick_test_csrf"
| "handle Dump = kick_dump"
| "handle (Row a) = perform a"
| "handle (Input i v) = with_element i (el_value_update (\<lambda>_. v))"
| "handle (Tick t) = js_modify (now_ms_update (\<lambda>_. t))"
| "handle (Arrive i r) =
     js_bind (js_gets inflight) (\<lambda>rs.
       if i < length rs then js_block
         [js_modify (inflight_update (drop_nth i)),
          on_reply (fst (rs ! i)) (snd (rs ! i)) r]
       else js_return ())"

end
