(* ===== verification/Ui2_Runs.thy ===== *)
theory Ui2_Runs
  imports Ui2
begin

text \<open>
  Runs of the simple interface. The events of the user and the arrivals of responses interleave
  freely; \<open>ui2_reachable G\<close> holds of the states they lead to from a freshly loaded page, where
  \<open>G\<close> says which events are considered.

  Three locales give the invariants their common proof. \<open>ui2_frame\<close>: a predicate that the
  writes of the rendering functions, of the copies of responses and of the requests respect is
  kept by all of them. \<open>ui2_clicks\<close> adds the displays and covers every click,
  \<open>ui2_invariant\<close> adds the responses and covers every event. They are interpreted for the
  exclusive views (\<open>views\<close>), for the token (\<open>token\<close>, clicks only: responses change it) and
  for the agreement of the rendered pool list with the data behind it (\<open>pool_view\<close>).
\<close>

section \<open>Reachable states\<close>

fun actions :: "node \<Rightarrow> action list" where
  "actions (Node t ps a ks) = (case a of None \<Rightarrow> [] | Some x \<Rightarrow> [x]) @ concat (map actions ks)"

text \<open>The element with id \<open>i\<close> holds a button with the action \<open>a\<close>.\<close>

definition has_button :: "ui2 \<Rightarrow> string \<Rightarrow> action \<Rightarrow> bool" where
  "has_button s i a \<longleftrightarrow>
     (\<exists>e. document s i = Some e \<and> a \<in> set (concat (map actions (el_children e))))"

definition page_ids :: "string list" where
  "page_ids =
     [''pool_make_section'', ''pool_list_section'', ''buckets_section'', ''secrets_section'',
      ''bucket_name'', ''bucket_policy'', ''buckets_directory'', ''group_choices'',
      ''list_of_buckets'', ''list_of_pools'', ''pool_directory'', ''pool_owner'',
      ''secret_expiration'', ''list_of_secrets_ro'', ''list_of_secrets_rw'', ''list_of_secrets_wo'',
      ''server_response'']"

definition input_ids :: "string list" where
  "input_ids =
     [''pool_directory'', ''group_choices'', ''bucket_name'', ''bucket_policy'', ''secret_expiration'']"

text \<open>The page as the browser has loaded it, before \<open>start_ui\<close> runs.\<close>

definition page_loaded :: "ui2 \<Rightarrow> bool" where
  "page_loaded s \<longleftrightarrow>
     data s = init_pool_data \<and> sent s = [] \<and> inflight s = [] \<and>
     (\<forall>i \<in> set page_ids. \<exists>e. document s i = Some e \<and> el_display e = '''' \<and> el_children e = [])"

fun enabled :: "ui2 \<Rightarrow> ui2_event \<Rightarrow> bool" where
  "enabled s (Row a) = (\<exists>i \<in> set page_ids. has_button s i a)"
| "enabled s (Input i v) = (i \<in> set input_ids)"
| "enabled s (Arrive i r) = (i < length (inflight s))"
| "enabled s _ = True"

text \<open>\<open>G\<close> restricts the events, for theorems about a server that keeps its side of the protocol.\<close>

inductive ui2_step :: "(ui2 \<Rightarrow> ui2_event \<Rightarrow> bool) \<Rightarrow> ui2 \<Rightarrow> ui2 \<Rightarrow> bool" for G where
  ui2_event: "enabled s ev \<Longrightarrow> G s ev \<Longrightarrow> ui2_step G s (js_state (handle ev) s)"

inductive ui2_reachable :: "(ui2 \<Rightarrow> ui2_event \<Rightarrow> bool) \<Rightarrow> ui2 \<Rightarrow> bool" for G where
  ui2_start: "page_loaded s \<Longrightarrow> ui2_reachable G (js_state start_ui s)"
| ui2_next: "ui2_reachable G s \<Longrightarrow> ui2_step G s t \<Longrightarrow> ui2_reachable G t"

inductive_cases ui2_stepE: "ui2_step G s t"

abbreviation any_event :: "ui2 \<Rightarrow> ui2_event \<Rightarrow> bool" where
  "any_event \<equiv> \<lambda>s ev. True"

text \<open>Invariants are proved over the events of \<open>handle\<close>.\<close>

lemma ui2_reachable_inv:
  assumes "ui2_reachable G s"
    and "\<And>s. page_loaded s \<Longrightarrow> P (js_state start_ui s)"
    and "\<And>s ev. P s \<Longrightarrow> enabled s ev \<Longrightarrow> G s ev \<Longrightarrow> P (js_state (handle ev) s)"
  shows "P s"
  using assms(1) by induction (auto intro: assms(2,3) elim: ui2_stepE)

section \<open>Frames\<close>

text \<open>
  A predicate on the state that depends on the editor data only through the token and the pool
  list, and on the page only through the displays and the rendered pool list, is kept by every
  function that writes nothing of these.
\<close>

locale ui2_frame =
  fixes P :: "ui2 \<Rightarrow> bool"
  assumes frame_data:
      "P s \<Longrightarrow> x_csrf_token d = x_csrf_token (data s) \<Longrightarrow> pool_desc_list d = pool_desc_list (data s) \<Longrightarrow>
       P (s\<lparr>data := d\<rparr>)"
    and frame_element:
      "P s \<Longrightarrow> document s i = Some e \<Longrightarrow> i = ''group_choices'' \<or> el_display e' = el_display e \<Longrightarrow>
       i = ''list_of_pools'' \<longrightarrow> el_children e' = el_children e \<Longrightarrow>
       P (s\<lparr>document := (document s)(i \<mapsto> e')\<rparr>)"
    and frame_request:
      "P s \<Longrightarrow> rq_headers r = request_headers (x_csrf_token (data s)) \<Longrightarrow>
       P (s\<lparr>sent := sent s @ [r], inflight := qs\<rparr>)"
    and frame_inflight: "P s \<Longrightarrow> P (s\<lparr>inflight := qs\<rparr>)"
    and frame_global: "P s \<Longrightarrow> P (s\<lparr>global_desc := v\<rparr>)"
    and frame_clipboard: "P s \<Longrightarrow> P (s\<lparr>clipboard := c\<rparr>)"
    and frame_clock: "P s \<Longrightarrow> P (s\<lparr>now_ms := t\<rparr>)"
begin

lemma keeps_with_element:
  assumes "\<And>e. i = ''group_choices'' \<or> el_display (f e) = el_display e"
    and "\<And>e. i = ''list_of_pools'' \<longrightarrow> el_children (f e) = el_children e"
  shows "js_keeps P (with_element i f)"
proof (rule js_keepsI)
  fix s
  assume "P s"
  then show "P (snd (with_element i f s))"
    using frame_element [of s i "the (document s i)" "f (the (document s i))"] assms
    by (cases "document s i") (simp_all add: with_element_def)
qed

lemma keeps_element_value: "js_keeps P (element_value i)"
  by (auto intro!: js_keepsI simp: element_value_def split: option.splits)

lemma keeps_assign:
  assumes "\<And>v d. x_csrf_token (f v d) = x_csrf_token d \<and> pool_desc_list (f v d) = pool_desc_list d"
  shows "js_keeps P (assign f r)"
proof -
  have "P s \<Longrightarrow> P (data_update (f v) s)" for s v
    using frame_data [of s "f v (data s)"] assms by (cases s) simp
  then show ?thesis
    unfolding assign_def by (intro js_keeps_bind js_keeps_lift js_keeps_modify)
qed

lemma keeps_replace_children: "i \<noteq> ''list_of_pools'' \<Longrightarrow> js_keeps P (replace_children i ns)"
  by (simp add: replace_children_def keeps_with_element)

lemma keeps_request:
  "js_keeps P (js_modify (\<lambda>s. s
     \<lparr>sent := sent s @ [\<lparr>rq_method = m, rq_path = p, rq_body = b,
        rq_headers = request_headers (x_csrf_token (data s))\<rparr>],
      inflight := g s\<rparr>))"
  by (rule js_keeps_modify) (rule frame_request, simp_all)

lemma keeps_drop_inflight: "js_keeps P (js_modify (inflight_update (drop_nth i)))"
proof (rule js_keeps_modify)
  show "P s \<Longrightarrow> P (inflight_update (drop_nth i) s)" for s
    using frame_inflight [of s "drop_nth i (inflight s)"] by (cases s) simp
qed

lemma keeps_tick: "js_keeps P (js_modify (now_ms_update (\<lambda>_. t)))"
proof (rule js_keeps_modify)
  show "P s \<Longrightarrow> P (now_ms_update (\<lambda>_. t) s)" for s
    using frame_clock [of s t] by simp
qed

lemma keeps_global: "js_keeps P (js_modify (global_desc_update (\<lambda>_. v)))"
proof (rule js_keeps_modify)
  show "P s \<Longrightarrow> P (global_desc_update (\<lambda>_. v) s)" for s
    using frame_global [of s v] by simp
qed

lemmas keeps_prims = js_keeps_intros keeps_element_value keeps_replace_children keeps_request
  keeps_global

lemma keeps_render_user_info: "js_keeps P render_user_info"
  by (auto simp: render_user_info_def intro!: keeps_prims keeps_with_element)

lemma keeps_render_secret_expiration_default: "js_keeps P render_secret_expiration_default"
  by (auto simp: render_secret_expiration_default_def Let_def intro!: keeps_prims keeps_with_element)

lemma keeps_render_bucket_list: "js_keeps P render_bucket_list"
  by (auto simp: render_bucket_list_def intro!: keeps_prims)

lemma keeps_render_secret_list: "js_keeps P render_secret_list"
  by (auto simp: render_secret_list_def render_secret_list_by_policy_def intro!: keeps_prims)

lemma keeps_render_buckets_directory: "js_keeps P render_buckets_directory"
  by (auto simp: render_buckets_directory_def intro!: keeps_prims keeps_with_element)

lemma keeps_render_response: "js_keeps P render_response"
  by (auto simp: render_response_def intro!: keeps_prims)

lemma keeps_show_message_null: "js_keeps P (show_message JNull msg)"
  by (auto simp: show_message_def intro!: keeps_prims keeps_assign keeps_render_response)

lemma keeps_submit_request: "js_keeps P (submit_request msg m p b k)"
  by (auto simp: submit_request_def intro!: keeps_prims keeps_show_message_null)

lemma keeps_api:
  "js_keeps P api_get_user_info" "js_keeps P api_list_pools" "js_keeps P (api_make_pool d g)"
  "js_keeps P (api_delete_pool i)" "js_keeps P (api_make_bucket n p)"
  "js_keeps P (api_delete_bucket b)" "js_keeps P (api_make_secret rw e)"
  "js_keeps P (api_delete_secret k)"
  by (auto simp: api_get_user_info_def api_list_pools_def api_make_pool_def api_delete_pool_def
      api_make_bucket_def api_delete_bucket_def api_make_secret_def api_delete_secret_def
      pool_path_def Let_def intro!: keeps_prims keeps_submit_request)

lemma keeps_copy_to_clipboard: "js_keeps P (copy_to_clipboard v)"
  unfolding copy_to_clipboard_def by (rule js_keeps_modify) (rule frame_clipboard)

lemma keeps_copy_user_info: "js_keeps P (copy_user_info_for_edit u)"
  by (auto simp: copy_user_info_for_edit_def intro!: keeps_prims keeps_assign keeps_render_user_info)

lemma keeps_copy_pool_data: "js_keeps P (copy_pool_data_for_edit d)"
  by (auto simp: copy_pool_data_for_edit_def
      intro!: keeps_prims keeps_assign keeps_render_buckets_directory)

lemma keeps_dump: "js_keeps P kick_dump"
  by (auto simp: kick_dump_def Let_def intro!: keeps_prims)

end

text \<open>
  With the displays: \<open>ui2_clicks\<close> covers the clicks of the user, \<open>ui2_invariant\<close> the
  responses too, for the pool lists that \<open>good_list\<close> admits.
\<close>

locale ui2_clicks = ui2_frame +
  assumes keeps_pool_make: "js_keeps P (display_pool_make v)"
    and keeps_switch:
      "\<not> (v \<and> w) \<Longrightarrow> js_keeps P (js_block [display_pool_list v, display_pool_edit w])"
begin

text \<open>A block whose last two statements switch the views.\<close>

lemma keeps_switch_block:
  assumes "\<And>m. m \<in> set ms \<Longrightarrow> js_keeps P m" and "\<not> (v \<and> w)"
  shows "js_keeps P (js_block (ms @ [display_pool_list v, display_pool_edit w]))"
  unfolding js_block_append
  by (intro js_keeps_bind js_keeps_block keeps_switch assms)

lemma keeps_set_user_info_data: "js_keeps P (set_user_info_data d)"
proof -
  have "js_keeps P (js_block
      [copy_user_info_for_edit u, display_pool_list False, display_pool_edit False])" for u
    using keeps_switch_block [of "[copy_user_info_for_edit u]" False False]
    by (simp add: keeps_copy_user_info)
  then show ?thesis
    unfolding set_user_info_data_def by (intro js_keeps_bind js_keeps_lift)
qed

lemma keeps_set_pool_data: "js_keeps P (set_pool_data d)"
proof -
  have "js_keeps P (js_block [js_modify (global_desc_update (\<lambda>_. x)), copy_pool_data_for_edit x,
      render_bucket_list, render_secret_list, display_pool_list False, display_pool_edit True])" for x
    using keeps_switch_block [of "[js_modify (global_desc_update (\<lambda>_. x)), copy_pool_data_for_edit x,
      render_bucket_list, render_secret_list]" False True]
    by (auto intro: keeps_global keeps_copy_pool_data keeps_render_bucket_list
        keeps_render_secret_list)
  then show ?thesis
    unfolding set_pool_data_def by (intro js_keeps_bind js_keeps_lift)
qed

lemma keeps_run_edit_pool: "js_keeps P (run_edit_pool p)"
  by (auto simp: run_edit_pool_def intro!: js_keeps_intros keeps_global keeps_set_pool_data
      keeps_render_secret_expiration_default)

lemma keeps_show_pool_list: "js_keeps P kick_show_pool_list"
  using keeps_switch_block [of "[display_pool_make False, api_list_pools]" True False]
  by (auto simp: kick_show_pool_list_def intro: keeps_pool_make keeps_api)

lemma keeps_perform: "js_keeps P (perform a)"
  by (cases a) (simp_all add: kick_edit_pool_def kick_delete_pool_def kick_delete_bucket_def
      kick_copy_to_clipboard_def kick_delete_secret_def keeps_run_edit_pool
      keeps_api keeps_copy_to_clipboard)

lemma keeps_click:
  assumes "\<not> is_Arrive ev" "ev \<noteq> Test_csrf" "\<And>i v. ev = Input i v \<Longrightarrow> i \<noteq> ''list_of_pools''"
  shows "js_keeps P (handle ev)"
  using assms
  by (cases ev)
    (auto simp: kick_show_pool_make_def keeps_show_pool_list kick_make_pool_def
      kick_make_bucket_def kick_make_secret_def keeps_perform
      intro!: js_keeps_intros keeps_pool_make keeps_api keeps_element_value
        keeps_dump keeps_with_element keeps_tick)

end

locale ui2_invariant = ui2_clicks +
  fixes good_list :: "jsval \<Rightarrow> bool"
  assumes keeps_show_message: "js_keeps P (show_message d msg)"
    and keeps_test_csrf: "js_keeps P kick_test_csrf"
    and keeps_set_pool_list_data: "good_list d \<Longrightarrow> js_keeps P (set_pool_list_data d)"
begin

lemma keeps_on_reply:
  assumes "\<And>d. k = Set_pool_list_data \<Longrightarrow> r = Reply True (Some d) \<Longrightarrow> good_list d"
  shows "js_keeps P (on_reply msg k r)"
proof -
  have t: "js_keeps P (run_then k d)" if "r = Reply True (Some d)" for d
    using that assms
    by (cases k) (simp_all add: keeps_set_user_info_data keeps_set_pool_list_data
        keeps_set_pool_data keeps_api)
  show ?thesis
    using t by (cases "(msg, k, r)" rule: on_reply.cases)
      (auto intro!: js_keeps_intros keeps_show_message)
qed

lemma keeps_handle:
  assumes "P s" "enabled s ev"
    and "\<And>i d. ev = Arrive i (Reply True (Some d)) \<Longrightarrow> snd (inflight s ! i) = Set_pool_list_data \<Longrightarrow>
      good_list d"
  shows "P (js_state (handle ev) s)"
proof (cases ev)
  case (Arrive i r)
  let ?t = "inflight_update (drop_nth i) s"
  have "P ?t"
    using keeps_drop_inflight [of i] assms(1) by (simp add: js_keeps_def js_exec)
  moreover have "js_state (handle ev) s =
      js_state (on_reply (fst (inflight s ! i)) (snd (inflight s ! i)) r) ?t"
    using assms(2) Arrive
    by (simp add: js_state_def js_exec split: prod.splits sum.splits)
  moreover have "js_keeps P (on_reply (fst (inflight s ! i)) (snd (inflight s ! i)) r)"
    using assms(3) Arrive by (intro keeps_on_reply) blast
  ultimately show ?thesis
    by (simp add: js_keeps_state)
next
  case (Input i v)
  then have "i \<noteq> ''list_of_pools''" using assms(2) by (auto simp: input_ids_def)
  with Input keeps_click [of ev] assms(1) show ?thesis by (auto intro: js_keeps_state)
next
  case Test_csrf
  with keeps_test_csrf assms(1) show ?thesis by (auto intro: js_keeps_state)
qed (use keeps_click [of ev] assms(1) in \<open>auto intro: js_keeps_state\<close>)

end

section \<open>The views\<close>

definition shown :: "ui2 \<Rightarrow> string \<Rightarrow> bool" where
  "shown s i \<longleftrightarrow> (case document s i of None \<Rightarrow> False | Some e \<Rightarrow> el_display e = '''')"

definition page_ok :: "ui2 \<Rightarrow> bool" where
  "page_ok s \<longleftrightarrow> (\<forall>i \<in> set page_ids. document s i \<noteq> None)"

definition views_ok :: "ui2 \<Rightarrow> bool" where
  "views_ok s \<longleftrightarrow> page_ok s \<and>
     (shown s ''buckets_section'' \<longleftrightarrow> shown s ''secrets_section'') \<and>
     \<not> (shown s ''pool_list_section'' \<and> shown s ''buckets_section'')"

lemma views_ok_page: "views_ok s \<Longrightarrow> page_ok s"
  by (simp add: views_ok_def)

lemma page_ok_upd: "page_ok s \<Longrightarrow> page_ok (s\<lparr>document := (document s)(i \<mapsto> e)\<rparr>)"
  by (simp add: page_ok_def)

lemma shown_upd:
  "document s i = Some e \<Longrightarrow> i \<noteq> j \<or> el_display e' = el_display e \<Longrightarrow>
   shown (s\<lparr>document := (document s)(i \<mapsto> e')\<rparr>) j = shown s j"
  by (auto simp: shown_def)

lemma views_ok_same_page:
  "views_ok (data_update f s) = views_ok s" "views_ok (sent_update g s) = views_ok s"
  "views_ok (inflight_update h s) = views_ok s" "views_ok (global_desc_update k s) = views_ok s"
  "views_ok (clipboard_update m s) = views_ok s" "views_ok (now_ms_update n s) = views_ok s"
  by (simp_all add: views_ok_def page_ok_def shown_def)

lemma with_element_ok:
  "document s i = Some e \<Longrightarrow>
   with_element i f s = (Inr (), s\<lparr>document := (document s)(i \<mapsto> f e)\<rparr>)"
  by (simp add: with_element_def)

lemma page_ok_element: "page_ok s \<Longrightarrow> i \<in> set page_ids \<Longrightarrow> \<exists>e. document s i = Some e"
  by (auto simp: page_ok_def)

text \<open>Switching the two views is atomic on a complete page.\<close>

lemma display_views:
  assumes "page_ok s"
  shows "views_ok (snd (js_block [display_pool_list v, display_pool_edit w] s)) \<longleftrightarrow> \<not> (v \<and> w)"
proof -
  obtain e1 e2 e3 where "document s ''pool_list_section'' = Some e1"
    "document s ''buckets_section'' = Some e2" "document s ''secrets_section'' = Some e3"
    using page_ok_element [OF assms] by (force simp: page_ids_def)
  with assms show ?thesis
    by (auto simp: display_pool_list_def display_pool_edit_def set_display_def with_element_ok
        js_exec views_ok_def shown_def page_ok_def page_ids_def)
qed

text \<open>Updating one element keeps the views when it is none of the sections.\<close>

lemma views_ok_upd:
  assumes s: "views_ok s" and e: "document s i = Some e"
    and "\<And>j. j \<in> {''pool_list_section'', ''buckets_section'', ''secrets_section''} \<Longrightarrow>
      i \<noteq> j \<or> el_display e' = el_display e"
  shows "views_ok (s\<lparr>document := (document s)(i \<mapsto> e')\<rparr>)"
proof -
  have "shown (s\<lparr>document := (document s)(i \<mapsto> e')\<rparr>) j = shown s j"
    if "j \<in> {''pool_list_section'', ''buckets_section'', ''secrets_section''}" for j
    using that assms(3) shown_upd [OF e] by blast
  with s show ?thesis
    by (auto simp: views_ok_def page_ok_upd)
qed

lemma views_keeps_with_element:
  assumes "\<And>e j. j \<in> {''pool_list_section'', ''buckets_section'', ''secrets_section''} \<Longrightarrow>
    i \<noteq> j \<or> el_display (f e) = el_display e"
  shows "js_keeps views_ok (with_element i f)"
  using assms views_ok_upd
  by (auto intro!: js_keepsI simp: with_element_def split: option.splits)

interpretation views: ui2_clicks views_ok
proof unfold_locales
  fix s :: ui2 and i and e e' :: element
  assume "views_ok s" "document s i = Some e" "i = ''group_choices'' \<or> el_display e' = el_display e"
  then show "views_ok (s\<lparr>document := (document s)(i \<mapsto> e')\<rparr>)"
    by (intro views_ok_upd) auto
next
  show "js_keeps views_ok (display_pool_make v)" for v
    unfolding display_pool_make_def set_display_def by (rule views_keeps_with_element) auto
next
  show "\<not> (v \<and> w) \<Longrightarrow> js_keeps views_ok (js_block [display_pool_list v, display_pool_edit w])" for v w
    using display_views views_ok_page by (blast intro: js_keepsI)
qed (simp_all add: views_ok_same_page)

lemma views_keeps_assign: "js_keeps views_ok (assign f r)"
  unfolding assign_def
  by (intro js_keeps_bind js_keeps_lift js_keeps_modify) (simp add: views_ok_same_page)

interpretation views: ui2_invariant views_ok "\<lambda>_. True"
proof unfold_locales
  show "js_keeps views_ok (show_message d msg)" for d msg
    by (auto simp: show_message_def
        intro!: js_keeps_intros views_keeps_assign views.keeps_render_response)
  show "js_keeps views_ok kick_test_csrf"
    by (auto simp: kick_test_csrf_def intro!: js_keeps_intros views_keeps_assign views.keeps_api)
  show "js_keeps views_ok (set_pool_list_data d)" for d
  proof -
    have r: "js_keeps views_ok (render_pool_list items)" for items
      unfolding render_pool_list_def replace_children_def by (rule views_keeps_with_element) simp
    have "js_keeps views_ok (js_block [assign f u, js_bind (js_lift q) render_pool_list,
        display_pool_list True, display_pool_edit False])" for f u q
      using views.keeps_switch_block [of "[assign f u, js_bind (js_lift q) render_pool_list]" True False]
      by (auto intro: js_keeps_bind js_keeps_lift views_keeps_assign r)
    then show ?thesis
      unfolding set_pool_list_data_def by (intro js_keeps_bind js_keeps_lift)
  qed
qed

lemma views_ok_start:
  assumes "page_loaded s"
  shows "views_ok (js_state start_ui s)"
proof -
  have p: "page_ok s"
    using assms by (fastforce simp: page_loaded_def page_ok_def)
  obtain e where e: "document s ''pool_make_section'' = Some e"
    using page_ok_element [OF p, of "''pool_make_section''"] by (auto simp: page_ids_def)
  define t where "t = s\<lparr>document := (document s)(''pool_make_section'' \<mapsto> e\<lparr>el_display := ''none''\<rparr>)\<rparr>"
  have m: "display_pool_make False s = (Inr (), t)"
    by (simp add: display_pool_make_def set_display_def with_element_ok [OF e] t_def)
  have "start_ui s = js_bind (js_block [display_pool_list False, display_pool_edit False])
      (\<lambda>_. js_block [api_get_user_info]) t"
    using js_block_append [of "[display_pool_list False, display_pool_edit False]" "[api_get_user_info]"]
    by (simp add: start_ui_def js_block_Cons_ok [of "display_pool_make False", OF m])
  moreover have "views_ok (snd (js_block [display_pool_list False, display_pool_edit False] t))"
    using page_ok_upd [OF p] by (simp add: display_views t_def)
  ultimately show ?thesis
    using js_bind_establish [of views_ok
        "js_block [display_pool_list False, display_pool_edit False]" t
        "\<lambda>_. js_block [api_get_user_info]"]
      js_keeps_block [of "[api_get_user_info]" views_ok] views.keeps_api(1)
    by (simp add: js_state_def)
qed

text \<open>
  C5. In every reachable state, whatever the server answers and in whatever
  order the answers arrive, the pool list and the pool editor are never shown together, and the
  two sections of the editor (buckets and secrets) are shown or hidden together.
\<close>

theorem ui2_views_exclusive:
  assumes "ui2_reachable any_event s"
  shows "(shown s ''buckets_section'' \<longleftrightarrow> shown s ''secrets_section'') \<and>
    \<not> (shown s ''pool_list_section'' \<and> shown s ''buckets_section'')"
proof -
  from assms have "views_ok s"
    by (rule ui2_reachable_inv)
      (auto intro: views_ok_start views.keeps_handle)
  then show ?thesis unfolding views_ok_def by blast
qed

section \<open>The token\<close>

text \<open>
  The token is \<open>v\<close>, and every request sent after those of \<open>old\<close> carries it.
\<close>

definition carries_token :: "jsval \<Rightarrow> request list \<Rightarrow> ui2 \<Rightarrow> bool" where
  "carries_token v old s \<longleftrightarrow> page_ok s \<and> x_csrf_token (data s) = v \<and>
     (\<exists>new. sent s = old @ new \<and> (\<forall>r \<in> set new. rq_headers r = request_headers v))"

lemma carries_token_document:
  "carries_token v old s \<Longrightarrow> carries_token v old (s\<lparr>document := (document s)(i \<mapsto> e)\<rparr>)"
  by (simp add: carries_token_def page_ok_upd)

lemma carries_token_with_element: "js_keeps (carries_token v old) (with_element i f)"
  by (auto intro!: js_keepsI carries_token_document simp: with_element_def split: option.splits)

interpretation token: ui2_clicks "carries_token v old" for v old
proof unfold_locales
  fix s :: ui2 and r :: request and qs
  assume s: "carries_token v old s" and r: "rq_headers r = request_headers (x_csrf_token (data s))"
  then obtain new where "sent s = old @ new" "\<forall>r \<in> set new. rq_headers r = request_headers v"
    by (auto simp: carries_token_def)
  with s r show "carries_token v old (s\<lparr>sent := sent s @ [r], inflight := qs\<rparr>)"
    by (auto simp: carries_token_def page_ok_def intro!: exI [of _ "new @ [r]"])
qed (auto simp: display_pool_make_def display_pool_list_def display_pool_edit_def set_display_def
    carries_token_document carries_token_def page_ok_def
    intro!: js_keeps_intros carries_token_with_element)

lemma assign_ok: "assign f (Inr v) s = (Inr (), s\<lparr>data := f v (data s)\<rparr>)"
  by (cases s) (simp add: assign_def js_exec)

lemma render_response_ok:
  "page_ok s \<Longrightarrow> \<exists>e. render_response s = (Inr (), s\<lparr>document := (document s)(''server_response'' \<mapsto> e)\<rparr>)"
  using page_ok_element [of s "''server_response''"]
  by (auto simp: render_response_def replace_children_def with_element_def js_exec page_ids_def)

text \<open>On a complete page a request is always sent.\<close>

lemma submit_request_ok:
  assumes "page_ok s"
  obtains t where "submit_request msg m p b k s = (Inr (), t)"
    and "sent t = sent s @ [\<lparr>rq_method = m, rq_path = p, rq_body = b,
      rq_headers = request_headers (x_csrf_token (data s))\<rparr>]"
    and "inflight t = inflight s @ [(msg, k)]"
    and "x_csrf_token (data t) = x_csrf_token (data s)"
    and "pool_desc_list (data t) = pool_desc_list (data s)"
    and "page_ok t"
proof -
  let ?d = "(data s)\<lparr>response_message := JStr (msg @ '' ...''), response_status := JStr '''',
    response_reason := JStr '''', response_time := JStr ''0''\<rparr>"
  have "page_ok (s\<lparr>data := ?d\<rparr>)" using assms by (simp add: page_ok_def)
  then obtain e where "render_response (s\<lparr>data := ?d\<rparr>) =
      (Inr (), s\<lparr>data := ?d, document := (document s)(''server_response'' \<mapsto> e)\<rparr>)"
    using render_response_ok by fastforce
  then have "show_message JNull (msg @ '' ...'') s =
      (Inr (), s\<lparr>data := ?d, document := (document s)(''server_response'' \<mapsto> e)\<rparr>)"
    by (simp add: show_message_def js_exec assign_ok)
  with that page_ok_upd [OF assms, of "''server_response''" e] show thesis
    by (simp add: submit_request_def js_exec page_ok_def)
qed

lemma carries_token_start: "page_ok s \<Longrightarrow> carries_token (x_csrf_token (data s)) (sent s) s"
  by (simp add: carries_token_def)

text \<open>After the message of a response, its handler sends under one token.\<close>

lemma show_message_sends_nothing:
  "js_keeps (\<lambda>s. page_ok s \<and> sent s = old) (show_message d msg)"
proof -
  let ?Q = "\<lambda>s. page_ok s \<and> sent s = old"
  have "js_keeps ?Q (with_element i f)" for i f
    by (auto intro!: js_keepsI simp: with_element_def page_ok_upd split: option.splits)
  moreover have "js_keeps ?Q (assign f r)" for f r
    unfolding assign_def
    by (intro js_keeps_bind js_keeps_lift js_keeps_modify) (simp add: page_ok_def)
  ultimately show ?thesis
    by (auto simp: show_message_def render_response_def replace_children_def intro!: js_keeps_intros)
qed

lemma carries_token_set_pool_list_data: "js_keeps (carries_token v old) (set_pool_list_data d)"
proof -
  have "js_keeps (carries_token v old) (assign (\<lambda>v. pool_desc_list_update (\<lambda>_. v)) r)" for r
    unfolding assign_def
    by (intro js_keeps_bind js_keeps_lift js_keeps_modify) (auto simp: carries_token_def page_ok_def)
  then show ?thesis
    by (auto simp: set_pool_list_data_def render_pool_list_def replace_children_def
        display_pool_list_def display_pool_edit_def set_display_def
        intro!: js_keeps_intros carries_token_with_element)
qed

lemma carries_token_run_then: "js_keeps (carries_token v old) (run_then k d)"
  by (cases k) (simp_all add: token.keeps_set_user_info_data token.keeps_set_pool_data
      token.keeps_api carries_token_set_pool_list_data)

definition sends_current :: "request list \<Rightarrow> ui2 \<Rightarrow> bool" where
  "sends_current old s \<longleftrightarrow> carries_token (x_csrf_token (data s)) old s"

lemma sends_currentI: "carries_token v old s \<Longrightarrow> sends_current old s"
  by (simp add: sends_current_def carries_token_def)

lemma sends_current_on_reply:
  assumes "page_ok s" "sent s = old"
  shows "sends_current old (snd (on_reply msg k r s))"
proof -
  have sm: "page_ok (snd (show_message d m s)) \<and> sent (snd (show_message d m s)) = old" for d m
    using js_keepsD [OF show_message_sends_nothing, of s old d m] assms by simp
  have sc: "sends_current old t" if "page_ok t \<and> sent t = old" for t
    using that by (simp add: sends_current_def carries_token_def)
  have rt: "sends_current old t \<Longrightarrow> sends_current old (snd (run_then k d t))" for d t
    using js_keepsD [OF carries_token_run_then] sends_currentI
    by (metis sends_current_def)
  show ?thesis
  proof (cases "(msg, k, r)" rule: on_reply.cases)
    case (3 m k' ok d)
    then show ?thesis
      using sc [OF sm [of d]] rt
      by (auto simp: js_exec split: prod.splits sum.splits if_splits) (metis snd_conv)+
  qed (use assms sc in \<open>simp_all add: js_exec\<close>)
qed

lemma ui2_reachable_views: "ui2_reachable G s \<Longrightarrow> views_ok s"
  by (erule ui2_reachable_inv) (auto intro: views_ok_start views.keeps_handle)

lemmas ui2_reachable_page = views_ok_page [OF ui2_reachable_views]

lemma test_csrf_ok:
  assumes "page_ok s"
  obtains t where "kick_test_csrf s = (Inr (), t)"
    and "sent t = sent s @ [\<lparr>rq_method = ''GET'', rq_path = base_path s @ ''/pool'', rq_body = None,
      rq_headers = request_headers (JStr test_csrf_token)\<rparr>]"
    and "x_csrf_token (data t) = x_csrf_token (data s)"
    and "pool_desc_list (data t) = pool_desc_list (data s)" and "page_ok t"
proof -
  let ?u = "s\<lparr>data := (data s)\<lparr>x_csrf_token := JStr test_csrf_token\<rparr>\<rparr>"
  have "page_ok ?u" using assms by (simp add: page_ok_def)
  then obtain t where t: "submit_request ''list pools'' ''GET'' (base_path s @ ''/pool'') None
      Set_pool_list_data ?u = (Inr (), t)"
      "sent t = sent ?u @ [\<lparr>rq_method = ''GET'', rq_path = base_path s @ ''/pool'', rq_body = None,
         rq_headers = request_headers (x_csrf_token (data ?u))\<rparr>]"
      "pool_desc_list (data t) = pool_desc_list (data ?u)" "page_ok t"
    by (rule submit_request_ok) blast
  have "kick_test_csrf s = (Inr (), t\<lparr>data := (data t)\<lparr>x_csrf_token := x_csrf_token (data s)\<rparr>\<rparr>)"
    using t(1) by (simp add: kick_test_csrf_def api_list_pools_def js_exec assign_ok)
  with that t(2-4) show thesis by (simp add: page_ok_def)
qed

lemma click_carries_token:
  assumes "page_ok s" "enabled s ev" "\<not> is_Arrive ev" "ev \<noteq> Test_csrf"
  shows "carries_token (x_csrf_token (data s)) (sent s) (js_state (handle ev) s)"
  using assms carries_token_start [OF assms(1)]
  by (intro js_keeps_state [OF token.keeps_click]) (auto simp: input_ids_def)

lemma arrive_sends_current:
  assumes "page_ok s" "enabled s (Arrive i r)"
  shows "sends_current (sent s) (js_state (handle (Arrive i r)) s)"
proof -
  have "js_state (handle (Arrive i r)) s =
      snd (on_reply (fst (inflight s ! i)) (snd (inflight s ! i)) r (inflight_update (drop_nth i) s))"
    using assms(2) by (simp add: js_state_def js_exec split: prod.splits sum.splits)
  also have "sends_current (sent s) \<dots>"
    by (rule sends_current_on_reply) (use assms(1) in \<open>simp_all add: page_ok_def\<close>)
  finally show ?thesis .
qed

text \<open>
  In a reachable state no click of the user changes the CSRF
  token, the test button included, which sends one request with a fake token and restores the
  real one.
\<close>

theorem ui2_token_changes_only_by_replies:
  assumes "ui2_reachable any_event s" "enabled s ev" "\<not> is_Arrive ev"
  shows "x_csrf_token (data (js_state (handle ev) s)) = x_csrf_token (data s)"
proof (cases "ev = Test_csrf")
  case True
  obtain t where "kick_test_csrf s = (Inr (), t)" "x_csrf_token (data t) = x_csrf_token (data s)"
    by (rule test_csrf_ok [OF ui2_reachable_page [OF assms(1)]])
  with True show ?thesis by (simp add: js_state_def)
next
  case False
  then show ?thesis
    using click_carries_token [OF ui2_reachable_page [OF assms(1)] assms(2,3)]
    by (simp add: carries_token_def)
qed


section \<open>The pool list\<close>

text \<open>The rendered list is that of the pools the editor data holds.\<close>

definition list_ok :: "ui2 \<Rightarrow> bool" where
  "list_ok s \<longleftrightarrow> page_ok s \<and>
     (\<exists>e. document s ''list_of_pools'' = Some e \<and>
        (el_children e = [] \<or>
         (\<exists>items. pool_list_items (pool_desc_list (data s)) = Inr items \<and>
            el_children e = [Node ''div'' [] None (pool_list_rows items)])))"

definition printable_list :: "jsval \<Rightarrow> bool" where
  "printable_list d \<longleftrightarrow>
     (case get_prop d ''pool_list'' of
        Inl _ \<Rightarrow> True
      | Inr descs \<Rightarrow> (case pool_list_items descs of Inl _ \<Rightarrow> False | Inr _ \<Rightarrow> True))"

text \<open>The server answers list requests with pools that can be printed.\<close>

fun lists_printable :: "ui2 \<Rightarrow> ui2_event \<Rightarrow> bool" where
  "lists_printable s (Arrive i (Reply True (Some d))) =
     (snd (inflight s ! i) = Set_pool_list_data \<longrightarrow> printable_list d)"
| "lists_printable s _ = True"

lemma list_ok_upd:
  "list_ok s \<Longrightarrow> document s i = Some e \<Longrightarrow> i = ''list_of_pools'' \<longrightarrow> el_children e' = el_children e \<Longrightarrow>
   list_ok (s\<lparr>document := (document s)(i \<mapsto> e')\<rparr>)"
  by (auto simp: list_ok_def page_ok_upd)

lemma list_ok_with_element:
  assumes "\<And>e. i = ''list_of_pools'' \<longrightarrow> el_children (f e) = el_children e"
  shows "js_keeps list_ok (with_element i f)"
proof (rule js_keepsI)
  fix s
  assume "list_ok s"
  then show "list_ok (snd (with_element i f s))"
    using list_ok_upd [of s i "the (document s i)" "f (the (document s i))"] assms
    by (cases "document s i") (simp_all add: with_element_def)
qed

interpretation pool_view: ui2_clicks list_ok
proof unfold_locales
  fix s :: ui2 and i and e e' :: element
  assume "list_ok s" "document s i = Some e" "i = ''list_of_pools'' \<longrightarrow> el_children e' = el_children e"
  then show "list_ok (s\<lparr>document := (document s)(i \<mapsto> e')\<rparr>)" by (rule list_ok_upd)
qed (auto simp: display_pool_make_def display_pool_list_def display_pool_edit_def set_display_def
    list_ok_def page_ok_def intro!: js_keeps_intros list_ok_with_element)

lemma list_ok_assign:
  assumes "\<And>v d. pool_desc_list (f v d) = pool_desc_list d"
  shows "js_keeps list_ok (assign f r)"
  unfolding assign_def
  by (intro js_keeps_bind js_keeps_lift js_keeps_modify) (simp add: list_ok_def page_ok_def assms)

lemma list_ok_rendered:
  assumes "page_ok s" "pool_list_items (pool_desc_list (data s)) = Inr items"
  shows "list_ok (snd (render_pool_list items s))"
proof -
  obtain e where e: "document s ''list_of_pools'' = Some e"
    using page_ok_element [OF assms(1), of "''list_of_pools''"] by (auto simp: page_ids_def)
  show ?thesis
    using assms by (simp add: render_pool_list_def replace_children_def with_element_ok [OF e]
        list_ok_def page_ok_def)
qed

lemma list_ok_set_pool_list_data:
  assumes "printable_list d"
  shows "js_keeps list_ok (set_pool_list_data d)"
proof (cases "get_prop d ''pool_list''")
  case (Inr descs)
  then obtain items where items: "pool_list_items descs = Inr items"
    using assms by (auto simp: printable_list_def split: sum.splits)
  let ?ds = "[display_pool_list True, display_pool_edit False]"
  have ds: "js_keeps list_ok (js_block ?ds)" by (rule pool_view.keeps_switch) simp
  show ?thesis
  proof (rule js_keepsI)
    fix s
    assume "list_ok s"
    then have "page_ok (s\<lparr>data := (data s)\<lparr>pool_desc_list := descs\<rparr>\<rparr>)"
      by (simp add: list_ok_def page_ok_def)
    then have "list_ok (snd (render_pool_list items (s\<lparr>data := (data s)\<lparr>pool_desc_list := descs\<rparr>\<rparr>)))"
      by (rule list_ok_rendered) (simp add: items)
    then have "list_ok (snd (js_bind (render_pool_list items) (\<lambda>_. js_block ?ds)
        (s\<lparr>data := (data s)\<lparr>pool_desc_list := descs\<rparr>\<rparr>)))"
      by (rule js_bind_establish) (rule ds)
    moreover have "set_pool_list_data d s = js_bind (render_pool_list items) (\<lambda>_. js_block ?ds)
        (s\<lparr>data := (data s)\<lparr>pool_desc_list := descs\<rparr>\<rparr>)"
      by (simp add: set_pool_list_data_def js_bind_def js_lift_def Inr items assign_ok
          js_block_Cons_ok [of "assign _ _", OF assign_ok] js_block.simps(2))
    ultimately show "list_ok (snd (set_pool_list_data d s))" by simp
  qed
qed (auto simp: set_pool_list_data_def js_keeps_def js_exec)

interpretation pool_view: ui2_invariant list_ok printable_list
proof unfold_locales
  show "js_keeps list_ok (show_message d msg)" for d msg
    by (auto simp: show_message_def
        intro!: js_keeps_intros list_ok_assign pool_view.keeps_render_response)
  show "js_keeps list_ok kick_test_csrf"
    by (auto simp: kick_test_csrf_def intro!: js_keeps_intros list_ok_assign pool_view.keeps_api)
  show "printable_list d \<Longrightarrow> js_keeps list_ok (set_pool_list_data d)" for d
    by (rule list_ok_set_pool_list_data)
qed

lemma list_ok_start:
  assumes "page_loaded s"
  shows "list_ok (js_state start_ui s)"
proof -
  have "list_ok s"
    using assms by (force simp: page_loaded_def list_ok_def page_ok_def page_ids_def)
  moreover have "js_keeps list_ok (js_block ([display_pool_make False] @
      [display_pool_list False, display_pool_edit False] @ [api_get_user_info]))"
    using pool_view.keeps_api(1) pool_view.keeps_pool_make pool_view.keeps_switch
    by (simp only: js_block_append) (intro js_keeps_bind, auto intro: js_keeps_block)
  ultimately show ?thesis
    using js_keeps_state [of list_ok start_ui s] by (simp add: start_ui_def)
qed

lemma ui2_reachable_list_ok: "ui2_reachable lists_printable s \<Longrightarrow> list_ok s"
  by (erule ui2_reachable_inv) (auto intro: list_ok_start pool_view.keeps_handle)

lemma pool_entry_has_name:
  assumes "make_pool_entry_for_printing desc = Inr items"
  shows "\<exists>name. get_prop desc ''pool_name'' = Inr name \<and>
    \<lparr>li_label = ''Pool-ID'', li_value = name\<rparr> \<in> set items"
  using assms unfolding make_pool_entry_for_printing_def by (elim err_bindE) auto


section \<open>Witnesses\<close>

definition blank_element :: element where
  "blank_element = \<lparr>el_value = '''', el_display = '''', el_children = []\<rparr>"

definition blank_page :: ui2 where
  "blank_page =
     \<lparr>data = init_pool_data,
      document = (\<lambda>i. if i \<in> set page_ids then Some blank_element else None),
      sent = [], inflight = [], clipboard = [], global_desc = JUndef, base_path = ''/api~'',
      now_ms = 0, date_fallback = (\<lambda>_. None)\<rparr>"

lemma blank_page_loaded: "page_loaded blank_page"
  by (simp add: page_loaded_def blank_page_def blank_element_def)

lemma blank_page_reachable: "ui2_reachable G (js_state start_ui blank_page)"
  by (rule ui2_start) (rule blank_page_loaded)

theorem ui2_views_exclusive_witness:
  "ui2_reachable any_event (js_state start_ui blank_page) \<and>
   (shown (js_state start_ui blank_page) ''buckets_section'' \<longleftrightarrow>
    shown (js_state start_ui blank_page) ''secrets_section'')"
  using ui2_views_exclusive [OF blank_page_reachable] blank_page_reachable by blast

theorem ui2_token_changes_only_by_replies_witness:
  "enabled (js_state start_ui blank_page) Test_csrf \<and>
   x_csrf_token (data (js_state (handle Test_csrf) (js_state start_ui blank_page))) =
   x_csrf_token (data (js_state start_ui blank_page))"
  using ui2_token_changes_only_by_replies [OF blank_page_reachable, of Test_csrf] by simp


text \<open>A run that lists one pool.\<close>

definition sample_desc :: jsval where
  "sample_desc = JObj
     [(''pool_name'', JStr ''0123456789abcdef''), (''buckets'', JArr []), (''secrets'', JArr []),
      (''expiration_time'', JNum 0), (''modification_time'', JNum 0)]"

definition sample_list :: jsval where
  "sample_list = JObj [(''status'', JStr ''success''), (''pool_list'', JArr [sample_desc])]"

definition listing_page :: ui2 where
  "listing_page = js_state (handle Show_pool_list) (js_state start_ui blank_page)"

definition listed_page :: ui2 where
  "listed_page = js_state (handle (Arrive 1 (Reply True (Some sample_list)))) listing_page"

lemma listed_page_reachable: "ui2_reachable lists_printable listed_page"
proof -
  have "length (inflight listing_page) = 2" and "printable_list sample_list"
    by code_simp+
  then have "ui2_step lists_printable listing_page listed_page"
    unfolding listed_page_def by (intro ui2_event) simp_all
  moreover have "ui2_step lists_printable (js_state start_ui blank_page) listing_page"
    unfolding listing_page_def by (rule ui2_event) simp_all
  ultimately show ?thesis
    using blank_page_reachable by (blast intro: ui2_next)
qed

lemma listed_page_rows:
  "map_option el_children (document listed_page ''list_of_pools'') =
   Some [Node ''div'' [] None
     (pool_list_rows (projr (pool_list_items (JArr [sample_desc]))))]"
  by code_simp


text \<open>
  The condition is needed. A list with a pool that cannot be printed is stored before the printing
  raises: the rows of the old list stay, and their buttons index the new one. Here the page still
  shows the row of the pool of the list above, and its delete button deletes another pool.
\<close>

definition unprintable_list :: jsval where
  "unprintable_list = JObj [(''status'', JStr ''success''),
     (''pool_list'', JArr [JObj [(''pool_name'', JStr ''fedcba9876543210''), (''buckets'', JNull)]])]"

definition stale_page :: ui2 where
  "stale_page = js_state (handle (Arrive 1 (Reply True (Some unprintable_list))))
     (js_state (handle Show_pool_list) listed_page)"

lemma stale_page_reachable: "ui2_reachable any_event stale_page"
proof -
  have n: "length (inflight listing_page) = 2" "length (inflight (js_state kick_show_pool_list listed_page)) = 2"
    by code_simp+
  have "ui2_reachable any_event listing_page"
    unfolding listing_page_def by (rule ui2_next [OF blank_page_reachable]) (rule ui2_event, simp_all)
  then have "ui2_reachable any_event listed_page"
    unfolding listed_page_def by (rule ui2_next) (rule ui2_event, simp_all add: n)
  then have "ui2_reachable any_event (js_state (handle Show_pool_list) listed_page)"
    by (rule ui2_next) (rule ui2_event, simp_all)
  then show ?thesis
    unfolding stale_page_def by (rule ui2_next) (rule ui2_event, simp_all add: n)
qed

lemma unprintable_list_deletes_another_pool:
  "ui2_reachable any_event stale_page \<and>
   map_option el_children (document stale_page ''list_of_pools'') =
     map_option el_children (document listed_page ''list_of_pools'') \<and>
   shown stale_page ''pool_list_section'' \<and>
   rq_path (last (sent (js_state (perform (Kick_delete_pool (dec_nat 0))) listed_page))) =
     ''/api~/pool/0123456789abcdef'' \<and>
   rq_path (last (sent (js_state (perform (Kick_delete_pool (dec_nat 0))) stale_page))) =
     ''/api~/pool/fedcba9876543210''"
proof (intro conjI)
  show "ui2_reachable any_event stale_page" by (rule stale_page_reachable)
qed code_simp+

end
