(* ===== verification/Ui2_Contract.thy ===== *)
theory Ui2_Contract
  imports Ui2_Runs Key_Lists
begin

text \<open>
  The simple interface against the registrar: what the page shows after a response that the
  registrar builds from a pool's records, what an error response does, how times are printed
  and read back, and the body of the request that makes a key.
\<close>

section \<open>Times\<close>

text \<open>
  C15. A time in seconds of the years 0 to 9999, other than zero, is printed
  by \<open>format_time_z\<close> as a date and time that \<open>parse_time_z\<close> reads back as the same number,
  whatever the browser makes of strings that are no ISO dates.
\<close>

theorem ui2_time_round_trip:
  assumes "four_digit_seconds t" and "t \<noteq> 0"
  shows "\<exists>x. format_time_z (JNum t) = Inr (JStr x) \<and> parse_time_z fb x = dec_int t"
proof -
  have clip: "time_clip (t * 1000) = Some (t * 1000)"
    using assms(1) by (auto simp: time_clip_def four_digit_seconds_def abs_if)
  have "\<not> eq_str (JNum t) ''0''"
    using assms(2) by (simp add: str_to_number_def trim_def is_space_def read_nat_def digit_val_def)
  then have "format_time_z (JNum t) = Inr (JStr (take 19 (to_iso_string (t * 1000)) @ ''Z''))"
    using clip by (simp add: format_time_z_def)
  moreover have "parse_time_z fb (take 19 (to_iso_string (t * 1000)) @ ''Z'') = dec_int t"
    using iso_parse_seconds [OF assms(1)] clip by (simp add: parse_time_z_def date_parse_def)
  ultimately show ?thesis by blast
qed

theorem ui2_time_round_trip_witness:
  "format_time_z (JNum 1686755715) = Inr (JStr ''2023-06-14T15:15:15Z'') \<and>
   parse_time_z (\<lambda>_. None) ''2023-06-14T15:15:15Z'' = dec_int 1686755715"
proof -
  have "four_digit_seconds 1686755715" "(1686755715 :: int) \<noteq> 0" by (simp_all add: four_digit_seconds_def)
  from ui2_time_round_trip [OF this, of "\<lambda>_. None"]
  obtain x where x: "format_time_z (JNum 1686755715) = Inr (JStr x)"
    "parse_time_z (\<lambda>_. None) x = dec_int 1686755715"
    by blast
  moreover have "format_time_z (JNum 1686755715) = Inr (JStr ''2023-06-14T15:15:15Z'')"
    by code_simp
  ultimately show ?thesis by simp
qed

section \<open>Making a key\<close>

text \<open>
  C11. Whatever date the user gives, the body with which the
  simple interface asks for a key is one the registrar cannot decode: the expiration time is
  sent as a string, the registrar expects an integer.
\<close>

theorem ui2_make_secret_request_is_refused:
  fixes s :: ui2
  assumes "page_ok s"
  shows "\<exists>x. sent (js_state (api_make_secret rw expiry) s) = sent s @
      [\<lparr>rq_method = ''POST'', rq_path = base_path s @ ''/pool/'' @ to_string (pool_name (data s)) @ ''/secret'',
        rq_body = Some (json_stringify (make_secret_args rw x)),
        rq_headers = request_headers (x_csrf_token (data s))\<rparr>] \<and>
    decode_make_secret_request (make_secret_args rw x) = None"
proof -
  let ?x = "parse_time_z (date_fallback s) expiry"
  let ?path = "base_path s @ ''/pool/'' @ to_string (pool_name (data s)) @ ''/secret''"
  obtain t where t: "submit_request ''make secret'' ''POST'' ?path
      (Some (json_stringify (make_secret_args rw ?x))) Set_pool_data s = (Inr (), t)"
    "sent t = sent s @ [\<lparr>rq_method = ''POST'', rq_path = ?path,
      rq_body = Some (json_stringify (make_secret_args rw ?x)),
      rq_headers = request_headers (x_csrf_token (data s))\<rparr>]"
    by (rule submit_request_ok [OF assms]) blast
  have "js_state (api_make_secret rw expiry) s = t"
    using t(1) by (simp add: js_state_def api_make_secret_def pool_path_def js_bind_def js_gets_def Let_def)
  moreover have "decode_make_secret_request (make_secret_args rw ?x) = None"
    by (simp add: make_secret_args_def decode_make_secret_request_def key_matches_def lower_char_def Let_def)
  ultimately show ?thesis using t(2) by auto
qed

theorem ui2_make_secret_request_is_refused_witness:
  "\<exists>x. sent (js_state (api_make_secret ''readwrite'' ''2030-01-01'') blank_page) = sent blank_page @
      [\<lparr>rq_method = ''POST'',
        rq_path = base_path blank_page @ ''/pool/'' @ to_string (pool_name (data blank_page)) @ ''/secret'',
        rq_body = Some (json_stringify (make_secret_args ''readwrite'' x)),
        rq_headers = request_headers (x_csrf_token (data blank_page))\<rparr>] \<and>
    decode_make_secret_request (make_secret_args ''readwrite'' x) = None"
proof (rule ui2_make_secret_request_is_refused)
  show "page_ok blank_page" by (simp add: page_ok_def blank_page_def)
qed

section \<open>The pool a response brings\<close>

definition time_text :: "int \<Rightarrow> jsval" where
  "time_text n = (if n = 0 then JStr ''0'' else JStr (take 19 (to_iso_string (n * 1000)) @ ''Z''))"

abbreviation shown_key :: "secret_data_ui \<Rightarrow> jsval" where
  "shown_key \<equiv> key_json time_text"

lemma str_to_number_0: "str_to_number ''0'' = Some n \<longleftrightarrow> n = 0"
  by (auto simp: str_to_number_def trim_def is_space_def read_nat_def digit_val_def)

interpretation keys: key_lists format_time_z format_key format_time_in_keys field_is time_text
proof (unfold_locales, goal_cases)
  case (1 n)
  then show ?case
    by (auto simp: printable_time_def format_time_z_def time_text_def str_to_number_0
        dest: time_clip_Some split: option.splits)
qed (simp_all only: format_key_def format_time_in_keys_def field_is_def)

text \<open>The rows for the buckets and the keys, and the actions of their buttons.\<close>

definition bucket_node :: "bucket_data_ui \<Rightarrow> node" where
  "bucket_node b = projr (bucket_row (bucket_data_json b))"

definition secret_node :: "secret_data_ui \<Rightarrow> node" where
  "secret_node k = projr (secret_row (shown_key k))"

lemma bucket_rows: "err_map bucket_row (map bucket_data_json bs) = Inr (map bucket_node bs)"
  by (induction bs) (simp_all add: bucket_node_def bucket_row_def bucket_data_json_def)

lemma secret_rows: "err_map secret_row (map shown_key ks) = Inr (map secret_node ks)"
  by (induction ks) (simp_all add: secret_node_def secret_row_def key_json_def)

lemma row_actions:
  "actions (bucket_node b) = [Kick_delete_bucket (JStr (bu_Bucket b))]"
  "actions (secret_node k) =
     [Kick_copy_to_clipboard (JStr (su_Access_key k)), Kick_copy_to_clipboard (JStr (su_Secret_key k)),
      Kick_delete_secret (JStr (su_Access_key k))]"
  by (simp_all add: bucket_node_def bucket_row_def bucket_data_json_def secret_node_def secret_row_def
      key_json_def disabled_input_def button_def)

definition edit_data :: "pool_prop_ui \<Rightarrow> pool_data \<Rightarrow> pool_data" where
  "edit_data u d = d
     \<lparr>pool_name := JStr (pu_Pool u), buckets_directory := JStr (pu_Bucket_directory u),
      owner := JStr (pu_Owner_uid u), group_choices := JUndef,
      bucket_list := JArr (map bucket_data_json (pu_Buckets u)),
      secrets_rw := JArr (map shown_key (keys_of_policy ''readwrite'' (pu_Secrets u))),
      secrets_ro := JArr (map shown_key (keys_of_policy ''readonly'' (pu_Secrets u))),
      secrets_wo := JArr (map shown_key (keys_of_policy ''writeonly'' (pu_Secrets u)))\<rparr>"

lemma copy_pool_data_response:
  assumes "\<forall>k \<in> set (pu_Secrets u). printable_time (su_Expiration_time k)"
    and "document s ''buckets_directory'' = Some e"
  shows "copy_pool_data_for_edit (pool_prop_json u) s =
    (Inr (), s\<lparr>data := edit_data u (data s),
       document := (document s)(''buckets_directory'' \<mapsto> e\<lparr>el_value := pu_Bucket_directory u\<rparr>)\<rparr>)"
  using keys.format_keys [OF assms(1)] assms(2)
  unfolding copy_pool_data_for_edit_def pool_prop_json_def
  by (simp add: js_bind_lift js_block_Cons_ok [where x = "()"] assign_ok keys.filter_keys
      js_block.simps(1) js_exec_simps(1) render_buckets_directory_def js_bind_def [of "js_gets _"]
      js_exec_simps(4) with_element_ok edit_data_def dom_value_def)

lemma replace_children_ok:
  "document s i = Some e \<Longrightarrow>
   replace_children i ns s = (Inr (), s\<lparr>document := (document s)(i \<mapsto> e\<lparr>el_children := ns\<rparr>)\<rparr>)"
  by (simp add: replace_children_def with_element_ok)

lemma set_display_ok:
  "document s i = Some e \<Longrightarrow>
   set_display i v s = (Inr (), s\<lparr>document := (document s)(i \<mapsto> e\<lparr>el_display := if v then '''' else ''none''\<rparr>)\<rparr>)"
  by (simp add: set_display_def with_element_ok)

definition section_actions :: "ui2 \<Rightarrow> string \<Rightarrow> action list" where
  "section_actions s i = (case document s i of None \<Rightarrow> [] | Some e \<Rightarrow> concat (map actions (el_children e)))"

lemma render_lists_ok:
  assumes "bucket_list (data s) = JArr (map bucket_data_json bs)"
    and "secrets_rw (data s) = JArr (map shown_key rw)"
    and "secrets_ro (data s) = JArr (map shown_key ro)"
    and "secrets_wo (data s) = JArr (map shown_key wo)"
    and "document s ''list_of_buckets'' = Some e1" "document s ''list_of_secrets_rw'' = Some e2"
      "document s ''list_of_secrets_ro'' = Some e3" "document s ''list_of_secrets_wo'' = Some e4"
  shows "js_block [render_bucket_list, render_secret_list] s =
    (Inr (), s\<lparr>document := (document s)
       (''list_of_buckets'' \<mapsto> e1\<lparr>el_children := map bucket_node bs\<rparr>,
        ''list_of_secrets_rw'' \<mapsto> e2\<lparr>el_children := map secret_node rw\<rparr>,
        ''list_of_secrets_ro'' \<mapsto> e3\<lparr>el_children := map secret_node ro\<rparr>,
        ''list_of_secrets_wo'' \<mapsto> e4\<lparr>el_children := map secret_node wo\<rparr>)\<rparr>)"
  using assms
  by (simp add: render_bucket_list_def render_secret_list_def render_secret_list_by_policy_def
      js_block.simps js_bind_def js_gets_def js_lift_def js_return_def bucket_rows secret_rows
      replace_children_ok)


section \<open>Errors\<close>


section \<open>The default expiration\<close>

text \<open>
  Opening a pool in the editor proposes an expiration date
  that, read back by the form, is the midnight UTC before the moment one week from now.
\<close>

theorem ui2_default_expiration_is_a_week:
  fixes s :: ui2
  assumes page: "page_ok s" and "four_digit_seconds (now_ms s div 1000 + 604800)"
  shows "\<exists>e t. document (js_state render_secret_expiration_default s) ''secret_expiration'' = Some e \<and>
    parse_time_z fb (el_value e) = dec_int t \<and>
    t mod 86400 = 0 \<and> t \<le> now_ms s div 1000 + 604800 \<and> now_ms s div 1000 + 604800 < t + 86400"
proof -
  define w where "w = now_ms s div 1000 + 604800"
  define n where "n = day_of (w * 1000)"
  have w: "four_digit_seconds w" using assms(2) by (simp add: w_def)
  obtain y m d where c: "civil n = (y, m, d)" by (metis surj_pair)
  have y: "0 \<le> y" "y \<le> 9999" using four_digit_year [OF w c [unfolded n_def]] by simp_all
  obtain e where e: "document s ''secret_expiration'' = Some e"
    using page_ok_element [OF page, of "''secret_expiration''"] by (auto simp: page_ids_def)
  have clip: "time_clip (w * 1000) = Some (w * 1000)"
    using w by (auto simp: time_clip_def four_digit_seconds_def abs_if)
  have doc: "document (js_state render_secret_expiration_default s) ''secret_expiration'' =
      Some (e\<lparr>el_value := iso_date_string n\<rparr>)"
    using e clip
    by (simp add: render_secret_expiration_default_def js_state_def js_exec with_element_def Let_def
        n_def w_def)
  have "n = w div 86400"
    unfolding n_def day_of_def ms_per_day_def using div_mult_mult1 [of 1000 w 86400] by (simp add: mult.commute)
  then have bounds: "86400 * n \<le> w" "w < 86400 * n + 86400"
    using div_le_lt [of 86400 w] by simp_all
  have "time_clip (make_date n 0) = Some (make_date n 0)"
    using bounds w by (auto simp: time_clip_def make_date_def ms_per_day_def four_digit_seconds_def abs_if)
  then have "parse_time_z fb (iso_date_string n) = dec_int (n * 86400)"
    using iso_date_printed [OF c y]
    by (simp add: parse_time_z_def date_parse_def iso_parse_def make_date_def ms_per_day_def)
  with doc bounds show ?thesis
    unfolding w_def [symmetric]
    by (intro exI [of _ "e\<lparr>el_value := iso_date_string n\<rparr>"] exI [of _ "n * 86400"]) simp
qed

section \<open>The pool list\<close>

text \<open>
  The registrar's lists of pools are printable when their times are: the condition under which the
  rows of the page and the data behind their buttons agree.
\<close>

lemma bucket_policies:
  "err_filter (field_is ''bkt_policy'' p) (map bucket_data_json bs) =
   Inr (map bucket_data_json (filter (\<lambda>b. bu_Bucket_policy b = p) bs))"
  by (induction bs) (simp_all add: field_is_def bucket_data_json_def)

lemma bucket_names: "err_map (\<lambda>d. get_prop d ''name'') (map bucket_data_json bs) = Inr (map (JStr \<circ> bu_Bucket) bs)"
  by (induction bs) (simp_all add: bucket_data_json_def)

lemma names_printable: "\<exists>ns. names_with_policy (JArr (map bucket_data_json bs)) p = Inr ns"
  by (simp add: names_with_policy_def bucket_policies bucket_names)

lemma pool_entry_printable:
  assumes "printable_time (pu_Expiration_time u)" "printable_time (pu_Timestamp u)"
  shows "\<exists>items. make_pool_entry_for_printing (pool_prop_json u) = Inr items"
proof -
  have "\<exists>ns. names_with_policy (JArr (map bucket_data_json (pu_Buckets u))) p = Inr ns" for p
    by (rule names_printable)
  then obtain f where "\<And>p. names_with_policy (JArr (map bucket_data_json (pu_Buckets u))) p = Inr (f p)" by metis
  then show ?thesis
    using keys.fmt_time [OF assms(1)] keys.fmt_time [OF assms(2)]
    by (simp add: make_pool_entry_for_printing_def pool_prop_json_def)
qed

lemma registrar_list_printable:
  assumes "\<forall>p \<in> set ps. printable_time (po_Expiration_time p) \<and> printable_time (po_Timestamp p)"
  shows "printable_list (pool_list_response now ps)"
proof -
  let ?ds = "map (pool_prop_json \<circ> copy_pool_prop_to_ui) ps"
  have "\<exists>items. err_bind (get_prop (JArr ?ds) (dec_nat k)) make_pool_entry_for_printing = Inr items"
    if "k < length ps" for k
    using that assms pool_entry_printable [of "copy_pool_prop_to_ui (ps ! k)"]
    by (simp add: copy_pool_prop_to_ui_def)
  then have all: "\<exists>its. err_map (\<lambda>k. err_bind (get_prop (JArr ?ds) (dec_nat k)) make_pool_entry_for_printing) ks = Inr its"
    if "set ks \<subseteq> {..<length ps}" for ks
    using that by (induction ks) fastforce+
  have "\<exists>its. err_map (\<lambda>k. err_bind (get_prop (JArr ?ds) (dec_nat k)) make_pool_entry_for_printing) [0..<length ps] = Inr its"
    by (rule all) auto
  then show ?thesis
    by (auto simp: printable_list_def pool_list_response_def success_json_def pool_list_items_def loop_length_def)
qed

section \<open>Instances\<close>

definition sample_pool :: pool_prop where
  "sample_pool =
     \<lparr>po_Pool = ''d4f0c4645fce5734'', po_Bucket_directory = ''/home/u/pool'', po_Owner_uid = ''u'',
      po_Owner_gid = ''g'', po_Probe_key = ''p'', po_Expiration_time = 1893456000, po_Enabled = True,
      po_Timestamp = 1700000000, ps_State = ''ready'', ps_Reason = ''-'', uu_Enabled = True,
      pp_Buckets =
        [\<lparr>bk_Pool = ''d4f0c4645fce5734'', bk_Bucket = ''bkt1'', bk_Bucket_policy = Bucket_policy_NONE,
          bk_Expiration_time = 0, bk_Timestamp = 1700000000\<rparr>],
      pp_Secrets =
        [\<lparr>sx_Pool = ''d4f0c4645fce5734'', sx_Access_key = ''A1'', sx_Secret_key = ''S1'',
          sx_Secret_policy = Secret_policy_RO, sx_Expiration_time = 1893456000, sx_Timestamp = 1700000000\<rparr>,
         \<lparr>sx_Pool = ''d4f0c4645fce5734'', sx_Access_key = ''A2'', sx_Secret_key = ''S2'',
          sx_Secret_policy = Secret_policy_internal_access, sx_Expiration_time = 0, sx_Timestamp = 0\<rparr>]\<rparr>"

lemma blank_page_ok: "page_ok blank_page"
  by (simp add: page_ok_def blank_page_def)



theorem ui2_default_expiration_is_a_week_witness:
  "\<exists>e t. document (js_state render_secret_expiration_default blank_page) ''secret_expiration'' = Some e \<and>
    parse_time_z (\<lambda>_. None) (el_value e) = dec_int t \<and>
    t mod 86400 = 0 \<and> t \<le> now_ms blank_page div 1000 + 604800 \<and>
    now_ms blank_page div 1000 + 604800 < t + 86400"
  by (rule ui2_default_expiration_is_a_week [OF blank_page_ok])
    (simp add: blank_page_def four_digit_seconds_def)

end
