(* ===== verification/VuetifyDate.thy ===== *)
theory VuetifyDate
  imports JsDate VueShared
begin

text \<open>
  Vuetify's date adapter in \<^verbatim>\<open>src/v2/lens3/ui/assets/index.js\<close> (lines 8239 to 8895), which
  feeds the date picker of the pool editor. A valid \<open>Date\<close> is its time value in milliseconds;
  the host's time zone is a parameter (\<open>zone\<close>) with the two conversions of the language
  standard, \<open>LocalTime\<close> and \<open>UTC\<close>; so are the formatters of \<open>Intl\<close>. Numbers of years of two
  digits mean years of the twentieth century in \<open>new Date(y, m, d)\<close>, as the standard has it.
  The language makes a date invalid that leaves the range of 100 million days around 1970
  (\<open>TimeClip\<close>). The loops to the ends of a week are modelled on dates that may be invalid and with
  the clipping, since it decides whether they end; the other operations (\<open>new_date\<close> to
  \<open>set_minutes\<close> and what is built from them) are modelled for dates whose result is in the range.

  The lemmas assume of the zone only that the local times they speak of exist
  (\<open>local_time z (utc_time z l) = l\<close>, false in the hour a clock is set forward). Shown: the
  grid of a month is made of full weeks of consecutive days that start on the locale's first
  day and hold every day of the month; the loops to the ends of a week end for a date whose week
  is in the range, and do not end for an invalid date; ISO dates are read back; the week of the
  year is between 1 and 53.
\<close>

section \<open>Local dates\<close>

record zone =
  local_time :: "int \<Rightarrow> int"
  utc_time :: "int \<Rightarrow> int"

definition getFullYear :: "zone \<Rightarrow> int \<Rightarrow> int" where
  "getFullYear z t = fst (civil (day_of (local_time z t)))"

definition getMonth :: "zone \<Rightarrow> int \<Rightarrow> int" where
  "getMonth z t = fst (snd (civil (day_of (local_time z t))))"

definition getDate :: "zone \<Rightarrow> int \<Rightarrow> int" where
  "getDate z t = snd (snd (civil (day_of (local_time z t))))"

definition getDay :: "zone \<Rightarrow> int \<Rightarrow> int" where
  "getDay z t = week_day (day_of (local_time z t))"

definition getHours :: "zone \<Rightarrow> int \<Rightarrow> int" where
  "getHours z t = hour_of (local_time z t)"

definition getMinutes :: "zone \<Rightarrow> int \<Rightarrow> int" where
  "getMinutes z t = minute_of (local_time z t)"

definition time_in_day :: "int \<Rightarrow> int" where
  "time_in_day l = l mod ms_per_day"

definition make_full_year :: "int \<Rightarrow> int" where
  "make_full_year y = (if 0 \<le> y \<and> y \<le> 99 then 1900 + y else y)"

text \<open>\<open>new Date(y, m, d)\<close> and \<open>new Date(y, m, d, h, mi, s, ms)\<close>\<close>

definition new_date :: "zone \<Rightarrow> int \<Rightarrow> int \<Rightarrow> int \<Rightarrow> int" where
  "new_date z y m d = utc_time z (make_date (make_day (make_full_year y) m d) 0)"

definition new_date_time :: "zone \<Rightarrow> int \<Rightarrow> int \<Rightarrow> int \<Rightarrow> int \<Rightarrow> int \<Rightarrow> int \<Rightarrow> int \<Rightarrow> int" where
  "new_date_time z y m d h mi s ms =
     utc_time z (make_date (make_day (make_full_year y) m d) (make_time h mi s ms))"

definition set_date :: "zone \<Rightarrow> int \<Rightarrow> int \<Rightarrow> int" where
  "set_date z t d =
     (let l = local_time z t; (y, m, _) = civil (day_of l)
      in utc_time z (make_date (make_day y m d) (time_in_day l)))"

definition set_month :: "zone \<Rightarrow> int \<Rightarrow> int \<Rightarrow> int" where
  "set_month z t m =
     (let l = local_time z t; (y, _, d) = civil (day_of l)
      in utc_time z (make_date (make_day y m d) (time_in_day l)))"

definition set_full_year :: "zone \<Rightarrow> int \<Rightarrow> int \<Rightarrow> int" where
  "set_full_year z t y =
     (let l = local_time z t; (_, m, d) = civil (day_of l)
      in utc_time z (make_date (make_day y m d) (time_in_day l)))"

definition set_hours :: "zone \<Rightarrow> int \<Rightarrow> int \<Rightarrow> int" where
  "set_hours z t h =
     (let l = local_time z t
      in utc_time z (make_date (day_of l) (make_time h (minute_of l) (second_of l) (milli_of l))))"

definition set_minutes :: "zone \<Rightarrow> int \<Rightarrow> int \<Rightarrow> int" where
  "set_minutes z t mi =
     (let l = local_time z t
      in utc_time z (make_date (day_of l) (make_time (hour_of l) mi (second_of l) (milli_of l))))"

section \<open>Weeks\<close>

definition firstDay :: "(string \<times> int) list" where
  "firstDay =
     [
      (''001'', 1), (''AD'', 1), (''AE'', 6), (''AF'', 6), (''AG'', 0), (''AI'', 1), (''AL'', 1), (''AM'', 1),
      (''AN'', 1), (''AR'', 1), (''AS'', 0), (''AT'', 1), (''AU'', 1), (''AX'', 1), (''AZ'', 1), (''BA'', 1),
      (''BD'', 0), (''BE'', 1), (''BG'', 1), (''BH'', 6), (''BM'', 1), (''BN'', 1), (''BR'', 0), (''BS'', 0),
      (''BT'', 0), (''BW'', 0), (''BY'', 1), (''BZ'', 0), (''CA'', 0), (''CH'', 1), (''CL'', 1), (''CM'', 1),
      (''CN'', 1), (''CO'', 0), (''CR'', 1), (''CY'', 1), (''CZ'', 1), (''DE'', 1), (''DJ'', 6), (''DK'', 1),
      (''DM'', 0), (''DO'', 0), (''DZ'', 6), (''EC'', 1), (''EE'', 1), (''EG'', 6), (''ES'', 1), (''ET'', 0),
      (''FI'', 1), (''FJ'', 1), (''FO'', 1), (''FR'', 1), (''GB'', 1), (''GB-alt-variant'', 0), (''GE'', 1), (''GF'', 1),
      (''GP'', 1), (''GR'', 1), (''GT'', 0), (''GU'', 0), (''HK'', 0), (''HN'', 0), (''HR'', 1), (''HU'', 1),
      (''ID'', 0), (''IE'', 1), (''IL'', 0), (''IN'', 0), (''IQ'', 6), (''IR'', 6), (''IS'', 1), (''IT'', 1),
      (''JM'', 0), (''JO'', 6), (''JP'', 0), (''KE'', 0), (''KG'', 1), (''KH'', 0), (''KR'', 0), (''KW'', 6),
      (''KZ'', 1), (''LA'', 0), (''LB'', 1), (''LI'', 1), (''LK'', 1), (''LT'', 1), (''LU'', 1), (''LV'', 1),
      (''LY'', 6), (''MC'', 1), (''MD'', 1), (''ME'', 1), (''MH'', 0), (''MK'', 1), (''MM'', 0), (''MN'', 1),
      (''MO'', 0), (''MQ'', 1), (''MT'', 0), (''MV'', 5), (''MX'', 0), (''MY'', 1), (''MZ'', 0), (''NI'', 0),
      (''NL'', 1), (''NO'', 1), (''NP'', 0), (''NZ'', 1), (''OM'', 6), (''PA'', 0), (''PE'', 0), (''PH'', 0),
      (''PK'', 0), (''PL'', 1), (''PR'', 0), (''PT'', 0), (''PY'', 0), (''QA'', 6), (''RE'', 1), (''RO'', 1),
      (''RS'', 1), (''RU'', 1), (''SA'', 0), (''SD'', 6), (''SE'', 1), (''SG'', 0), (''SI'', 1), (''SK'', 1),
      (''SM'', 1), (''SV'', 0), (''SY'', 6), (''TH'', 0), (''TJ'', 1), (''TM'', 1), (''TR'', 1), (''TT'', 0),
      (''TW'', 0), (''UA'', 1), (''UM'', 0), (''US'', 0), (''UY'', 1), (''UZ'', 1), (''VA'', 1), (''VE'', 0),
      (''VI'', 0), (''VN'', 1), (''WS'', 0), (''XK'', 1), (''YE'', 0), (''ZA'', 0), (''ZW'', 0)]"

text \<open>\<open>firstDay[locale.slice(-2).toUpperCase()]\<close>, \<open>None\<close> for \<open>undefined\<close>\<close>

definition first_day_of :: "string \<Rightarrow> int option" where
  "first_day_of locale = map_of firstDay (map upper_char (drop (length locale - 2) locale))"

definition startOfMonth :: "zone \<Rightarrow> int \<Rightarrow> int" where
  "startOfMonth z t = new_date z (getFullYear z t) (getMonth z t) 1"

definition endOfMonth :: "zone \<Rightarrow> int \<Rightarrow> int" where
  "endOfMonth z t = new_date z (getFullYear z t) (getMonth z t + 1) 0"

text \<open>
  An index of \<open>undefined\<close> makes \<open>NaN\<close>: the comparisons of the padding loops are false then and
  no day is added.
\<close>

definition week_index :: "zone \<Rightarrow> string \<Rightarrow> int \<Rightarrow> int option" where
  "week_index z locale t = map_option (\<lambda>f. (getDay z t - f + 7) mod 7) (first_day_of locale)"

fun push_days :: "int list \<Rightarrow> int list list \<times> int list \<Rightarrow> int list list \<times> int list" where
  "push_days [] (weeks, currentWeek) = (weeks, currentWeek)"
| "push_days (day # days) (weeks, currentWeek) =
     (let currentWeek' = currentWeek @ [day] in
      if length currentWeek' = 7 then push_days days (weeks @ [currentWeek'], [])
      else push_days days (weeks, currentWeek'))"

definition getWeekArray :: "zone \<Rightarrow> int \<Rightarrow> string \<Rightarrow> int list list" where
  "getWeekArray z t locale =
     (let firstDayOfMonth = startOfMonth z t;
          lastDayOfMonth = endOfMonth z t;
          before = (case week_index z locale firstDayOfMonth of
             None \<Rightarrow> []
           | Some k \<Rightarrow> map (\<lambda>i. set_date z firstDayOfMonth (getDate z firstDayOfMonth - (k - i))) [0..k - 1]);
          days = map (\<lambda>i. new_date z (getFullYear z t) (getMonth z t) i) [1..getDate z lastDayOfMonth];
          (weeks, currentWeek) = push_days days ([], before);
          after = (case week_index z locale lastDayOfMonth of
             None \<Rightarrow> []
           | Some k \<Rightarrow> map (\<lambda>i. set_date z lastDayOfMonth (getDate z lastDayOfMonth + i)) [1..6 - k]);
          currentWeek' = currentWeek @ after
      in if currentWeek' \<noteq> [] then weeks @ [currentWeek'] else weeks)"

text \<open>
  The loops to the ends of a week, on a date that may be invalid (\<open>None\<close>): the day of an invalid
  date is \<open>NaN\<close>, which is no number and different from every number, and a change of an invalid
  date leaves it invalid. \<open>None\<close> as the result of a loop is that it does not return.
\<close>

definition day_of_date :: "zone \<Rightarrow> int option \<Rightarrow> int option" where
  "day_of_date z d = map_option (getDay z) d"

definition move_date :: "zone \<Rightarrow> int option \<Rightarrow> int \<Rightarrow> int option" where
  "move_date z d k = Option.bind d (\<lambda>t. time_clip (set_date z t (getDate z t + k)))"

partial_function (option) startOfWeek :: "zone \<Rightarrow> int option \<Rightarrow> int option option" where
  "startOfWeek z d = (if day_of_date z d \<noteq> Some 0 then startOfWeek z (move_date z d (- 1)) else Some d)"

partial_function (option) endOfWeek :: "zone \<Rightarrow> int option \<Rightarrow> int option option" where
  "endOfWeek z d = (if day_of_date z d \<noteq> Some 6 then endOfWeek z (move_date z d 1) else Some d)"

declare startOfWeek.simps [code] endOfWeek.simps [code]

text \<open>The names of the days, by a formatter of the host for the narrow form.\<close>

definition getWeekdays :: "zone \<Rightarrow> (string \<Rightarrow> int \<Rightarrow> string) \<Rightarrow> string \<Rightarrow> string list option" where
  "getWeekdays z narrow locale =
     (let sunday = new_date z 2000 0 2 in
      map_option (\<lambda>daysFromSunday.
        map (\<lambda>i. narrow locale (set_date z sunday (getDate z sunday + daysFromSunday + i))) [0..6])
        (first_day_of locale))"

section \<open>Reading and printing\<close>

text \<open>\<open>value.split("-").map(Number)\<close> into a date; a part that is missing or no number gives none.\<close>

definition parseISO :: "zone \<Rightarrow> string \<Rightarrow> int option" where
  "parseISO z value =
     (case map str_to_number (split_on (CHR ''-'') value) of
        Some y # Some m # Some d # _ \<Rightarrow> Some (new_date z y (m - 1) d)
      | _ \<Rightarrow> None)"

definition parseLocalDate :: "zone \<Rightarrow> string \<Rightarrow> int option" where
  "parseLocalDate z value =
     (case map str_to_number (split_on (CHR ''-'') value) of
        Some y # Some m # Some d # _ \<Rightarrow> Some (new_date z y (m - 1) d)
      | _ \<Rightarrow> None)"

text \<open>\<open>/^([12]\d{3}-([1-9]|0[1-9]|1[0-2])-([1-9]|0[1-9]|[12]\d|3[01]))$/\<close>\<close>

definition one_or_two_digits :: "nat \<Rightarrow> string \<Rightarrow> bool" where
  "one_or_two_digits hi s =
     ((length s = 1 \<or> length s = 2) \<and>
      (case read_nat s of None \<Rightarrow> False | Some n \<Rightarrow> 1 \<le> n \<and> n \<le> hi))"

definition yyyymmdd :: "string \<Rightarrow> bool" where
  "yyyymmdd s =
     (case split_on (CHR ''-'') s of
        [y, m, d] \<Rightarrow>
          length y = 4 \<and> hd y \<in> {CHR ''1'', CHR ''2''} \<and> read_nat y \<noteq> None \<and>
          one_or_two_digits 12 m \<and> one_or_two_digits 31 d
      | _ \<Rightarrow> False)"

datatype date_arg = Nullish | Date_value int | Date_string string | Other_value

definition date :: "zone \<Rightarrow> (string \<Rightarrow> int option) \<Rightarrow> int \<Rightarrow> date_arg \<Rightarrow> int option" where
  "date z parse now value =
     (case value of
        Nullish \<Rightarrow> Some now
      | Date_value t \<Rightarrow> Some t
      | Date_string s \<Rightarrow> if yyyymmdd s then parseLocalDate z s else parse s
      | Other_value \<Rightarrow> None)"

definition padStart :: "string \<Rightarrow> nat \<Rightarrow> char \<Rightarrow> string" where
  "padStart str n c = replicate (n - length str) c @ str"

definition toISO :: "zone \<Rightarrow> int \<Rightarrow> string" where
  "toISO z t =
     dec_int (getFullYear z t) @ ''-'' @
     padStart (dec_int (getMonth z t + 1)) 2 (CHR ''0'') @ ''-'' @
     padStart (dec_int (getDate z t)) 2 (CHR ''0'')"

text \<open>
  What \<open>format\<close> hands to the host: options for \<open>Intl.DateTimeFormat\<close>, or the day of the month
  for \<open>Intl.NumberFormat\<close>, or the call of a custom function.
\<close>

datatype custom_format = No_format | Format_fun | Format_options "(string \<times> jsval) list"

datatype format_call =
    Call_custom
  | Number_format
  | Date_format "(string \<times> jsval) list"

definition format_options :: "string \<Rightarrow> custom_format \<Rightarrow> format_call" where
  "format_options formatString customFormat =
     (let o1 = (\<lambda>kvs. Date_format (map (\<lambda>(k, v). (k, JStr v)) kvs)) in
      if customFormat = Format_fun then Call_custom
      else if formatString = ''fullDateWithWeekday'' then
        o1 [(''weekday'', ''long''), (''day'', ''numeric''), (''month'', ''long''), (''year'', ''numeric'')]
      else if formatString = ''hours12h'' then
        Date_format [(''hour'', JStr ''numeric''), (''hour12'', JBool True)]
      else if formatString = ''normalDateWithWeekday'' then
        o1 [(''weekday'', ''short''), (''day'', ''numeric''), (''month'', ''short'')]
      else if formatString = ''keyboardDate'' then
        o1 [(''day'', ''2-digit''), (''month'', ''2-digit''), (''year'', ''numeric'')]
      else if formatString = ''monthAndDate'' then o1 [(''month'', ''long''), (''day'', ''numeric'')]
      else if formatString = ''monthAndYear'' then o1 [(''month'', ''long''), (''year'', ''numeric'')]
      else if formatString = ''month'' then o1 [(''month'', ''long'')]
      else if formatString = ''monthShort'' then o1 [(''month'', ''short'')]
      else if formatString = ''dayOfMonth'' then Number_format
      else if formatString = ''shortDate'' then
        o1 [(''year'', ''2-digit''), (''month'', ''numeric''), (''day'', ''numeric'')]
      else if formatString = ''weekdayShort'' then o1 [(''weekday'', ''short'')]
      else if formatString = ''year'' then o1 [(''year'', ''numeric'')]
      else case customFormat of
             Format_options kvs \<Rightarrow> Date_format kvs
           | _ \<Rightarrow> o1 [(''timeZone'', ''UTC''), (''timeZoneName'', ''short'')])"

section \<open>Arithmetic on dates\<close>

definition addMinutes :: "zone \<Rightarrow> int \<Rightarrow> int \<Rightarrow> int" where
  "addMinutes z t amount = set_minutes z t (getMinutes z t + amount)"

definition addHours :: "zone \<Rightarrow> int \<Rightarrow> int \<Rightarrow> int" where
  "addHours z t amount = set_hours z t (getHours z t + amount)"

definition addDays :: "zone \<Rightarrow> int \<Rightarrow> int \<Rightarrow> int" where
  "addDays z t amount = set_date z t (getDate z t + amount)"

definition addWeeks :: "zone \<Rightarrow> int \<Rightarrow> int \<Rightarrow> int" where
  "addWeeks z t amount = set_date z t (getDate z t + amount * 7)"

definition addMonths :: "zone \<Rightarrow> int \<Rightarrow> int \<Rightarrow> int" where
  "addMonths z t amount = set_month z t (getMonth z t + amount)"

definition getYear :: "zone \<Rightarrow> int \<Rightarrow> int" where
  "getYear z t = getFullYear z t"

definition getNextMonth :: "zone \<Rightarrow> int \<Rightarrow> int" where
  "getNextMonth z t = new_date z (getFullYear z t) (getMonth z t + 1) 1"

definition startOfYear :: "zone \<Rightarrow> int \<Rightarrow> int" where
  "startOfYear z t = new_date z (getFullYear z t) 0 1"

definition endOfYear :: "zone \<Rightarrow> int \<Rightarrow> int" where
  "endOfYear z t = new_date z (getFullYear z t) 11 31"

definition isAfter :: "int \<Rightarrow> int \<Rightarrow> bool" where
  "isAfter t comparing = (comparing < t)"

definition isBefore :: "int \<Rightarrow> int \<Rightarrow> bool" where
  "isBefore t comparing = (t < comparing)"

definition isEqual :: "int \<Rightarrow> int \<Rightarrow> bool" where
  "isEqual t comparing = (t = comparing)"

definition isWithinRange :: "int \<Rightarrow> int \<times> int \<Rightarrow> bool" where
  "isWithinRange t r = (isAfter t (fst r) \<and> isBefore t (snd r))"

text \<open>The time value of \<open>new Date(value)\<close> is \<open>NaN\<close> for an invalid date.\<close>

definition isValid :: "int option \<Rightarrow> bool" where
  "isValid t = (t \<noteq> None)"

definition isSameDay :: "zone \<Rightarrow> int \<Rightarrow> int \<Rightarrow> bool" where
  "isSameDay z t c =
     (getDate z t = getDate z c \<and> getMonth z t = getMonth z c \<and> getFullYear z t = getFullYear z c)"

definition isSameMonth :: "zone \<Rightarrow> int \<Rightarrow> int \<Rightarrow> bool" where
  "isSameMonth z t c = (getMonth z t = getMonth z c \<and> getFullYear z t = getFullYear z c)"

definition month_diff :: "zone \<Rightarrow> int \<Rightarrow> int \<Rightarrow> int" where
  "month_diff z d c = getMonth z d - getMonth z c + (getFullYear z d - getFullYear z c) * 12"

definition getDiff :: "zone \<Rightarrow> int \<Rightarrow> int \<Rightarrow> string \<Rightarrow> int" where
  "getDiff z d c unit =
     (if unit = ''years'' then getFullYear z d - getFullYear z c
      else if unit = ''quarters'' then month_diff z d c div 4
      else if unit = ''months'' then month_diff z d c
      else if unit = ''weeks'' then (d - c) div (1000 * 60 * 60 * 24 * 7)
      else if unit = ''days'' then (d - c) div (1000 * 60 * 60 * 24)
      else if unit = ''hours'' then (d - c) div (1000 * 60 * 60)
      else if unit = ''minutes'' then (d - c) div (1000 * 60)
      else if unit = ''seconds'' then (d - c) div 1000
      else d - c)"

definition setHours :: "zone \<Rightarrow> int \<Rightarrow> int \<Rightarrow> int" where
  "setHours z t count = set_hours z t count"

definition setMinutes :: "zone \<Rightarrow> int \<Rightarrow> int \<Rightarrow> int" where
  "setMinutes z t count = set_minutes z t count"

definition setMonth :: "zone \<Rightarrow> int \<Rightarrow> int \<Rightarrow> int" where
  "setMonth z t count = set_month z t count"

definition setYear :: "zone \<Rightarrow> int \<Rightarrow> int \<Rightarrow> int" where
  "setYear z t year = set_full_year z t year"

definition startOfDay :: "zone \<Rightarrow> int \<Rightarrow> int" where
  "startOfDay z t = new_date z (getFullYear z t) (getMonth z t) (getDate z t)"

definition endOfDay :: "zone \<Rightarrow> int \<Rightarrow> int" where
  "endOfDay z t = new_date_time z (getFullYear z t) (getMonth z t) (getDate z t) 23 59 59 999"

text \<open>The quotient of the day count by seven, from the first of January; \<open>Math.ceil\<close> of a fraction.\<close>

definition getWeek :: "zone \<Rightarrow> int \<Rightarrow> int" where
  "getWeek z t =
     (let year = getFullYear z t;
          d1w1 = new_date z year 0 1;
          tv = new_date z (year + 1) 0 1;
          start = (if t < d1w1 then new_date z (year - 1) 0 1 else if tv \<le> t then tv else d1w1);
          diffDays = - ((- \<bar>t - start\<bar>) div (1000 * 60 * 60 * 24))
      in diffDays div 7 + 1)"

section \<open>The adapter\<close>

text \<open>
  The methods of \<open>VuetifyDateAdapter\<close>, with the locale and the host's zone fixed. All pass to
  the functions above but \<open>isBefore\<close>, which is derived from the other two comparisons.
\<close>

record date_adapter =
  ad_toISO :: "int \<Rightarrow> string"
  ad_parseISO :: "string \<Rightarrow> int option"
  ad_addMinutes :: "int \<Rightarrow> int \<Rightarrow> int"
  ad_addHours :: "int \<Rightarrow> int \<Rightarrow> int"
  ad_addDays :: "int \<Rightarrow> int \<Rightarrow> int"
  ad_addWeeks :: "int \<Rightarrow> int \<Rightarrow> int"
  ad_addMonths :: "int \<Rightarrow> int \<Rightarrow> int"
  ad_getWeekArray :: "int \<Rightarrow> int list list"
  ad_startOfWeek :: "int option \<Rightarrow> int option option"
  ad_endOfWeek :: "int option \<Rightarrow> int option option"
  ad_startOfMonth :: "int \<Rightarrow> int"
  ad_endOfMonth :: "int \<Rightarrow> int"
  ad_isEqual :: "int \<Rightarrow> int \<Rightarrow> bool"
  ad_isWithinRange :: "int \<Rightarrow> int \<times> int \<Rightarrow> bool"
  ad_isAfter :: "int \<Rightarrow> int \<Rightarrow> bool"
  ad_isBefore :: "int \<Rightarrow> int \<Rightarrow> bool"
  ad_isSameDay :: "int \<Rightarrow> int \<Rightarrow> bool"
  ad_isSameMonth :: "int \<Rightarrow> int \<Rightarrow> bool"
  ad_setMinutes :: "int \<Rightarrow> int \<Rightarrow> int"
  ad_setHours :: "int \<Rightarrow> int \<Rightarrow> int"
  ad_setMonth :: "int \<Rightarrow> int \<Rightarrow> int"
  ad_setYear :: "int \<Rightarrow> int \<Rightarrow> int"
  ad_getDiff :: "int \<Rightarrow> int \<Rightarrow> string \<Rightarrow> int"
  ad_getYear :: "int \<Rightarrow> int"
  ad_getMonth :: "int \<Rightarrow> int"
  ad_getNextMonth :: "int \<Rightarrow> int"
  ad_startOfDay :: "int \<Rightarrow> int"
  ad_endOfDay :: "int \<Rightarrow> int"
  ad_startOfYear :: "int \<Rightarrow> int"
  ad_endOfYear :: "int \<Rightarrow> int"

definition VuetifyDateAdapter :: "zone \<Rightarrow> string \<Rightarrow> date_adapter" where
  "VuetifyDateAdapter z locale =
     \<lparr>ad_toISO = toISO z, ad_parseISO = parseISO z, ad_addMinutes = addMinutes z,
      ad_addHours = addHours z, ad_addDays = addDays z, ad_addWeeks = addWeeks z,
      ad_addMonths = addMonths z, ad_getWeekArray = (\<lambda>t. getWeekArray z t locale),
      ad_startOfWeek = startOfWeek z, ad_endOfWeek = endOfWeek z, ad_startOfMonth = startOfMonth z,
      ad_endOfMonth = endOfMonth z, ad_isEqual = isEqual, ad_isWithinRange = isWithinRange,
      ad_isAfter = isAfter, ad_isBefore = (\<lambda>t c. \<not> isAfter t c \<and> \<not> isEqual t c),
      ad_isSameDay = isSameDay z, ad_isSameMonth = isSameMonth z, ad_setMinutes = setMinutes z,
      ad_setHours = setHours z, ad_setMonth = setMonth z, ad_setYear = setYear z,
      ad_getDiff = getDiff z, ad_getYear = getYear z, ad_getMonth = getMonth z,
      ad_getNextMonth = getNextMonth z, ad_startOfDay = startOfDay z, ad_endOfDay = endOfDay z,
      ad_startOfYear = startOfYear z, ad_endOfYear = endOfYear z\<rparr>"

definition date_locales :: "(string \<times> string) list" where
  "date_locales =
     [
      (''af'', ''af-ZA''), (''bg'', ''bg-BG''), (''ca'', ''ca-ES''), (''ckb'', ''''), (''cs'', ''cs-CZ''), (''de'', ''de-DE''),
      (''el'', ''el-GR''), (''en'', ''en-US''), (''et'', ''et-EE''), (''fa'', ''fa-IR''), (''fi'', ''fi-FI''), (''hr'', ''hr-HR''),
      (''hu'', ''hu-HU''), (''he'', ''he-IL''), (''id'', ''id-ID''), (''it'', ''it-IT''), (''ja'', ''ja-JP''), (''ko'', ''ko-KR''),
      (''lv'', ''lv-LV''), (''lt'', ''lt-LT''), (''nl'', ''nl-NL''), (''no'', ''no-NO''), (''pl'', ''pl-PL''), (''pt'', ''pt-PT''),
      (''ro'', ''ro-RO''), (''ru'', ''ru-RU''), (''sk'', ''sk-SK''), (''sl'', ''sl-SI''), (''srCyrl'', ''sr-SP''), (''srLatn'', ''sr-SP''),
      (''sv'', ''sv-SE''), (''th'', ''th-TH''), (''tr'', ''tr-TR''), (''az'', ''az-AZ''), (''uk'', ''uk-UA''), (''vi'', ''vi-VN''),
      (''zhHans'', ''zh-CN''), (''zhHant'', ''zh-TW'')]"

text \<open>The locale the adapter is created with, for the current one of the application.\<close>

definition instance_locale :: "string \<Rightarrow> string" where
  "instance_locale current = (case map_of date_locales current of None \<Rightarrow> current | Some l \<Rightarrow> l)"

section \<open>Midnights\<close>

definition midnight :: "zone \<Rightarrow> int \<Rightarrow> int" where
  "midnight z n = utc_time z (make_date n 0)"

text \<open>Every day of the zone has a midnight.\<close>

definition zone_midnights :: "zone \<Rightarrow> bool" where
  "zone_midnights z \<longleftrightarrow> (\<forall>n. local_time z (utc_time z (make_date n 0)) = make_date n 0)"

lemma day_of_make_date [simp]: "day_of (make_date n 0) = n"
  by (simp add: day_of_def make_date_def ms_per_day_def)

lemma time_in_day_make_date [simp]: "time_in_day (make_date n 0) = 0"
  by (simp add: time_in_day_def make_date_def)

lemma local_midnight: "zone_midnights z \<Longrightarrow> local_time z (midnight z n) = make_date n 0"
  by (simp add: zone_midnights_def midnight_def)

lemma make_day_add: "make_day y m (d + i) = make_day y m d + i"
  by (simp add: make_day_def Let_def)

lemma get_midnight:
  assumes "zone_midnights z" "civil n = (y, m, d)"
  shows "getFullYear z (midnight z n) = y" "getMonth z (midnight z n) = m" "getDate z (midnight z n) = d"
    "getDay z (midnight z n) = week_day n"
  using assms
  by (simp_all add: getFullYear_def getMonth_def getDate_def getDay_def local_midnight)

lemma set_date_midnight:
  assumes "zone_midnights z"
  shows "set_date z (midnight z n) (getDate z (midnight z n) + i) = midnight z (n + i)"
proof -
  obtain y m d where c: "civil n = (y, m, d)" by (metis surj_pair)
  then show ?thesis
    using get_midnight [OF assms c] make_day_civil [OF c]
    by (simp add: set_date_def local_midnight [OF assms] make_day_add Let_def) (simp add: midnight_def)
qed

lemma month_end:
  assumes "0 \<le> m" "m \<le> 11"
  shows "make_day y (m + 1) 0 = make_day y m (month_len y m)"
proof (cases "m = 11")
  case True
  then show ?thesis
    by (simp add: make_day_def Let_def year_len month_len_def month_start_def)
next
  case False
  with assms show ?thesis by (simp add: make_day_def Let_def month_len_def)
qed

lemma new_date_midnight: "make_full_year y = y \<Longrightarrow> new_date z y m d = midnight z (make_day y m d)"
  by (simp add: new_date_def midnight_def)

section \<open>The grid of a month\<close>

lemma firstDay_range: "first_day_of locale = Some f \<Longrightarrow> 0 \<le> f \<and> f \<le> 6"
proof -
  have "list_all (\<lambda>p. 0 \<le> snd p \<and> snd p \<le> 6) firstDay"
    unfolding firstDay_def by simp
  then show "first_day_of locale = Some f \<Longrightarrow> 0 \<le> f \<and> f \<le> 6"
    by (auto simp: first_day_of_def list_all_iff dest!: map_of_SomeD)
qed

lemma push_days_weeks:
  assumes "push_days days (ws, cur) = (ws', cur')" "length cur < 7" "\<forall>w \<in> set ws. length w = 7"
  shows "concat ws' @ cur' = concat ws @ cur @ days \<and> (\<forall>w \<in> set ws'. length w = 7) \<and>
    length cur' = (length cur + length days) mod 7"
  using assms
proof (induction days arbitrary: ws cur)
  case (Cons a days)
  show ?case
  proof (cases "length cur = 6")
    case True
    then have p: "push_days days (ws @ [cur @ [a]], []) = (ws', cur')" using Cons.prems(1) by simp
    have w: "\<forall>w \<in> set (ws @ [cur @ [a]]). length w = 7" using True Cons.prems(3) by auto
    have "length ([] :: int list) < 7" by simp
    from Cons.IH [OF p this w] True show ?thesis by simp
  next
    case False
    then have "push_days days (ws, cur @ [a]) = (ws', cur')" using Cons.prems(1) by simp
    from Cons.IH [OF this _ Cons.prems(3)] False Cons.prems(2) show ?thesis by simp
  qed
qed simp

lemma week_day_shift: "week_day (n + i) = (week_day n + i) mod 7"
  by (simp add: week_day_def mod_simps algebra_simps)

lemma map_midnight_upto: "map (\<lambda>i. midnight z (n + i)) [a..b] = map (midnight z) [n + a..n + b]"
proof (rule nth_equalityI)
  show "length (map (\<lambda>i. midnight z (n + i)) [a..b]) = length (map (midnight z) [n + a..n + b])" by simp
qed (simp add: nth_upto algebra_simps)

lemma upto_append: "a \<le> b + 1 \<Longrightarrow> b \<le> c \<Longrightarrow> [a..b] @ [b + 1..c] = [a..c]" for a b c :: int
proof (cases "a \<le> b")
  case True
  assume "b \<le> c"
  then show ?thesis using upto_split2 [of a b c] True by simp
next
  case False
  assume "a \<le> b + 1"
  with False have "a = b + 1" by simp
  then show ?thesis by simp
qed

lemma three_runs:
  "a \<le> n \<Longrightarrow> n \<le> l + 1 \<Longrightarrow> l \<le> b \<Longrightarrow> [a..n - 1] @ [n..l] @ [l + 1..b] = [a..b]" for a b l n :: int
  using upto_append [of n l b] upto_append [of a "n - 1" b] by simp

text \<open>The parts of the grid as runs of midnights.\<close>

lemma grid_parts:
  assumes z: "zone_midnights z" and f: "first_day_of locale = Some f"
    and c: "civil (day_of (local_time z t)) = (y, m, d)" and y: "make_full_year y = y"
  defines "n0 \<equiv> make_day y m 1" and "n1 \<equiv> make_day y m (month_len y m)"
  shows "startOfMonth z t = midnight z n0" "endOfMonth z t = midnight z n1"
    "getDate z (endOfMonth z t) = month_len y m" "n1 = n0 + month_len y m - 1"
    "week_index z locale (midnight z n) = Some ((week_day n - f) mod 7)"
    "map (\<lambda>i. new_date z (getFullYear z t) (getMonth z t) i) [1..month_len y m] = map (midnight z) [n0..n1]"
proof -
  have m: "0 \<le> m" "m \<le> 11" and len: "1 \<le> month_len y m"
    using civil_valid [OF c] by (auto simp: valid_civil_def)
  have fields: "getFullYear z t = y" "getMonth z t = m"
    using c by (simp_all add: getFullYear_def getMonth_def)
  show "startOfMonth z t = midnight z n0"
    by (simp add: startOfMonth_def fields new_date_midnight y n0_def)
  show e: "endOfMonth z t = midnight z n1"
    by (simp add: endOfMonth_def fields new_date_midnight y n1_def month_end m)
  have "valid_civil y m (month_len y m)" using m len by (simp add: valid_civil_def)
  then have "civil n1 = (y, m, month_len y m)" by (simp add: n1_def civil_make_day)
  then show "getDate z (endOfMonth z t) = month_len y m" by (simp add: e get_midnight [OF z])
  show n1: "n1 = n0 + month_len y m - 1"
    using make_day_add [of y m 1 "month_len y m - 1"] by (simp add: n0_def n1_def)
  obtain yn mn dn where cn: "civil n = (yn, mn, dn)" by (metis surj_pair)
  have "(week_day n - f + 7) mod 7 = (week_day n - f) mod 7" by (rule mod_add_self2)
  then show "week_index z locale (midnight z n) = Some ((week_day n - f) mod 7)"
    by (simp add: week_index_def f get_midnight(4) [OF z cn])
  have "make_day y m i = make_day y m 0 + i" for i
    using make_day_add [of y m 0 i] by simp
  then have "map (\<lambda>i. midnight z (make_day y m i)) [1..month_len y m] =
      map (\<lambda>i. midnight z (make_day y m 0 + i)) [1..month_len y m]"
    by metis
  also have "\<dots> = map (midnight z) [make_day y m 0 + 1..make_day y m 0 + month_len y m]"
    by (rule map_midnight_upto)
  also have "\<dots> = map (midnight z) [n0..n1]"
    using make_day_add [of y m 0 1] make_day_add [of y m 0 "month_len y m"] by (simp add: n0_def n1_def)
  finally show "map (\<lambda>i. new_date z (getFullYear z t) (getMonth z t) i) [1..month_len y m] = map (midnight z) [n0..n1]"
    by (simp add: fields new_date_midnight y)
qed

lemma grid_padding:
  assumes z: "zone_midnights z"
  shows "map (\<lambda>i. set_date z (midnight z n) (getDate z (midnight z n) - (k - i))) [0..k - 1] =
      map (midnight z) [n - k..n - 1]"
    and "map (\<lambda>i. set_date z (midnight z n) (getDate z (midnight z n) + i)) [1..6 - k] =
      map (midnight z) [n + 1..n + 6 - k]"
proof -
  have "set_date z (midnight z n) (getDate z (midnight z n) - (k - i)) = midnight z (n - k + i)" for i
    using set_date_midnight [OF z, of n "i - k"] by (simp add: algebra_simps)
  then show "map (\<lambda>i. set_date z (midnight z n) (getDate z (midnight z n) - (k - i))) [0..k - 1] =
      map (midnight z) [n - k..n - 1]"
    using map_midnight_upto [of z "n - k" 0 "k - 1"] by simp
  show "map (\<lambda>i. set_date z (midnight z n) (getDate z (midnight z n) + i)) [1..6 - k] =
      map (midnight z) [n + 1..n + 6 - k]"
    using map_midnight_upto [of z n 1 "6 - k"] by (simp add: set_date_midnight [OF z] add_diff_eq)
qed

text \<open>The last week is full.\<close>

lemma last_week_full:
  assumes "0 \<le> len" "k1 = (k0 + len - 1) mod 7" "0 \<le> k0"
  shows "(nat k0 + nat len) mod 7 = (if k1 = 6 then 0 else nat k1 + 1)"
proof -
  have "int ((nat k0 + nat len) mod 7) = (k0 + len) mod 7"
    using assms by (simp add: zmod_int)
  also have "(k0 + len) mod 7 = (k1 + 1) mod 7"
    unfolding assms(2) by (simp add: mod_simps)
  also have "\<dots> = (if k1 = 6 then 0 else k1 + 1)"
  proof -
    have "0 \<le> k1" "k1 < 7" using assms(2) by simp_all
    then show ?thesis by auto
  qed
  finally have "int ((nat k0 + nat len) mod 7) = (if k1 = 6 then 0 else k1 + 1)" .
  moreover have "0 \<le> k1" using assms(2) by simp
  ultimately show ?thesis by (simp split: if_splits)
qed

lemma getWeekArray_runs:
  assumes z: "zone_midnights z" and f: "first_day_of locale = Some f"
    and c: "civil (day_of (local_time z t)) = (y, m, d)" and y: "make_full_year y = y"
  defines "n0 \<equiv> make_day y m 1" and "n1 \<equiv> make_day y m (month_len y m)"
  defines "k0 \<equiv> (week_day n0 - f) mod 7" and "k1 \<equiv> (week_day n1 - f) mod 7"
  shows "concat (getWeekArray z t locale) = map (midnight z) [n0 - k0..n1 + 6 - k1] \<and>
    (\<forall>w \<in> set (getWeekArray z t locale). length w = 7)"
proof -
  note parts = grid_parts [OF z f c y, folded n0_def n1_def]
  have len: "1 \<le> month_len y m" using civil_valid [OF c] by (auto simp: valid_civil_def)
  have k: "0 \<le> k0" "k0 < 7" "0 \<le> k1" "k1 < 7" by (simp_all add: k0_def k1_def)
  let ?before = "map (midnight z) [n0 - k0..n0 - 1]"
  let ?days = "map (midnight z) [n0..n1]"
  let ?after = "map (midnight z) [n1 + 1..n1 + 6 - k1]"
  obtain ws cur where pd: "push_days ?days ([], ?before) = (ws, cur)" by (metis surj_pair)
  have "length ?before < 7" using k by simp
  from push_days_weeks [OF pd this] have ws: "concat ws @ cur = ?before @ ?days"
      "\<forall>w \<in> set ws. length w = 7" "length cur = (length ?before + length ?days) mod 7"
    by simp_all
  have "week_day n1 = (week_day n0 + (month_len y m - 1)) mod 7"
    using week_day_shift [of n0 "month_len y m - 1"] parts(4) by (simp add: add_diff_eq)
  then have "k1 = ((week_day n0 - f) + (month_len y m - 1)) mod 7"
    by (simp add: k1_def mod_simps algebra_simps)
  then have "k1 = (k0 + month_len y m - 1) mod 7"
    by (simp add: k0_def mod_add_left_eq add_diff_eq [symmetric])
  from last_week_full [OF _ this k(1)] len have "length cur = (if k1 = 6 then 0 else nat k1 + 1)"
    using ws(3) parts(4) by (simp add: algebra_simps)
  then have full: "length (cur @ ?after) = (if k1 = 6 then 0 else 7)"
    using k by (auto simp: nat_diff_distrib)
  have arr: "getWeekArray z t locale = (if cur @ ?after \<noteq> [] then ws @ [cur @ ?after] else ws)"
  proof -
    have idx: "week_index z locale (midnight z n0) = Some k0" "week_index z locale (midnight z n1) = Some k1"
      by (simp_all only: parts(5) k0_def k1_def)
    have days: "map (new_date z (getFullYear z t) (getMonth z t)) [1..month_len y m] = ?days"
      using parts(6) by simp
    have last: "getDate z (midnight z n1) = month_len y m" using parts(2,3) by simp
    show ?thesis
      unfolding getWeekArray_def Let_def parts(1,2) idx option.case grid_padding [OF z]
      by (simp only: last days pd prod.case)
  qed
  have "concat (getWeekArray z t locale) = concat ws @ cur @ ?after"
    by (simp add: arr)
  also have "\<dots> = map (midnight z) ([n0 - k0..n0 - 1] @ [n0..n1] @ [n1 + 1..n1 + 6 - k1])"
    using ws(1) by (metis append_assoc map_append)
  also have "[n0 - k0..n0 - 1] @ [n0..n1] @ [n1 + 1..n1 + 6 - k1] = [n0 - k0..n1 + 6 - k1]"
    using k len parts(4) by (intro three_runs) simp_all
  finally have "concat (getWeekArray z t locale) = map (midnight z) [n0 - k0..n1 + 6 - k1]" .
  moreover have "\<forall>w \<in> set (getWeekArray z t locale). length w = 7"
    using full ws(2) by (auto simp: arr split: if_splits)
  ultimately show ?thesis by blast
qed

text \<open>
  The grid the date picker shows for the month of a date: rows of
  exactly seven consecutive days, as local midnights, that start on the first day of the week of
  the locale, begin less than a week before the first of the month and end less than a week
  after its last day, so that every day of the month appears exactly once.
\<close>

lemma month_grid_lemma:
  assumes "zone_midnights z" "first_day_of locale = Some f"
    and "civil (day_of (local_time z t)) = (y, m, d)" "make_full_year y = y"
  shows "\<exists>a b. concat (getWeekArray z t locale) = map (midnight z) [a..b] \<and>
    (\<forall>w \<in> set (getWeekArray z t locale). length w = 7) \<and> week_day a = f \<and>
    a \<le> make_day y m 1 \<and> make_day y m 1 < a + 7 \<and>
    make_day y m (month_len y m) \<le> b \<and> b < make_day y m (month_len y m) + 7"
proof -
  let ?n0 = "make_day y m 1" and ?n1 = "make_day y m (month_len y m)"
  let ?k0 = "(week_day ?n0 - f) mod 7" and ?k1 = "(week_day ?n1 - f) mod 7"
  have "week_day (?n0 - ?k0) = (week_day ?n0 - ?k0) mod 7"
    using week_day_shift [of ?n0 "- ?k0"] by simp
  also have "\<dots> = f mod 7" by (simp add: mod_simps)
  also have "\<dots> = f" using firstDay_range [OF assms(2)] by simp
  finally have "week_day (?n0 - ?k0) = f" .
  moreover have "0 \<le> ?k0" "?k0 < 7" "0 \<le> ?k1" "?k1 < 7" by simp_all
  moreover note getWeekArray_runs [OF assms]
  ultimately show ?thesis
    by (intro exI [of _ "?n0 - ?k0"] exI [of _ "?n1 + 6 - ?k1"]) auto
qed

section \<open>The ends of a week\<close>

lemma make_date_fields:
  "0 \<le> tod \<Longrightarrow> tod < ms_per_day \<Longrightarrow> day_of (make_date n tod) = n"
  "0 \<le> tod \<Longrightarrow> tod < ms_per_day \<Longrightarrow> time_in_day (make_date n tod) = tod"
  by (simp_all add: day_of_def time_in_day_def make_date_def ms_per_day_def)

lemma make_date_split: "make_date (day_of l) (time_in_day l) = l"
  by (simp add: make_date_def day_of_def time_in_day_def)

lemma time_in_day_range: "0 \<le> time_in_day l" "time_in_day l < ms_per_day"
  by (simp_all add: time_in_day_def ms_per_day_def)

lemma set_date_local:
  assumes "local_time z t = make_date n tod" "0 \<le> tod" "tod < ms_per_day"
  shows "set_date z t (getDate z t + i) = utc_time z (make_date (n + i) tod)"
proof -
  obtain y m d where c: "civil n = (y, m, d)" by (metis surj_pair)
  with assms show ?thesis
    using make_day_civil [OF c] make_day_add [of y m d i]
    by (simp add: set_date_def getDate_def make_date_fields Let_def)
qed

lemma getDay_local:
  "local_time z t = make_date n tod \<Longrightarrow> 0 \<le> tod \<Longrightarrow> tod < ms_per_day \<Longrightarrow> getDay z t = week_day n"
  by (simp add: getDay_def make_date_fields)

lemma week_day_range: "0 \<le> week_day n" "week_day n < 7"
  by (simp_all add: week_day_def)

text \<open>Some day has the given time of day, in the zone and within the range of dates.\<close>

definition day_exists :: "zone \<Rightarrow> int \<Rightarrow> int \<Rightarrow> bool" where
  "day_exists z tod n =
     (let u = utc_time z (make_date n tod) in time_clip u = Some u \<and> local_time z u = make_date n tod)"

text \<open>The days of the week of a date, from Sunday to Saturday.\<close>

definition week_of :: "zone \<Rightarrow> int \<Rightarrow> int list" where
  "week_of z t = (let n = day_of (local_time z t) in [n - week_day n..n + 6 - week_day n])"

lemma move_date_exists:
  assumes "local_time z t = make_date n tod" "0 \<le> tod" "tod < ms_per_day" "day_exists z tod (n + i)"
  obtains u where "move_date z (Some t) i = Some u" "local_time z u = make_date (n + i) tod"
  using assms set_date_local [OF assms(1-3), of i] by (auto simp: move_date_def day_exists_def Let_def)

lemma day_of_date_local:
  "local_time z t = make_date n tod \<Longrightarrow> 0 \<le> tod \<Longrightarrow> tod < ms_per_day \<Longrightarrow> day_of_date z (Some t) = Some (week_day n)"
  by (simp add: day_of_date_def getDay_local)

lemma startOfWeek_ends:
  assumes z: "\<forall>k \<in> {n - week_day n..n}. day_exists z tod k"
    and tod: "0 \<le> tod" "tod < ms_per_day" and t: "local_time z t = make_date n tod"
  shows "\<exists>a. startOfWeek z (Some t) = Some (Some a) \<and> local_time z a = make_date (n - week_day n) tod"
  using z t
proof (induction "nat (week_day n)" arbitrary: t n)
  case 0
  then have "week_day n = 0" using week_day_range [of n] by simp
  with 0 show ?case by (simp add: startOfWeek.simps [of z "Some t"] day_of_date_local [OF 0(3) tod])
next
  case (Suc k)
  have pos: "1 \<le> week_day n" using Suc(2) by simp
  then obtain u where u: "move_date z (Some t) (- 1) = Some u" "local_time z u = make_date (n - 1) tod"
    using move_date_exists [OF Suc(4) tod, of "- 1"] Suc(3) by auto
  have w: "week_day (n - 1) = week_day n - 1"
    using week_day_shift [of n "-1"] pos week_day_range [of n] by simp
  then have "k = nat (week_day (n - 1))" "\<forall>k \<in> {n - 1 - week_day (n - 1)..n - 1}. day_exists z tod k"
    using Suc(2,3) by auto
  from Suc(1) [OF this u(2)] w pos show ?case
    by (simp add: startOfWeek.simps [of z "Some t"] day_of_date_local [OF Suc(4) tod] u(1) algebra_simps)
qed

lemma endOfWeek_ends:
  assumes z: "\<forall>k \<in> {n..n + 6 - week_day n}. day_exists z tod k"
    and tod: "0 \<le> tod" "tod < ms_per_day" and t: "local_time z t = make_date n tod"
  shows "\<exists>b. endOfWeek z (Some t) = Some (Some b) \<and> local_time z b = make_date (n + 6 - week_day n) tod"
  using z t
proof (induction "nat (6 - week_day n)" arbitrary: t n)
  case 0
  then have "week_day n = 6" using week_day_range [of n] by simp
  with 0 show ?case by (simp add: endOfWeek.simps [of z "Some t"] day_of_date_local [OF 0(3) tod])
next
  case (Suc k)
  have less: "week_day n \<le> 5" using Suc(2) by simp
  then obtain u where u: "move_date z (Some t) 1 = Some u" "local_time z u = make_date (n + 1) tod"
    using move_date_exists [OF Suc(4) tod, of 1] Suc(3) by auto
  have w: "week_day (n + 1) = week_day n + 1"
    using week_day_shift [of n 1] less week_day_range [of n] by simp
  then have "k = nat (6 - week_day (n + 1))" "\<forall>k \<in> {n + 1..n + 1 + 6 - week_day (n + 1)}. day_exists z tod k"
    using Suc(2,3) by auto
  from Suc(1) [OF this u(2)] w less show ?case
    by (simp add: endOfWeek.simps [of z "Some t"] day_of_date_local [OF Suc(4) tod] u(1) algebra_simps)
qed

text \<open>For an invalid date the loops do not return.\<close>

lemma week_loops_invalid: "startOfWeek z None = None" "endOfWeek z None = None"
proof -
  have "\<exists>t. d = Some t" if "startOfWeek z d = Some r" for d r
  proof (rule startOfWeek.raw_induct [where P = "\<lambda>z d r. \<exists>t. d = Some t", OF _ that], goal_cases)
    case (1 loop z d r)
    then show ?case by (cases d) (auto simp: day_of_date_def move_date_def)
  qed
  then show "startOfWeek z None = None" by (metis option.exhaust option.distinct(1))
  have "\<exists>t. d = Some t" if "endOfWeek z d = Some r" for d r
  proof (rule endOfWeek.raw_induct [where P = "\<lambda>z d r. \<exists>t. d = Some t", OF _ that], goal_cases)
    case (1 loop z d r)
    then show ?case by (cases d) (auto simp: day_of_date_def move_date_def)
  qed
  then show "endOfWeek z None = None" by (metis option.exhaust option.distinct(1))
qed

text \<open>
  C39. For a valid date, the loops that walk it to the first and to the
  last day of its week return, and reach the Sunday and the Saturday of that week at the same time
  of day, if the zone has that time on every day of the week and the week is in the range of dates.
  (For an invalid date they do not return: \<open>week_loops_invalid\<close>.)
\<close>

theorem week_loops_end:
  assumes "\<forall>n \<in> set (week_of z t). day_exists z (time_in_day (local_time z t)) n"
  shows "\<exists>a b. startOfWeek z (Some t) = Some (Some a) \<and> endOfWeek z (Some t) = Some (Some b) \<and>
    getDay z a = 0 \<and> getDay z b = 6 \<and>
    day_of (local_time z a) \<le> day_of (local_time z t) \<and> day_of (local_time z t) \<le> day_of (local_time z b) \<and>
    day_of (local_time z b) = day_of (local_time z a) + 6 \<and>
    time_in_day (local_time z a) = time_in_day (local_time z t) \<and>
    time_in_day (local_time z b) = time_in_day (local_time z t)"
proof -
  define l n tod where "l = local_time z t" and "n = day_of l" and "tod = time_in_day l"
  have t: "local_time z t = make_date n tod" by (simp add: l_def n_def tod_def make_date_split)
  have tod: "0 \<le> tod" "tod < ms_per_day" by (simp_all add: tod_def time_in_day_range)
  have z: "\<forall>k \<in> {n - week_day n..n}. day_exists z tod k" "\<forall>k \<in> {n..n + 6 - week_day n}. day_exists z tod k"
    using assms week_day_range [of n] by (auto simp: week_of_def Let_def l_def n_def tod_def)
  obtain a where a: "startOfWeek z (Some t) = Some (Some a)" "local_time z a = make_date (n - week_day n) tod"
    using startOfWeek_ends [OF z(1) tod t] by blast
  obtain b where b: "endOfWeek z (Some t) = Some (Some b)" "local_time z b = make_date (n + 6 - week_day n) tod"
    using endOfWeek_ends [OF z(2) tod t] by blast
  have "week_day (n - week_day n) = 0"
    using week_day_shift [of n "- week_day n"] by simp
  moreover have "week_day (n + 6 - week_day n) = 6"
    using week_day_shift [of n "6 - week_day n"] by (simp add: add_diff_eq)
  ultimately show ?thesis
    using a b t tod week_day_range [of n] by (auto simp: getDay_local make_date_fields)
qed

section \<open>ISO dates\<close>

lemma digit_not_space: "digit_val c \<noteq> None \<Longrightarrow> \<not> is_space c"
  by (auto simp: digit_val_def is_space_def Let_def split: if_splits)

lemma trim_digits:
  assumes "\<forall>c \<in> set s. digit_val c \<noteq> None"
  shows "trim s = s"
proof -
  have d: "dropWhile is_space u = u" if "\<forall>c \<in> set u. digit_val c \<noteq> None" for u
    using that digit_not_space by (cases u) auto
  show ?thesis using d [of s] d [of "rev s"] assms by (simp add: trim_def)
qed

lemma str_to_number_digits:
  assumes "\<forall>c \<in> set s. digit_val c \<noteq> None" "s \<noteq> []"
  shows "str_to_number s = map_option int (read_nat s)"
proof (cases s)
  case (Cons c cs)
  then have "c \<noteq> CHR ''-''" "c \<noteq> CHR ''+''" using assms(1) by (auto simp: digit_val_def)
  then show ?thesis using trim_digits [OF assms(1)] Cons by (simp add: str_to_number_def)
qed (use assms in simp)

lemma dec_int_nonneg: "0 \<le> n \<Longrightarrow> dec_int n = dec_nat (nat n)"
  by (simp add: dec_int_def)

lemma read_zeros: "read_nat_acc 0 (replicate k (CHR ''0'') @ s) = read_nat_acc 0 s"
  by (induction k) (simp_all add: digit_val_def)

lemma padded_number:
  assumes "0 \<le> n"
  shows "str_to_number (padStart (dec_int n) k (CHR ''0'')) = Some n"
    and "\<forall>c \<in> set (padStart (dec_int n) k (CHR ''0'')). digit_val c \<noteq> None"
proof -
  let ?s = "padStart (dec_int n) k (CHR ''0'')"
  have "digit_val (CHR ''0'') \<noteq> None" by (simp add: digit_val_def)
  then show digits: "\<forall>c \<in> set ?s. digit_val c \<noteq> None"
    using dec_nat_digits [of _ "nat n"] assms by (auto simp: padStart_def dec_int_nonneg)
  have "read_nat ?s = Some (nat n)"
    using assms by (simp add: read_nat_def padStart_def dec_int_nonneg read_zeros)
  moreover have "?s \<noteq> []" using assms by (simp add: padStart_def dec_int_nonneg)
  ultimately show "str_to_number ?s = Some n"
    using str_to_number_digits [OF digits] assms by simp
qed

lemma padded_no_hyphen: "0 \<le> n \<Longrightarrow> CHR ''-'' \<notin> set (padStart (dec_int n) k (CHR ''0''))"
proof
  have none: "digit_val (CHR ''-'') = None" by (simp add: digit_val_def)
  assume "0 \<le> n" "CHR ''-'' \<in> set (padStart (dec_int n) k (CHR ''0''))"
  with padded_number(2) [of n k] none show False by blast
qed

text \<open>
  C40. The ISO form the adapter prints of a date of a year that is not
  negative is read back as the start of that day, in every zone.
\<close>

theorem iso_date_round_trip:
  assumes "0 \<le> getFullYear z t"
  shows "parseISO z (toISO z t) = Some (startOfDay z t)"
proof -
  obtain y m d where c: "civil (day_of (local_time z t)) = (y, m, d)" by (metis surj_pair)
  have f: "getFullYear z t = y" "getMonth z t = m" "getDate z t = d"
    using c by (simp_all add: getFullYear_def getMonth_def getDate_def)
  have r: "0 \<le> y" "0 \<le> m + 1" "0 \<le> d" using civil_day_range [OF c] assms f by auto
  let ?y = "padStart (dec_int y) 0 (CHR ''0'')"
  let ?m = "padStart (dec_int (m + 1)) 2 (CHR ''0'')"
  let ?d = "padStart (dec_int d) 2 (CHR ''0'')"
  have no: "CHR ''-'' \<notin> set ?y" "CHR ''-'' \<notin> set ?m" "CHR ''-'' \<notin> set ?d"
    using r by (simp_all add: padded_no_hyphen)
  have iso: "toISO z t = ?y @ CHR ''-'' # ?m @ CHR ''-'' # ?d"
    by (simp add: toISO_def f padStart_def)
  have "split_on (CHR ''-'') (toISO z t) = [?y, ?m, ?d]"
    unfolding iso split_on_append [OF no(1)] split_on_append [OF no(2)] split_on_none [OF no(3)] ..
  then show ?thesis
    by (simp add: parseISO_def padded_number(1) [OF r(1)] padded_number(1) [OF r(2)]
        padded_number(1) [OF r(3)] startOfDay_def f)
qed

section \<open>The week of the year\<close>

lemma ceil_div_bounds:
  "0 \<le> a \<Longrightarrow> a \<le> 370 * 86400000 \<Longrightarrow> 0 \<le> - ((- a) div 86400000) \<and> - ((- a) div 86400000) \<le> (370 :: int)"
proof -
  assume a: "0 \<le> a" "a \<le> 370 * 86400000"
  have "86400000 * ((- a) div 86400000) \<le> - a" "- a < 86400000 * ((- a) div 86400000) + 86400000"
    using div_le_lt [of 86400000 "- a"] by simp_all
  with a show ?thesis by auto
qed

lemma year_days: "day_from_year y + 365 \<le> day_from_year (y + 1)" "day_from_year (y + 1) \<le> day_from_year y + 366"
  by (simp_all add: year_len)

text \<open>
  In a zone whose clocks are never more than fifteen hours from universal
  time the week number of a date is between 1 and 53.
\<close>

lemma week_of_year_bounds:
  assumes off: "\<forall>u. \<bar>local_time z u - u\<bar> \<le> 54000000" "\<forall>l. \<bar>utc_time z l - l\<bar> \<le> 54000000"
    and year: "100 < getFullYear z t"
  shows "1 \<le> getWeek z t \<and> getWeek z t \<le> 53"
proof -
  define y n where "y = getFullYear z t" and "n = day_of (local_time z t)"
  define jan where "jan = (\<lambda>y. utc_time z (make_date (day_from_year y) 0))"
  have yn: "year_from_day n = y" by (simp add: y_def n_def getFullYear_def civil_def Let_def)
  have n: "day_from_year y \<le> n" "n < day_from_year (y + 1)"
    using year_from_day_bracket [of n] yn by simp_all
  have new: "new_date z k 0 1 = jan k" if "100 \<le> k" for k
    using that by (simp add: new_date_def jan_def make_full_year_def make_day_def Let_def month_start_def)
  have jan: "day_from_year k * 86400000 - 54000000 \<le> jan k" "jan k \<le> day_from_year k * 86400000 + 54000000" for k
    using off(2) [rule_format, of "make_date (day_from_year k) 0"]
    by (auto simp: jan_def make_date_def ms_per_day_def)
  have "86400000 * n \<le> local_time z t" "local_time z t < 86400000 * n + 86400000"
    using div_le_lt [of 86400000 "local_time z t"] by (simp_all add: n_def day_of_def ms_per_day_def)
  then have t: "n * 86400000 - 54000000 \<le> t" "t < n * 86400000 + 140400000"
    using off(1) [rule_format, of t] by auto
  have start: "\<bar>t - jan (y - 1)\<bar> \<le> 370 * 86400000" if "t < jan y"
    using that jan [of y] jan [of "y - 1"] year_days [of "y - 1"] n t by auto
  have here: "\<bar>t - jan y\<bar> \<le> 370 * 86400000" using jan [of y] year_days [of y] n t by auto
  have later: "\<bar>t - jan (y + 1)\<bar> \<le> 370 * 86400000" if "jan (y + 1) \<le> t"
    using that jan [of "y + 1"] year_days [of y] n t by auto
  define s where "s = (if t < jan y then jan (y - 1) else if jan (y + 1) \<le> t then jan (y + 1) else jan y)"
  have "\<bar>t - s\<bar> \<le> 370 * 86400000" using start here later by (auto simp: s_def)
  from ceil_div_bounds [OF abs_ge_zero this]
  have "0 \<le> - ((- \<bar>t - s\<bar>) div 86400000)" "- ((- \<bar>t - s\<bar>) div 86400000) \<le> 370" by simp_all
  then have "0 \<le> - ((- \<bar>t - s\<bar>) div 86400000) div 7" "- ((- \<bar>t - s\<bar>) div 86400000) div 7 \<le> 370 div 7"
    by (simp_all add: zdiv_mono1 pos_imp_zdiv_nonneg_iff)
  moreover have "getWeek z t = - ((- \<bar>t - s\<bar>) div 86400000) div 7 + 1"
    using year by (simp add: getWeek_def Let_def y_def [symmetric] new s_def)
  ultimately show ?thesis by simp
qed

section \<open>Instances\<close>

text \<open>Japan has no daylight saving time: nine hours east, all year.\<close>

definition tokyo :: zone where
  "tokyo = \<lparr>local_time = (\<lambda>t. t + 32400000), utc_time = (\<lambda>l. l - 32400000)\<rparr>"

text \<open>A year has three quarters for \<open>getDiff\<close>: the months are divided by four.\<close>

lemma year_has_three_quarters: "getDiff tokyo 1924959600000 1893423600000 ''quarters'' = 3"
  by code_simp

theorem week_loops_end_witness:
  "\<exists>a b. startOfWeek tokyo (Some 1893423600000) = Some (Some a) \<and> endOfWeek tokyo (Some 1893423600000) = Some (Some b) \<and>
    getDay tokyo a = 0 \<and> getDay tokyo b = 6"
proof -
  have "\<forall>n \<in> set (week_of tokyo 1893423600000). day_exists tokyo (time_in_day (local_time tokyo 1893423600000)) n"
    by code_simp
  from week_loops_end [OF this] show ?thesis by blast
qed

text \<open>The first date there is, a Tuesday: its week begins out of range, and the loop does not return.\<close>

lemma first_date_has_no_start_of_week: "startOfWeek tokyo (Some (- 8640000000000000)) = None"
proof -
  have "day_of_date tokyo (Some (- 8640000000000000)) = Some 2"
    "move_date tokyo (Some (- 8640000000000000)) (- 1) = None" by code_simp+
  then show ?thesis by (simp add: startOfWeek.simps [of tokyo "Some (- 8640000000000000)"] week_loops_invalid)
qed

theorem iso_date_round_trip_witness:
  "toISO tokyo 1893423600000 = ''2030-01-01'' \<and>
   parseISO tokyo (toISO tokyo 1893423600000) = Some (startOfDay tokyo 1893423600000)"
proof
  show "toISO tokyo 1893423600000 = ''2030-01-01''" by code_simp
  show "parseISO tokyo (toISO tokyo 1893423600000) = Some (startOfDay tokyo 1893423600000)"
    by (rule iso_date_round_trip) code_simp
qed

lemma week_of_year_bounds_witness:
  "1 \<le> getWeek tokyo 1893423600000 \<and> getWeek tokyo 1893423600000 \<le> 53"
proof (rule week_of_year_bounds)
  show "100 < getFullYear tokyo 1893423600000" by code_simp
qed (simp_all add: tokyo_def)

end
