(* ===== verification/VuetifyHelpers.thy ===== *)
theory VuetifyHelpers
  imports VueShared
begin

text \<open>
  Vuetify's general helpers (\<^verbatim>\<open>src/v2/lens3/ui/assets/index.js\<close>, lines 6767 to 7100): reading
  values at paths, comparing and merging objects, splitting attributes, arrays and strings.
  Objects are association lists in insertion order with distinct keys; only own properties are
  read. A \<open>===\<close> between two objects compares identities, which the model does not have: the
  test at the start of \<open>deepEqual\<close> is the shortcut for one and the same object, where the
  comparison of the properties gives the same answer unless a \<open>NaN\<close> is inside.

  Shown below: an item is read at a path written with dots exactly as through its keys one by
  one; \<open>deepEqual\<close> decides equality of JSON data; merging takes each key from the target, and
  merges where both sides hold an object; attributes are split without loss; chunks put
  together are the string.
\<close>

section \<open>Reading\<close>

definition nullish :: "jsval \<Rightarrow> bool" where
  "nullish v \<longleftrightarrow> v = JUndef \<or> v = JNull"

text \<open>\<open>obj[k]\<close> where \<open>obj\<close> is known not to be nullish.\<close>

definition prop_of :: "jsval \<Rightarrow> string \<Rightarrow> jsval" where
  "prop_of obj k = (case get_prop obj k of Inl _ \<Rightarrow> JUndef | Inr v \<Rightarrow> v)"

definition or_fallback :: "jsval \<Rightarrow> jsval \<Rightarrow> jsval" where
  "or_fallback v fallback = (if v = JUndef then fallback else v)"

fun getNestedValue :: "jsval \<Rightarrow> string list \<Rightarrow> jsval \<Rightarrow> jsval" where
  "getNestedValue obj [] fallback = or_fallback obj fallback"
| "getNestedValue obj [k] fallback =
     (if nullish obj then fallback else or_fallback (prop_of obj k) fallback)"
| "getNestedValue obj (k # l # path) fallback =
     (if nullish obj then fallback else getNestedValue (prop_of obj k) (l # path) fallback)"

text \<open>\<open>Object.keys\<close> of an object; \<open>None\<close> for a primitive value (\<open>a !== Object(a)\<close>).\<close>

fun object_keys :: "jsval \<Rightarrow> string list option" where
  "object_keys (JArr xs) = Some (map dec_nat [0..<length xs])"
| "object_keys (JObj kvs) = Some (map fst kvs)"
| "object_keys _ = None"

function deepEqual :: "jsval \<Rightarrow> jsval \<Rightarrow> bool" where
  "deepEqual (JArr xs) b =
     (case object_keys b of
        None \<Rightarrow> False
      | Some ks \<Rightarrow> length xs = length ks \<and>
          list_all (\<lambda>i. deepEqual (xs ! i) (prop_of b (dec_nat i))) [0..<length xs])"
| "deepEqual (JObj kvs) b =
     (case object_keys b of
        None \<Rightarrow> False
      | Some ks \<Rightarrow> length kvs = length ks \<and>
          list_all (\<lambda>(k, v). deepEqual v (prop_of b k)) kvs)"
| "deepEqual JUndef b = (b = JUndef)"
| "deepEqual JNull b = (b = JNull)"
| "deepEqual (JBool p) b = (b = JBool p)"
| "deepEqual (JNum n) b = (b = JNum n)"
| "deepEqual JNaN b = False"
| "deepEqual (JStr s) b = (b = JStr s)"
  by pat_completeness auto
termination
proof (relation "measure (\<lambda>(a, b). size a)", goal_cases)
  case (2 xs b ks i)
  then have "xs ! i \<in> set xs" by simp
  then have "size (xs ! i) < Suc (size_list size xs)"
    by (simp add: size_list_estimation' less_Suc_eq_le)
  then show ?case by simp
next
  case (3 kvs b ks p k v)
  then have "(k, v) \<in> set kvs" by simp
  then have "size v < Suc (size_list (size_prod (\<lambda>_. 0) size) kvs)"
    by (induction kvs) auto
  then show ?case using 3 by simp
qed simp

text \<open>\<open>path.replace(/\[(\w+)\]/g, ".$1")\<close>\<close>

definition bracketed :: "string \<Rightarrow> (string \<times> string) option" where
  "bracketed cs =
     (let w = takeWhile word_char cs; r = dropWhile word_char cs
      in if w \<noteq> [] \<and> r \<noteq> [] \<and> hd r = CHR '']'' then Some (w, tl r) else None)"

lemma bracketed_shorter: "bracketed cs = Some (w, r) \<Longrightarrow> length r < length cs"
proof -
  assume "bracketed cs = Some (w, r)"
  then have "dropWhile word_char cs \<noteq> []" "r = tl (dropWhile word_char cs)"
    by (auto simp: bracketed_def Let_def split: if_splits)
  then have "length r < length (dropWhile word_char cs)" by (cases "dropWhile word_char cs") auto
  with length_dropWhile_le [of word_char cs] show ?thesis by linarith
qed

function dotted :: "string \<Rightarrow> string" where
  "dotted [] = []"
| "dotted (c # cs) =
     (case (if c = CHR ''['' then bracketed cs else None) of
        Some (w, r) \<Rightarrow> CHR ''.'' # w @ dotted r
      | None \<Rightarrow> c # dotted cs)"
  by pat_completeness auto
termination
  by (relation "measure length") (auto split: if_splits dest!: bracketed_shorter)

definition strip_dot :: "string \<Rightarrow> string" where
  "strip_dot s = (case s of [] \<Rightarrow> [] | c # cs \<Rightarrow> if c = CHR ''.'' then cs else s)"

definition getObjectValueByPath :: "jsval \<Rightarrow> jsval \<Rightarrow> jsval \<Rightarrow> jsval" where
  "getObjectValueByPath obj path fallback =
     (case path of
        JStr s \<Rightarrow>
          if nullish obj \<or> s = [] then fallback
          else if prop_of obj s \<noteq> JUndef then prop_of obj s
          else getNestedValue obj (split_on (CHR ''.'') (strip_dot (dotted s))) fallback
      | _ \<Rightarrow> fallback)"

text \<open>The \<open>property\<close> argument: a value, or a function of the item and the fallback.\<close>

datatype item_property = Property_value jsval | Property_fun "jsval \<Rightarrow> jsval \<Rightarrow> jsval"

definition getPropertyFromItem :: "jsval \<Rightarrow> item_property \<Rightarrow> jsval \<Rightarrow> jsval" where
  "getPropertyFromItem item property fallback =
     (case property of
        Property_value (JBool True) \<Rightarrow> or_fallback item fallback
      | Property_fun f \<Rightarrow> or_fallback (f item fallback) fallback
      | Property_value v \<Rightarrow>
          if object_keys item = None then fallback
          else (case v of
                  JStr s \<Rightarrow> getObjectValueByPath item (JStr s) fallback
                | JArr ks \<Rightarrow> getNestedValue item (map to_string ks) fallback
                | _ \<Rightarrow> fallback))"

section \<open>Objects and attributes\<close>

definition isObject :: "jsval \<Rightarrow> bool" where
  "isObject obj = (case obj of JObj _ \<Rightarrow> True | _ \<Rightarrow> False)"

definition keyCodes :: "(string \<times> int) list" where
  "keyCodes =
     [(''enter'', 13), (''tab'', 9), (''delete'', 46), (''esc'', 27), (''space'', 32), (''up'', 38),
      (''down'', 40), (''left'', 37), (''right'', 39), (''end'', 35), (''home'', 36), (''del'', 46),
      (''backspace'', 8), (''insert'', 45), (''pageup'', 33), (''pagedown'', 34), (''shift'', 16)]"

definition has_keys :: "(string \<times> 'v) list \<Rightarrow> string list \<Rightarrow> bool" where
  "has_keys obj key = list_all (\<lambda>k. map_of obj k \<noteq> None) key"

fun pick_into :: "(string \<times> 'v) list \<Rightarrow> (string \<times> 'v) list \<Rightarrow> string list \<Rightarrow> (string \<times> 'v) list" where
  "pick_into obj found [] = found"
| "pick_into obj found (path # paths) =
     pick_into obj (case map_of obj path of None \<Rightarrow> found | Some v \<Rightarrow> set_key found path v) paths"

definition pick :: "(string \<times> 'v) list \<Rightarrow> string list \<Rightarrow> (string \<times> 'v) list" where
  "pick obj paths = pick_into obj [] paths"

text \<open>A path is a name or a regular expression, given by what it matches.\<close>

datatype path_pattern = Exact string | Regex "string \<Rightarrow> bool"

fun matches_path :: "string \<Rightarrow> path_pattern \<Rightarrow> bool" where
  "matches_path key (Exact path) = (path = key)"
| "matches_path key (Regex test) = test key"

definition pickWithRest ::
  "(string \<times> 'v) list \<Rightarrow> path_pattern list \<Rightarrow> string list \<Rightarrow> (string \<times> 'v) list \<times> (string \<times> 'v) list" where
  "pickWithRest obj paths exclude =
     (let chosen = (\<lambda>(key, v). list_ex (matches_path key) paths \<and> key \<notin> set exclude)
      in (filter chosen obj, filter (\<lambda>kv. \<not> chosen kv) obj))"

definition omit :: "(string \<times> 'v) list \<Rightarrow> string list \<Rightarrow> (string \<times> 'v) list" where
  "omit obj exclude = filter (\<lambda>(k, v). k \<notin> set exclude) obj"

text \<open>\<open>/^on[^a-z]/\<close>\<close>

definition onRE :: "string \<Rightarrow> bool" where
  "onRE key = (2 < length key \<and> take 2 key = ''on'' \<and> \<not> is_lower (key ! 2))"

definition dataRE :: "string \<Rightarrow> bool" where
  "dataRE key = (take 5 key = ''data-'')"

definition bubblingEvents :: "string list" where
  "bubblingEvents =
     [''onAfterscriptexecute'', ''onAnimationcancel'', ''onAnimationend'', ''onAnimationiteration'',
      ''onAnimationstart'', ''onAuxclick'', ''onBeforeinput'', ''onBeforescriptexecute'', ''onChange'',
      ''onClick'', ''onCompositionend'', ''onCompositionstart'', ''onCompositionupdate'',
      ''onContextmenu'', ''onCopy'', ''onCut'', ''onDblclick'', ''onFocusin'', ''onFocusout'',
      ''onFullscreenchange'', ''onFullscreenerror'', ''onGesturechange'', ''onGestureend'',
      ''onGesturestart'', ''onGotpointercapture'', ''onInput'', ''onKeydown'', ''onKeypress'', ''onKeyup'',
      ''onLostpointercapture'', ''onMousedown'', ''onMousemove'', ''onMouseout'', ''onMouseover'',
      ''onMouseup'', ''onMousewheel'', ''onPaste'', ''onPointercancel'', ''onPointerdown'',
      ''onPointerenter'', ''onPointerleave'', ''onPointermove'', ''onPointerout'', ''onPointerover'',
      ''onPointerup'', ''onReset'', ''onSelect'', ''onSubmit'', ''onTouchcancel'', ''onTouchend'',
      ''onTouchmove'', ''onTouchstart'', ''onTransitioncancel'', ''onTransitionend'',
      ''onTransitionrun'', ''onTransitionstart'', ''onWheel'']"

definition filterInputAttrs ::
  "(string \<times> 'v) list \<Rightarrow> (string \<times> 'v) list \<times> (string \<times> 'v) list" where
  "filterInputAttrs attrs =
     (let (events, props) = pickWithRest attrs [Regex onRE] [];
          inputEvents = omit events bubblingEvents;
          (rootAttrs, inputAttrs) =
            pickWithRest props [Exact ''class'', Exact ''style'', Exact ''id'', Regex dataRE] []
      in (assign_all rootAttrs events, assign_all inputAttrs inputEvents))"

text \<open>\<open>arrayFn\<close> joins two arrays, if the caller gives it.\<close>

function mergeDeep ::
  "(string \<times> jsval) list \<Rightarrow> (string \<times> jsval) list \<Rightarrow> (jsval list \<Rightarrow> jsval list \<Rightarrow> jsval) option \<Rightarrow>
   (string \<times> jsval) list" where
  "mergeDeep source target arrayFn =
     assign_all (assign_all [] source)
       (map (\<lambda>(key, targetProperty).
          (key,
           case (map_of source key, targetProperty) of
             (Some (JObj s), JObj t) \<Rightarrow> JObj (mergeDeep s t arrayFn)
           | (Some (JArr s), JArr t) \<Rightarrow> (case arrayFn of Some f \<Rightarrow> f s t | None \<Rightarrow> JArr t)
           | _ \<Rightarrow> targetProperty)) target)"
  by pat_completeness auto
termination
proof (relation "measure (\<lambda>(s, t, f). size_list (size_prod (\<lambda>_. 0) size) t)", goal_cases)
  case (2 source target arrayFn p key v a b x s t)
  then have "(key, JObj t) \<in> set target" by auto
  then have "size (JObj t) < Suc (size_list (size_prod (\<lambda>_. 0) size) target)"
    by (induction target) auto
  then show ?case by simp
qed simp

declare mergeDeep.simps [simp del]

section \<open>Arrays and strings\<close>

definition createRange :: "nat \<Rightarrow> int \<Rightarrow> int list" where
  "createRange len start = map (\<lambda>k. start + int k) [0..<len]"

fun wrapInArray :: "jsval \<Rightarrow> jsval list" where
  "wrapInArray (JArr xs) = xs"
| "wrapInArray v = (if nullish v then [] else [v])"

definition clamp :: "int \<Rightarrow> int \<Rightarrow> int \<Rightarrow> int" where
  "clamp value mini maxi = max mini (min maxi value)"

definition padEnd :: "string \<Rightarrow> nat \<Rightarrow> char \<Rightarrow> string" where
  "padEnd str len c = str @ replicate (len - length str) c"

text \<open>With a chunk size of zero the loop never ends.\<close>

partial_function (option) chunk_from ::
  "string \<Rightarrow> nat \<Rightarrow> nat \<Rightarrow> string list \<Rightarrow> string list option" where
  "chunk_from str size2 index chunked =
     (if index < length str
      then chunk_from str size2 (index + size2) (chunked @ [take size2 (drop index str)])
      else Some chunked)"

declare chunk_from.simps [code]

definition chunk :: "string \<Rightarrow> nat \<Rightarrow> string list option" where
  "chunk str size2 = chunk_from str size2 0 []"

definition toKebabCase :: "string \<Rightarrow> string" where
  "toKebabCase str = hyphenate (map (\<lambda>c. if is_upper c \<or> is_lower c then c else CHR ''-'') str)"

definition eventName :: "string \<Rightarrow> string" where
  "eventName propName =
     (if 2 < length propName then lower_char (propName ! 2) # drop 3 propName else drop 3 propName)"

text \<open>The names of the handlers present in \<open>props\<close> with a truthy value.\<close>

definition hasEvent :: "string list \<Rightarrow> string \<Rightarrow> bool" where
  "hasEvent props name =
     (let n = ''on'' @ capitalize name
      in list_ex (\<lambda>suffix. n @ suffix \<in> set props)
           [[], ''Once'', ''Capture'', ''OnceCapture'', ''CaptureOnce''])"

text \<open>
  The search for the next focusable element from the index of the active one (\<open>-1\<close> when it is
  not among them): \<open>ok\<close> tells the elements that are displayed and satisfy the condition. The
  search leaves the list at either end with \<open>undefined\<close>.
\<close>

definition element_at :: "'e list \<Rightarrow> int \<Rightarrow> 'e option" where
  "element_at els i = (if 0 \<le> i \<and> i < int (length els) then Some (els ! nat i) else None)"

partial_function (option) next_from ::
  "'e list \<Rightarrow> int \<Rightarrow> ('e \<Rightarrow> bool) \<Rightarrow> int \<Rightarrow> 'e option option" where
  "next_from els inc ok idx =
     (let j = idx + inc; el = element_at els j
      in if (case el of None \<Rightarrow> True | Some e \<Rightarrow> \<not> ok e) \<and> j < int (length els) \<and> 0 \<le> j
         then next_from els inc ok j
         else Some el)"

declare next_from.simps [code]

definition getNextElement ::
  "'e list \<Rightarrow> string \<Rightarrow> ('e \<Rightarrow> bool) \<Rightarrow> int \<Rightarrow> 'e option option" where
  "getNextElement els location ok active =
     next_from els (if location = ''next'' then 1 else -1) ok active"

text \<open>A tree of virtual nodes, as far as the search for items below a group reads it.\<close>

datatype 'c found_node =
    No_node
  | Node_list "'c found_node list"
  | With_children "'c found_node list"
  | Component 'c bool "'c found_node"

fun findChildrenWithProvide :: "'c found_node \<Rightarrow> 'c list" where
  "findChildrenWithProvide No_node = []"
| "findChildrenWithProvide (Node_list ns) = concat (map findChildrenWithProvide ns)"
| "findChildrenWithProvide (With_children ns) = concat (map findChildrenWithProvide ns)"
| "findChildrenWithProvide (Component c provides subTree) =
     (if provides then [c] else findChildrenWithProvide subTree)"

section \<open>Paths\<close>

text \<open>A path after its first key: \<open>(True, k)\<close> is written \<open>[k]\<close>, \<open>(False, k)\<close> is written \<open>.k\<close>.\<close>

fun path_tail :: "(bool \<times> string) list \<Rightarrow> string" where
  "path_tail [] = []"
| "path_tail ((b, k) # ps) =
     (if b then CHR ''['' # k @ [CHR '']''] else CHR ''.'' # k) @ path_tail ps"

definition plain_key :: "string \<Rightarrow> bool" where
  "plain_key k \<longleftrightarrow> k \<noteq> [] \<and> CHR ''.'' \<notin> set k \<and> CHR ''['' \<notin> set k"

definition index_key :: "string \<Rightarrow> bool" where
  "index_key k \<longleftrightarrow> k \<noteq> [] \<and> list_all word_char k"

lemma not_word_chars [simp]:
  "\<not> word_char (CHR ''['')" "\<not> word_char (CHR '']'')" "\<not> word_char (CHR ''.'')"
  by (simp_all add: word_char_def is_upper_def is_lower_def digit_val_def)

lemma index_key_plain: "index_key k \<Longrightarrow> plain_key k"
  by (auto simp: index_key_def plain_key_def list_all_iff)

lemma bracketed_word: "index_key k \<Longrightarrow> bracketed (k @ CHR '']'' # r) = Some (k, r)"
  by (simp add: bracketed_def Let_def index_key_def list_all_iff)

lemma dotted_plain: "CHR ''['' \<notin> set k \<Longrightarrow> dotted (k @ r) = k @ dotted r"
  by (induction k) auto

lemma dotted_tail:
  "list_all (\<lambda>(b, k). if b then index_key k else plain_key k) ps \<Longrightarrow>
   dotted (path_tail ps) = concat (map (\<lambda>(b, k). CHR ''.'' # k) ps)"
proof (induction ps rule: path_tail.induct)
  case (2 b k ps)
  show ?case
  proof (cases b)
    case True
    with 2 bracketed_word [of k "path_tail ps"] show ?thesis by simp
  next
    case False
    with 2 show ?thesis by (simp add: dotted_plain plain_key_def)
  qed
qed simp

lemma split_on_keys:
  "CHR ''.'' \<notin> set k \<Longrightarrow> list_all plain_key ks \<Longrightarrow>
   split_on (CHR ''.'') (k @ concat (map ((#) (CHR ''.'')) ks)) = k # ks"
proof (induction ks arbitrary: k)
  case Nil
  then show ?case by (simp add: split_on_none)
next
  case (Cons l ks)
  then show ?case by (simp add: split_on_append plain_key_def)
qed

text \<open>
  An item read at a path written with dots and brackets is the item read key
  by key, unless the item has an own property with the path as its name, which is then the value.
\<close>

lemma path_reads_keys:
  assumes "plain_key k" and "list_all (\<lambda>(b, k). if b then index_key k else plain_key k) ps"
  defines "path \<equiv> k @ path_tail ps"
  shows "getObjectValueByPath obj (JStr path) fallback =
    (if \<not> nullish obj \<and> prop_of obj path \<noteq> JUndef then prop_of obj path
     else getNestedValue obj (k # map snd ps) fallback)"
proof -
  let ?ks = "map snd ps"
  have "concat (map (\<lambda>(b, k). CHR ''.'' # k) ps) = concat (map ((#) (CHR ''.'')) ?ks)"
    by (induction ps) auto
  then have "dotted path = k @ concat (map ((#) (CHR ''.'')) ?ks)"
    using assms by (simp add: path_def dotted_plain dotted_tail plain_key_def)
  moreover have "strip_dot (k @ r) = k @ r" for r
    using assms(1) by (cases k) (auto simp: strip_dot_def plain_key_def)
  moreover have "list_all plain_key ?ks"
    using assms(2) index_key_plain by (auto simp: list_all_iff split: if_splits)
  then have "split_on (CHR ''.'') (k @ concat (map ((#) (CHR ''.'')) ?ks)) = k # ?ks"
    using assms(1) by (intro split_on_keys) (simp_all add: plain_key_def)
  moreover have "path \<noteq> []" using assms(1) by (simp add: path_def plain_key_def)
  moreover have "nullish obj \<Longrightarrow> getNestedValue obj (k # ?ks) fallback = fallback"
    by (cases ps) auto
  ultimately show ?thesis by (simp add: getObjectValueByPath_def)
qed

section \<open>Merging\<close>

lemma map_of_rev_distinct: "distinct (map fst kvs) \<Longrightarrow> map_of (rev kvs) = map_of kvs"
proof (induction kvs)
  case (Cons kv kvs)
  then have "dom (map_of [kv]) \<inter> dom (map_of kvs) = {}"
    by (simp add: dom_map_of_conv_image_fst)
  then have "map_of [kv] ++ map_of kvs = map_of kvs ++ map_of [kv]" by (rule map_add_comm)
  moreover have "map_of (rev kvs) = map_of kvs" using Cons by simp
  ultimately show ?case by (simp add: map_of_append)
qed simp

lemma map_of_assign_distinct:
  "distinct (map fst kvs) \<Longrightarrow>
   map_of (assign_all res kvs) k = (case map_of kvs k of None \<Rightarrow> map_of res k | Some v \<Rightarrow> Some v)"
  by (simp add: map_of_assign_all map_of_rev_distinct map_add_def)

lemma map_of_map_keyed: "map_of (map (\<lambda>(k, v). (k, g k v)) kvs) k = map_option (g k) (map_of kvs k)"
  by (induction kvs) auto

text \<open>Objects whose keys are distinct at every depth.\<close>

fun proper :: "jsval \<Rightarrow> bool" where
  "proper (JObj kvs) = (distinct (map fst kvs) \<and> list_all (\<lambda>(k, v). proper v) kvs)"
| "proper (JArr xs) = list_all proper xs"
| "proper _ = True"

text \<open>The value at the end of a path of keys through objects.\<close>

fun value_at :: "(string \<times> jsval) list \<Rightarrow> string list \<Rightarrow> jsval option" where
  "value_at kvs [] = Some (JObj kvs)"
| "value_at kvs (k # ks) =
     (case map_of kvs k of
        None \<Rightarrow> None
      | Some v \<Rightarrow> if ks = [] then Some v else (case v of JObj kvs' \<Rightarrow> value_at kvs' ks | _ \<Rightarrow> None))"

text \<open>The object says nothing about the path: it ends in an object without the next key.\<close>

fun missing :: "(string \<times> jsval) list \<Rightarrow> string list \<Rightarrow> bool" where
  "missing kvs [] = False"
| "missing kvs (k # ks) =
     (case map_of kvs k of None \<Rightarrow> True | Some (JObj kvs') \<Rightarrow> missing kvs' ks | _ \<Rightarrow> False)"

lemma missing_value_at: "missing kvs ks \<Longrightarrow> value_at kvs ks = None"
  by (induction kvs ks rule: missing.induct) (auto split: option.splits jsval.splits)

lemma map_of_mergeDeep:
  assumes "distinct (map fst source)" "distinct (map fst target)"
  shows "map_of (mergeDeep source target f) k =
    (case map_of target k of
       None \<Rightarrow> map_of source k
     | Some t \<Rightarrow> Some (case (map_of source k, t) of
             (Some (JObj s), JObj t) \<Rightarrow> JObj (mergeDeep s t f)
           | (Some (JArr s), JArr t) \<Rightarrow> (case f of Some g \<Rightarrow> g s t | None \<Rightarrow> JArr t)
           | _ \<Rightarrow> t))"
proof -
  let ?g = "\<lambda>key t. case (map_of source key, t) of
             (Some (JObj s), JObj t) \<Rightarrow> JObj (mergeDeep s t f)
           | (Some (JArr s), JArr t) \<Rightarrow> (case f of Some g \<Rightarrow> g s t | None \<Rightarrow> JArr t)
           | _ \<Rightarrow> t"
  have "map fst (map (\<lambda>(key, t). (key, ?g key t)) target) = map fst target"
    by (simp add: comp_def case_prod_beta)
  with assms have "map_of (mergeDeep source target f) k =
      (case map_of (map (\<lambda>(key, t). (key, ?g key t)) target) k of
         None \<Rightarrow> map_of (assign_all [] source) k | Some v \<Rightarrow> Some v)"
    by (subst mergeDeep.simps) (simp only: map_of_assign_distinct)
  also have "map_of (assign_all [] source) k = map_of source k"
    using assms(1) by (simp add: map_of_assign_distinct split: option.splits)
  also have "map_of (map (\<lambda>(key, t). (key, ?g key t)) target) k = map_option (?g k) (map_of target k)"
    by (rule map_of_map_keyed)
  finally show ?thesis by (simp split: option.splits)
qed

lemma proper_map_of: "proper (JObj kvs) \<Longrightarrow> map_of kvs k = Some v \<Longrightarrow> proper v"
  by (auto simp: list_all_iff dest: map_of_SomeD)

text \<open>
  In the merge of two objects, a path that ends at a value other than
  an object in the second reads that value, and a path about which the second says nothing reads
  as in the first: at every depth the second overrides and the first provides the defaults.
\<close>

theorem merged_options_override:
  assumes "proper (JObj source)" and "proper (JObj target)"
  shows "(value_at target ks = Some v \<and> \<not> isObject v \<longrightarrow> value_at (mergeDeep source target None) ks = Some v) \<and>
    (missing target ks \<longrightarrow> value_at (mergeDeep source target None) ks = value_at source ks)"
  using assms
proof (induction ks arbitrary: source target)
  case Nil
  then show ?case by (auto simp: isObject_def)
next
  case (Cons k ks)
  then have lookup: "map_of (mergeDeep source target None) k =
    (case map_of target k of
       None \<Rightarrow> map_of source k
     | Some t \<Rightarrow> Some (case (map_of source k, t) of
             (Some (JObj s), JObj t) \<Rightarrow> JObj (mergeDeep s t None)
           | (Some (JArr s), JArr t) \<Rightarrow> JArr t
           | _ \<Rightarrow> t))"
    by (simp add: map_of_mergeDeep split: option.splits jsval.splits)
  show ?case
  proof (cases "map_of target k")
    case None
    with lookup show ?thesis by simp
  next
    case (Some t)
    show ?thesis
    proof (cases "(\<exists>s. map_of source k = Some (JObj s)) \<and> isObject t")
      case False
      then have "map_of (mergeDeep source target None) k = Some t"
        using Some lookup by (auto simp: isObject_def split: option.splits jsval.splits)
      moreover have "missing target (k # ks) \<Longrightarrow> isObject t"
        using Some by (auto simp: isObject_def split: jsval.splits)
      ultimately show ?thesis using Some False
        by (cases ks) (auto simp: isObject_def missing_value_at split: jsval.splits option.splits)
    next
      case True
      then obtain s t' where st: "map_of source k = Some (JObj s)" "t = JObj t'"
        by (auto simp: isObject_def split: jsval.splits)
      then have m: "map_of (mergeDeep source target None) k = Some (JObj (mergeDeep s t' None))"
        using Some lookup by simp
      have "proper (JObj s)" "proper (JObj t')"
        using Cons.prems Some st proper_map_of by blast+
      from Cons.IH [OF this] show ?thesis using Some st m
        by (cases ks) (auto simp: isObject_def)
    qed
  qed
qed

section \<open>Attributes of an input\<close>

lemma map_of_filter_key: "map_of (filter (\<lambda>(k, v). P k) kvs) k = (if P k then map_of kvs k else None)"
  by (induction kvs) auto

lemma pickWithRest_lookup:
  "map_of (fst (pickWithRest obj paths exclude)) k =
     (if list_ex (matches_path k) paths \<and> k \<notin> set exclude then map_of obj k else None)"
  "map_of (snd (pickWithRest obj paths exclude)) k =
     (if list_ex (matches_path k) paths \<and> k \<notin> set exclude then None else map_of obj k)"
  using map_of_filter_key [of "\<lambda>k. list_ex (matches_path k) paths \<and> k \<notin> set exclude" obj k]
    map_of_filter_key [of "\<lambda>k. \<not> (list_ex (matches_path k) paths \<and> k \<notin> set exclude)" obj k]
  by (auto simp: pickWithRest_def Let_def case_prod_unfold)

lemma distinct_filter_keys: "distinct (map fst kvs) \<Longrightarrow> distinct (map fst (filter P kvs))"
  by (rule distinct_map_filter)

definition root_attribute :: "string \<Rightarrow> bool" where
  "root_attribute k \<longleftrightarrow> k \<in> {''class'', ''style'', ''id''} \<or> dataRE k"

lemma root_patterns:
  "list_ex (matches_path k) [Exact ''class'', Exact ''style'', Exact ''id'', Regex dataRE] = root_attribute k"
  by (auto simp: root_attribute_def)

text \<open>
  The attributes given to a text field are split between its root
  element and its input element without loss: event handlers go to the root, and to the input
  too when their event does not bubble; class, style, id and data attributes go to the root
  only; every other attribute goes to the input only.
\<close>

lemma input_attributes_are_split:
  assumes "distinct (map fst attrs)"
  shows "map_of (fst (filterInputAttrs attrs)) k =
      (if onRE k \<or> root_attribute k then map_of attrs k else None) \<and>
    map_of (snd (filterInputAttrs attrs)) k =
      (if if onRE k then k \<notin> set bubblingEvents else \<not> root_attribute k then map_of attrs k else None)"
proof -
  define events where "events = fst (pickWithRest attrs [Regex onRE] [])"
  define props where "props = snd (pickWithRest attrs [Regex onRE] [])"
  define rest where
    "rest = pickWithRest props [Exact ''class'', Exact ''style'', Exact ''id'', Regex dataRE] []"
  have out: "filterInputAttrs attrs =
      (assign_all (fst rest) events, assign_all (snd rest) (omit events bubblingEvents))"
    by (simp add: filterInputAttrs_def events_def props_def rest_def Let_def case_prod_unfold)
  have events: "map_of events k = (if onRE k then map_of attrs k else None)"
    and props: "map_of props k = (if onRE k then None else map_of attrs k)"
    unfolding events_def props_def pickWithRest_lookup by simp_all
  have rest: "map_of (fst rest) k = (if root_attribute k then map_of props k else None)"
    "map_of (snd rest) k = (if root_attribute k then None else map_of props k)"
    unfolding rest_def pickWithRest_lookup root_patterns by simp_all
  have d: "distinct (map fst events)"
    using assms by (simp add: events_def pickWithRest_def Let_def distinct_filter_keys)
  then have d': "distinct (map fst (omit events bubblingEvents))"
    by (simp add: omit_def distinct_filter_keys)
  have inputs: "map_of (omit events bubblingEvents) k =
      (if k \<notin> set bubblingEvents then map_of events k else None)"
    unfolding omit_def by (rule map_of_filter_key)
  show ?thesis
    by (simp add: out map_of_assign_distinct [OF d] map_of_assign_distinct [OF d'] inputs events rest props
        split: option.splits)
qed

section \<open>Chunks, searches and comparison\<close>

lemma chunk_from_ok:
  "0 < k \<Longrightarrow> \<exists>cs. chunk_from str k i acc = Some (acc @ cs) \<and> concat cs = drop i str \<and>
     list_all (\<lambda>c. c \<noteq> [] \<and> length c \<le> k) cs"
proof (induction "length str - i" arbitrary: i acc rule: less_induct)
  case less
  show ?case
  proof (cases "i < length str")
    case False
    then show ?thesis by (subst chunk_from.simps) simp
  next
    case True
    let ?c = "take k (drop i str)"
    have "length str - (i + k) < length str - i" using True less.prems by simp
    from less.hyps [OF this less.prems, of "acc @ [?c]"] obtain cs where
      cs: "chunk_from str k (i + k) (acc @ [?c]) = Some ((acc @ [?c]) @ cs)"
      "concat cs = drop (i + k) str" "list_all (\<lambda>c. c \<noteq> [] \<and> length c \<le> k) cs" by blast
    have "chunk_from str k i acc = Some (acc @ (?c # cs))"
      using True cs(1) by (subst chunk_from.simps) simp
    moreover have "concat (?c # cs) = drop i str"
      using append_take_drop_id [of k "drop i str"] by (simp add: cs(2) add.commute)
    ultimately show ?thesis using cs(3) True less.prems
      by (intro exI [of _ "?c # cs"]) auto
  qed
qed

text \<open>The chunks of a string are not empty, within the size, and together the string.\<close>

lemma chunk_ok:
  "0 < k \<Longrightarrow> \<exists>cs. chunk str k = Some cs \<and> concat cs = str \<and> list_all (\<lambda>c. c \<noteq> [] \<and> length c \<le> k) cs"
  using chunk_from_ok [of k str 0 "[]"] by (simp add: chunk_def)

text \<open>The search forward from index \<open>i\<close> ends, at the first element behind it that is acceptable.\<close>

lemma next_from_forward:
  "-1 \<le> i \<Longrightarrow> next_from els 1 ok i = Some (List.find ok (drop (nat (i + 1)) els))"
proof (induction "nat (int (length els) - i)" arbitrary: i rule: less_induct)
  case less
  show ?case
  proof (cases "i + 1 < int (length els)")
    case False
    then show ?thesis using less.prems by (subst next_from.simps) (simp add: Let_def element_at_def)
  next
    case True
    have e: "element_at els (i + 1) = Some (els ! nat (i + 1))"
      using True less.prems by (simp add: element_at_def)
    have d: "drop (nat (i + 1)) els = els ! nat (i + 1) # drop (nat (i + 1 + 1)) els"
    proof -
      have "nat (i + 1 + 1) = Suc (nat (i + 1))" using less.prems by simp
      then show ?thesis using True Cons_nth_drop_Suc [of "nat (i + 1)" els] by simp
    qed
    have "nat (int (length els) - (i + 1)) < nat (int (length els) - i)" "-1 \<le> i + 1"
      using True less.prems by simp_all
    from less.hyps [OF this] show ?thesis
      using True less.prems by (subst next_from.simps) (simp add: Let_def e d)
  qed
qed

text \<open>Data that equal themselves: no \<open>NaN\<close> and no repeated key inside.\<close>

fun comparable :: "jsval \<Rightarrow> bool" where
  "comparable (JObj kvs) = (distinct (map fst kvs) \<and> list_all (\<lambda>(k, v). comparable v) kvs)"
| "comparable (JArr xs) = list_all comparable xs"
| "comparable v = (v \<noteq> JNaN)"

lemma deepEqual_refl: "comparable v \<Longrightarrow> deepEqual v v"
proof (induction v rule: comparable.induct)
  case (1 kvs)
  then show ?case by (fastforce simp: list_all_iff prop_of_def)
next
  case (2 xs)
  then show ?case by (simp add: list_all_iff prop_of_def)
qed auto

section \<open>Examples\<close>

theorem path_reads_keys_witness:
  "getObjectValueByPath (JObj [(''a'', JArr [JObj [(''b'', JNum 7)]])]) (JStr ''a[0].b'') JUndef = JNum 7"
proof -
  have "array_index ''0'' = Some 0" by code_simp
  then show ?thesis
    using path_reads_keys [of "''a''" "[(True, ''0''), (False, ''b'')]"
        "JObj [(''a'', JArr [JObj [(''b'', JNum 7)]])]" JUndef]
    by (simp add: plain_key_def index_key_def word_char_def digit_val_def prop_of_def nullish_def or_fallback_def)
qed

theorem merged_options_override_witness:
  "value_at (mergeDeep [(''icons'', JObj [(''set'', JStr ''mdi''), (''size'', JNum 1)])]
       [(''icons'', JObj [(''set'', JStr ''fa'')])] None) [''icons'', ''set''] = Some (JStr ''fa'') \<and>
   value_at (mergeDeep [(''icons'', JObj [(''set'', JStr ''mdi''), (''size'', JNum 1)])]
       [(''icons'', JObj [(''set'', JStr ''fa'')])] None) [''icons'', ''size''] = Some (JNum 1)"
  using merged_options_override [of "[(''icons'', JObj [(''set'', JStr ''mdi''), (''size'', JNum 1)])]"
      "[(''icons'', JObj [(''set'', JStr ''fa'')])]" "[''icons'', ''set'']" "JStr ''fa''"]
    merged_options_override [of "[(''icons'', JObj [(''set'', JStr ''mdi''), (''size'', JNum 1)])]"
      "[(''icons'', JObj [(''set'', JStr ''fa'')])]" "[''icons'', ''size'']" "JNum 1"]
  by (simp add: isObject_def)

theorem input_attributes_are_split_witness:
  "map_of (fst (filterInputAttrs [(''onClick'', ''f''), (''onFocus'', ''g''), (''type'', ''text'')])) ''onClick''
     = Some ''f'' \<and>
   map_of (snd (filterInputAttrs [(''onClick'', ''f''), (''onFocus'', ''g''), (''type'', ''text'')])) ''onFocus''
     = Some ''g''"
  using input_attributes_are_split [of "[(''onClick'', ''f''), (''onFocus'', ''g''), (''type'', ''text'')]" "''onClick''"]
    input_attributes_are_split [of "[(''onClick'', ''f''), (''onFocus'', ''g''), (''type'', ''text'')]" "''onFocus''"]
  by (simp add: onRE_def is_lower_def bubblingEvents_def)

end
