(* ===== verification/VuetifyPicker.thy ===== *)
theory VuetifyPicker
  imports VuetifyDate VuetifyHelpers
begin

text \<open>
  Vuetify's calendar and date picker (\<^verbatim>\<open>src/v2/lens3/ui/assets/index.js\<close>, lines 20232 to
  20985), with which the pool editor of the Vue interface asks for the expiration date of a key.
  The picker has a month and a year, a view (\<open>month\<close>, \<open>months\<close> or \<open>year\<close>) and the list of
  selected dates; in the month view it shows six weeks of days, which can be clicked. Dates are
  time values as in the theory of the date adapter; the zone, the locale and the current time
  are parameters. The calendar only reads the models of its month and year; their outer values
  are the fields \<open>cal_month\<close> and \<open>cal_year\<close>. The two formatted texts of a day come from the
  host and are a parameter. The start and the stop of a range belong to the month view, which
  is mounted anew when the view changes: they are forgotten when the view is left.
  \<open>daysInWeek\<close> of the calendar is used by no component and is left out, as are the templates.

  Shown below: the month view always holds exactly six full weeks of consecutive days around the
  month; the arrows move by exactly one month and undo each other; two clicks in the range mode
  select exactly the days between them, in zones that do not change their clocks. Where the
  clocks are set forward within the range a day is missing, and the arrows may look at the wrong
  month, in the two examples at the end.
\<close>

section \<open>The calendar\<close>

datatype allowed_dates = Any_date | Dates "int list" | Date_fun "int \<Rightarrow> bool"

text \<open>The prop \<open>multiple\<close>: false, true, a number, or the string \<open>range\<close>.\<close>

datatype multiple_mode = Single | Multiple | Multiple_max int | Range_mode

record calendar_props =
  allowedDates :: allowed_dates
  cal_disabled :: bool
  cal_display :: "int option"
  cal_month :: "int option"
  cal_max :: "int option"
  cal_min :: "int option"
  showAdjacentMonths :: bool
  cal_year :: "int option"
  weekdays :: "int list"
  cal_multiple :: multiple_mode

definition displayValue :: "int \<Rightarrow> calendar_props \<Rightarrow> int list \<Rightarrow> int" where
  "displayValue now p model =
     (case cal_display p of
        Some d \<Rightarrow> d
      | None \<Rightarrow>
          (case model of
             d # _ \<Rightarrow> d
           | [] \<Rightarrow>
               (case cal_min p of
                  Some d \<Rightarrow> d
                | None \<Rightarrow> (case allowedDates p of Dates (d # _) \<Rightarrow> d | _ \<Rightarrow> now))))"

definition calendar_year :: "zone \<Rightarrow> int \<Rightarrow> calendar_props \<Rightarrow> int list \<Rightarrow> int" where
  "calendar_year z now p model =
     (let value = (case cal_year p of Some y \<Rightarrow> y | None \<Rightarrow> getYear z (displayValue now p model))
      in startOfYear z (setYear z now value))"

definition calendar_month :: "zone \<Rightarrow> int \<Rightarrow> calendar_props \<Rightarrow> int list \<Rightarrow> int" where
  "calendar_month z now p model =
     (let value = (case cal_month p of Some m \<Rightarrow> m | None \<Rightarrow> getMonth z (displayValue now p model));
          date2 = setYear z (startOfMonth z now) (getYear z (calendar_year z now p model))
      in setMonth z date2 value)"

text \<open>Weeks are appended behind the last day until there are 42 days; a part of a week is dropped.\<close>

definition weeksInMonth :: "zone \<Rightarrow> string \<Rightarrow> int \<Rightarrow> calendar_props \<Rightarrow> int list \<Rightarrow> int list list" where
  "weeksInMonth z locale now p model =
     (let weeks = getWeekArray z (calendar_month z now p model) locale;
          days = concat weeks
      in if length days < 42
         then fst (push_days (map (addDays z (last days)) [1..42 - int (length days)]) (weeks, []))
         else weeks)"

definition isDisabled :: "zone \<Rightarrow> calendar_props \<Rightarrow> int \<Rightarrow> bool" where
  "isDisabled z p value =
     (if cal_disabled p then True
      else if (case cal_min p of Some d \<Rightarrow> isAfter d value | None \<Rightarrow> False) then True
      else if (case cal_max p of Some d \<Rightarrow> isAfter value d | None \<Rightarrow> False) then True
      else case allowedDates p of
             Dates ds \<Rightarrow> ds \<noteq> [] \<and> \<not> list_ex (\<lambda>d. isSameDay z d value) ds
           | Date_fun f \<Rightarrow> \<not> f value
           | Any_date \<Rightarrow> False)"

record calendar_day =
  day_date :: int
  day_isoDate :: string
  day_formatted :: string
  day_year :: int
  day_month :: int
  day_isDisabled :: bool
  day_isWeekStart :: bool
  day_isWeekEnd :: bool
  day_isToday :: bool
  day_isAdjacent :: bool
  day_isHidden :: bool
  day_isStart :: bool
  day_isSelected :: bool
  day_isEnd :: bool
  day_isSame :: bool
  day_localized :: string

definition genDays ::
  "zone \<Rightarrow> (string \<Rightarrow> int \<Rightarrow> string) \<Rightarrow> int \<Rightarrow> calendar_props \<Rightarrow> int list \<Rightarrow> int list \<Rightarrow> int \<Rightarrow> calendar_day list" where
  "genDays z fmt now p model days today =
     (let mon = calendar_month z now p model;
          shown = filter (\<lambda>d. getDay z d \<in> set (weekdays p)) days
      in map (\<lambda>(index, d).
           let isAdjacent = \<not> isSameMonth z d mon
           in \<lparr>day_date = d, day_isoDate = toISO z d, day_formatted = fmt ''keyboardDate'' d,
               day_year = getYear z d, day_month = getMonth z d, day_isDisabled = isDisabled z p d,
               day_isWeekStart = (index mod 7 = 0), day_isWeekEnd = (index mod 7 = 6),
               day_isToday = isSameDay z d today, day_isAdjacent = isAdjacent,
               day_isHidden = (isAdjacent \<and> \<not> showAdjacentMonths p),
               day_isStart = isSameDay z d (startOfMonth z mon),
               day_isSelected = list_ex (isSameDay z d) model,
               day_isEnd = isSameDay z d (endOfMonth z mon), day_isSame = isSameDay z d mon,
               day_localized = fmt ''dayOfMonth'' d\<rparr>)
         (zip [0..<length shown] shown))"

definition daysInMonth ::
  "zone \<Rightarrow> (string \<Rightarrow> int \<Rightarrow> string) \<Rightarrow> string \<Rightarrow> int \<Rightarrow> calendar_props \<Rightarrow> int list \<Rightarrow> calendar_day list" where
  "daysInMonth z fmt locale now p model =
     genDays z fmt now p model (concat (weeksInMonth z locale now p model)) now"

definition weekNumbers :: "zone \<Rightarrow> string \<Rightarrow> int \<Rightarrow> calendar_props \<Rightarrow> int list \<Rightarrow> int option list" where
  "weekNumbers z locale now p model =
     map (\<lambda>week. case week of [] \<Rightarrow> None | d # _ \<Rightarrow> Some (getWeek z d)) (weeksInMonth z locale now p model)"

section \<open>The picker\<close>

record picker =
  picker_props :: calendar_props
  picker_model :: "int list"
  viewMode :: string
  picker_month :: int
  picker_year :: int
  rangeStart :: "int option"
  rangeStop :: "int option"
  isReversing :: bool
  picker_emits :: "(string \<times> int) list"

definition is_multiple :: "multiple_mode \<Rightarrow> bool" where
  "is_multiple mode = (case mode of Single \<Rightarrow> False | Multiple_max m \<Rightarrow> m \<noteq> 0 | _ \<Rightarrow> True)"

definition open_picker :: "zone \<Rightarrow> int \<Rightarrow> calendar_props \<Rightarrow> int list \<Rightarrow> picker" where
  "open_picker z now p model =
     (let internal = (case model of d # _ \<Rightarrow> d | [] \<Rightarrow> now);
          mon = (case cal_month p of Some m \<Rightarrow> m | None \<Rightarrow> getMonth z (startOfMonth z internal));
          yr = (case cal_year p of Some y \<Rightarrow> y | None \<Rightarrow> getYear z (startOfYear z (setMonth z internal mon)))
      in \<lparr>picker_props = p, picker_model = model, viewMode = ''month'', picker_month = mon, picker_year = yr,
          rangeStart = None, rangeStop = None, isReversing = False, picker_emits = []\<rparr>)"

text \<open>
  A write to the model goes through \<open>props.multiple ? v : v[0]\<close> and is read back as a list; the
  watcher of the model then compares the first dates, the current time standing for none.
\<close>

definition write_dates :: "int \<Rightarrow> int list \<Rightarrow> picker \<Rightarrow> picker" where
  "write_dates now v p =
     (let model' = (if is_multiple (cal_multiple (picker_props p)) then v else take 1 v);
          first = (\<lambda>m. case m of d # _ \<Rightarrow> d | [] \<Rightarrow> now)
      in p\<lparr>picker_model := model', isReversing := isBefore (first model') (first (picker_model p))\<rparr>)"

definition set_view :: "string \<Rightarrow> picker \<Rightarrow> picker" where
  "set_view v p =
     (if v \<noteq> ''month'' then p\<lparr>viewMode := v, rangeStart := None, rangeStop := None\<rparr> else p\<lparr>viewMode := v\<rparr>)"

definition emit_picker :: "string \<Rightarrow> int \<Rightarrow> picker \<Rightarrow> picker" where
  "emit_picker e v p = p\<lparr>picker_emits := picker_emits p @ [(e, v)]\<rparr>"

definition onClickDate :: "picker \<Rightarrow> picker" where
  "onClickDate p = set_view ''month'' p"

definition onClickMonth :: "picker \<Rightarrow> picker" where
  "onClickMonth p = set_view (if viewMode p = ''months'' then ''month'' else ''months'') p"

definition onClickYear :: "picker \<Rightarrow> picker" where
  "onClickYear p = set_view (if viewMode p = ''year'' then ''month'' else ''year'') p"

definition onUpdateMonth :: "int \<Rightarrow> picker \<Rightarrow> picker" where
  "onUpdateMonth value p =
     emit_picker ''update:month'' value (if viewMode p = ''months'' then onClickMonth p else p)"

definition onUpdateYear :: "int \<Rightarrow> picker \<Rightarrow> picker" where
  "onUpdateYear value p =
     emit_picker ''update:year'' value (if viewMode p = ''year'' then onClickYear p else p)"

definition onClickNext :: "picker \<Rightarrow> picker" where
  "onClickNext p =
     (let p' = (if picker_month p < 11 then p\<lparr>picker_month := picker_month p + 1\<rparr>
                else onUpdateYear (picker_year p + 1) (p\<lparr>picker_year := picker_year p + 1, picker_month := 0\<rparr>))
      in onUpdateMonth (picker_month p') p')"

definition onClickPrev :: "picker \<Rightarrow> picker" where
  "onClickPrev p =
     (let p' = (if picker_month p > 0 then p\<lparr>picker_month := picker_month p - 1\<rparr>
                else onUpdateYear (picker_year p - 1) (p\<lparr>picker_year := picker_year p - 1, picker_month := 11\<rparr>))
      in onUpdateMonth (picker_month p') p')"

text \<open>The lists of months and years to choose from, and a click on one of their buttons.\<close>

definition month_buttons :: "zone \<Rightarrow> (string \<Rightarrow> int \<Rightarrow> string) \<Rightarrow> int \<Rightarrow> (string \<times> int) list" where
  "month_buttons z fmt now =
     map (\<lambda>i. (fmt ''monthShort'' ((getNextMonth z ^^ nat i) (startOfYear z now)), i)) (createRange 12 0)"

definition click_month :: "int \<Rightarrow> picker \<Rightarrow> picker" where
  "click_month i p = onUpdateMonth i (p\<lparr>picker_month := i\<rparr>)"

definition year_range :: "zone \<Rightarrow> int \<Rightarrow> calendar_props \<Rightarrow> int list" where
  "year_range z now p =
     (let y = getYear z now;
          mini = (case cal_min p of Some d \<Rightarrow> getYear z d | None \<Rightarrow> y - 100);
          maxi = (case cal_max p of Some d \<Rightarrow> getYear z d | None \<Rightarrow> y + 52)
      in createRange (nat (maxi - mini + 1)) mini)"

definition click_year :: "int \<Rightarrow> picker \<Rightarrow> picker" where
  "click_year y p = onUpdateYear y (p\<lparr>picker_year := y\<rparr>)"

text \<open>The controls that are switched off: all of them, or the ones named.\<close>

definition disabled_controls :: "zone \<Rightarrow> int \<Rightarrow> picker \<Rightarrow> string list option" where
  "disabled_controls z now p =
     (if cal_disabled (picker_props p) then None
      else if viewMode p \<noteq> ''month'' then Some [''prev'', ''next'']
      else
        let d = setMonth z (setYear z now (picker_year p)) (picker_month p)
        in Some
          ((case cal_min (picker_props p) of
              Some lo \<Rightarrow> if isAfter lo (addDays z (startOfMonth z d) (-1)) then [''prev''] else []
            | None \<Rightarrow> []) @
           (case cal_max (picker_props p) of
              Some hi \<Rightarrow> if isAfter (addDays z (endOfMonth z d) 1) hi then [''next''] else []
            | None \<Rightarrow> [])))"

definition control_disabled :: "string \<Rightarrow> string list option \<Rightarrow> bool" where
  "control_disabled name d = (case d of None \<Rightarrow> True | Some ns \<Rightarrow> name \<in> set ns)"

section \<open>Clicks on days\<close>

definition atMax :: "picker \<Rightarrow> bool" where
  "atMax p =
     (case cal_multiple (picker_props p) of
        Multiple_max m \<Rightarrow> int (length (picker_model p)) \<ge> m
      | _ \<Rightarrow> False)"

definition dates_between :: "zone \<Rightarrow> int \<Rightarrow> int \<Rightarrow> int list" where
  "dates_between z start stop =
     (let diff = getDiff z stop start ''days''
      in start # map (addDays z start) [1..diff - 1] @ [stop])"

definition onRangeClick :: "zone \<Rightarrow> int \<Rightarrow> int \<Rightarrow> picker \<Rightarrow> picker" where
  "onRangeClick z now value p =
     (let v = startOfDay z value in
      case (rangeStart p, rangeStop p) of
        (None, _) \<Rightarrow> write_dates now [v] (p\<lparr>rangeStart := Some v\<rparr>)
      | (Some s, None) \<Rightarrow>
          if isSameDay z value s then write_dates now [] (p\<lparr>rangeStart := None\<rparr>)
          else
            let (start, stop) = (if isBefore value s then (v, s) else (s, v))
            in write_dates now (dates_between z start stop) (p\<lparr>rangeStart := Some start, rangeStop := Some stop\<rparr>)
      | (Some s, Some _) \<Rightarrow>
          write_dates now [value] (p\<lparr>rangeStart := Some value, rangeStop := None\<rparr>))"

fun remove_day :: "zone \<Rightarrow> int \<Rightarrow> int list \<Rightarrow> int list option" where
  "remove_day z value [] = None"
| "remove_day z value (d # ds) =
     (if isSameDay z d value then Some ds else map_option ((#) d) (remove_day z value ds))"

definition onMultipleClick :: "zone \<Rightarrow> int \<Rightarrow> int \<Rightarrow> picker \<Rightarrow> picker" where
  "onMultipleClick z now value p =
     write_dates now
       (case remove_day z value (picker_model p) of
          None \<Rightarrow> picker_model p @ [value]
        | Some ds \<Rightarrow> ds) p"

definition onClick :: "zone \<Rightarrow> int \<Rightarrow> int \<Rightarrow> picker \<Rightarrow> picker" where
  "onClick z now value p =
     (let mode = cal_multiple (picker_props p) in
      if mode = Range_mode then onRangeClick z now value p
      else if is_multiple mode then onMultipleClick z now value p
      else write_dates now [value] p)"

text \<open>The calendar below the picker has the picker's month and year, and the days as they are shown.\<close>

definition month_view_props :: "picker \<Rightarrow> calendar_props" where
  "month_view_props p = (picker_props p)\<lparr>cal_month := Some (picker_month p), cal_year := Some (picker_year p)\<rparr>"

definition shown_days ::
  "zone \<Rightarrow> (string \<Rightarrow> int \<Rightarrow> string) \<Rightarrow> string \<Rightarrow> int \<Rightarrow> picker \<Rightarrow> calendar_day list" where
  "shown_days z fmt locale now p =
     map (\<lambda>d. if atMax p \<and> \<not> day_isSelected d then d\<lparr>day_isDisabled := True\<rparr> else d)
       (daysInMonth z fmt locale now (month_view_props p) (picker_model p))"

section \<open>Six weeks\<close>

lemma civil_first: "0 \<le> m \<Longrightarrow> m \<le> 11 \<Longrightarrow> civil (make_day y m 1) = (y, m, 1)"
  by (rule civil_make_day) (auto simp: valid_civil_def month_len_def month_start_def, presburger)

lemma set_month_first:
  assumes "zone_midnights z" "civil n = (y, m, 1)"
  shows "set_month z (midnight z n) m' = midnight z (make_day y m' 1)"
    and "set_full_year z (midnight z n) y' = midnight z (make_day y' m 1)"
  using assms
  by (simp_all add: set_month_def set_full_year_def local_midnight Let_def) (simp_all add: midnight_def)

lemma calendar_month_value:
  assumes z: "zone_midnights z" and now: "make_full_year (getFullYear z now) = getFullYear z now"
    and y: "make_full_year y = y" "getFullYear z (setYear z now y) = y" and m: "0 \<le> m" "m \<le> 11"
    and p: "cal_year p = Some y" "cal_month p = Some m"
  shows "calendar_month z now p model = midnight z (make_day y m 1)"
proof -
  obtain yn mn dn where n: "civil (day_of (local_time z now)) = (yn, mn, dn)" by (metis surj_pair)
  then have mn: "0 \<le> mn" "mn \<le> 11" using civil_valid [OF n] by (auto simp: valid_civil_def)
  have start: "startOfMonth z now = midnight z (make_day yn mn 1)"
    using n now by (simp add: startOfMonth_def new_date_midnight getFullYear_def getMonth_def)
  have "calendar_year z now p model = midnight z (make_day y 0 1)"
    using p(1) y by (simp add: calendar_year_def startOfYear_def new_date_midnight)
  then have "getYear z (calendar_year z now p model) = y"
    by (simp add: getYear_def get_midnight(1) [OF z civil_first])
  with start p(2) show ?thesis
    by (simp add: calendar_month_def setYear_def setMonth_def
        set_month_first(2) [OF z civil_first [OF mn]] set_month_first(1) [OF z civil_first [OF mn]] Let_def)
qed

lemma length_full_weeks: "\<forall>w \<in> set ws. length w = 7 \<Longrightarrow> length (concat ws) = 7 * length ws"
  by (induction ws) auto

lemma addDays_midnight: "zone_midnights z \<Longrightarrow> addDays z (midnight z n) = (\<lambda>i. midnight z (n + i))"
  by (rule ext) (simp add: addDays_def set_date_midnight)

lemma calendar_weeks_lemma:
  assumes z: "zone_midnights z" and f: "first_day_of locale = Some f"
    and now: "make_full_year (getFullYear z now) = getFullYear z now"
    and y: "make_full_year y = y" "getFullYear z (setYear z now y) = y" and m: "0 \<le> m" "m \<le> 11"
    and p: "picker_year p = y" "picker_month p = m"
  shows "\<exists>a. concat (weeksInMonth z locale now (month_view_props p) model) = map (midnight z) [a..a + 41] \<and>
    (\<forall>w \<in> set (weeksInMonth z locale now (month_view_props p) model). length w = 7) \<and>
    length (weeksInMonth z locale now (month_view_props p) model) = 6 \<and>
    week_day a = f \<and> a \<le> make_day y m 1 \<and> make_day y m 1 < a + 7 \<and>
    make_day y m (month_len y m) \<le> a + 41"
proof -
  let ?p = "month_view_props p" and ?n0 = "make_day y m 1"
  have t: "calendar_month z now ?p model = midnight z ?n0"
    using p by (intro calendar_month_value [OF z now y m]) (simp_all add: month_view_props_def)
  have c: "civil (day_of (local_time z (midnight z ?n0))) = (y, m, 1)"
    by (simp add: local_midnight [OF z] civil_first m)
  define weeks where "weeks = getWeekArray z (midnight z ?n0) locale"
  obtain a b where ab: "concat weeks = map (midnight z) [a..b]" "\<forall>w \<in> set weeks. length w = 7"
    "week_day a = f" "a \<le> ?n0" "?n0 < a + 7" "make_day y m (month_len y m) \<le> b"
    "b < make_day y m (month_len y m) + 7"
    using month_grid_lemma [OF z f c y(1)] unfolding weeks_def by blast
  have n1: "make_day y m (month_len y m) = ?n0 + month_len y m - 1"
    using make_day_add [of y m 1 "month_len y m - 1"] by simp
  have len: "1 \<le> month_len y m" "month_len y m \<le> 31"
    using civil_valid [OF c] month_len_le [OF m] by (auto simp: valid_civil_def)
  have L: "length (concat weeks) = nat (b - a + 1)" by (simp add: ab(1))
  then have seven: "7 * length weeks = nat (b - a + 1)" using length_full_weeks [OF ab(2)] by simp
  have "b - a + 1 \<le> 43" using ab(5,7) len(2) n1 by linarith
  with seven have "length weeks \<le> 6" by linarith
  with seven have b42: "b - a + 1 \<le> 42" by linarith
  define extra where "extra = map (addDays z (last (concat weeks))) [1..42 - int (length (concat weeks))]"
  have ne: "a \<le> b" using ab len n1 by linarith
  have "last [a..b] = b" using ne by (simp add: upto_rec2)
  then have last: "last (concat weeks) = midnight z b" using ne by (simp add: ab(1) last_map)
  have ints: "int (length (concat weeks)) = b - a + 1" using L ne by simp
  have extra: "extra = map (midnight z) [b + 1..a + 41]"
    unfolding extra_def last ints
    using map_midnight_upto [of z b 1 "42 - (b - a + 1)"]
    by (simp add: addDays_midnight [OF z] algebra_simps)
  obtain ws cur where pd: "push_days extra (weeks, []) = (ws, cur)" by (metis surj_pair)
  from push_days_weeks [OF pd _ ab(2)] have ws: "concat ws @ cur = concat weeks @ extra"
    "\<forall>w \<in> set ws. length w = 7" "length cur = length extra mod 7" by simp_all
  have "length extra = 7 * (6 - length weeks)"
    using seven b42 ne by (simp add: extra)
  then have "cur = []" using ws(3) by simp
  then have full: "concat ws = map (midnight z) [a..a + 41]"
    using ws(1) ab(1) extra upto_append [of a b "a + 41"] b42 ne by (simp flip: map_append)
  have w: "weeksInMonth z locale now ?p model = (if length (concat weeks) < 42 then ws else weeks)"
    using pd by (simp add: weeksInMonth_def t Let_def extra_def weeks_def)
  have "weeks = ws" if "\<not> length (concat weeks) < 42"
    using that pd by (simp add: extra_def)
  with w have w': "weeksInMonth z locale now ?p model = ws" by simp
  have "length ws = 6" using length_full_weeks [OF ws(2)] full by simp
  moreover have "make_day y m (month_len y m) \<le> a + 41" using ab(6) b42 by simp
  ultimately show ?thesis using w' full ws(2) ab(3-5) by auto
qed

text \<open>
  C27. Whatever its month, the month view of the picker shows exactly six
  rows of seven consecutive days, as local midnights; the first day is the locale's first day of
  the week, at most six days before the first of the month, and every day of the month is among
  them. The zone needs a midnight on every day, and the current time of the clock in the year shown.
\<close>

theorem calendar_shows_six_weeks:
  assumes z: "zone_midnights z" and f: "first_day_of locale = Some f"
    and now: "make_full_year (getFullYear z now) = getFullYear z now"
    and y: "make_full_year y = y" "getFullYear z (setYear z now y) = y" and m: "0 \<le> m" "m \<le> 11"
    and p: "picker_year p = y" "picker_month p = m"
  shows "\<exists>a. concat (weeksInMonth z locale now (month_view_props p) model) = map (midnight z) [a..a + 41] \<and>
    (\<forall>w \<in> set (weeksInMonth z locale now (month_view_props p) model). length w = 7) \<and>
    length (weeksInMonth z locale now (month_view_props p) model) = 6 \<and>
    week_day a = f \<and> a \<le> make_day y m 1 \<and> make_day y m 1 < a + 7 \<and>
    make_day y m (month_len y m) \<le> a + 41"
  by (rule calendar_weeks_lemma [OF assms])

lemma distinct_filter_single: "distinct xs \<Longrightarrow> x \<in> set xs \<Longrightarrow> filter (\<lambda>k. k = x) xs = [x]"
  by (induction xs) (auto simp: filter_empty_conv)

section \<open>Picking a day\<close>

lemma same_day_midnight:
  assumes "zone_midnights z"
  shows "isSameDay z (midnight z a) (midnight z b) \<longleftrightarrow> a = b"
proof -
  obtain y m d where a: "civil a = (y, m, d)" by (metis surj_pair)
  obtain y' m' d' where b: "civil b = (y', m', d')" by (metis surj_pair)
  have "isSameDay z (midnight z a) (midnight z b) \<longleftrightarrow> d = d' \<and> m = m' \<and> y = y'"
    by (simp add: isSameDay_def get_midnight [OF assms a] get_midnight [OF assms b])
  also have "\<dots> \<longleftrightarrow> civil a = civil b" by (simp only: a b prod.inject) blast
  also have "\<dots> \<longleftrightarrow> a = b" using make_day_civil [OF a] make_day_civil [of b y m d] a by metis
  finally show ?thesis .
qed

lemma midnight_inject: "zone_midnights z \<Longrightarrow> midnight z a = midnight z b \<longleftrightarrow> a = b"
  using local_midnight [of z a] local_midnight [of z b] by (metis day_of_make_date)

lemma weeks_ignore_model:
  "weeksInMonth z locale now (month_view_props p) model = weeksInMonth z locale now (month_view_props p) model'"
  by (simp add: weeksInMonth_def calendar_month_def calendar_year_def month_view_props_def)

lemma map_indexed:
  "(\<And>i d. g (f i d) = d) \<Longrightarrow> map g (map (\<lambda>(i, d). f i d) (zip [0..<length ds] ds)) = ds"
  by (rule nth_equalityI) simp_all

lemma shown_dates:
  "map day_date (shown_days z fmt locale now p) =
     filter (\<lambda>d. getDay z d \<in> set (weekdays (picker_props p)))
       (concat (weeksInMonth z locale now (month_view_props p) (picker_model p)))"
  "\<forall>c \<in> set (shown_days z fmt locale now p). day_isSelected c = list_ex (isSameDay z (day_date c)) (picker_model p)"
proof -
  have cut: "map day_date (map (\<lambda>d. if b \<and> \<not> day_isSelected d then d\<lparr>day_isDisabled := True\<rparr> else d) ds) =
      map day_date ds" for b and ds :: "calendar_day list"
    by (induction ds) auto
  have "map day_date (daysInMonth z fmt locale now (month_view_props p) (picker_model p)) =
      filter (\<lambda>d. getDay z d \<in> set (weekdays (month_view_props p)))
        (concat (weeksInMonth z locale now (month_view_props p) (picker_model p)))"
    unfolding daysInMonth_def genDays_def Let_def by (rule map_indexed) simp
  then show "map day_date (shown_days z fmt locale now p) =
     filter (\<lambda>d. getDay z d \<in> set (weekdays (picker_props p)))
       (concat (weeksInMonth z locale now (month_view_props p) (picker_model p)))"
    unfolding shown_days_def cut by (simp add: month_view_props_def)
  show "\<forall>c \<in> set (shown_days z fmt locale now p). day_isSelected c = list_ex (isSameDay z (day_date c)) (picker_model p)"
    unfolding shown_days_def daysInMonth_def genDays_def Let_def by (auto split: if_splits)
qed

lemma selected_dates:
  "map day_date (filter day_isSelected (shown_days z fmt locale now p)) =
   filter (\<lambda>d. list_ex (isSameDay z d) (picker_model p)) (map day_date (shown_days z fmt locale now p))"
proof -
  have "filter day_isSelected (shown_days z fmt locale now p) =
      filter (\<lambda>c. list_ex (isSameDay z (day_date c)) (picker_model p)) (shown_days z fmt locale now p)"
    using shown_dates(2) by (intro filter_cong) auto
  then show ?thesis by (simp add: filter_map comp_def)
qed

text \<open>
  In the single mode, a click on a day that the month view shows selects
  that day: read back from the days shown afterwards, the selected ones are exactly this one.
\<close>

lemma picked_day_is_shown:
  assumes z: "zone_midnights z" and f: "first_day_of locale = Some f"
    and now: "make_full_year (getFullYear z now) = getFullYear z now"
    and y: "make_full_year y = y" "getFullYear z (setYear z now y) = y" and m: "0 \<le> m" "m \<le> 11"
    and p: "picker_year p = y" "picker_month p = m" "cal_multiple (picker_props p) = Single"
    and d: "d \<in> set (map day_date (shown_days z fmt locale now p))"
  shows "map day_date (filter day_isSelected (shown_days z fmt locale now (onClick z now d p))) = [d] \<and>
    picker_model (onClick z now d p) = [d]"
proof -
  let ?q = "onClick z now d p"
  have q: "picker_model ?q = [d]" "month_view_props ?q = month_view_props p" "picker_props ?q = picker_props p"
    using p(3) by (simp_all add: onClick_def write_dates_def is_multiple_def month_view_props_def Let_def)
  let ?ws = "weeksInMonth z locale now (month_view_props p) [d]"
  obtain a where a: "concat ?ws = map (midnight z) [a..a + 41]"
    using calendar_weeks_lemma [OF z f now y m p(1,2)] by blast
  have "set (map day_date (shown_days z fmt locale now p)) =
      {d \<in> set (concat ?ws). getDay z d \<in> set (weekdays (picker_props p))}"
    unfolding shown_dates(1) weeks_ignore_model [of z "locale" now p "picker_model p" "[d]"] by auto
  with d a obtain n where n: "d = midnight z n" "n \<in> set [a..a + 41]" "getDay z d \<in> set (weekdays (picker_props p))"
    by auto
  have "list_ex (isSameDay z x) [d] \<longleftrightarrow> x = d" if "x \<in> set (map (midnight z) [a..a + 41])" for x
    using that n(1) same_day_midnight [OF z] by (auto simp: midnight_inject [OF z])
  then have "filter (\<lambda>x. list_ex (isSameDay z x) [d])
      (filter (\<lambda>x. getDay z x \<in> set (weekdays (picker_props p))) (map (midnight z) [a..a + 41])) = filter (\<lambda>x. x = d) (map (midnight z) [a..a + 41])"
    using n(3) unfolding filter_filter by (intro filter_cong) auto
  also have "\<dots> = map (midnight z) (filter (\<lambda>k. k = n) [a..a + 41])"
    by (simp add: filter_map comp_def n(1) midnight_inject [OF z])
  also have "filter (\<lambda>k. k = n) [a..a + 41] = [n]"
    using n(2) by (simp add: distinct_filter_single)
  finally have sel: "filter (\<lambda>x. list_ex (isSameDay z x) [d])
      (filter (\<lambda>x. getDay z x \<in> set (weekdays (picker_props p))) (map (midnight z) [a..a + 41])) = [d]"
    using n(1) by (simp only: list.map)
  show ?thesis unfolding selected_dates shown_dates(1) q a by (intro conjI sel refl)
qed

section \<open>Moving between months\<close>

text \<open>
  C29. The arrows of the picker move by exactly one month, across the ends of
  a year too: the month stays a month of the year, the selection stays, and an arrow undoes the
  other.
\<close>

theorem arrows_move_one_month:
  assumes "0 \<le> picker_month p" "picker_month p \<le> 11"
  shows "(let q = onClickNext p in
      0 \<le> picker_month q \<and> picker_month q \<le> 11 \<and> picker_model q = picker_model p \<and>
      12 * picker_year q + picker_month q = 12 * picker_year p + picker_month p + 1) \<and>
    (let q = onClickPrev p in
      0 \<le> picker_month q \<and> picker_month q \<le> 11 \<and> picker_model q = picker_model p \<and>
      12 * picker_year q + picker_month q = 12 * picker_year p + picker_month p - 1) \<and>
    picker_month (onClickPrev (onClickNext p)) = picker_month p \<and>
    picker_year (onClickPrev (onClickNext p)) = picker_year p \<and>
    picker_month (onClickNext (onClickPrev p)) = picker_month p \<and>
    picker_year (onClickNext (onClickPrev p)) = picker_year p"
proof -
  have upd [simp]: "picker_month (onUpdateMonth v q) = picker_month q" "picker_year (onUpdateMonth v q) = picker_year q"
    "picker_model (onUpdateMonth v q) = picker_model q" "picker_month (onUpdateYear v q) = picker_month q"
    "picker_year (onUpdateYear v q) = picker_year q" "picker_model (onUpdateYear v q) = picker_model q" for v q
    by (simp_all add: onUpdateMonth_def onUpdateYear_def emit_picker_def onClickMonth_def onClickYear_def set_view_def)
  show ?thesis using assms by (simp add: onClickNext_def onClickPrev_def Let_def)
qed

section \<open>Ranges\<close>

text \<open>A zone whose clocks are never changed.\<close>

definition fixed_zone :: "int \<Rightarrow> zone" where
  "fixed_zone offset = \<lparr>local_time = (\<lambda>t. t + offset), utc_time = (\<lambda>l. l - offset)\<rparr>"

lemma fixed_zone_midnight:
  "midnight (fixed_zone offset) n = n * 86400000 - offset" "zone_midnights (fixed_zone offset)"
  by (simp_all add: fixed_zone_def midnight_def zone_midnights_def make_date_def ms_per_day_def)

lemma startOfDay_midnight:
  assumes "zone_midnights z" "civil n = (y, m, d)" "make_full_year y = y"
  shows "startOfDay z (midnight z n) = midnight z n"
  using get_midnight [OF assms(1,2)] make_day_civil [OF assms(2)] assms(3)
  by (simp add: startOfDay_def new_date_midnight)

lemma dates_between_days:
  assumes "a < b"
  shows "dates_between (fixed_zone offset) (midnight (fixed_zone offset) a) (midnight (fixed_zone offset) b) =
    map (midnight (fixed_zone offset)) [a..b]"
proof -
  let ?z = "fixed_zone offset"
  have "getDiff ?z (midnight ?z b) (midnight ?z a) ''days'' = (86400000 * (b - a)) div 86400000"
    by (simp add: getDiff_def fixed_zone_midnight(1) algebra_simps)
  then have "getDiff ?z (midnight ?z b) (midnight ?z a) ''days'' = b - a" by simp
  then have "dates_between ?z (midnight ?z a) (midnight ?z b) =
      midnight ?z a # map (\<lambda>i. midnight ?z (a + i)) [1..b - a - 1] @ [midnight ?z b]"
    by (simp add: dates_between_def addDays_midnight [OF fixed_zone_midnight(2)])
  also have "map (\<lambda>i. midnight ?z (a + i)) [1..b - a - 1] = map (midnight ?z) [a + 1..b - 1]"
    using map_midnight_upto [of ?z a 1 "b - a - 1"] by simp
  also have "midnight ?z a # map (midnight ?z) [a + 1..b - 1] @ [midnight ?z b] = map (midnight ?z) [a..b]"
    using assms upto_rec1 [of a b] upto_rec2 [of "a + 1" b] by simp
  finally show ?thesis .
qed

text \<open>
  C28. In the range mode and a zone that does not change its clocks, a
  click on one day and then on another, in either order, selects exactly the days from the
  earlier to the later one, in order.
\<close>

theorem range_selects_days_between:
  fixes offset :: int
  assumes "cal_multiple (picker_props p) = Range_mode" and "rangeStart p = None" "rangeStop p = None"
    and "make_full_year (fst (civil a)) = fst (civil a)" "make_full_year (fst (civil b)) = fst (civil b)"
    and "a \<noteq> b"
  defines "z \<equiv> fixed_zone offset"
  shows "picker_model (onClick z now' (midnight z b) (onClick z now (midnight z a) p)) =
    map (midnight z) [min a b..max a b]"
proof -
  have z: "zone_midnights z" by (simp add: z_def fixed_zone_midnight)
  have days: "startOfDay z (midnight z n) = midnight z n" if "make_full_year (fst (civil n)) = fst (civil n)" for n
    using that startOfDay_midnight [OF z, of n] by (metis surj_pair fst_conv)
  have order: "isBefore (midnight z b) (midnight z a) \<longleftrightarrow> b < a"
    by (simp add: isBefore_def z_def fixed_zone_midnight)
  have between: "a < b \<Longrightarrow> dates_between z (midnight z a) (midnight z b) = map (midnight z) [a..b]" for a b
    unfolding z_def by (rule dates_between_days)
  show ?thesis
    using assms(1-6) between [of a b] between [of b a]
    by (simp add: onClick_def onRangeClick_def write_dates_def is_multiple_def days order same_day_midnight [OF z] Let_def
        min_def max_def not_less)
qed

section \<open>Examples\<close>

definition plain_calendar :: "multiple_mode \<Rightarrow> calendar_props" where
  "plain_calendar mode =
     \<lparr>allowedDates = Any_date, cal_disabled = False, cal_display = None, cal_month = None, cal_max = None,
      cal_min = None, showAdjacentMonths = False, cal_year = None, weekdays = [0, 1, 2, 3, 4, 5, 6],
      cal_multiple = mode\<rparr>"

text \<open>A picker at January 2030, on the first of January 2030 in Tokyo.\<close>

definition january :: "multiple_mode \<Rightarrow> picker" where
  "january mode = (open_picker tokyo 1893423600000 (plain_calendar mode) [])
     \<lparr>picker_month := 0, picker_year := 2030\<rparr>"

lemma tokyo_midnights: "zone_midnights tokyo"
  by (simp add: zone_midnights_def tokyo_def)

lemma january_facts:
  "first_day_of ''ja-JP'' = Some 0" "getFullYear tokyo 1893423600000 = 2030"
  "getFullYear tokyo (setYear tokyo 1893423600000 2030) = 2030"
  by code_simp+

lemma january_fields:
  "picker_year (january mode) = 2030" "picker_month (january mode) = 0"
  "picker_props (january mode) = plain_calendar mode" "rangeStart (january mode) = None"
  "rangeStop (january mode) = None" "picker_model (january mode) = []"
  by (simp_all add: january_def open_picker_def Let_def)

theorem calendar_shows_six_weeks_witness:
  "length (weeksInMonth tokyo ''ja-JP'' 1893423600000 (month_view_props (january Single)) []) = 6"
  using calendar_shows_six_weeks [OF tokyo_midnights january_facts(1), of 1893423600000 2030 0 "january Single" "[]"]
  by (auto simp: january_facts january_fields make_full_year_def)

theorem picked_day_is_shown_witness:
  "picker_model (onClick tokyo 1893423600000 (midnight tokyo 21915) (january Single)) = [midnight tokyo 21915]"
proof -
  have z: "first_day_of ''ja-JP'' = Some 0" "make_full_year (getFullYear tokyo 1893423600000) = getFullYear tokyo 1893423600000"
    "make_full_year 2030 = 2030" "getFullYear tokyo (setYear tokyo 1893423600000 2030) = 2030" "(0::int) \<le> 0" "(0::int) \<le> 11"
    by (simp_all add: january_facts make_full_year_def)
  obtain a where a: "concat (weeksInMonth tokyo ''ja-JP'' 1893423600000 (month_view_props (january Single)) []) =
      map (midnight tokyo) [a..a + 41]" "a \<le> make_day 2030 0 1" "make_day 2030 0 1 < a + 7"
    using calendar_weeks_lemma [OF tokyo_midnights z january_fields(1,2), where model = "[]"] by blast
  have "make_day 2030 0 1 = 21915" by code_simp
  with a have "midnight tokyo 21915 \<in> set (map (midnight tokyo) [a..a + 41])" by simp
  moreover have "getDay tokyo (midnight tokyo 21915) \<in> set [0, 1, 2, 3, 4, 5, 6]" by code_simp
  ultimately have "midnight tokyo 21915 \<in>
      set (map day_date (shown_days tokyo (\<lambda>_ _. []) ''ja-JP'' 1893423600000 (january Single)))"
    unfolding shown_dates(1) january_fields a(1) by (simp add: plain_calendar_def)
  from picked_day_is_shown [OF tokyo_midnights z january_fields(1,2) _ this] show ?thesis
    by (simp add: january_fields plain_calendar_def)
qed

theorem arrows_move_one_month_witness:
  "picker_month (onClickPrev (january Single)) = 11 \<and> picker_year (onClickPrev (january Single)) = 2029"
proof -
  let ?q = "onClickPrev (january Single)"
  have "0 \<le> picker_month ?q" "picker_month ?q \<le> 11" "12 * picker_year ?q + picker_month ?q = 24359"
    using arrows_move_one_month [of "january Single"] by (simp_all add: january_fields Let_def)
  then show ?thesis by presburger
qed

theorem range_selects_days_between_witness:
  "picker_model (onClick (fixed_zone 32400000) 0 (midnight (fixed_zone 32400000) 21917)
      (onClick (fixed_zone 32400000) 0 (midnight (fixed_zone 32400000) 21920) (january Range_mode))) =
    map (midnight (fixed_zone 32400000)) [21917..21920]"
proof -
  have "civil 21917 = (2030, 0, 3)" "civil 21920 = (2030, 0, 6)" by code_simp+
  then show ?thesis
    using range_selects_days_between [of "january Range_mode" 21920 21917 32400000 0 0]
    by (simp add: january_fields plain_calendar_def make_full_year_def)
qed

text \<open>
  Where the clocks are set forward on day 10, the days from 9 to 12 are shorter than three times
  24 hours by an hour, \<open>getDiff\<close> rounds down to two, and day 11 is missing from the range.
\<close>

definition summer_zone :: zone where
  "summer_zone =
     \<lparr>local_time = (\<lambda>t. if t < 867600000 then t else t + 3600000),
      utc_time = (\<lambda>l. if l < 867600000 then l else l - 3600000)\<rparr>"

lemma range_misses_day_at_clock_change:
  "dates_between summer_zone (midnight summer_zone 9) (midnight summer_zone 12) =
     map (midnight summer_zone) [9, 10, 12]"
  by code_simp

text \<open>
  On the 31st of January 2030, with the picker at February, the arrows are checked against March:
  the month is set on the current date, which has no 31st of February to stand on.
\<close>

lemma arrows_checked_against_next_month:
  "getMonth tokyo (setMonth tokyo (setYear tokyo (midnight tokyo 21945) 2030) 1) = 2"
  by code_simp

end
