(* ===== verification/Picker_Contract.thy ===== *)
theory Picker_Contract
  imports App_Contract VuetifyPicker
begin

text \<open>
  The date picker and the pool editor together: the day a user clicks in the month view, through
  the picker's model, the expiration time that the Vue interface sends with a new key, and the
  text with which the key is listed afterwards.
\<close>

section \<open>Two ways to print a date\<close>

lemma pad_zero: "pad k 0 = replicate k (CHR ''0'')"
proof (induction k)
  case (Suc k)
  have "digit_char 0 = CHR ''0''" by code_simp
  with Suc show ?case by (simp add: replicate_append_same)
qed simp

lemma pad_padStart: "n < 10 ^ k \<Longrightarrow> 0 < k \<Longrightarrow> pad k n = padStart (dec_nat n) k (CHR ''0'')"
proof (induction k arbitrary: n)
  case (Suc k)
  show ?case
  proof (cases "n < 10")
    case True
    then show ?thesis by (simp add: dec_nat.simps [of n] pad_zero padStart_def)
  next
    case False
    then have "n div 10 < 10 ^ k" "0 < k" using Suc.prems(1) by (cases k; simp)+
    with Suc.IH [of "n div 10"] False show ?thesis by (simp add: dec_nat.simps [of n] padStart_def)
  qed
qed simp

lemma dec_nat_length_4: "1000 \<le> n \<Longrightarrow> n < 10000 \<Longrightarrow> length (dec_nat n) = 4"
proof -
  assume n: "1000 \<le> n" "n < 10000"
  then have "\<not> n < 10" "\<not> n div 10 < 10" "\<not> n div 10 div 10 < 10" "n div 10 div 10 div 10 < 10" by linarith+
  then show ?thesis
    by (simp add: dec_nat.simps [of n] dec_nat.simps [of "n div 10"] dec_nat.simps [of "n div 10 div 10"]
        dec_nat.simps [of "n div 10 div 10 div 10"] del: div_mult2_eq)
qed

lemma toISO_midnight:
  assumes "zone_midnights z" "civil n = (y, m, d)" "1000 \<le> y" "y \<le> 9999"
  shows "toISO z (midnight z n) = iso_date_string n"
proof -
  have r: "0 \<le> m" "m \<le> 11" "1 \<le> d" "d \<le> 31" using civil_day_range [OF assms(2)] by auto
  have "length (dec_nat (nat y)) = 4" using assms(3,4) by (intro dec_nat_length_4) linarith+
  then have "pad 4 (nat y) = dec_int y"
    using pad_padStart [of "nat y" 4] assms(3,4) by (simp add: padStart_def dec_int_nonneg del: pad.simps)
  moreover have "pad 2 (nat (m + 1)) = padStart (dec_int (m + 1)) 2 (CHR ''0'')"
    "pad 2 (nat d) = padStart (dec_int d) 2 (CHR ''0'')"
    using r pad_padStart [of "nat (m + 1)" 2] pad_padStart [of "nat d" 2]
    by (simp_all add: dec_int_nonneg del: pad.simps)
  ultimately show ?thesis
    using assms get_midnight [OF assms(1,2)]
    by (simp add: toISO_def iso_date_string_def iso_year_def del: pad.simps)
qed

section \<open>From a click to the key\<close>

text \<open>\<open>getTimezoneOffset\<close>: minutes from local time to UTC.\<close>

definition timezone_offset :: "zone \<Rightarrow> int \<Rightarrow> int" where
  "timezone_offset z t = (t - local_time z t) div 60000"

lemma shown_iso_dates:
  "c \<in> set (shown_days z fmt locale now p) \<Longrightarrow> day_isoDate c = toISO z (day_date c)"
  unfolding shown_days_def daysInMonth_def genDays_def Let_def by (auto split: if_splits)

lemma shown_midnights:
  assumes "zone_midnights z" "first_day_of locale = Some f"
    and "make_full_year (getFullYear z now) = getFullYear z now"
    and "make_full_year y = y" "getFullYear z (setYear z now y) = y" "0 \<le> m" "m \<le> 11"
    and "picker_year p = y" "picker_month p = m" and "c \<in> set (shown_days z fmt locale now p)"
  shows "\<exists>n. day_date c = midnight z n"
proof -
  obtain a where a: "concat (weeksInMonth z locale now (month_view_props p) (picker_model p)) =
      map (midnight z) [a..a + 41]"
    using calendar_weeks_lemma [OF assms(1-9)] by blast
  have "day_date c \<in> set (map day_date (shown_days z fmt locale now p))" using assms(10) by simp
  then show ?thesis unfolding shown_dates(1) a by auto
qed

text \<open>
  C26. The day a user clicks in the date picker is the day on which
  the key expires: from the cell clicked, the picker's model holds one date, the expiration time
  sent for it is midnight UTC of the local date of the cell, and the key is listed with the ISO
  date of the cell. The zone has a midnight on every day, a whole number of minutes from UTC; the
  year has four digits, and the day is not that of the epoch.
\<close>

theorem picked_day_is_the_expiration:
  assumes z: "zone_midnights z" and f: "first_day_of locale = Some f"
    and now: "make_full_year (getFullYear z now) = getFullYear z now"
    and y: "make_full_year y = y" "getFullYear z (setYear z now y) = y" and m: "0 \<le> m" "m \<le> 11"
    and p: "picker_year p = y" "picker_month p = m" "cal_multiple (picker_props p) = Single"
    and c: "c \<in> set (shown_days z fmt locale now p)"
    and offset: "60000 dvd day_date c - local_time z (day_date c)"
    and year: "1000 \<le> day_year c" "day_year c \<le> 9999" and epoch: "day_of (local_time z (day_date c)) \<noteq> 0"
  shows "\<exists>t. picker_model (onClick z now (day_date c) p) = [t] \<and>
    secret_expiration (timezone_offset z) (Some t) = JNum (day_of (local_time z (day_date c)) * 86400) \<and>
    App.format_time_z (JNum (day_of (local_time z (day_date c)) * 86400)) = Inr (JStr (day_isoDate c))"
proof -
  obtain n where n: "day_date c = midnight z n" using shown_midnights [OF z f now y m p(1,2) c] by blast
  obtain yn mn dn where cn: "civil n = (yn, mn, dn)" by (metis surj_pair)
  have "day_year c = getYear z (day_date c)"
    using c unfolding shown_days_def daysInMonth_def genDays_def Let_def by (auto split: if_splits)
  then have yn: "1000 \<le> yn" "yn \<le> 9999" using year n get_midnight(1) [OF z cn] by (simp_all add: getYear_def)
  have day: "day_of (local_time z (day_date c)) = n" by (simp add: n local_midnight [OF z])
  have md: "make_day yn mn dn = n" by (rule make_day_civil [OF cn])
  have model: "picker_model (onClick z now (day_date c) p) = [day_date c]"
    using p(3) by (simp add: onClick_def write_dates_def is_multiple_def Let_def)
  have "day_date c = make_date (make_day yn mn dn) 0 + timezone_offset z (day_date c) * 60000"
    using offset by (simp add: timezone_offset_def md n local_midnight [OF z])
  then have "secret_expiration (timezone_offset z) (Some (day_date c)) = JNum (make_day yn mn dn * 86400) \<and>
      App.format_time_z (JNum (make_day yn mn dn * 86400)) = Inr (JStr (iso_date_string (make_day yn mn dn)))"
    using epoch yn by (intro expiration_round_trip civil_valid [OF cn]) (simp_all add: day md)
  moreover have "day_isoDate c = iso_date_string n"
    using shown_iso_dates [OF c] toISO_midnight [OF z cn yn] n by simp
  ultimately show ?thesis by (simp add: model day md)
qed

theorem picked_day_is_the_expiration_witness:
  "\<exists>c t. c \<in> set (shown_days tokyo (\<lambda>_ _. []) ''ja-JP'' 1893423600000 (january Single)) \<and>
     picker_model (onClick tokyo 1893423600000 (day_date c) (january Single)) = [t] \<and>
     secret_expiration (timezone_offset tokyo) (Some t) = JNum 1893456000"
proof -
  have h: "first_day_of ''ja-JP'' = Some 0" "make_full_year (getFullYear tokyo 1893423600000) = getFullYear tokyo 1893423600000"
    "make_full_year 2030 = 2030" "getFullYear tokyo (setYear tokyo 1893423600000 2030) = 2030" "(0::int) \<le> 0" "(0::int) \<le> 11"
    by (simp_all add: january_facts make_full_year_def)
  let ?days = "shown_days tokyo (\<lambda>_ _. []) ''ja-JP'' 1893423600000 (january Single)"
  obtain a where a: "concat (weeksInMonth tokyo ''ja-JP'' 1893423600000 (month_view_props (january Single)) []) =
      map (midnight tokyo) [a..a + 41]" "a \<le> make_day 2030 0 1" "make_day 2030 0 1 < a + 7"
    using calendar_weeks_lemma [OF tokyo_midnights h january_fields(1,2), where model = "[]"] by blast
  have d: "make_day 2030 0 1 = 21915" "day_of (local_time tokyo (midnight tokyo 21915)) = 21915"
    "getYear tokyo (midnight tokyo 21915) = 2030" "midnight tokyo 21915 - local_time tokyo (midnight tokyo 21915) = -32400000"
    by code_simp+
  with a have "midnight tokyo 21915 \<in> set (map (midnight tokyo) [a..a + 41])" by simp
  moreover have "getDay tokyo (midnight tokyo 21915) \<in> set [0, 1, 2, 3, 4, 5, 6]" by code_simp
  ultimately have "midnight tokyo 21915 \<in> set (map day_date ?days)"
    unfolding shown_dates(1) january_fields a(1) by (simp add: plain_calendar_def)
  then obtain c where c: "c \<in> set ?days" "day_date c = midnight tokyo 21915" by auto
  have "day_year c = getYear tokyo (day_date c)"
    using c(1) unfolding shown_days_def daysInMonth_def genDays_def Let_def by (auto split: if_splits)
  then have "day_year c = 2030" using c(2) d(3) by simp
  then have "\<exists>t. picker_model (onClick tokyo 1893423600000 (day_date c) (january Single)) = [t] \<and>
    secret_expiration (timezone_offset tokyo) (Some t) = JNum (day_of (local_time tokyo (day_date c)) * 86400) \<and>
    App.format_time_z (JNum (day_of (local_time tokyo (day_date c)) * 86400)) = Inr (JStr (day_isoDate c))"
    by (intro picked_day_is_the_expiration [OF tokyo_midnights h january_fields(1,2) _ c(1)])
      (simp_all add: january_fields plain_calendar_def c(2) d)
  then show ?thesis using c d(2) by auto
qed

end
