(* ===== verification/VuetifyModel.thy ===== *)
theory VuetifyModel
  imports VuetifyHelpers
begin

text \<open>
  Vuetify's two-way binding of a component's prop (\<^verbatim>\<open>src/v2/lens3/ui/assets/index.js\<close>,
  \<open>useProxiedModel\<close>): a component reads its model through \<open>transformIn\<close> from the prop when the
  parent controls it (it passes the prop and its update handler), and from a value of its own
  otherwise; a write goes through \<open>transformOut\<close>, is stored, and is announced to the parent. The
  test with which a write is skipped compares object identities; it is the argument \<open>same\<close>,
  which holds of the current outer value and the written one only if that value already reads as
  the written one.

  The locale states what a user of a model relies on: the transformations round-trip on the
  values it writes. Then a component reads back what it wrote, with a parent that stores what is
  announced or with none. The nested items and the groups interpret it.
\<close>

record proxied =
  vnode_props :: "string list"
  prop_value :: jsval
  internal :: jsval

definition isControlled :: "string \<Rightarrow> proxied \<Rightarrow> bool" where
  "isControlled prp p =
     (let kebabProp = toKebabCase prp; names = set (vnode_props p) in
      if kebabProp \<noteq> prp
      then (prp \<in> names \<or> kebabProp \<in> names) \<and>
           (''onUpdate:'' @ prp \<in> names \<or> ''onUpdate:'' @ kebabProp \<in> names)
      else prp \<in> names \<and> ''onUpdate:'' @ prp \<in> names)"

definition useProxiedModel :: "string list \<Rightarrow> jsval \<Rightarrow> jsval \<Rightarrow> proxied" where
  "useProxiedModel names value defaultValue =
     \<lparr>vnode_props = names, prop_value = value,
      internal = (if value \<noteq> JUndef then value else defaultValue)\<rparr>"

definition outer_value :: "string \<Rightarrow> proxied \<Rightarrow> jsval" where
  "outer_value prp p = (if isControlled prp p then prop_value p else internal p)"

definition model_get :: "(jsval \<Rightarrow> 'i) \<Rightarrow> string \<Rightarrow> proxied \<Rightarrow> 'i" where
  "model_get transformIn prp p = transformIn (outer_value prp p)"

text \<open>The model after a write, and the value announced by \<open>update:\<close>, if any.\<close>

definition model_set ::
  "('i \<Rightarrow> jsval) \<Rightarrow> (jsval \<Rightarrow> 'i \<Rightarrow> bool) \<Rightarrow> string \<Rightarrow> 'i \<Rightarrow> proxied \<Rightarrow> proxied \<times> jsval option" where
  "model_set transformOut same prp internalValue p =
     (let newValue = transformOut internalValue
      in if same (outer_value prp p) internalValue then (p, None)
         else (p\<lparr>internal := newValue\<rparr>, Some newValue))"

text \<open>The parent renders the component with another value of the prop; an uncontrolled model follows.\<close>

definition prop_changed :: "string \<Rightarrow> jsval \<Rightarrow> proxied \<Rightarrow> proxied" where
  "prop_changed prp val p =
     (if isControlled prp p then p\<lparr>prop_value := val\<rparr>
      else if val \<noteq> prop_value p then p\<lparr>prop_value := val, internal := val\<rparr> else p)"

text \<open>A parent that binds the prop with \<open>v-model\<close> stores what is announced.\<close>

definition write_back :: "string \<Rightarrow> proxied \<times> jsval option \<Rightarrow> proxied" where
  "write_back prp r =
     (case snd r of
        Some v \<Rightarrow> if isControlled prp (fst r) then prop_changed prp v (fst r) else fst r
      | None \<Rightarrow> fst r)"

lemma isControlled_update [simp]:
  "isControlled prp (p\<lparr>internal := v\<rparr>) = isControlled prp p"
  "isControlled prp (p\<lparr>prop_value := w\<rparr>) = isControlled prp p"
  "isControlled prp (p\<lparr>prop_value := w, internal := v\<rparr>) = isControlled prp p"
  by (simp_all add: isControlled_def)

locale proxied_model =
  fixes tin :: "jsval \<Rightarrow> 'i" and tout :: "'i \<Rightarrow> jsval" and same :: "jsval \<Rightarrow> 'i \<Rightarrow> bool"
    and valid :: "'i \<Rightarrow> bool"
  assumes round_trip: "valid v \<Longrightarrow> tin (tout v) = v"
    and same_value: "valid v \<Longrightarrow> same w v \<Longrightarrow> tin w = v"
begin

lemma read_after_write:
  "valid v \<Longrightarrow> model_get tin prp (write_back prp (model_set tout same prp v p)) = v"
  by (auto simp: model_get_def model_set_def outer_value_def write_back_def prop_changed_def Let_def
      round_trip same_value)

lemma uncontrolled_read_after_write:
  "valid v \<Longrightarrow> \<not> isControlled prp p \<Longrightarrow> model_get tin prp (fst (model_set tout same prp v p)) = v"
  by (auto simp: model_get_def model_set_def outer_value_def Let_def round_trip same_value)

lemma controlled_write_waits:
  "isControlled prp p \<Longrightarrow> model_get tin prp (fst (model_set tout same prp v p)) = model_get tin prp p"
  by (simp add: model_get_def model_set_def outer_value_def Let_def)

end

end
