(* ===== verification/VuetifyNested.thy ===== *)
theory VuetifyNested
  imports VuetifyModel "HOL-Library.AList"
begin

text \<open>
  Vuetify's nested items (\<^verbatim>\<open>src/v2/lens3/ui/assets/index.js\<close>, lines 16783 to 17205), which the
  lists behind the selects of the interface use: which groups are open and which items are
  selected in a tree that the items build by registering. A JavaScript \<open>Map\<close> is an association
  list in insertion order (\<open>AList.update\<close> writes as \<open>set\<close> does), a \<open>Set\<close> a list without
  duplicates. Ids are values compared by \<open>===\<close>; \<open>truthy\<close> matters where the code tests them. A
  strategy object given by the user is code outside; the strategies of the library are modelled.

  The open groups and the selection are proxied models. The selection is stored as the list that
  the strategy's \<open>out\<close> gives and is rebuilt by its \<open>in\<close> at every read, over the tree as it is
  then. The \<open>Set\<close> of the open groups is computed once per change of its model and is changed in
  place when an item unregisters: the field \<open>opened\<close> is that \<open>Set\<close>.

  The loops up to the root and down to the leaves end only when the registered tree has no
  cycle; they are partial functions, and the lemmas show that they return. The main result is
  about the tri-state selection: in a well-formed tree, selecting or clearing an item changes
  exactly the leaves below it, and every group shows the state that its children determine.
\<close>

section \<open>Strategies for opening\<close>

type_synonym parents = "(jsval \<times> jsval) list"
type_synonym children = "(jsval \<times> jsval list) list"

datatype check = On | Off | Indeterminate

type_synonym selected = "(jsval \<times> check) list"

definition set_add :: "'a \<Rightarrow> 'a list \<Rightarrow> 'a list" where
  "set_add x xs = (if x \<in> set xs then xs else xs @ [x])"

definition set_delete :: "'a \<Rightarrow> 'a list \<Rightarrow> 'a list" where
  "set_delete x xs = filter (\<lambda>y. y \<noteq> x) xs"

text \<open>\<open>while (parent != null) { newOpened.add(parent); parent = parents.get(parent) }\<close>\<close>

partial_function (option) add_ancestors :: "parents \<Rightarrow> jsval option \<Rightarrow> jsval list \<Rightarrow> jsval list option" where
  "add_ancestors ps parent opened =
     (case parent of
        None \<Rightarrow> Some opened
      | Some p \<Rightarrow> add_ancestors ps (map_of ps p) (set_add p opened))"

definition singleOpenStrategy_open ::
  "jsval \<Rightarrow> bool \<Rightarrow> jsval list \<Rightarrow> parents \<Rightarrow> jsval list option" where
  "singleOpenStrategy_open i value opened ps =
     (if value then add_ancestors ps (map_of ps i) [i] else Some (set_delete i opened))"

partial_function (option) add_ancestors_until ::
  "jsval \<Rightarrow> parents \<Rightarrow> jsval option \<Rightarrow> jsval list \<Rightarrow> jsval list option" where
  "add_ancestors_until i ps parent opened =
     (case parent of
        None \<Rightarrow> Some opened
      | Some p \<Rightarrow> if p = i then Some opened
                 else add_ancestors_until i ps (map_of ps p) (set_add p opened))"

definition multipleOpenStrategy_open ::
  "jsval \<Rightarrow> bool \<Rightarrow> jsval list \<Rightarrow> parents \<Rightarrow> jsval list option" where
  "multipleOpenStrategy_open i value opened ps =
     (if value then add_ancestors_until i ps (map_of ps i) (set_add i opened)
      else Some (set_delete i opened))"

definition listOpenStrategy_select ::
  "jsval \<Rightarrow> bool \<Rightarrow> jsval list \<Rightarrow> parents \<Rightarrow> jsval list option" where
  "listOpenStrategy_select i value opened ps =
     (if \<not> value then Some opened else add_ancestors ps (map_of ps i) [])"

section \<open>Strategies for selecting\<close>

definition on_keys :: "selected \<Rightarrow> jsval list" where
  "on_keys selected = map fst (filter (\<lambda>p. snd p = On) selected)"

definition check_of :: "bool \<Rightarrow> check" where
  "check_of value = (if value then On else Off)"

definition independent_select :: "bool \<Rightarrow> jsval \<Rightarrow> bool \<Rightarrow> selected \<Rightarrow> selected" where
  "independent_select mandatory i value selected =
     (if mandatory \<and> \<not> value \<and> on_keys selected = [i] then selected
      else AList.update i (check_of value) selected)"

fun independent_in :: "bool \<Rightarrow> jsval list \<Rightarrow> selected \<Rightarrow> selected" where
  "independent_in mandatory [] sel = sel"
| "independent_in mandatory (i # ids) sel =
     independent_in mandatory ids (independent_select mandatory i True sel)"

definition independent_out :: "selected \<Rightarrow> jsval list" where
  "independent_out v = on_keys v"

definition single_select :: "bool \<Rightarrow> jsval \<Rightarrow> bool \<Rightarrow> selected \<Rightarrow> selected" where
  "single_select mandatory i value selected =
     (let singleSelected = (case map_of selected i of None \<Rightarrow> [] | Some c \<Rightarrow> [(i, c)])
      in independent_select mandatory i value singleSelected)"

definition single_in :: "bool \<Rightarrow> jsval list \<Rightarrow> selected" where
  "single_in mandatory v = (if v \<noteq> [] then independent_in mandatory (take 1 v) [] else [])"

definition leaf_select :: "bool \<Rightarrow> jsval \<Rightarrow> bool \<Rightarrow> selected \<Rightarrow> children \<Rightarrow> selected" where
  "leaf_select mandatory i value selected cs =
     (if map_of cs i \<noteq> None then selected else independent_select mandatory i value selected)"

definition leaf_single_select :: "bool \<Rightarrow> jsval \<Rightarrow> bool \<Rightarrow> selected \<Rightarrow> children \<Rightarrow> selected" where
  "leaf_single_select mandatory i value selected cs =
     (if map_of cs i \<noteq> None then selected else single_select mandatory i value selected)"

text \<open>The item and everything below it, breadth first.\<close>

partial_function (option) check_down ::
  "children \<Rightarrow> check \<Rightarrow> jsval list \<Rightarrow> selected \<Rightarrow> selected option" where
  "check_down cs c items selected =
     (case items of
        [] \<Rightarrow> Some selected
      | item # rest \<Rightarrow>
          check_down cs c
            (rest @ (case map_of cs item of None \<Rightarrow> [] | Some l \<Rightarrow> l))
            (AList.update item c selected))"

definition group_check :: "selected \<Rightarrow> jsval list \<Rightarrow> check" where
  "group_check selected childrenIds =
     (let everySelected = list_all (\<lambda>cid. map_of selected cid = Some On) childrenIds;
          noneSelected = list_all (\<lambda>cid. map_of selected cid \<in> {None, Some Off}) childrenIds
      in if everySelected then On else if noneSelected then Off else Indeterminate)"

text \<open>
  The groups above the item, from the nearest: \<open>while (parent)\<close>. A parent without an entry in
  \<open>children\<close> makes \<open>childrenIds.every\<close> raise, which is not a value of the outer option.
\<close>

partial_function (option) check_up ::
  "parents \<Rightarrow> children \<Rightarrow> jsval option \<Rightarrow> selected \<Rightarrow> (js_error + selected) option" where
  "check_up ps cs parent selected =
     (case parent of
        None \<Rightarrow> Some (Inr selected)
      | Some p \<Rightarrow>
          if \<not> truthy p then Some (Inr selected)
          else (case map_of cs p of
                  None \<Rightarrow> Some (Inl TypeError)
                | Some childrenIds \<Rightarrow>
                    check_up ps cs (map_of ps p) (AList.update p (group_check selected childrenIds) selected)))"

definition classic_select ::
  "bool \<Rightarrow> jsval \<Rightarrow> bool \<Rightarrow> selected \<Rightarrow> children \<Rightarrow> parents \<Rightarrow> (js_error + selected) option" where
  "classic_select mandatory i value original cs ps =
     (case check_down cs (check_of value) [i] original of
        None \<Rightarrow> None
      | Some selected \<Rightarrow>
          (case check_up ps cs (map_of ps i) selected of
             None \<Rightarrow> None
           | Some (Inl e) \<Rightarrow> Some (Inl e)
           | Some (Inr selected') \<Rightarrow>
               Some (Inr (if mandatory \<and> \<not> value \<and> on_keys selected' = [] then original else selected'))))"

fun classic_in :: "bool \<Rightarrow> children \<Rightarrow> parents \<Rightarrow> jsval list \<Rightarrow> selected \<Rightarrow> (js_error + selected) option" where
  "classic_in mandatory cs ps [] sel = Some (Inr sel)"
| "classic_in mandatory cs ps (i # ids) sel =
     (case classic_select mandatory i True sel cs ps of
        Some (Inr sel') \<Rightarrow> classic_in mandatory cs ps ids sel'
      | r \<Rightarrow> r)"

definition classic_out :: "selected \<Rightarrow> children \<Rightarrow> jsval list" where
  "classic_out v cs = filter (\<lambda>key. map_of cs key = None) (on_keys v)"

section \<open>The tree and its operations\<close>

datatype select_strategy = Single_leaf | Leaf | Independent | Single_independent | Classic

definition select_strategy_of :: "string \<Rightarrow> select_strategy" where
  "select_strategy_of s =
     (if s = ''single-leaf'' then Single_leaf
      else if s = ''leaf'' then Leaf
      else if s = ''independent'' then Independent
      else if s = ''single-independent'' then Single_independent
      else Classic)"

fun strategy_select ::
  "select_strategy \<Rightarrow> bool \<Rightarrow> jsval \<Rightarrow> bool \<Rightarrow> selected \<Rightarrow> children \<Rightarrow> parents \<Rightarrow> (js_error + selected) option" where
  "strategy_select Single_leaf m i v sel cs ps = Some (Inr (leaf_single_select m i v sel cs))"
| "strategy_select Leaf m i v sel cs ps = Some (Inr (leaf_select m i v sel cs))"
| "strategy_select Independent m i v sel cs ps = Some (Inr (independent_select m i v sel))"
| "strategy_select Single_independent m i v sel cs ps = Some (Inr (single_select m i v sel))"
| "strategy_select Classic m i v sel cs ps = classic_select m i v sel cs ps"

datatype open_strategy = Open_list | Open_single | Open_multiple

definition open_strategy_of :: "string \<Rightarrow> open_strategy" where
  "open_strategy_of s =
     (if s = ''list'' then Open_list else if s = ''single'' then Open_single else Open_multiple)"

fun strategy_open ::
  "open_strategy \<Rightarrow> jsval \<Rightarrow> bool \<Rightarrow> jsval list \<Rightarrow> parents \<Rightarrow> jsval list option" where
  "strategy_open Open_single i v opened ps = singleOpenStrategy_open i v opened ps"
| "strategy_open _ i v opened ps = multipleOpenStrategy_open i v opened ps"

text \<open>The ids in a model; the props are declared as arrays.\<close>

definition model_ids :: "jsval \<Rightarrow> jsval list" where
  "model_ids v = (case v of JArr xs \<Rightarrow> xs | _ \<Rightarrow> [])"

fun strategy_in ::
  "select_strategy \<Rightarrow> bool \<Rightarrow> children \<Rightarrow> parents \<Rightarrow> jsval list \<Rightarrow> (js_error + selected) option" where
  "strategy_in Single_leaf m cs ps ids = Some (Inr (single_in m ids))"
| "strategy_in Leaf m cs ps ids = Some (Inr (independent_in m ids []))"
| "strategy_in Independent m cs ps ids = Some (Inr (independent_in m ids []))"
| "strategy_in Single_independent m cs ps ids = Some (Inr (single_in m ids))"
| "strategy_in Classic m cs ps ids = classic_in m cs ps ids []"

fun strategy_out :: "select_strategy \<Rightarrow> selected \<Rightarrow> children \<Rightarrow> jsval list" where
  "strategy_out Classic v cs = classic_out v cs"
| "strategy_out _ v cs = independent_out v"

datatype nested_event =
    Click_open jsval bool "jsval list"
  | Click_select jsval bool "jsval list"
  | Update_opened jsval
  | Update_selected jsval

record nested =
  nested_children :: children
  nested_parents :: parents
  opened_model :: proxied
  opened :: "jsval list"
  selected_model :: proxied
  isUnmounted :: bool
  emitted :: "nested_event list"

definition emit :: "nested_event \<Rightarrow> nested \<Rightarrow> nested" where
  "emit e n = n\<lparr>emitted := emitted n @ [e]\<rparr>"

definition open_in :: "jsval \<Rightarrow> jsval list" where
  "open_in v = foldl (\<lambda>s x. set_add x s) [] (model_ids v)"

definition write_opened :: "jsval list \<Rightarrow> nested \<Rightarrow> nested" where
  "write_opened newOpened n =
     (case model_set JArr (\<lambda>_ _. False) ''opened'' newOpened (opened_model n) of
        (p, e) \<Rightarrow>
          let n' = n\<lparr>opened_model := p,
                     opened := (if isControlled ''opened'' p then opened n else model_get open_in ''opened'' p)\<rparr>
          in case e of None \<Rightarrow> n' | Some v \<Rightarrow> emit (Update_opened v) n')"

definition selected_map :: "select_strategy \<Rightarrow> bool \<Rightarrow> nested \<Rightarrow> (js_error + selected) option" where
  "selected_map ss mandatory n =
     model_get (\<lambda>v. strategy_in ss mandatory (nested_children n) (nested_parents n) (model_ids v))
       ''selected'' (selected_model n)"

definition write_selected :: "select_strategy \<Rightarrow> selected \<Rightarrow> nested \<Rightarrow> nested" where
  "write_selected ss newSelected n =
     (case model_set (\<lambda>v. JArr (strategy_out ss v (nested_children n))) (\<lambda>_ _. False) ''selected''
             newSelected (selected_model n) of
        (p, e) \<Rightarrow>
          let n' = n\<lparr>selected_model := p\<rparr>
          in case e of None \<Rightarrow> n' | Some v \<Rightarrow> emit (Update_selected v) n')"

partial_function (option) path_from :: "parents \<Rightarrow> jsval option \<Rightarrow> jsval list \<Rightarrow> jsval list option" where
  "path_from ps parent path =
     (case parent of None \<Rightarrow> Some path | Some p \<Rightarrow> path_from ps (map_of ps p) (p # path))"

definition getPath :: "parents \<Rightarrow> jsval \<Rightarrow> jsval list option" where
  "getPath ps i = path_from ps (Some i) []"

definition selectedValues :: "selected \<Rightarrow> jsval list" where
  "selectedValues sel = on_keys sel"

text \<open>\<open>parentId\<close> is \<open>None\<close> when it is \<open>null\<close> or \<open>undefined\<close>.\<close>

definition register :: "jsval \<Rightarrow> jsval option \<Rightarrow> bool \<Rightarrow> nested \<Rightarrow> nested" where
  "register i parentId isGroup n =
     (let n1 = (case parentId of
                  Some p \<Rightarrow> if truthy p \<and> i \<noteq> p
                            then n\<lparr>nested_parents := AList.update i p (nested_parents n)\<rparr> else n
                | None \<Rightarrow> n);
          n2 = (if isGroup then n1\<lparr>nested_children := AList.update i [] (nested_children n1)\<rparr> else n1)
      in case parentId of
           Some p \<Rightarrow>
             n2\<lparr>nested_children := AList.update p
               ((case map_of (nested_children n2) p of None \<Rightarrow> [] | Some l \<Rightarrow> l) @ [i]) (nested_children n2)\<rparr>
         | None \<Rightarrow> n2)"

definition unregister :: "jsval \<Rightarrow> nested \<Rightarrow> nested" where
  "unregister i n =
     (if isUnmounted n then n
      else
        let cs = AList.delete i (nested_children n);
            cs' = (case map_of (nested_parents n) i of
                     Some p \<Rightarrow>
                       if truthy p then
                         AList.update p
                           (filter (\<lambda>c. c \<noteq> i) (case map_of cs p of None \<Rightarrow> [] | Some l \<Rightarrow> l)) cs
                       else cs
                   | None \<Rightarrow> cs)
        in n\<lparr>nested_children := cs', nested_parents := AList.delete i (nested_parents n),
             opened := set_delete i (opened n)\<rparr>)"

definition nested_open :: "open_strategy \<Rightarrow> jsval \<Rightarrow> bool \<Rightarrow> nested \<Rightarrow> nested option" where
  "nested_open os i value n =
     (case getPath (nested_parents n) i of
        None \<Rightarrow> None
      | Some path \<Rightarrow>
          map_option (\<lambda>newOpened. write_opened newOpened (emit (Click_open i value path) n))
            (strategy_open os i value (opened n) (nested_parents n)))"

text \<open>
  The \<open>select\<close> of the other opening strategies gives \<open>null\<close>, which leaves the open groups as
  they are. The call reads the selection for the strategy, which does not use it; reading may
  raise.
\<close>

definition openOnSelect ::
  "select_strategy \<Rightarrow> bool \<Rightarrow> open_strategy \<Rightarrow> jsval \<Rightarrow> bool \<Rightarrow> nested \<Rightarrow> ((js_error + unit) \<times> nested) option" where
  "openOnSelect ss mandatory os i value n =
     (case selected_map ss mandatory n of
        None \<Rightarrow> None
      | Some (Inl e) \<Rightarrow> Some (Inl e, n)
      | Some (Inr _) \<Rightarrow>
          (case os of
             Open_list \<Rightarrow>
               map_option (\<lambda>newOpened. (Inr (), write_opened newOpened n))
                 (listOpenStrategy_select i value (opened n) (nested_parents n))
           | _ \<Rightarrow> Some (Inr (), n)))"

definition nested_select ::
  "select_strategy \<Rightarrow> bool \<Rightarrow> open_strategy \<Rightarrow> jsval \<Rightarrow> bool \<Rightarrow> nested \<Rightarrow> ((js_error + unit) \<times> nested) option" where
  "nested_select ss mandatory os i value n =
     (case getPath (nested_parents n) i of
        None \<Rightarrow> None
      | Some path \<Rightarrow>
          let n1 = emit (Click_select i value path) n in
          (case selected_map ss mandatory n1 of
             None \<Rightarrow> None
           | Some (Inl e) \<Rightarrow> Some (Inl e, n1)
           | Some (Inr sel) \<Rightarrow>
               (case strategy_select ss mandatory i value sel (nested_children n1) (nested_parents n1) of
                  None \<Rightarrow> None
                | Some (Inl e) \<Rightarrow> Some (Inl e, n1)
                | Some (Inr newSelected) \<Rightarrow>
                    openOnSelect ss mandatory os i value (write_selected ss newSelected n1))))"

section \<open>What an item shows\<close>

definition isOpen :: "nested \<Rightarrow> jsval \<Rightarrow> bool" where
  "isOpen n i = (i \<in> set (opened n))"

definition isSelected :: "selected \<Rightarrow> jsval \<Rightarrow> bool" where
  "isSelected sel i = (map_of sel i = Some On)"

definition isIndeterminate :: "selected \<Rightarrow> jsval \<Rightarrow> bool" where
  "isIndeterminate sel i = (map_of sel i = Some Indeterminate)"

definition isLeaf :: "nested \<Rightarrow> jsval \<Rightarrow> bool" where
  "isLeaf n i = (map_of (nested_children n) i = None)"

text \<open>An item registers with its group when it is set up and leaves when it is unmounted.\<close>

definition useNestedItem :: "jsval \<Rightarrow> jsval option \<Rightarrow> bool \<Rightarrow> bool \<Rightarrow> nested \<Rightarrow> nested" where
  "useNestedItem i parentId isGroupActivator isGroup n =
     (if isGroupActivator then n else register i parentId isGroup n)"

definition unmountNestedItem :: "jsval \<Rightarrow> bool \<Rightarrow> nested \<Rightarrow> nested" where
  "unmountNestedItem i isGroupActivator n = (if isGroupActivator then n else unregister i n)"

declare add_ancestors.simps [code] add_ancestors_until.simps [code] check_down.simps [code]
  check_up.simps [code] path_from.simps [code]

section \<open>Well-formed trees\<close>

definition child_rel :: "children \<Rightarrow> (jsval \<times> jsval) set" where
  "child_rel cs = {(p, c). \<exists>l. map_of cs p = Some l \<and> c \<in> set l}"

definition parent_rel :: "parents \<Rightarrow> (jsval \<times> jsval) set" where
  "parent_rel ps = {(p, c). map_of ps c = Some p}"

text \<open>The two maps describe the same tree, ids of groups are truthy, heights grow towards the root.\<close>

definition wf_tree :: "parents \<Rightarrow> children \<Rightarrow> bool" where
  "wf_tree ps cs \<longleftrightarrow>
     child_rel cs = parent_rel ps \<and> (\<forall>(p, c) \<in> parent_rel ps. truthy p) \<and>
     (\<exists>h :: jsval \<Rightarrow> nat. \<forall>(p, c) \<in> parent_rel ps. h c < h p)"

lemma wf_tree_child:
  "wf_tree ps cs \<Longrightarrow> map_of cs p = Some l \<Longrightarrow> c \<in> set l \<Longrightarrow> map_of ps c = Some p"
  by (auto simp: wf_tree_def child_rel_def parent_rel_def)

lemma wf_tree_parent:
  "wf_tree ps cs \<Longrightarrow> map_of ps c = Some p \<Longrightarrow> truthy p \<and> (\<exists>l. map_of cs p = Some l \<and> c \<in> set l)"
  by (force simp: wf_tree_def child_rel_def parent_rel_def)

lemma parent_rel_finite: "finite (parent_rel ps)"
proof (rule finite_subset)
  show "parent_rel ps \<subseteq> (\<lambda>(c, p). (p, c)) ` set ps"
    by (auto simp: parent_rel_def dest!: map_of_SomeD)
qed simp

lemma wf_tree_acyclic: "wf_tree ps cs \<Longrightarrow> acyclic (parent_rel ps)"
proof -
  assume "wf_tree ps cs"
  then obtain h :: "jsval \<Rightarrow> nat" where "\<forall>(p, c) \<in> parent_rel ps. h c < h p"
    by (auto simp: wf_tree_def)
  then have h: "(p, c) \<in> parent_rel ps \<Longrightarrow> h c < h p" for p c by auto
  have "h y < h x" if "(x, y) \<in> (parent_rel ps)\<^sup>+" for x y
    using that by induction (auto dest: h)
  then show ?thesis by (meson acyclic_def less_irrefl)
qed

lemma wf_tree_wf: "wf_tree ps cs \<Longrightarrow> wf (parent_rel ps)"
  by (simp add: finite_acyclic_wf parent_rel_finite wf_tree_acyclic)

lemma parent_unique:
  "(x, c) \<in> (parent_rel ps)\<^sup>* \<Longrightarrow> map_of ps c = Some p \<Longrightarrow> x = c \<or> (x, p) \<in> (parent_rel ps)\<^sup>*"
  by (erule rtranclE) (auto simp: parent_rel_def)

lemma ancestor_step:
  "(x, c) \<in> (parent_rel ps)\<^sup>+ \<longleftrightarrow> (\<exists>p. map_of ps c = Some p \<and> (x = p \<or> (x, p) \<in> (parent_rel ps)\<^sup>+))"
  by (subst trancl_unfold) (auto simp: parent_rel_def)

lemma length_bound: "map_of cs p = Some l \<Longrightarrow> length l \<le> sum_list (map (length \<circ> snd) cs)"
  by (drule map_of_SomeD, rule member_le_sum_list) force+

section \<open>Opening\<close>

text \<open>Both loops to the root return, with the ancestors added.\<close>

lemma add_ancestors_ok:
  assumes "wf_tree ps cs"
  shows "\<exists>o'. add_ancestors ps (map_of ps i) os = Some o' \<and>
    set o' = set os \<union> {x. (x, i) \<in> (parent_rel ps)\<^sup>+}"
proof (induction i arbitrary: os rule: wf_induct_rule [OF wf_tree_wf [OF assms]])
  case (1 i)
  show ?case
  proof (cases "map_of ps i")
    case None
    then show ?thesis by (simp add: add_ancestors.simps [of ps None] ancestor_step [of _ i])
  next
    case (Some p)
    then have "(p, i) \<in> parent_rel ps" by (simp add: parent_rel_def)
    from 1 [OF this, of "set_add p os"] obtain o' where
      "add_ancestors ps (map_of ps p) (set_add p os) = Some o'"
      "set o' = set (set_add p os) \<union> {x. (x, p) \<in> (parent_rel ps)\<^sup>+}" by blast
    with Some show ?thesis
      by (auto simp: add_ancestors.simps [of ps "Some p"] ancestor_step [of _ i] set_add_def)
  qed
qed

section \<open>Tri-state selection\<close>

definition state_of :: "selected \<Rightarrow> jsval \<Rightarrow> check" where
  "state_of sel x = (case map_of sel x of None \<Rightarrow> Off | Some c \<Rightarrow> c)"

text \<open>Every group with children is in the state its children determine.\<close>

definition consistent :: "children \<Rightarrow> selected \<Rightarrow> bool" where
  "consistent cs sel \<longleftrightarrow> (\<forall>p l. map_of cs p = Some l \<and> l \<noteq> [] \<longrightarrow> state_of sel p = group_check sel l)"

lemma group_check_cong:
  "(\<And>x. x \<in> set l \<Longrightarrow> map_of sel x = map_of sel' x) \<Longrightarrow> group_check sel l = group_check sel' l"
  by (simp add: group_check_def Let_def list_all_iff)

lemma group_check_uniform:
  "l \<noteq> [] \<Longrightarrow> (\<And>x. x \<in> set l \<Longrightarrow> map_of sel x = Some (check_of v)) \<Longrightarrow> group_check sel l = check_of v"
  by (cases l) (auto simp: group_check_def Let_def list_all_iff check_of_def)

lemma reach_step:
  "(i, x) \<in> (child_rel cs)\<^sup>* \<longleftrightarrow>
   x = i \<or> (\<exists>j \<in> set (case map_of cs i of None \<Rightarrow> [] | Some l \<Rightarrow> l). (j, x) \<in> (child_rel cs)\<^sup>*)"
proof -
  have "(i, j) \<in> child_rel cs \<longleftrightarrow> j \<in> set (case map_of cs i of None \<Rightarrow> [] | Some l \<Rightarrow> l)" for j
    by (cases "map_of cs i") (auto simp: child_rel_def)
  then show ?thesis
    by (metis converse_rtranclE converse_rtrancl_into_rtrancl rtrancl.rtrancl_refl)
qed

lemma sum_powers_less:
  fixes B :: nat
  assumes "\<And>c. c \<in> set l \<Longrightarrow> h c < k" "length l < B"
  shows "sum_list (map (\<lambda>c. B ^ h c) l) < B ^ k"
proof (cases k)
  case 0
  then have "l = []" using assms(1) by (cases l) auto
  with 0 show ?thesis by simp
next
  case (Suc j)
  have B: "1 \<le> B" using assms(2) by simp
  have "sum_list (map (\<lambda>c. B ^ h c) l) \<le> sum_list (map (\<lambda>c. B ^ j) l)"
    using assms(1) Suc B by (intro sum_list_mono) (simp add: power_increasing less_Suc_eq_le)
  also have "\<dots> = length l * B ^ j" by (simp add: sum_list_triv)
  also have "\<dots> < B * B ^ j" using assms(2) B by simp
  finally show ?thesis using Suc by simp
qed

text \<open>The queue ends: a weight that a node shares among its children falls.\<close>

lemma check_down_ok:
  assumes "wf_tree ps cs"
  shows "\<exists>sel'. check_down cs c items sel = Some sel' \<and>
    (distinct (map fst sel) \<longrightarrow> distinct (map fst sel')) \<and>
    (\<forall>x. map_of sel' x = (if \<exists>i \<in> set items. (i, x) \<in> (child_rel cs)\<^sup>* then Some c else map_of sel x))"
proof -
  obtain h :: "jsval \<Rightarrow> nat" where "\<forall>(p, c) \<in> parent_rel ps. h c < h p"
    using assms by (auto simp: wf_tree_def)
  then have h: "map_of ps c = Some p \<Longrightarrow> h c < h p" for p c by (auto simp: parent_rel_def)
  define B where "B = Suc (sum_list (map (length \<circ> snd) cs))"
  let ?kids = "\<lambda>i. case map_of cs i of None \<Rightarrow> [] | Some l \<Rightarrow> l"
  have fall: "sum_list (map (\<lambda>c. B ^ h c) (?kids i)) < B ^ h i" for i
  proof (rule sum_powers_less)
    show "c \<in> set (?kids i) \<Longrightarrow> h c < h i" for c
      using wf_tree_child [OF assms, of i _ c] h [of c i] by (cases "map_of cs i") auto
    show "length (?kids i) < B"
      using length_bound [of cs i] by (auto simp: B_def less_Suc_eq_le split: option.splits)
  qed
  show ?thesis
  proof (induction "sum_list (map (\<lambda>i. B ^ h i) items)" arbitrary: items sel rule: less_induct)
    case less
    show ?case
    proof (cases items)
      case Nil
      then show ?thesis by (simp add: check_down.simps [of cs c "[]"])
    next
      case (Cons i rest)
      have "sum_list (map (\<lambda>i. B ^ h i) (rest @ ?kids i)) < sum_list (map (\<lambda>i. B ^ h i) items)"
        using fall [of i] Cons by simp
      from less(1) [OF this, of "AList.update i c sel"] obtain sel' where
        s: "check_down cs c (rest @ ?kids i) (AList.update i c sel) = Some sel'"
        "distinct (map fst (AList.update i c sel)) \<longrightarrow> distinct (map fst sel')"
        "\<forall>x. map_of sel' x = (if \<exists>j \<in> set (rest @ ?kids i). (j, x) \<in> (child_rel cs)\<^sup>* then Some c
           else map_of (AList.update i c sel) x)" by blast
      have "(\<exists>j \<in> set items. (j, x) \<in> (child_rel cs)\<^sup>*) \<longleftrightarrow>
          x = i \<or> (\<exists>j \<in> set (rest @ ?kids i). (j, x) \<in> (child_rel cs)\<^sup>*)" for x
        using reach_step [of i x cs] Cons by auto
      with s Cons show ?thesis
        by (auto simp: check_down.simps [of cs c "i # rest"] update_conv' distinct_update)
    qed
  qed
qed

lemma check_up_ok:
  assumes "wf_tree ps cs"
  shows "\<exists>sel'. check_up ps cs (map_of ps i) sel = Some (Inr sel') \<and>
    (distinct (map fst sel) \<longrightarrow> distinct (map fst sel')) \<and>
    (\<forall>x. (x, i) \<notin> (parent_rel ps)\<^sup>+ \<longrightarrow> map_of sel' x = map_of sel x) \<and>
    (\<forall>p l. (p, i) \<in> (parent_rel ps)\<^sup>+ \<and> map_of cs p = Some l \<longrightarrow> map_of sel' p = Some (group_check sel' l))"
proof (induction i arbitrary: sel rule: wf_induct_rule [OF wf_tree_wf [OF assms]])
  case (1 i)
  show ?case
  proof (cases "map_of ps i")
    case None
    then show ?thesis by (simp add: check_up.simps [of ps cs None] ancestor_step [of _ i])
  next
    case (Some p)
    then have r: "(p, i) \<in> parent_rel ps" by (simp add: parent_rel_def)
    obtain l where l: "truthy p" "map_of cs p = Some l" "i \<in> set l"
      using wf_tree_parent [OF assms Some] by blast
    let ?sel = "AList.update p (group_check sel l) sel"
    from 1 [OF r, of ?sel] obtain sel' where
      s: "check_up ps cs (map_of ps p) ?sel = Some (Inr sel')"
      "distinct (map fst ?sel) \<longrightarrow> distinct (map fst sel')"
      "\<forall>x. (x, p) \<notin> (parent_rel ps)\<^sup>+ \<longrightarrow> map_of sel' x = map_of ?sel x"
      "\<forall>q l. (q, p) \<in> (parent_rel ps)\<^sup>+ \<and> map_of cs q = Some l \<longrightarrow> map_of sel' q = Some (group_check sel' l)"
      by blast
    have irr: "(x, x) \<notin> (parent_rel ps)\<^sup>+" for x
      using wf_tree_acyclic [OF assms] by (simp add: acyclic_def)
    have kids: "map_of sel' x = map_of sel x" if "x \<in> set l" for x
    proof -
      have px: "(p, x) \<in> parent_rel ps"
        using wf_tree_child [OF assms l(2) that] by (simp add: parent_rel_def)
      then have "(x, p) \<notin> (parent_rel ps)\<^sup>+" "x \<noteq> p" using irr by (meson r_into_trancl trancl_trans)+
      with s(3) show ?thesis by (simp add: update_conv')
    qed
    have "map_of sel' p = Some (group_check sel' l)"
      using s(3) irr group_check_cong [of l sel' sel] kids by (simp add: update_conv')
    moreover have "map_of sel' x = map_of sel x" if "x \<noteq> p" "(x, p) \<notin> (parent_rel ps)\<^sup>+" for x
      using s(3) that by (simp add: update_conv')
    ultimately show ?thesis
      using Some l(1,2) s(1,2,4) by (auto simp: check_up.simps [of ps cs "Some p"] ancestor_step [of _ i] distinct_update)
  qed
qed

lemma select_consistent:
  assumes tree: "wf_tree ps cs" and old: "consistent cs sel"
    and down: "\<forall>x. map_of sel1 x = (if (i, x) \<in> (child_rel cs)\<^sup>* then Some (check_of v) else map_of sel x)"
    and up: "\<forall>x. (x, i) \<notin> (parent_rel ps)\<^sup>+ \<longrightarrow> map_of sel2 x = map_of sel1 x"
      "\<forall>p l. (p, i) \<in> (parent_rel ps)\<^sup>+ \<and> map_of cs p = Some l \<longrightarrow> map_of sel2 p = Some (group_check sel2 l)"
  shows "consistent cs sel2" and "(i, x) \<in> (child_rel cs)\<^sup>* \<Longrightarrow> map_of sel2 x = Some (check_of v)"
proof -
  have rel: "child_rel cs = parent_rel ps" using tree by (simp add: wf_tree_def)
  have sep: "(x, i) \<notin> (parent_rel ps)\<^sup>+" if "(i, x) \<in> (child_rel cs)\<^sup>*" for x
    using that wf_tree_acyclic [OF tree] unfolding rel acyclic_def
    by (meson rtrancl_trancl_trancl)
  then show below: "(i, x) \<in> (child_rel cs)\<^sup>* \<Longrightarrow> map_of sel2 x = Some (check_of v)" for x
    using down up(1) by simp
  show "consistent cs sel2"
    unfolding consistent_def
  proof (intro allI impI)
    fix p l
    assume pl: "map_of cs p = Some l \<and> l \<noteq> []"
    then have kid: "map_of ps x = Some p" "(p, x) \<in> child_rel cs" if "x \<in> set l" for x
      using wf_tree_child [OF tree] that by (auto simp: child_rel_def)
    consider "(p, i) \<in> (parent_rel ps)\<^sup>+" | "(i, p) \<in> (child_rel cs)\<^sup>*"
      | "(p, i) \<notin> (parent_rel ps)\<^sup>+" "(i, p) \<notin> (child_rel cs)\<^sup>*" by blast
    then show "state_of sel2 p = group_check sel2 l"
    proof cases
      case 1
      with up(2) pl show ?thesis by (simp add: state_of_def)
    next
      case 2
      then have "(i, x) \<in> (child_rel cs)\<^sup>*" if "x \<in> set l" for x
        using kid(2) [OF that] by (rule rtrancl_into_rtrancl)
      with below 2 pl group_check_uniform [of l sel2 v] show ?thesis by (simp add: state_of_def)
    next
      case 3
      have same: "map_of sel2 x = map_of sel x" if "x \<in> set l \<or> x = p" for x
      proof -
        have "(x, i) \<notin> (parent_rel ps)\<^sup>+"
        proof
          assume xi: "(x, i) \<in> (parent_rel ps)\<^sup>+"
          show False
          proof (cases "x = p")
            case False
            with that have "(p, x) \<in> parent_rel ps" using kid(2) rel by auto
            from trancl_into_trancl2 [OF this xi] 3(1) show ?thesis by simp
          qed (use xi 3(1) in simp)
        qed
        moreover have "(i, x) \<notin> (child_rel cs)\<^sup>*"
        proof
          assume "(i, x) \<in> (child_rel cs)\<^sup>*"
          with that 3(2) kid(1) parent_unique [of i x ps p] have "x = i" "x \<in> set l" by (auto simp: rel)
          with kid(1) [of x] have "(p, i) \<in> parent_rel ps" by (simp add: parent_rel_def)
          with 3(1) show False by blast
        qed
        ultimately show ?thesis using up(1) down by simp
      qed
      then have "group_check sel2 l = group_check sel l" by (intro group_check_cong) simp
      with old pl same [of p] show ?thesis by (simp add: consistent_def state_of_def)
    qed
  qed
qed

lemma leaf_not_above:
  "wf_tree ps cs \<Longrightarrow> map_of cs x = None \<Longrightarrow> (x, i) \<notin> (parent_rel ps)\<^sup>+"
proof
  assume t: "wf_tree ps cs" and leaf: "map_of cs x = None" and up: "(x, i) \<in> (parent_rel ps)\<^sup>+"
  from up obtain y where "(x, y) \<in> parent_rel ps" by (meson tranclD)
  with t have "(x, y) \<in> child_rel cs" by (simp add: wf_tree_def)
  with leaf show False by (simp add: child_rel_def)
qed

lemma leaf_reach: "map_of cs j = None \<Longrightarrow> (j, x) \<in> (child_rel cs)\<^sup>* \<longleftrightarrow> x = j"
  by (subst reach_step) simp

text \<open>
  Selecting or clearing an item with the tri-state strategy returns; it keeps every group in
  the state its children determine, and, where it is not held back by \<open>mandatory\<close>, it puts the
  leaves below the item into the new state and leaves the others.
\<close>

lemma classic_select_ok:
  assumes "wf_tree ps cs" and "consistent cs sel"
  shows "\<exists>sel'. classic_select mandatory i v sel cs ps = Some (Inr sel') \<and> consistent cs sel' \<and>
    (distinct (map fst sel) \<longrightarrow> distinct (map fst sel')) \<and>
    (v \<or> \<not> mandatory \<longrightarrow> (\<forall>x. map_of cs x = None \<longrightarrow>
       map_of sel' x = (if (i, x) \<in> (child_rel cs)\<^sup>* then Some (check_of v) else map_of sel x))) \<and>
    (mandatory \<and> on_keys sel \<noteq> [] \<and> \<not> v \<longrightarrow> on_keys sel' \<noteq> []) \<and>
    (v \<longrightarrow> map_of sel' i = Some On)"
proof -
  obtain sel1 where s1: "check_down cs (check_of v) [i] sel = Some sel1"
    "distinct (map fst sel) \<longrightarrow> distinct (map fst sel1)"
    "\<forall>x. map_of sel1 x = (if (i, x) \<in> (child_rel cs)\<^sup>* then Some (check_of v) else map_of sel x)"
    using check_down_ok [OF assms(1), of "check_of v" "[i]" sel] by auto
  obtain sel2 where s2: "check_up ps cs (map_of ps i) sel1 = Some (Inr sel2)"
    "distinct (map fst sel1) \<longrightarrow> distinct (map fst sel2)"
    "\<forall>x. (x, i) \<notin> (parent_rel ps)\<^sup>+ \<longrightarrow> map_of sel2 x = map_of sel1 x"
    "\<forall>p l. (p, i) \<in> (parent_rel ps)\<^sup>+ \<and> map_of cs p = Some l \<longrightarrow> map_of sel2 p = Some (group_check sel2 l)"
    using check_up_ok [OF assms(1), of i sel1] by auto
  note r = select_consistent [OF assms s1(3) s2(3,4)]
  let ?out = "if mandatory \<and> \<not> v \<and> on_keys sel2 = [] then sel else sel2"
  have "classic_select mandatory i v sel cs ps = Some (Inr ?out)"
    using s1(1) s2(1) by (simp add: classic_select_def)
  moreover have "consistent cs ?out" using r(1) assms(2) by simp
  moreover have "map_of sel2 x = (if (i, x) \<in> (child_rel cs)\<^sup>* then Some (check_of v) else map_of sel x)"
    if "map_of cs x = None" for x
    using s1(3) s2(3) leaf_not_above [OF assms(1) that] by simp
  moreover have "v \<longrightarrow> map_of sel2 i = Some On" using r(2) [of i] by (simp add: check_of_def)
  ultimately show ?thesis using s1(2) s2(2) by (intro exI [of _ ?out]) auto
qed

lemma classic_in_ok:
  assumes "wf_tree ps cs"
  shows "consistent cs sel \<Longrightarrow> distinct (map fst sel) \<Longrightarrow>
    \<exists>sel'. classic_in mandatory cs ps ids sel = Some (Inr sel') \<and> consistent cs sel' \<and> distinct (map fst sel') \<and>
      (\<forall>x. map_of cs x = None \<longrightarrow>
         map_of sel' x = (if \<exists>i \<in> set ids. (i, x) \<in> (child_rel cs)\<^sup>* then Some On else map_of sel x))"
proof (induction ids arbitrary: sel)
  case (Cons i ids)
  obtain sel1 where s1: "classic_select mandatory i True sel cs ps = Some (Inr sel1)" "consistent cs sel1"
    "distinct (map fst sel1)"
    "\<forall>x. map_of cs x = None \<longrightarrow> map_of sel1 x = (if (i, x) \<in> (child_rel cs)\<^sup>* then Some On else map_of sel x)"
    using classic_select_ok [OF assms Cons.prems(1), of mandatory i True] Cons.prems(2)
    by (auto simp: check_of_def)
  from Cons.IH [OF s1(2,3)] s1(1,4) show ?case by auto
qed simp

lemma consistent_Nil: "consistent cs []"
  by (auto simp: consistent_def state_of_def group_check_def list_all_iff Let_def)

lemma set_on_keys: "distinct (map fst sel) \<Longrightarrow> set (on_keys sel) = {x. map_of sel x = Some On}"
  by (force simp: on_keys_def)

lemma path_from_ok:
  assumes "wf_tree ps cs"
  shows "\<exists>path. path_from ps (Some i) acc = Some path"
proof (induction i arbitrary: acc rule: wf_induct_rule [OF wf_tree_wf [OF assms]])
  case (1 i)
  show ?case
  proof (cases "map_of ps i")
    case None
    then show ?thesis by (simp add: path_from.simps [of ps "Some i"] path_from.simps [of ps None])
  next
    case (Some p)
    then show ?thesis
      using 1 [of p "i # acc"] by (simp add: path_from.simps [of ps "Some i"] parent_rel_def)
  qed
qed

lemma list_open_ok:
  "wf_tree ps cs \<Longrightarrow> \<exists>o'. listOpenStrategy_select i v os ps = Some o'"
  using add_ancestors_ok [of ps cs i "[]"] by (auto simp: listOpenStrategy_select_def)

section \<open>Selecting in a tree\<close>

lemma emit_fields [simp]:
  "nested_children (emit e n) = nested_children n" "nested_parents (emit e n) = nested_parents n"
  "selected_model (emit e n) = selected_model n" "opened_model (emit e n) = opened_model n"
  "opened (emit e n) = opened n"
  by (simp_all add: emit_def)

lemma write_opened_fields [simp]:
  "nested_children (write_opened os n) = nested_children n"
  "nested_parents (write_opened os n) = nested_parents n"
  "selected_model (write_opened os n) = selected_model n"
  by (simp_all add: write_opened_def Let_def split: prod.splits option.splits)

lemma selected_map_cong:
  "nested_children n = nested_children n' \<Longrightarrow> nested_parents n = nested_parents n' \<Longrightarrow>
   selected_model n = selected_model n' \<Longrightarrow> selected_map ss m n = selected_map ss m n'"
  by (simp add: selected_map_def)

lemma selected_map_written:
  assumes "\<not> isControlled ''selected'' (selected_model n)"
  shows "selected_map Classic m (write_selected Classic sel n) =
    classic_in m (nested_children n) (nested_parents n) (classic_out sel (nested_children n)) []"
  using assms
  by (simp add: selected_map_def write_selected_def model_set_def model_get_def outer_value_def
      model_ids_def emit_def Let_def)

text \<open>What is written and read again is the same selection of leaves, with every group consistent.\<close>

lemma classic_rewrite:
  assumes "wf_tree ps cs" and "distinct (map fst sel)"
  shows "\<exists>sel'. classic_in m cs ps (classic_out sel cs) [] = Some (Inr sel') \<and> consistent cs sel' \<and>
    (\<forall>x. map_of cs x = None \<longrightarrow> isSelected sel' x = isSelected sel x)"
proof -
  have out: "j \<in> set (classic_out sel cs) \<longleftrightarrow> map_of cs j = None \<and> map_of sel j = Some On" for j
    using set_on_keys [OF assms(2)] by (auto simp: classic_out_def)
  obtain sel' where s: "classic_in m cs ps (classic_out sel cs) [] = Some (Inr sel')" "consistent cs sel'"
    "\<forall>x. map_of cs x = None \<longrightarrow>
       map_of sel' x = (if \<exists>i \<in> set (classic_out sel cs). (i, x) \<in> (child_rel cs)\<^sup>* then Some On else None)"
    using classic_in_ok [OF assms(1) consistent_Nil, of m "classic_out sel cs"] by auto
  have "isSelected sel' x = isSelected sel x" if "map_of cs x = None" for x
  proof -
    have "(\<exists>i \<in> set (classic_out sel cs). (i, x) \<in> (child_rel cs)\<^sup>*) \<longleftrightarrow> x \<in> set (classic_out sel cs)"
      using out by (auto simp: leaf_reach)
    with s(3) that show ?thesis by (simp add: isSelected_def out)
  qed
  with s show ?thesis by blast
qed

lemma openOnSelect_ok:
  assumes "wf_tree (nested_parents n) (nested_children n)" and "selected_map ss m n = Some (Inr sel)"
  shows "\<exists>n'. openOnSelect ss m os i v n = Some (Inr (), n') \<and> selected_map ss m n' = Some (Inr sel) \<and>
    nested_children n' = nested_children n \<and> nested_parents n' = nested_parents n"
proof (cases os)
  case Open_list
  obtain o' where "listOpenStrategy_select i v (opened n) (nested_parents n) = Some o'"
    using list_open_ok [OF assms(1)] by blast
  moreover have "selected_map ss m (write_opened o' n) = selected_map ss m n"
    by (rule selected_map_cong) simp_all
  ultimately show ?thesis using assms(2) Open_list by (simp add: openOnSelect_def)
qed (simp_all add: openOnSelect_def assms(2))

text \<open>
  C35. In every well-formed tree whose selection the component keeps
  itself, selecting or clearing an item with the tri-state strategy returns: read again, exactly
  the leaves below the item have the new state and the others their old one, and every group
  with children is selected when all its children are, cleared when none is, and indeterminate
  otherwise. Clearing is meant where no selection is mandatory.
\<close>

theorem nested_select_sets_leaves:
  assumes "wf_tree (nested_parents n) (nested_children n)"
    and "\<not> isControlled ''selected'' (selected_model n)" and "v \<or> \<not> mandatory"
  shows "\<exists>n' sel sel'. nested_select Classic mandatory os i v n = Some (Inr (), n') \<and>
    selected_map Classic mandatory n = Some (Inr sel) \<and> selected_map Classic mandatory n' = Some (Inr sel') \<and>
    consistent (nested_children n') sel' \<and>
    (\<forall>x. isLeaf n x \<longrightarrow> isLeaf n' x \<and>
       isSelected sel' x = (if (i, x) \<in> (child_rel (nested_children n))\<^sup>* then v else isSelected sel x))"
proof -
  let ?cs = "nested_children n" and ?ps = "nested_parents n"
  obtain path where path: "getPath ?ps i = Some path"
    using path_from_ok [OF assms(1)] by (auto simp: getPath_def)
  define n1 where "n1 = emit (Click_select i v path) n"
  obtain sel where sel: "selected_map Classic mandatory n = Some (Inr sel)" "consistent ?cs sel" "distinct (map fst sel)"
    using classic_in_ok [OF assms(1) consistent_Nil, of mandatory "model_ids (outer_value ''selected'' (selected_model n))"]
    by (auto simp: selected_map_def model_get_def)
  obtain sel1 where sel1: "classic_select mandatory i v sel ?cs ?ps = Some (Inr sel1)" "distinct (map fst sel1)"
    "\<forall>x. map_of ?cs x = None \<longrightarrow>
       map_of sel1 x = (if (i, x) \<in> (child_rel ?cs)\<^sup>* then Some (check_of v) else map_of sel x)"
    using classic_select_ok [OF assms(1) sel(2), of mandatory i v] sel(3) assms(3) by auto
  let ?n2 = "write_selected Classic sel1 n1"
  obtain sel' where sel': "classic_in mandatory ?cs ?ps (classic_out sel1 ?cs) [] = Some (Inr sel')"
    "consistent ?cs sel'" "\<forall>x. map_of ?cs x = None \<longrightarrow> isSelected sel' x = isSelected sel1 x"
    using classic_rewrite [OF assms(1) sel1(2)] by blast
  have n2: "nested_children ?n2 = ?cs" "nested_parents ?n2 = ?ps"
    by (simp_all add: write_selected_def n1_def Let_def split: prod.splits option.splits)
  have "selected_map Classic mandatory ?n2 = Some (Inr sel')"
    using selected_map_written [of n1 mandatory sel1] sel'(1) assms(2) by (simp add: n1_def)
  then obtain n' where n': "openOnSelect Classic mandatory os i v ?n2 = Some (Inr (), n')"
    "selected_map Classic mandatory n' = Some (Inr sel')" "nested_children n' = ?cs"
    using openOnSelect_ok [of ?n2 Classic mandatory sel' os i v] n2 assms(1) by auto
  have "selected_map Classic mandatory n1 = Some (Inr sel)"
    using sel(1) by (simp add: n1_def selected_map_def)
  with path n'(1) sel1(1) have "nested_select Classic mandatory os i v n = Some (Inr (), n')"
    by (simp add: nested_select_def Let_def n1_def)
  with n' sel(1) sel'(2,3) sel1(3) show ?thesis
    by (intro exI [of _ n'] exI [of _ sel] exI [of _ sel'])
      (auto simp: isLeaf_def isSelected_def check_of_def)
qed

section \<open>Opening in a tree\<close>

lemma set_add_all: "distinct (acc @ xs) \<Longrightarrow> foldl (\<lambda>s x. set_add x s) acc xs = acc @ xs"
  by (induction xs arbitrary: acc) (simp_all add: set_add_def)

text \<open>The \<open>Set\<close> of open groups, stored as an array, is a model that reads back what is written.\<close>

interpretation opened_items: proxied_model open_in JArr "\<lambda>_ _. False" distinct
  by unfold_locales (simp_all add: open_in_def model_ids_def set_add_all [of "[]", simplified])

lemma add_ancestors_distinct:
  assumes "wf_tree ps cs"
  shows "add_ancestors ps (map_of ps i) os = Some o' \<Longrightarrow> distinct os \<Longrightarrow> distinct o'"
proof (induction i arbitrary: os rule: wf_induct_rule [OF wf_tree_wf [OF assms]])
  case (1 i)
  show ?case
  proof (cases "map_of ps i")
    case None
    with "1.prems" show ?thesis by (simp add: add_ancestors.simps [of ps None])
  next
    case (Some p)
    have "add_ancestors ps (map_of ps p) (set_add p os) = Some o'"
      using "1.prems"(1) Some by (simp add: add_ancestors.simps [of ps "Some p"])
    moreover have "distinct (set_add p os)" using "1.prems"(2) by (simp add: set_add_def)
    ultimately show ?thesis using "1.IH" [of p] Some by (simp add: parent_rel_def)
  qed
qed

lemma opened_written:
  "distinct os \<Longrightarrow> \<not> isControlled ''opened'' (opened_model n) \<Longrightarrow> opened (write_opened os n) = os"
  using opened_items.uncontrolled_read_after_write [of os "''opened''" "opened_model n"]
  by (simp add: write_opened_def model_set_def emit_def Let_def)

text \<open>
  C36. In every well-formed tree whose open groups the component keeps
  itself, opening a group under the strategy that keeps one branch open returns, with exactly
  the group and the groups above it open, whatever was open before.
\<close>

theorem open_single_shows_path:
  assumes "wf_tree (nested_parents n) (nested_children n)"
    and "\<not> isControlled ''opened'' (opened_model n)"
  shows "\<exists>n'. nested_open Open_single i True n = Some n' \<and>
    (\<forall>x. isOpen n' x \<longleftrightarrow> (x, i) \<in> (parent_rel (nested_parents n))\<^sup>*)"
proof -
  let ?ps = "nested_parents n"
  obtain o' where o': "add_ancestors ?ps (map_of ?ps i) [i] = Some o'"
    "set o' = {i} \<union> {x. (x, i) \<in> (parent_rel ?ps)\<^sup>+}"
    using add_ancestors_ok [OF assms(1), of i "[i]"] by auto
  obtain path where path: "getPath ?ps i = Some path"
    using path_from_ok [OF assms(1)] by (auto simp: getPath_def)
  have "distinct o'" using add_ancestors_distinct [OF assms(1) o'(1)] by simp
  then have "opened (write_opened o' (emit (Click_open i True path) n)) = o'"
    using assms(2) by (intro opened_written) simp_all
  with path o' show ?thesis
    by (auto simp: nested_open_def singleOpenStrategy_open_def isOpen_def rtrancl_eq_or_trancl)
qed

section \<open>Building the tree\<close>

text \<open>An id that no item of the tree uses yet.\<close>

definition fresh :: "jsval \<Rightarrow> nested \<Rightarrow> bool" where
  "fresh i n \<longleftrightarrow> map_of (nested_parents n) i = None \<and> map_of (nested_children n) i = None \<and>
     i \<notin> snd ` set (nested_parents n)"

lemma parent_rel_update: "parent_rel (AList.update i p ps) = {(q, c) \<in> parent_rel ps. c \<noteq> i} \<union> {(p, i)}"
  by (auto simp: parent_rel_def update_conv' split: if_splits)

lemma parent_rel_delete: "parent_rel (AList.delete i ps) = {(q, c) \<in> parent_rel ps. c \<noteq> i}"
  by (auto simp: parent_rel_def delete_conv' split: if_splits)

lemma child_rel_update:
  "child_rel (AList.update p l cs) = {(q, c) \<in> child_rel cs. q \<noteq> p} \<union> {p} \<times> set l"
  by (auto simp: child_rel_def update_conv' split: if_splits)

lemma child_rel_delete: "child_rel (AList.delete p cs) = {(q, c) \<in> child_rel cs. q \<noteq> p}"
  by (auto simp: child_rel_def delete_conv' split: if_splits)

lemma child_rel_kids:
  "set (case map_of cs p of None \<Rightarrow> [] | Some l \<Rightarrow> l) = {c. (p, c) \<in> child_rel cs}"
  by (cases "map_of cs p") (auto simp: child_rel_def)

lemma wf_tree_sub:
  "wf_tree ps cs \<Longrightarrow> child_rel cs' = parent_rel ps' \<Longrightarrow> parent_rel ps' \<subseteq> parent_rel ps \<Longrightarrow> wf_tree ps' cs'"
  unfolding wf_tree_def by blast

lemma wf_tree_insert:
  assumes "wf_tree ps cs" and "child_rel cs' = parent_rel ps'"
    and "parent_rel ps' = insert (p, i) (parent_rel ps)" and "truthy p" and "i \<noteq> p"
    and "\<forall>(q, c) \<in> parent_rel ps. q \<noteq> i \<and> c \<noteq> i"
  shows "wf_tree ps' cs'"
proof -
  obtain h :: "jsval \<Rightarrow> nat" where h: "\<forall>(p, c) \<in> parent_rel ps. h c < h p"
    using assms(1) by (auto simp: wf_tree_def)
  have "\<forall>(q, c) \<in> parent_rel ps'. (if c = i then 0 else Suc (h c)) < (if q = i then 0 else Suc (h q))"
    using h assms(3,5,6) by auto
  moreover have "\<forall>(q, c) \<in> parent_rel ps'. truthy q"
    using assms(1,3,4) by (auto simp: wf_tree_def)
  ultimately show ?thesis
    using assms(2) unfolding wf_tree_def by (intro conjI exI [of _ "\<lambda>x. if x = i then 0 else Suc (h x)"])
qed

lemma fresh_rel:
  assumes "wf_tree (nested_parents n) (nested_children n)" and "fresh i n"
  shows "\<forall>(q, c) \<in> parent_rel (nested_parents n). q \<noteq> i \<and> c \<noteq> i"
  using assms(2) by (force simp: fresh_def parent_rel_def dest: map_of_SomeD)

lemma register_tree:
  assumes t: "wf_tree (nested_parents n) (nested_children n)" and f: "fresh i n"
    and p: "\<forall>p. parentId = Some p \<longrightarrow> truthy p \<and> p \<noteq> i"
  shows "wf_tree (nested_parents (register i parentId isGroup n)) (nested_children (register i parentId isGroup n))"
proof -
  have rel: "child_rel (nested_children n) = parent_rel (nested_parents n)" using t by (simp add: wf_tree_def)
  note fr = fresh_rel [OF t f]
  define cs1 where
    "cs1 = (if isGroup then AList.update i [] (nested_children n) else nested_children n)"
  have cs1: "child_rel cs1 = parent_rel (nested_parents n)"
    using fr by (auto simp: cs1_def child_rel_update rel)
  show ?thesis
  proof (cases parentId)
    case None
    then have "register i parentId isGroup n = n\<lparr>nested_children := cs1\<rparr>"
      by (simp add: register_def cs1_def Let_def)
    with cs1 show ?thesis by (auto intro: wf_tree_sub [OF t])
  next
    case (Some p)
    with p have tp: "truthy p" "i \<noteq> p" by auto
    let ?ps = "AList.update i p (nested_parents n)"
    let ?cs = "AList.update p ((case map_of cs1 p of None \<Rightarrow> [] | Some l \<Rightarrow> l) @ [i]) cs1"
    have "register i parentId isGroup n = n\<lparr>nested_parents := ?ps, nested_children := ?cs\<rparr>"
      using Some tp by (simp add: register_def cs1_def Let_def)
    moreover have "parent_rel ?ps = insert (p, i) (parent_rel (nested_parents n))"
      using fr by (auto simp: parent_rel_update)
    moreover have "child_rel ?cs = insert (p, i) (parent_rel (nested_parents n))"
      by (auto simp: child_rel_update child_rel_kids cs1)
    ultimately show ?thesis using wf_tree_insert [OF t, of ?cs ?ps p i] tp fr by simp
  qed
qed

lemma unregister_tree:
  assumes t: "wf_tree (nested_parents n) (nested_children n)" and leaf: "\<And>c. (i, c) \<notin> parent_rel (nested_parents n)"
  shows "wf_tree (nested_parents (unregister i n)) (nested_children (unregister i n))"
proof (cases "isUnmounted n")
  case False
  have rel: "child_rel (nested_children n) = parent_rel (nested_parents n)" using t by (simp add: wf_tree_def)
  show ?thesis
  proof (cases "map_of (nested_parents n) i")
    case None
    have "child_rel (AList.delete i (nested_children n)) = parent_rel (AList.delete i (nested_parents n))"
      using leaf None by (auto simp: child_rel_delete parent_rel_delete rel) (simp add: parent_rel_def)
    then show ?thesis using False None
      by (intro wf_tree_sub [OF t]) (auto simp: unregister_def Let_def parent_rel_delete)
  next
    case (Some p)
    let ?cs = "AList.delete i (nested_children n)"
    have tp: "truthy p" "p \<noteq> i"
      using wf_tree_parent [OF t Some] leaf [of i] Some by (auto simp: parent_rel_def)
    have "child_rel (AList.update p (filter (\<lambda>c. c \<noteq> i) (case map_of ?cs p of None \<Rightarrow> [] | Some l \<Rightarrow> l)) ?cs)
        = parent_rel (AList.delete i (nested_parents n))"
      using leaf Some tp
      by (auto simp: child_rel_update child_rel_kids child_rel_delete parent_rel_delete rel)
        (auto simp: parent_rel_def)
    then show ?thesis using False Some tp
      by (intro wf_tree_sub [OF t]) (auto simp: unregister_def Let_def parent_rel_delete)
  qed
qed (simp add: unregister_def t)

text \<open>
  C37. An item that is set up with a fresh id under another item, whose id is truthy, or under none,
  and an item without children that is unmounted, leave the tree well-formed: the maps of
  parents and children agree, and no item is above itself.
\<close>

theorem items_keep_tree:
  assumes "wf_tree (nested_parents n) (nested_children n)"
    and "fresh i n" and "\<forall>p. parentId = Some p \<longrightarrow> truthy p \<and> p \<noteq> i"
    and "j \<notin> snd ` set (nested_parents n)"
  shows "(let n' = useNestedItem i parentId activator isGroup n
      in wf_tree (nested_parents n') (nested_children n')) \<and>
    (let n' = unmountNestedItem j activator n
      in wf_tree (nested_parents n') (nested_children n'))"
proof -
  have "(j, c) \<notin> parent_rel (nested_parents n)" for c
    using assms(4) by (force simp: parent_rel_def dest: map_of_SomeD)
  then show ?thesis
    using register_tree [OF assms(1,2,3), of isGroup] unregister_tree [OF assms(1), of j] assms(1)
    by (simp add: useNestedItem_def unmountNestedItem_def Let_def)
qed

text \<open>
  A group that leaves before its items, as a component does when it is unmounted, leaves an
  entry behind: its last item writes the list of the group again. An item that later has the
  same id counts as a group.
\<close>

definition no_model :: proxied where
  "no_model = useProxiedModel [] JUndef JUndef"

definition empty_nested :: nested where
  "empty_nested = \<lparr>nested_children = [], nested_parents = [], opened_model = no_model, opened = [],
     selected_model = no_model, isUnmounted = False, emitted = []\<rparr>"

lemma removed_group_leaves_entry:
  "\<not> isLeaf (unregister (JStr ''item'') (unregister (JStr ''group'')
     (register (JStr ''item'') (Some (JStr ''group'')) False (register (JStr ''group'') None True empty_nested))))
     (JStr ''group'')"
  by (simp add: isLeaf_def register_def unregister_def empty_nested_def Let_def)

text \<open>
  Clearing an item that is not selected, with the strategies that select one item, drops the
  selected one even where a selection is mandatory: they forget the other items first.
\<close>

lemma mandatory_single_lost:
  "on_keys (single_select True (JStr ''b'') False [(JStr ''a'', On)]) = []"
  by (simp add: single_select_def independent_select_def on_keys_def check_of_def)

text \<open>
  Where a selection is mandatory, the strategies that select
  several items never give up the last selected one: from a selection with an item selected,
  selecting or clearing any item of a well-formed tree leaves an item selected.
\<close>

lemma mandatory_keeps_selection:
  assumes "wf_tree ps cs" and "consistent cs sel" and "distinct (map fst sel)"
    and "ss \<in> {Leaf, Independent, Classic}" and "on_keys sel \<noteq> []"
  shows "\<exists>sel'. strategy_select ss True i v sel cs ps = Some (Inr sel') \<and> on_keys sel' \<noteq> []"
proof -
  have ind: "on_keys (independent_select True i v sel) \<noteq> []"
  proof (cases "v = False \<and> on_keys sel = [i]")
    case True
    then show ?thesis by (simp add: independent_select_def)
  next
    case False
    let ?sel = "AList.update i (check_of v) sel"
    have "\<exists>x. map_of ?sel x = Some On"
    proof (cases v)
      case True
      then show ?thesis by (auto simp: update_conv' check_of_def)
    next
      case nv: False
      obtain x where "x \<in> set (on_keys sel)" "x \<noteq> i"
      proof (cases "set (on_keys sel) \<subseteq> {i}")
        case True
        have "distinct (on_keys sel)" using assms(3) by (simp add: on_keys_def distinct_map_filter)
        with True assms(5) have "on_keys sel = [i]"
          by (cases "on_keys sel" rule: remdups_adj.cases) auto
        with False nv show ?thesis by simp
      qed (use that in blast)
      then show ?thesis using set_on_keys [OF assms(3)] by (auto simp: update_conv')
    qed
    moreover have "distinct (map fst ?sel)" using assms(3) by (rule distinct_update)
    ultimately have "on_keys ?sel \<noteq> []" using set_on_keys [of ?sel] by fastforce
    with False show ?thesis by (auto simp: independent_select_def)
  qed
  obtain sel' where c: "classic_select True i v sel cs ps = Some (Inr sel')" "distinct (map fst sel')"
    "v \<longrightarrow> map_of sel' i = Some On" "\<not> v \<longrightarrow> on_keys sel' \<noteq> []"
    using classic_select_ok [OF assms(1,2), of True i v] assms(3,5) by auto
  have "on_keys sel' \<noteq> []"
    using c(3,4) set_on_keys [OF c(2)] by (cases v) fastforce+
  with ind c(1) assms(4,5) show ?thesis by (auto simp: leaf_select_def)
qed

section \<open>An example\<close>

text \<open>A group \<open>g\<close> with two items and an item of its own.\<close>

definition sample_tree :: nested where
  "sample_tree = register (JStr ''c'') None False (register (JStr ''b'') (Some (JStr ''g'')) False
     (register (JStr ''a'') (Some (JStr ''g'')) False (register (JStr ''g'') None True empty_nested)))"

lemma sample_tree_fields:
  "nested_parents sample_tree = [(JStr ''a'', JStr ''g''), (JStr ''b'', JStr ''g'')]"
  "nested_children sample_tree = [(JStr ''g'', [JStr ''a'', JStr ''b''])]"
  "opened_model sample_tree = no_model" "selected_model sample_tree = no_model"
  by (simp_all add: sample_tree_def register_def empty_nested_def Let_def)

lemma empty_tree: "wf_tree (nested_parents empty_nested) (nested_children empty_nested)"
  by (simp add: wf_tree_def child_rel_def parent_rel_def empty_nested_def)

lemma sample_tree_wf: "wf_tree (nested_parents sample_tree) (nested_children sample_tree)"
  unfolding sample_tree_def
  by (intro register_tree empty_tree)
    (auto simp: fresh_def register_def empty_nested_def Let_def)

lemma no_model_uncontrolled [simp]: "\<not> isControlled prp no_model"
  by (simp add: no_model_def useProxiedModel_def isControlled_def Let_def)

lemma sample_reach: "(JStr ''g'', JStr ''a'') \<in> (child_rel (nested_children sample_tree))\<^sup>*"
  by (rule r_into_rtrancl) (simp add: child_rel_def sample_tree_fields)

theorem nested_select_sets_leaves_witness:
  "\<exists>n' sel'. nested_select Classic False Open_list (JStr ''g'') True sample_tree = Some (Inr (), n') \<and>
     selected_map Classic False n' = Some (Inr sel') \<and> isSelected sel' (JStr ''a'')"
proof -
  have "isLeaf sample_tree (JStr ''a'')" by (simp add: isLeaf_def sample_tree_fields)
  with nested_select_sets_leaves [OF sample_tree_wf, of True False Open_list "JStr ''g''"] sample_reach
  show ?thesis by (auto simp: sample_tree_fields)
qed

theorem open_single_shows_path_witness:
  "\<exists>n'. nested_open Open_single (JStr ''a'') True sample_tree = Some n' \<and>
     isOpen n' (JStr ''g'') \<and> \<not> isOpen n' (JStr ''c'')"
proof -
  have "(JStr ''g'', JStr ''a'') \<in> (parent_rel (nested_parents sample_tree))\<^sup>*"
    by (rule r_into_rtrancl) (simp add: parent_rel_def sample_tree_fields)
  moreover have "(JStr ''c'', JStr ''a'') \<notin> (parent_rel (nested_parents sample_tree))\<^sup>*"
    using parent_unique [of "JStr ''c''" "JStr ''a''" "nested_parents sample_tree" "JStr ''g''"]
    by (auto simp: sample_tree_fields parent_rel_def elim: rtranclE split: if_splits)
  ultimately show ?thesis
    using open_single_shows_path [OF sample_tree_wf, of "JStr ''a''"] by (auto simp: sample_tree_fields)
qed

theorem items_keep_tree_witness:
  "let n' = useNestedItem (JStr ''d'') (Some (JStr ''g'')) False False sample_tree
   in wf_tree (nested_parents n') (nested_children n')"
  using items_keep_tree [OF sample_tree_wf, of "JStr ''d''" "Some (JStr ''g'')" "JStr ''a''" False False]
  by (simp add: fresh_def sample_tree_fields)

theorem mandatory_keeps_selection_witness:
  "\<exists>sel'. strategy_select Classic True (JStr ''a'') False
      [(JStr ''a'', On), (JStr ''b'', Off), (JStr ''g'', Indeterminate)]
      (nested_children sample_tree) (nested_parents sample_tree) = Some (Inr sel') \<and> on_keys sel' \<noteq> []"
  by (rule mandatory_keeps_selection [OF sample_tree_wf])
    (auto simp: consistent_def state_of_def group_check_def sample_tree_fields on_keys_def Let_def
      split: if_splits)

end
