(* ===== verification/VueDiff.thy ===== *)
theory VueDiff
  imports VuetifyHelpers "HOL-Library.AList"
begin

text \<open>
  The part of Vue's renderer that updates a list of children
  (\<^verbatim>\<open>src/v2/lens3/ui/assets/index.js\<close>, \<open>patchKeyedChildren\<close>, \<open>patchUnkeyedChildren\<close> and
  \<open>getSequence\<close>): the cards of the list of pools and the rows of buckets and keys are such
  children. A virtual node is its type and its key; it has one host element (a fragment, a
  teleport or a component with several roots has more and is not modelled). The container is the
  list of its host elements; the children of the virtual node may be a part of it, in front of
  the anchor. What \<open>patch\<close> does inside an element does not change the list and is left out.
  Ends of ranges are exclusive here where the code has the last index. A key is a string, a
  number (not \<open>NaN\<close>, which \<open>===\<close> and a \<open>Map\<close> treat differently) or nullish.

  Shown below: whatever the old and the new children are, as long as no key is used twice, the
  host elements end up exactly in the order of the new children, between what stood before and
  behind them, and a new child whose key and type an old child had keeps its element; children
  without keys, updated by position, end up in order too. The
  sequence of \<open>getSequence\<close>, whose elements are not moved, is increasing in both orders.
\<close>

section \<open>Host elements\<close>

record vnode =
  vtype :: string
  vkey :: jsval

definition isSameVNodeType :: "vnode \<Rightarrow> vnode \<Rightarrow> bool" where
  "isSameVNodeType n1 n2 \<longleftrightarrow> vtype n1 = vtype n2 \<and> vkey n1 = vkey n2"

text \<open>\<open>insertBefore\<close>: an element that is in the list already is taken out first.\<close>

definition insert_before :: "nat \<Rightarrow> nat option \<Rightarrow> nat list \<Rightarrow> nat list" where
  "insert_before e anchor xs =
     (let ys = remove1 e xs in
      case anchor of
        None \<Rightarrow> ys @ [e]
      | Some a \<Rightarrow> takeWhile (\<lambda>y. y \<noteq> a) ys @ e # dropWhile (\<lambda>y. y \<noteq> a) ys)"

definition next_sibling :: "nat \<Rightarrow> nat list \<Rightarrow> nat option" where
  "next_sibling e xs = (case dropWhile (\<lambda>y. y \<noteq> e) xs of _ # a # _ \<Rightarrow> Some a | _ \<Rightarrow> None)"

text \<open>The container, the next new element, and the elements of the new children so far.\<close>

record host =
  kids :: "nat list"
  next_el :: nat
  els :: "nat option list"

definition mount_child :: "nat \<Rightarrow> nat option \<Rightarrow> host \<Rightarrow> host" where
  "mount_child j anchor h =
     h\<lparr>kids := insert_before (next_el h) anchor (kids h), next_el := Suc (next_el h),
       els := (els h)[j := Some (next_el h)]\<rparr>"

definition unmount_child :: "nat \<Rightarrow> host \<Rightarrow> host" where
  "unmount_child e h = h\<lparr>kids := remove1 e (kids h)\<rparr>"

definition move_child :: "nat \<Rightarrow> nat option \<Rightarrow> host \<Rightarrow> host" where
  "move_child j anchor h =
     (case els h ! j of
        Some e \<Rightarrow> h\<lparr>kids := insert_before e anchor (kids h)\<rparr>
      | None \<Rightarrow> h)"

text \<open>\<open>patch(n1, n2)\<close>: the element is taken over, or replaced when the type is another one.\<close>

definition patch_child :: "vnode \<times> nat \<Rightarrow> vnode \<Rightarrow> nat \<Rightarrow> host \<Rightarrow> host" where
  "patch_child n1 n2 j h =
     (if isSameVNodeType (fst n1) n2 then h\<lparr>els := (els h)[j := Some (snd n1)]\<rparr>
      else
        let anchor = next_sibling (snd n1) (kids h)
        in mount_child j anchor (unmount_child (snd n1) h))"

section \<open>The longest increasing subsequence\<close>

function bisect :: "nat list \<Rightarrow> nat list \<Rightarrow> nat \<Rightarrow> nat \<Rightarrow> nat \<Rightarrow> nat" where
  "bisect arr result arrI u v =
     (if u < v then
        let c = (u + v) div 2
        in if arr ! (result ! c) < arrI then bisect arr result arrI (c + 1) v
           else bisect arr result arrI u c
      else u)"
  by pat_completeness auto
termination by (relation "measure (\<lambda>(arr, result, arrI, u, v). v - u)") auto

declare bisect.simps [simp del]

fun sequence_step :: "nat list \<Rightarrow> nat \<Rightarrow> nat list \<times> nat list \<Rightarrow> nat list \<times> nat list" where
  "sequence_step arr i (p2, result) =
     (let arrI = arr ! i in
      if arrI = 0 then (p2, result)
      else
        let j = last result in
        if arr ! j < arrI then (p2[i := j], result @ [i])
        else
          let u = bisect arr result arrI 0 (length result - 1) in
          if arrI < arr ! (result ! u)
          then (if 0 < u then p2[i := result ! (u - 1)] else p2, result[u := i])
          else (p2, result))"

text \<open>The last loop: the predecessors from the last element, back to front.\<close>

fun follow :: "nat list \<Rightarrow> nat \<Rightarrow> nat \<Rightarrow> nat list \<Rightarrow> nat list" where
  "follow p2 0 v acc = acc"
| "follow p2 (Suc u) v acc = follow p2 u (p2 ! v) (v # acc)"

definition getSequence :: "nat list \<Rightarrow> nat list" where
  "getSequence arr =
     (case fold (sequence_step arr) [0..<length arr] (arr, [0]) of
        (p2, result) \<Rightarrow> follow p2 (length result) (last result) [])"

section \<open>Updating children with keys\<close>

text \<open>The common start, from index \<open>i\<close>, and the common end, from the last elements.\<close>

fun sync_start :: "(vnode \<times> nat) list \<Rightarrow> vnode list \<Rightarrow> nat \<Rightarrow> host \<Rightarrow> nat \<times> host" where
  "sync_start (n1 # c1) (n2 # c2) i h =
     (if isSameVNodeType (fst n1) n2 then sync_start c1 c2 (Suc i) (patch_child n1 n2 i h) else (i, h))"
| "sync_start _ _ i h = (i, h)"

fun sync_end :: "(vnode \<times> nat) list \<Rightarrow> vnode list \<Rightarrow> nat \<Rightarrow> host \<Rightarrow> nat \<times> host" where
  "sync_end (n1 # c1) (n2 # c2) e2 h =
     (if isSameVNodeType (fst n1) n2 then sync_end c1 c2 (e2 - 1) (patch_child n1 n2 (e2 - 1) h) else (e2, h))"
| "sync_end _ _ e2 h = (e2, h)"

definition anchor_at :: "nat option \<Rightarrow> nat \<Rightarrow> host \<Rightarrow> nat option" where
  "anchor_at parentAnchor nextPos h = (if nextPos < length (els h) then els h ! nextPos else parentAnchor)"

definition key_index :: "vnode list \<Rightarrow> nat \<Rightarrow> nat \<Rightarrow> (jsval \<times> nat) list" where
  "key_index c2 s2 e2 =
     fold (\<lambda>i m. if nullish (vkey (c2 ! i)) then m else AList.update (vkey (c2 ! i)) i m) [s2..<e2] []"

record matching =
  patched :: nat
  moved :: bool
  maxNewIndexSoFar :: nat
  newIndexToOldIndexMap :: "nat list"

definition new_index ::
  "vnode list \<Rightarrow> nat \<Rightarrow> nat \<Rightarrow> (jsval \<times> nat) list \<Rightarrow> nat list \<Rightarrow> vnode \<Rightarrow> nat option" where
  "new_index c2 s2 e2 keyToNewIndexMap arr prevChild =
     (if \<not> nullish (vkey prevChild) then map_of keyToNewIndexMap (vkey prevChild)
      else List.find (\<lambda>j. arr ! (j - s2) = 0 \<and> isSameVNodeType prevChild (c2 ! j)) [s2..<e2])"

fun match_old ::
  "vnode list \<Rightarrow> nat \<Rightarrow> nat \<Rightarrow> (jsval \<times> nat) list \<Rightarrow> nat \<times> vnode \<times> nat \<Rightarrow> matching \<times> host \<Rightarrow> matching \<times> host" where
  "match_old c2 s2 e2 keyToNewIndexMap (i, prevChild, el) (w, h) =
     (if patched w \<ge> e2 - s2 then (w, unmount_child el h)
      else case new_index c2 s2 e2 keyToNewIndexMap (newIndexToOldIndexMap w) prevChild of
        None \<Rightarrow> (w, unmount_child el h)
      | Some newIndex \<Rightarrow>
          (w\<lparr>newIndexToOldIndexMap := (newIndexToOldIndexMap w)[newIndex - s2 := i + 1],
             maxNewIndexSoFar := (if newIndex \<ge> maxNewIndexSoFar w then newIndex else maxNewIndexSoFar w),
             moved := (moved w \<or> newIndex < maxNewIndexSoFar w),
             patched := patched w + 1\<rparr>,
           patch_child (prevChild, el) (c2 ! newIndex) newIndex h))"

text \<open>From the last new child to the first; \<open>seq\<close> is the sequence that is left, back to front.\<close>

fun place :: "nat \<Rightarrow> nat option \<Rightarrow> nat list \<Rightarrow> bool \<Rightarrow> nat \<Rightarrow> nat list \<Rightarrow> host \<Rightarrow> host" where
  "place s2 parentAnchor arr mvd 0 seq h = h"
| "place s2 parentAnchor arr mvd (Suc i) seq h =
     (let anchor = anchor_at parentAnchor (s2 + i + 1) h in
      if arr ! i = 0 then place s2 parentAnchor arr mvd i seq (mount_child (s2 + i) anchor h)
      else if mvd then
        (case seq of
           x # xs \<Rightarrow>
             if i = x then place s2 parentAnchor arr mvd i xs h
             else place s2 parentAnchor arr mvd i seq (move_child (s2 + i) anchor h)
         | [] \<Rightarrow> place s2 parentAnchor arr mvd i seq (move_child (s2 + i) anchor h))
      else place s2 parentAnchor arr mvd i seq h)"

definition patch_middle ::
  "(vnode \<times> nat) list \<Rightarrow> vnode list \<Rightarrow> nat \<Rightarrow> nat \<Rightarrow> nat \<Rightarrow> nat option \<Rightarrow> host \<Rightarrow> host" where
  "patch_middle c1 c2 s e1 e2 parentAnchor h =
     (let toBePatched = e2 - s;
          w0 = \<lparr>patched = 0, moved = False, maxNewIndexSoFar = 0,
                newIndexToOldIndexMap = replicate toBePatched 0\<rparr>;
          (w, h1) = fold (match_old c2 s e2 (key_index c2 s e2)) (map (\<lambda>i. (i, c1 ! i)) [s..<e1]) (w0, h);
          arr = newIndexToOldIndexMap w;
          seq = (if moved w then getSequence arr else [])
      in place s parentAnchor arr (moved w) toBePatched (rev seq) h1)"

definition patchKeyedChildren ::
  "(vnode \<times> nat) list \<Rightarrow> vnode list \<Rightarrow> nat option \<Rightarrow> host \<Rightarrow> host" where
  "patchKeyedChildren c1 c2 parentAnchor h =
     (let (i, h1) = sync_start c1 c2 0 h;
          (e2, h2) = sync_end (rev (drop i c1)) (rev (drop i c2)) (length c2) h1;
          e1 = length c1 - (length c2 - e2)
      in if i \<ge> e1 then
           (if i < e2 then fold (\<lambda>j. mount_child j (anchor_at parentAnchor e2 h2)) [i..<e2] h2 else h2)
         else if i \<ge> e2 then fold (\<lambda>j. unmount_child (snd (c1 ! j))) [i..<e1] h2
         else patch_middle c1 c2 i e1 e2 parentAnchor h2)"

section \<open>Updating children without keys\<close>

definition patchUnkeyedChildren ::
  "(vnode \<times> nat) list \<Rightarrow> vnode list \<Rightarrow> nat option \<Rightarrow> host \<Rightarrow> host" where
  "patchUnkeyedChildren c1 c2 anchor h =
     (let commonLength = min (length c1) (length c2);
          h1 = fold (\<lambda>i. patch_child (c1 ! i) (c2 ! i) i) [0..<commonLength] h
      in if length c2 < length c1
         then fold (\<lambda>i. unmount_child (snd (c1 ! i))) [commonLength..<length c1] h1
         else fold (\<lambda>i. mount_child i anchor) [commonLength..<length c2] h1)"

section \<open>The sequence is increasing\<close>

lemma bisect_below:
  "u = 0 \<or> arr ! (result ! (u - 1)) < x \<Longrightarrow>
   bisect arr result x u v = 0 \<or> arr ! (result ! (bisect arr result x u v - 1)) < x"
proof (induction arr result x u v rule: bisect.induct)
  case (1 arr result x u v)
  then show ?case by (subst (1 2) bisect.simps) (simp add: Let_def)
qed

lemma bisect_le: "u \<le> v \<Longrightarrow> bisect arr result x u v \<le> v"
proof (induction arr result x u v rule: bisect.induct)
  case (1 arr result x u v)
  have "u \<le> (u + v) div 2" "(u + v) div 2 \<le> v" if "u < v" using that by linarith+
  with 1 show ?case by (subst bisect.simps) (fastforce simp: Let_def)
qed

text \<open>The predecessors from \<open>v\<close>: \<open>k\<close> steps down, in both orders.\<close>

fun chain :: "nat list \<Rightarrow> nat list \<Rightarrow> nat \<Rightarrow> nat \<Rightarrow> bool" where
  "chain arr p v 0 = (v = 0 \<or> arr ! v \<noteq> 0)"
| "chain arr p v (Suc k) = (p ! v < v \<and> arr ! (p ! v) < arr ! v \<and> chain arr p (p ! v) k)"

lemma chain_update: "chain arr p v k \<Longrightarrow> v < i \<Longrightarrow> chain arr (p[i := x]) v k"
  by (induction k arbitrary: v) auto

definition tails_ok :: "nat list \<Rightarrow> nat \<Rightarrow> nat list \<times> nat list \<Rightarrow> bool" where
  "tails_ok arr i pr \<longleftrightarrow> snd pr \<noteq> [] \<and> length (fst pr) = length arr \<and>
     (\<forall>k < length (snd pr). snd pr ! k < max i 1 \<and> chain arr (fst pr) (snd pr ! k) k)"

lemma tails_step:
  assumes "tails_ok arr i pr" "i < length arr"
  shows "tails_ok arr (Suc i) (sequence_step arr i pr)"
proof -
  obtain p r where pr: "pr = (p, r)" by fastforce
  have r: "r \<noteq> []" "length p = length arr" "\<And>k. k < length r \<Longrightarrow> r ! k < max i 1"
    "\<And>k. k < length r \<Longrightarrow> chain arr p (r ! k) k"
    using assms(1) by (auto simp: tails_ok_def pr)
  have keep: "r ! k < Suc i" if "k < length r" for k using r(3) [OF that] by auto
  have keep_chain: "chain arr (p[i := x]) (r ! k) k" if "k < length r" "0 < i" for k x
    using r(3,4) [OF that(1)] that(2) by (intro chain_update) auto
  show ?thesis
  proof (cases "arr ! i = 0")
    case True
    with r(1,2,4) keep show ?thesis by (simp add: tails_ok_def pr)
  next
    case nz: False
    let ?j = "last r"
    have j: "?j = r ! (length r - 1)" using r(1) by (simp add: last_conv_nth)
    show ?thesis
    proof (cases "arr ! ?j < arr ! i")
      case True
      have "0 < i"
      proof (rule ccontr)
        assume "\<not> 0 < i"
        then have "?j = 0" "i = 0" using r(1) r(3) [of "length r - 1"] j by auto
        with True show False by simp
      qed
      then have "?j < i" using r(1) r(3) [of "length r - 1"] j by auto
      moreover have "chain arr (p[i := ?j]) ?j (length r - 1)"
        using keep_chain [of "length r - 1"] r(1) \<open>0 < i\<close> j by simp
      ultimately have "chain arr (p[i := ?j]) i (length r)"
        using r(1,2) True assms(2) by (cases "length r") auto
      with nz True r(1,2) keep keep_chain \<open>0 < i\<close> show ?thesis
        by (auto simp: tails_ok_def pr Let_def nth_append less_Suc_eq)
    next
      case False
      define u where "u = bisect arr r (arr ! i) 0 (length r - 1)"
      have u: "u < length r" using bisect_le [of 0 "length r - 1" arr r "arr ! i"] r(1)
        by (cases r) (auto simp: u_def)
      have step: "sequence_step arr i pr =
          (if arr ! i < arr ! (r ! u) then (if 0 < u then p[i := r ! (u - 1)] else p, r[u := i]) else (p, r))"
        using nz False by (simp add: pr Let_def u_def)
      show ?thesis
      proof (cases "arr ! i < arr ! (r ! u)")
        case up: True
        then have i: "0 < i" using r(3) [OF u] by (cases i) auto
        show ?thesis
        proof (cases u)
          case 0
          have "r[0 := i] ! k < Suc i \<and> chain arr p (r[0 := i] ! k) k" if "k < length r" for k
            using that keep [OF that] r(4) [OF that] nz by (cases k) auto
          then show ?thesis using up 0 r(1,2) by (simp add: tails_ok_def step)
        next
          case (Suc w)
          have "arr ! (r ! w) < arr ! i"
            using bisect_below [of 0 arr r "arr ! i" "length r - 1", folded u_def] Suc by simp
          moreover have "r ! w < i" using r(3) [of w] u Suc i by auto
          ultimately have "chain arr (p[i := r ! w]) i u"
            using keep_chain [of w "r ! w"] u Suc i r(2) assms(2) by simp
          then have "r[u := i] ! k < Suc i \<and> chain arr (p[i := r ! w]) (r[u := i] ! k) k" if "k < length r" for k
            using that keep [OF that] keep_chain [OF that i] by (cases "k = u") auto
          then show ?thesis using up Suc r(1,2) by (simp add: tails_ok_def step)
        qed
      next
        case False
        with r(1,2,4) keep show ?thesis by (simp add: tails_ok_def step)
      qed
    qed
  qed
qed

lemma tails_fold:
  "n \<le> length arr \<Longrightarrow> tails_ok arr n (fold (sequence_step arr) [0..<n] (arr, [0]))"
proof (induction n)
  case 0
  then show ?case by (simp add: tails_ok_def)
next
  case (Suc n)
  then show ?case using tails_step [of arr n] by simp
qed

lemma follow_chain:
  "chain arr p v k \<Longrightarrow> \<exists>xs. follow p (Suc k) v acc = xs @ acc \<and>
     sorted_wrt (\<lambda>a b. a < b \<and> arr ! a < arr ! b) xs \<and>
     (\<forall>x \<in> set xs. (x = 0 \<or> arr ! x \<noteq> 0) \<and> (x = v \<or> x < v \<and> arr ! x < arr ! v)) \<and> length xs = Suc k"
proof (induction k arbitrary: v acc)
  case 0
  then show ?case by (intro exI [of _ "[v]"]) auto
next
  case (Suc k)
  then have c: "p ! v < v" "arr ! (p ! v) < arr ! v" "chain arr p (p ! v) k" by simp_all
  from Suc.IH [OF c(3), of "v # acc"] obtain xs where
    xs: "follow p (Suc k) (p ! v) (v # acc) = xs @ v # acc"
      "sorted_wrt (\<lambda>a b. a < b \<and> arr ! a < arr ! b) xs"
      "\<forall>x \<in> set xs. (x = 0 \<or> arr ! x \<noteq> 0) \<and> (x = p ! v \<or> x < p ! v \<and> arr ! x < arr ! (p ! v))"
      "length xs = Suc k" by blast
  have below: "x < v \<and> arr ! x < arr ! v" if "x \<in> set xs" for x
    using bspec [OF xs(3) that] c(1,2) by auto
  have "sorted_wrt (\<lambda>a b. a < b \<and> arr ! a < arr ! b) (xs @ [v])"
    using xs(2) below by (simp add: sorted_wrt_append)
  moreover have "\<forall>x \<in> set (xs @ [v]). (x = 0 \<or> arr ! x \<noteq> 0) \<and> (x = v \<or> x < v \<and> arr ! x < arr ! v)"
    using xs(3) below c(2) by auto
  ultimately show ?case using xs(1,4) by (intro exI [of _ "xs @ [v]"]) simp
qed

lemma getSequence_increasing:
  assumes "arr \<noteq> []"
  shows "sorted_wrt (\<lambda>a b. a < b \<and> arr ! a < arr ! b) (getSequence arr)"
    and "\<forall>x \<in> set (getSequence arr). x < length arr \<and> (x = 0 \<or> arr ! x \<noteq> 0)"
proof -
  obtain p r where pr: "fold (sequence_step arr) [0..<length arr] (arr, [0]) = (p, r)" by fastforce
  then have ok: "tails_ok arr (length arr) (p, r)" using tails_fold [of "length arr" arr] by simp
  then have r: "r \<noteq> []" "last r < length arr" "chain arr p (last r) (length r - 1)"
  proof -
    show "r \<noteq> []" using ok by (simp add: tails_ok_def)
    then have "length r - 1 < length r" "last r = r ! (length r - 1)" by (simp_all add: last_conv_nth)
    moreover have "max (length arr) 1 = length arr" using assms by (cases arr) auto
    ultimately show "last r < length arr" "chain arr p (last r) (length r - 1)"
      using ok by (simp_all add: tails_ok_def)
  qed
  from follow_chain [OF r(3), of "[]"] obtain xs where
    xs: "follow p (Suc (length r - 1)) (last r) [] = xs @ []" "sorted_wrt (\<lambda>a b. a < b \<and> arr ! a < arr ! b) xs"
    "\<forall>x \<in> set xs. (x = 0 \<or> arr ! x \<noteq> 0) \<and> (x = last r \<or> x < last r \<and> arr ! x < arr ! last r)" by blast
  have "getSequence arr = xs" using xs(1) r(1) by (simp add: getSequence_def pr del: follow.simps)
  with xs(2,3) r(2) show "sorted_wrt (\<lambda>a b. a < b \<and> arr ! a < arr ! b) (getSequence arr)"
    "\<forall>x \<in> set (getSequence arr). x < length arr \<and> (x = 0 \<or> arr ! x \<noteq> 0)"
    by auto
qed

section \<open>Inserting\<close>

fun first :: "'a list \<Rightarrow> 'a option" where
  "first [] = None"
| "first (x # xs) = Some x"

lemma first_append: "first (xs @ ys) = (if xs = [] then first ys else first xs)"
  by (cases xs) auto

text \<open>
  Inserting an element before the first one of a part of the list, seen through a filter that
  hides the element until then.
\<close>

lemma filter_insert_before:
  assumes "distinct D" and "filter P D = xs @ ys" and "e \<notin> set (filter P D)"
    and "anchor = first ys" and "\<And>y. Q y \<longleftrightarrow> P y \<or> y = e"
  shows "filter Q (insert_before e anchor D) = xs @ e # ys"
    and "set (insert_before e anchor D) = insert e (set D)" and "distinct (insert_before e anchor D)"
proof -
  define D' where "D' = remove1 e D"
  have D': "distinct D'" "e \<notin> set D'" "set D' = set D - {e}"
    using assms(1) by (simp_all add: D'_def set_remove1_eq)
  have "filter Q D' = filter P D'" using D'(2) assms(5) by (intro filter_cong) auto
  also have "\<dots> = filter P D" using assms(3) by (simp add: D'_def filter_remove1 remove1_idem)
  finally have f: "filter Q D' = xs @ ys" using assms(2) by simp
  have dxy: "distinct (xs @ ys)" using f D'(1) by (metis distinct_filter)
  show "filter Q (insert_before e anchor D) = xs @ e # ys"
  proof (cases ys)
    case Nil
    with f assms(4,5) show ?thesis by (simp add: insert_before_def flip: D'_def)
  next
    case (Cons a zs)
    have "a \<notin> set xs" using dxy Cons by auto
    have "a \<in> set (filter Q D')" by (simp add: f Cons)
    then have a: "Q a" "a \<in> set D'" by simp_all
    have tw: "filter Q (takeWhile (\<lambda>y. y \<noteq> a) L) = takeWhile (\<lambda>y. y \<noteq> a) (filter Q L)"
      and dw: "filter Q (dropWhile (\<lambda>y. y \<noteq> a) L) = dropWhile (\<lambda>y. y \<noteq> a) (filter Q L)" for L
      using a(1) by (induction L) auto
    have "takeWhile (\<lambda>y. y \<noteq> a) (xs @ a # zs) = xs" "dropWhile (\<lambda>y. y \<noteq> a) (xs @ a # zs) = a # zs"
      using \<open>a \<notin> set xs\<close> by (auto simp: takeWhile_append dropWhile_append)
    with f Cons assms(4,5) show ?thesis
      by (simp add: insert_before_def tw dw flip: D'_def)
  qed
  have "insert_before e anchor D = (case anchor of None \<Rightarrow> D' @ [e]
      | Some a \<Rightarrow> takeWhile (\<lambda>y. y \<noteq> a) D' @ e # dropWhile (\<lambda>y. y \<noteq> a) D')"
    unfolding insert_before_def D'_def Let_def ..
  moreover have sets: "set (takeWhile (\<lambda>y. y \<noteq> a) D') \<union> set (dropWhile (\<lambda>y. y \<noteq> a) D') = set D'" for a
    by (metis set_append takeWhile_dropWhile_id)
  moreover have "distinct (takeWhile (\<lambda>y. y \<noteq> a) D' @ e # dropWhile (\<lambda>y. y \<noteq> a) D')" for a
  proof -
    have "distinct (takeWhile (\<lambda>y. y \<noteq> a) D' @ dropWhile (\<lambda>y. y \<noteq> a) D')" using D'(1) by simp
    moreover have "e \<notin> set (takeWhile (\<lambda>y. y \<noteq> a) D')" "e \<notin> set (dropWhile (\<lambda>y. y \<noteq> a) D')"
      using sets [of a] D'(2) by auto
    ultimately show ?thesis by (simp only: distinct_append distinct.simps list.set) blast
  qed
  ultimately show "set (insert_before e anchor D) = insert e (set D)" "distinct (insert_before e anchor D)"
    using D' by (auto split: option.split)
qed

section \<open>Placing the new children\<close>

text \<open>The element of the new child \<open>x\<close> of the middle part, which starts at \<open>s\<close>.\<close>

definition el_at :: "nat \<Rightarrow> host \<Rightarrow> nat \<Rightarrow> nat" where
  "el_at s h x = the (els h ! (s + x))"

text \<open>
  The children from \<open>i\<close> on are placed. Without the elements that are still to be moved, the
  container holds: what stands in front, the elements that stay, the placed ones, what stands
  behind.
\<close>

definition movable :: "nat list \<Rightarrow> (nat \<Rightarrow> bool) \<Rightarrow> nat \<Rightarrow> nat set" where
  "movable arr stay i = {x. x < i \<and> arr ! x \<noteq> 0 \<and> \<not> stay x}"

definition placed_from ::
  "nat list \<Rightarrow> nat list \<Rightarrow> nat list \<Rightarrow> (nat \<Rightarrow> bool) \<Rightarrow> nat \<Rightarrow> nat \<Rightarrow> nat \<Rightarrow> host \<Rightarrow> bool" where
  "placed_from before behind arr stay s n i h \<longleftrightarrow>
     distinct (kids h) \<and> (\<forall>e \<in> set (kids h). e < next_el h) \<and> s + n \<le> length (els h) \<and>
     (\<forall>x < n. arr ! x \<noteq> 0 \<or> i \<le> x \<longrightarrow> els h ! (s + x) \<noteq> None \<and> el_at s h x \<in> set (kids h)) \<and>
     inj_on (el_at s h) {x. x < n \<and> (arr ! x \<noteq> 0 \<or> i \<le> x)} \<and>
     filter (\<lambda>e. e \<notin> el_at s h ` movable arr stay i) (kids h) =
       before @ map (el_at s h) (filter stay [0..<i]) @ map (el_at s h) [i..<n] @ behind"

lemma movable_Suc:
  "movable arr stay (Suc i) = (if arr ! i \<noteq> 0 \<and> \<not> stay i then insert i (movable arr stay i) else movable arr stay i)"
  by (auto simp: movable_def less_Suc_eq)

lemma el_at_update:
  "s + i < length (els h) \<Longrightarrow>
   el_at s (h\<lparr>kids := k, next_el := m, els := (els h)[s + i := Some e]\<rparr>) x = (if x = i then e else el_at s h x)"
  by (simp add: el_at_def nth_list_update)

lemma el_at_kids [simp]: "el_at s (h\<lparr>kids := k\<rparr>) = el_at s h"
  by (simp add: el_at_def fun_eq_iff)

lemma placed_anchor:
  assumes "placed_from before behind arr stay s n (Suc i) h" "i < n"
    and "anchor_at pa (s + n) h = first behind"
  shows "anchor_at pa (s + i + 1) h = first (map (el_at s h) [Suc i..<n] @ behind)"
proof (cases "Suc i < n")
  case True
  have "els h ! (s + Suc i) \<noteq> None" "s + n \<le> length (els h)"
    using assms(1) True by (auto simp: placed_from_def)
  then show ?thesis using True by (simp add: anchor_at_def el_at_def upt_rec [of "Suc i"] first_append)
next
  case False
  with assms(2) have "n = Suc i" by simp
  with assms(3) show ?thesis by (simp add: anchor_at_def)
qed

text \<open>The three ways to place a child: mount it, leave it, move it.\<close>

lemma place_mount:
  assumes p: "placed_from before behind arr stay s n (Suc i) h" and i: "i < n" "arr ! i = 0" "\<not> stay i"
    and a: "anchor = first (map (el_at s h) [Suc i..<n] @ behind)"
  shows "placed_from before behind arr stay s n i (mount_child (s + i) anchor h)"
proof -
  let ?h = "mount_child (s + i) anchor h" and ?e = "next_el h" and ?A = "{x. x < n \<and> (arr ! x \<noteq> 0 \<or> Suc i \<le> x)}"
  have h: "distinct (kids h)" "\<forall>e \<in> set (kids h). e < ?e" "s + n \<le> length (els h)"
    "\<forall>x \<in> ?A. els h ! (s + x) \<noteq> None \<and> el_at s h x \<in> set (kids h)" "inj_on (el_at s h) ?A"
    "filter (\<lambda>e. e \<notin> el_at s h ` movable arr stay i) (kids h) =
       (before @ map (el_at s h) (filter stay [0..<i])) @ map (el_at s h) [Suc i..<n] @ behind"
    using p i by (auto simp: placed_from_def movable_Suc)
  have new: "?e \<notin> set (kids h)" using h(2) by blast
  have el: "el_at s ?h x = (if x = i then ?e else el_at s h x)" for x
    using h(3) i(1) by (simp add: mount_child_def el_at_update)
  have mov: "el_at s ?h ` movable arr stay i = el_at s h ` movable arr stay i"
    using el by (intro image_cong) (auto simp: movable_def)
  have sub: "movable arr stay i \<subseteq> ?A" using i(1) by (auto simp: movable_def)
  then have nm: "?e \<notin> el_at s h ` movable arr stay i" using h(4) new by auto
  have notin: "?e \<notin> set (filter (\<lambda>e. e \<notin> el_at s h ` movable arr stay i) (kids h))" using new by simp
  note ins = filter_insert_before [OF h(1,6) notin a, where Q = "\<lambda>e. e \<notin> el_at s h ` movable arr stay i"]
  have q: "(y \<notin> el_at s h ` movable arr stay i) = (y \<notin> el_at s h ` movable arr stay i \<or> y = ?e)" for y
    using nm by (cases "y = ?e") simp_all
  have k: "kids ?h = insert_before ?e anchor (kids h)" by (simp add: mount_child_def)
  have maps: "map (el_at s ?h) (filter stay [0..<i]) = map (el_at s h) (filter stay [0..<i])"
    "map (el_at s ?h) [i..<n] = ?e # map (el_at s h) [Suc i..<n]"
    using el i(1) by (auto simp: upt_rec [of i])
  have A: "{x. x < n \<and> (arr ! x \<noteq> 0 \<or> i \<le> x)} = insert i ?A" using i by (auto simp: le_eq_less_or_eq)
  have "inj_on (el_at s ?h) (insert i ?A)"
    using h(4,5) new i by (auto simp: inj_on_def el)
  moreover have "\<forall>x < n. arr ! x \<noteq> 0 \<or> i \<le> x \<longrightarrow> els ?h ! (s + x) \<noteq> None \<and> el_at s ?h x \<in> set (kids ?h)"
  proof (intro allI impI)
    fix x
    assume "x < n" "arr ! x \<noteq> 0 \<or> i \<le> x"
    with A have "x = i \<or> x \<in> ?A" by blast
    then show "els ?h ! (s + x) \<noteq> None \<and> el_at s ?h x \<in> set (kids ?h)"
      using h(3,4) ins(2) [OF q] i(1) unfolding k el by (auto simp: mount_child_def nth_list_update)
  qed
  moreover have "\<forall>e \<in> set (kids ?h). e < next_el ?h"
    using h(2) ins(2) [OF q] by (auto simp: mount_child_def)
  moreover have "filter (\<lambda>e. e \<notin> el_at s ?h ` movable arr stay i) (kids ?h) =
      before @ map (el_at s ?h) (filter stay [0..<i]) @ map (el_at s ?h) [i..<n] @ behind"
    using ins(1) [OF q] unfolding mov maps k by simp
  ultimately show ?thesis
    using ins(3) [OF q] h(3) unfolding placed_from_def A k by (auto simp: mount_child_def)
qed

lemma place_stay:
  assumes p: "placed_from before behind arr stay s n (Suc i) h" and i: "i < n" "arr ! i \<noteq> 0" "stay i"
  shows "placed_from before behind arr stay s n i h"
proof -
  have A: "{x. x < n \<and> (arr ! x \<noteq> 0 \<or> i \<le> x)} = {x. x < n \<and> (arr ! x \<noteq> 0 \<or> Suc i \<le> x)}"
    using i by (auto simp: le_eq_less_or_eq)
  have "\<forall>x < n. arr ! x \<noteq> 0 \<or> i \<le> x \<longrightarrow> arr ! x \<noteq> 0 \<or> Suc i \<le> x"
    using i by (auto simp: le_eq_less_or_eq)
  with p i show ?thesis
    unfolding placed_from_def A by (auto simp: movable_Suc upt_rec [of i])
qed

lemma place_move:
  assumes p: "placed_from before behind arr stay s n (Suc i) h" and i: "i < n" "arr ! i \<noteq> 0" "\<not> stay i"
    and a: "anchor = first (map (el_at s h) [Suc i..<n] @ behind)"
  shows "placed_from before behind arr stay s n i (move_child (s + i) anchor h)"
proof -
  let ?e = "el_at s h i" and ?A = "{x. x < n \<and> (arr ! x \<noteq> 0 \<or> Suc i \<le> x)}"
  have h: "distinct (kids h)" "\<forall>e \<in> set (kids h). e < next_el h" "s + n \<le> length (els h)"
    "\<forall>x \<in> ?A. els h ! (s + x) \<noteq> None \<and> el_at s h x \<in> set (kids h)" "inj_on (el_at s h) ?A"
    "filter (\<lambda>e. e \<notin> el_at s h ` insert i (movable arr stay i)) (kids h) =
       (before @ map (el_at s h) (filter stay [0..<i])) @ map (el_at s h) [Suc i..<n] @ behind"
    using p i by (auto simp: placed_from_def movable_Suc)
  have A: "{x. x < n \<and> (arr ! x \<noteq> 0 \<or> i \<le> x)} = ?A" using i by (auto simp: le_eq_less_or_eq)
  have "i \<in> ?A" "movable arr stay i \<subseteq> ?A" "i \<notin> movable arr stay i" using i by (auto simp: movable_def)
  then have nm: "?e \<notin> el_at s h ` movable arr stay i" using h(5) by (auto dest: inj_onD)
  have some: "els h ! (s + i) = Some ?e" using h(4) \<open>i \<in> ?A\<close> by (auto simp: el_at_def)
  then have mv: "move_child (s + i) anchor h = h\<lparr>kids := insert_before ?e anchor (kids h)\<rparr>"
    by (simp add: move_child_def)
  have notin: "?e \<notin> set (filter (\<lambda>e. e \<notin> el_at s h ` insert i (movable arr stay i)) (kids h))" by simp
  note ins = filter_insert_before [OF h(1,6) notin a, where Q = "\<lambda>e. e \<notin> el_at s h ` movable arr stay i"]
  have q: "(y \<notin> el_at s h ` movable arr stay i) = (y \<notin> el_at s h ` insert i (movable arr stay i) \<or> y = ?e)" for y
    using nm by (cases "y = ?e") simp_all
  have e: "?e \<in> set (kids h)" using h(4) \<open>i \<in> ?A\<close> by auto
  have "filter (\<lambda>e. e \<notin> el_at s h ` movable arr stay i) (insert_before ?e anchor (kids h)) =
      before @ map (el_at s h) (filter stay [0..<i]) @ map (el_at s h) [i..<n] @ behind"
    using ins(1) [OF q] i(1) by (simp add: upt_rec [of i])
  moreover have "set (insert_before ?e anchor (kids h)) = set (kids h)" using ins(2) [OF q] e by auto
  moreover have "\<forall>x < n. arr ! x \<noteq> 0 \<or> i \<le> x \<longrightarrow> x \<in> ?A" using A by blast
  ultimately show ?thesis
    using ins(3) [OF q] h unfolding placed_from_def A mv by auto
qed

text \<open>All of them, from the last to the first.\<close>

lemma mount_child_fields [simp]:
  "length (els (mount_child j a h)) = length (els h)"
  "j \<noteq> k \<Longrightarrow> els (mount_child j a h) ! k = els h ! k"
  by (simp_all add: mount_child_def)

lemma move_child_els [simp]: "els (move_child j a h) = els h"
  by (simp add: move_child_def split: option.split)

lemma anchor_at_cong:
  "length (els h') = length (els h) \<Longrightarrow> els h' ! k = els h ! k \<Longrightarrow> anchor_at pa k h' = anchor_at pa k h"
  by (simp add: anchor_at_def)

lemma place_step:
  assumes p: "placed_from before behind arr stay s n (Suc i) h" and i: "i < n"
    and an: "anchor_at pa (s + n) h = first behind"
    and seq: "sorted_wrt (>) seq" "\<forall>x \<in> set seq. x < Suc i" "\<forall>x \<in> set seq. arr ! x = 0 \<longrightarrow> x = 0" "\<not> mvd \<longrightarrow> seq = []"
    and st: "\<forall>x < Suc i. stay x \<longleftrightarrow> arr ! x \<noteq> 0 \<and> (mvd \<longrightarrow> x \<in> set seq)"
  shows "\<exists>seq' h'. place s pa arr mvd (Suc i) seq h = place s pa arr mvd i seq' h' \<and>
    placed_from before behind arr stay s n i h' \<and> length (els h') = length (els h) \<and>
    (\<forall>k. k \<noteq> s + i \<or> arr ! i \<noteq> 0 \<longrightarrow> els h' ! k = els h ! k) \<and>
    sorted_wrt (>) seq' \<and> (\<forall>x \<in> set seq'. x < i) \<and> (\<forall>x \<in> set seq'. arr ! x = 0 \<longrightarrow> x = 0) \<and>
    (\<not> mvd \<longrightarrow> seq' = []) \<and> (\<forall>x < i. stay x \<longleftrightarrow> arr ! x \<noteq> 0 \<and> (mvd \<longrightarrow> x \<in> set seq'))"
proof -
  let ?anchor = "anchor_at pa (s + i + 1) h"
  have a: "?anchor = first (map (el_at s h) [Suc i..<n] @ behind)"
    by (rule placed_anchor [OF p i an])
  have sti: "stay i \<longleftrightarrow> arr ! i \<noteq> 0 \<and> (mvd \<longrightarrow> i \<in> set seq)" using st by simp
  consider (mount) "arr ! i = 0" | (stay) "arr ! i \<noteq> 0" "stay i" | (move) "arr ! i \<noteq> 0" "\<not> stay i" by blast
  then show ?thesis
  proof cases
    case mount
    let ?h = "mount_child (s + i) ?anchor h" and ?seq = "if i = 0 then [] else seq"
    show ?thesis
    proof (rule exI [of _ ?seq], rule exI [of _ ?h], intro conjI)
      show "placed_from before behind arr stay s n i ?h"
        using sti mount by (intro place_mount [OF p i _ _ a]) auto
      show "place s pa arr mvd (Suc i) seq h = place s pa arr mvd i ?seq ?h"
        using mount by (simp add: Let_def)
      show "\<forall>x \<in> set ?seq. x < i" using seq(2,3) mount by (auto simp: less_Suc_eq)
      show "\<forall>x < i. stay x \<longleftrightarrow> arr ! x \<noteq> 0 \<and> (mvd \<longrightarrow> x \<in> set ?seq)" using st by simp
      show "\<forall>k. k \<noteq> s + i \<or> arr ! i \<noteq> 0 \<longrightarrow> els ?h ! k = els h ! k" using mount by simp
    qed (use seq in simp_all)
  next
    case stay
    show ?thesis
    proof (cases mvd)
      case False
      then have "place s pa arr mvd (Suc i) seq h = place s pa arr mvd i seq h" using stay by (simp add: Let_def)
      with place_stay [OF p i stay] False seq st show ?thesis by (intro exI [of _ seq] exI [of _ h]) auto
    next
      case True
      then have "i \<in> set seq" using sti stay by simp
      then obtain x xs where x: "seq = x # xs" by (cases seq) auto
      have "x = i"
      proof (rule ccontr)
        assume "x \<noteq> i"
        with x \<open>i \<in> set seq\<close> seq(1) have "i < x" by auto
        with x seq(2) show False by simp
      qed
      with x have xs: "seq = i # xs" by simp
      then have "place s pa arr mvd (Suc i) seq h = place s pa arr mvd i xs h" using stay True by (simp add: Let_def)
      with place_stay [OF p i stay] True seq st xs show ?thesis by (intro exI [of _ xs] exI [of _ h]) auto
    qed
  next
    case move
    let ?h = "move_child (s + i) ?anchor h"
    have m: "mvd" "i \<notin> set seq" using sti move by auto
    then have "place s pa arr mvd (Suc i) seq h = place s pa arr mvd i seq ?h"
      using move by (cases seq) (auto simp: Let_def)
    moreover have "placed_from before behind arr stay s n i ?h"
      using move by (intro place_move [OF p i _ _ a]) auto
    moreover have "\<forall>x \<in> set seq. x < i" using seq(2) m(2) by (auto simp: less_Suc_eq)
    ultimately show ?thesis using seq st m by (intro exI [of _ seq] exI [of _ ?h]) auto
  qed
qed

lemma place_ok:
  assumes "placed_from before behind arr stay s n i h" "i \<le> n" "anchor_at pa (s + n) h = first behind"
    and "sorted_wrt (>) seq" "\<forall>x \<in> set seq. x < i" "\<forall>x \<in> set seq. arr ! x = 0 \<longrightarrow> x = 0" "\<not> mvd \<longrightarrow> seq = []"
    and "\<forall>x < i. stay x \<longleftrightarrow> arr ! x \<noteq> 0 \<and> (mvd \<longrightarrow> x \<in> set seq)"
  shows "placed_from before behind arr stay s n 0 (place s pa arr mvd i seq h) \<and>
    length (els (place s pa arr mvd i seq h)) = length (els h) \<and>
    (\<forall>k. (k < s \<or> s + i \<le> k \<or> arr ! (k - s) \<noteq> 0) \<longrightarrow> els (place s pa arr mvd i seq h) ! k = els h ! k)"
  using assms
proof (induction i arbitrary: seq h)
  case (Suc i)
  then have i: "i < n" by simp
  obtain seq' h' where e: "place s pa arr mvd (Suc i) seq h = place s pa arr mvd i seq' h'"
    and p: "placed_from before behind arr stay s n i h'" and l: "length (els h') = length (els h)"
    and k: "\<forall>k. k \<noteq> s + i \<or> arr ! i \<noteq> 0 \<longrightarrow> els h' ! k = els h ! k"
    and r: "sorted_wrt (>) seq'" "\<forall>x \<in> set seq'. x < i" "\<forall>x \<in> set seq'. arr ! x = 0 \<longrightarrow> x = 0"
      "\<not> mvd \<longrightarrow> seq' = []" "\<forall>x < i. stay x \<longleftrightarrow> arr ! x \<noteq> 0 \<and> (mvd \<longrightarrow> x \<in> set seq')"
    using place_step [OF Suc.prems(1) i Suc.prems(3-8)] by blast
  have an: "anchor_at pa (s + n) h' = first behind"
    using Suc.prems(3) i l k anchor_at_cong [of h' h "s + n" pa] by simp
  have kk: "els h' ! k = els h ! k" if "k < s \<or> s + Suc i \<le> k \<or> arr ! (k - s) \<noteq> 0" for k
    using k that by (cases "k = s + i") auto
  from Suc.IH [OF p _ an r] i l kk show ?case unfolding e by simp
qed simp

section \<open>Matching old and new children\<close>

definition distinct_keys :: "vnode list \<Rightarrow> bool" where
  "distinct_keys c \<longleftrightarrow>
     (\<forall>i < length c. \<forall>j < length c. \<not> nullish (vkey (c ! i)) \<and> vkey (c ! i) = vkey (c ! j) \<longrightarrow> i = j)"

lemma key_index_Suc:
  "s \<le> e \<Longrightarrow> map_of (key_index c2 s (Suc e)) k =
     (if \<not> nullish (vkey (c2 ! e)) \<and> vkey (c2 ! e) = k then Some e else map_of (key_index c2 s e) k)"
  by (auto simp: key_index_def update_conv')

lemma key_index_sound:
  "map_of (key_index c2 s e) k = Some j \<Longrightarrow> s \<le> j \<and> j < e \<and> vkey (c2 ! j) = k \<and> \<not> nullish k"
proof (induction e)
  case (Suc e)
  show ?case
  proof (cases "s \<le> e")
    case True
    with Suc show ?thesis by (auto simp: key_index_Suc split: if_splits)
  next
    case False
    with Suc.prems show ?thesis by (simp add: key_index_def)
  qed
qed (simp add: key_index_def)

lemma key_index_complete:
  assumes "distinct_keys c2" "\<not> nullish (vkey (c2 ! j))"
  shows "s \<le> j \<Longrightarrow> j < e \<Longrightarrow> e \<le> length c2 \<Longrightarrow> map_of (key_index c2 s e) (vkey (c2 ! j)) = Some j"
proof (induction e)
  case (Suc e)
  have "e = j" if "vkey (c2 ! e) = vkey (c2 ! j)" "\<not> nullish (vkey (c2 ! e))"
    using assms(1) that Suc.prems by (simp add: distinct_keys_def)
  with Suc assms(2) show ?case by (auto simp: key_index_Suc less_Suc_eq)
qed simp

lemma remove_middle: "distinct (X @ e # Y) \<Longrightarrow> remove1 e (X @ e # Y) = X @ Y"
  by (induction X) auto

lemma next_sibling_middle: "distinct (X @ e # Y) \<Longrightarrow> next_sibling e (X @ e # Y) = first Y"
proof -
  assume "distinct (X @ e # Y)"
  then have "dropWhile (\<lambda>y. y \<noteq> e) (X @ e # Y) = e # Y" by (induction X) auto
  then show ?thesis by (cases Y) (simp_all add: next_sibling_def)
qed

lemma insert_before_middle:
  assumes "distinct (X @ Y)" "e \<notin> set (X @ Y)"
  shows "insert_before e (first Y) (X @ Y) = X @ e # Y"
  using filter_insert_before(1) [OF assms(1), of "\<lambda>_. True" X Y e "first Y" "\<lambda>_. True"] assms(2) by simp

text \<open>Patching keeps the place of the element, and the element itself when the node is the same.\<close>

lemma patch_child_place:
  assumes "distinct (kids h)" "kids h = X @ e # Y" "\<forall>e \<in> set (kids h). e < next_el h"
  shows "\<exists>e'. kids (patch_child (n, e) n2 j h) = X @ e' # Y \<and> els (patch_child (n, e) n2 j h) = (els h)[j := Some e'] \<and>
    distinct (X @ e' # Y) \<and> (\<forall>y \<in> set (X @ e' # Y). y < next_el (patch_child (n, e) n2 j h)) \<and>
    (isSameVNodeType n n2 \<longrightarrow> e' = e)"
proof (cases "isSameVNodeType n n2")
  case True
  with assms show ?thesis by (simp add: patch_child_def)
next
  case False
  have new: "next_el h \<notin> set (X @ Y)" "distinct (X @ Y)" using assms by auto
  with False assms show ?thesis
    by (auto simp: patch_child_def mount_child_def unmount_child_def next_sibling_middle remove_middle
        insert_before_middle Let_def less_Suc_eq)
qed

text \<open>
  After the old children below \<open>t\<close>: the pairs of an old and a new child that were matched, in
  the order of the old children; the bookkeeping of the loop about them; the container, with
  the elements of the pairs in place of the old children below \<open>t\<close>.
\<close>

definition pairs_upto :: "(vnode \<times> nat) list \<Rightarrow> vnode list \<Rightarrow> nat \<Rightarrow> nat \<Rightarrow> nat \<Rightarrow> (nat \<times> nat) list \<Rightarrow> bool" where
  "pairs_upto c1 c2 s e2 t ms \<longleftrightarrow>
     sorted_wrt (<) (map fst ms) \<and> distinct (map snd ms) \<and>
     (\<forall>(i, j) \<in> set ms. s \<le> i \<and> i < t \<and> s \<le> j \<and> j < e2 \<and> vkey (fst (c1 ! i)) = vkey (c2 ! j)) \<and>
     (\<forall>i j. s \<le> i \<and> i < t \<and> s \<le> j \<and> j < e2 \<and> \<not> nullish (vkey (c2 ! j)) \<and>
        vkey (fst (c1 ! i)) = vkey (c2 ! j) \<longrightarrow> (i, j) \<in> set ms)"

definition counts_ok :: "nat \<Rightarrow> nat \<Rightarrow> (nat \<times> nat) list \<Rightarrow> matching \<Rightarrow> bool" where
  "counts_ok s e2 ms w \<longleftrightarrow>
     length (newIndexToOldIndexMap w) = e2 - s \<and> patched w = length ms \<and>
     (\<forall>(i, j) \<in> set ms. newIndexToOldIndexMap w ! (j - s) = Suc i \<and> j \<le> maxNewIndexSoFar w) \<and>
     (\<forall>x < e2 - s. s + x \<notin> snd ` set ms \<longrightarrow> newIndexToOldIndexMap w ! x = 0) \<and>
     (\<not> moved w \<longrightarrow> sorted_wrt (<) (map snd ms))"

definition host_upto ::
  "(vnode \<times> nat) list \<Rightarrow> vnode list \<Rightarrow> nat \<Rightarrow> nat \<Rightarrow> nat \<Rightarrow> nat list \<Rightarrow> nat list \<Rightarrow> nat option list \<Rightarrow> nat \<Rightarrow>
   (nat \<times> nat) list \<Rightarrow> host \<Rightarrow> bool" where
  "host_upto c1 c2 s e1 e2 before behind els0 t ms h \<longleftrightarrow>
     kids h = before @ map (\<lambda>p. the (els h ! snd p)) ms @ map (\<lambda>i. snd (c1 ! i)) [t..<e1] @ behind \<and>
     distinct (kids h) \<and> (\<forall>e \<in> set (kids h). e < next_el h) \<and>
     (\<forall>(i, j) \<in> set ms. els h ! j \<noteq> None \<and>
        (isSameVNodeType (fst (c1 ! i)) (c2 ! j) \<longrightarrow> els h ! j = Some (snd (c1 ! i)))) \<and>
     length (els h) = length els0 \<and> (\<forall>k. k < s \<or> e2 \<le> k \<longrightarrow> els h ! k = els0 ! k)"

lemma host_parts:
  assumes "host_upto c1 c2 s e1 e2 before behind els0 t ms h" "t < e1"
  shows "kids h = (before @ map (\<lambda>p. the (els h ! snd p)) ms) @ snd (c1 ! t) # (map (\<lambda>i. snd (c1 ! i)) [Suc t..<e1] @ behind)"
    "distinct (kids h)" "\<forall>e \<in> set (kids h). e < next_el h"
proof -
  show "kids h = (before @ map (\<lambda>p. the (els h ! snd p)) ms) @ snd (c1 ! t) # (map (\<lambda>i. snd (c1 ! i)) [Suc t..<e1] @ behind)"
    using assms by (simp add: host_upto_def upt_rec [of t])
  show "distinct (kids h)" "\<forall>e \<in> set (kids h). e < next_el h" using assms(1) unfolding host_upto_def by blast+
qed

lemma host_unmount:
  assumes m: "host_upto c1 c2 s e1 e2 before behind els0 t ms h" and t: "t < e1"
  shows "host_upto c1 c2 s e1 e2 before behind els0 (Suc t) ms (unmount_child (snd (c1 ! t)) h)"
proof -
  let ?X = "before @ map (\<lambda>p. the (els h ! snd p)) ms" and ?Y = "map (\<lambda>i. snd (c1 ! i)) [Suc t..<e1] @ behind"
  note k = host_parts [OF m t]
  have "remove1 (snd (c1 ! t)) (kids h) = ?X @ ?Y"
    using k(2) unfolding k(1) by (rule remove_middle)
  moreover have "distinct (?X @ ?Y)" "\<forall>e \<in> set (?X @ ?Y). e < next_el h"
    using k(2,3) unfolding k(1) by auto
  ultimately show ?thesis using m unfolding host_upto_def unmount_child_def by simp
qed

lemma host_patch:
  assumes m: "host_upto c1 c2 s e1 e2 before behind els0 t ms h" and t: "t < e1"
    and j: "s \<le> j" "j < e2" "e2 \<le> length els0" "j \<notin> snd ` set ms"
  shows "host_upto c1 c2 s e1 e2 before behind els0 (Suc t) (ms @ [(t, j)])
    (patch_child (c1 ! t) (c2 ! j) j h)"
proof -
  let ?X = "before @ map (\<lambda>p. the (els h ! snd p)) ms" and ?Y = "map (\<lambda>i. snd (c1 ! i)) [Suc t..<e1] @ behind"
  let ?h = "patch_child (c1 ! t) (c2 ! j) j h"
  note k = host_parts [OF m t]
  obtain n e where n: "c1 ! t = (n, e)" by fastforce
  obtain e' where e': "kids ?h = ?X @ e' # ?Y" "els ?h = (els h)[j := Some e']" "distinct (?X @ e' # ?Y)"
    "\<forall>y \<in> set (?X @ e' # ?Y). y < next_el ?h" "isSameVNodeType n (c2 ! j) \<longrightarrow> e' = e"
    using patch_child_place [OF k(2) _ k(3), of ?X e ?Y n "c2 ! j" j] k(1) unfolding n by auto
  have len: "length (els h) = length els0" using m by (simp add: host_upto_def)
  have same: "els ?h ! snd p = els h ! snd p" if "p \<in> set ms" for p
  proof -
    have "snd p \<noteq> j" using that j(4) by blast
    then show ?thesis by (simp add: e'(2))
  qed
  have new: "els ?h ! j = Some e'" using j len by (simp add: e'(2))
  have "map (\<lambda>p. the (els ?h ! snd p)) (ms @ [(t, j)]) = map (\<lambda>p. the (els h ! snd p)) ms @ [e']"
    using same new by simp
  moreover have "\<forall>(a, b) \<in> set (ms @ [(t, j)]). els ?h ! b \<noteq> None \<and>
      (isSameVNodeType (fst (c1 ! a)) (c2 ! b) \<longrightarrow> els ?h ! b = Some (snd (c1 ! a)))"
    using m same new e'(5) n by (fastforce simp: host_upto_def)
  moreover have "\<forall>k. k < s \<or> e2 \<le> k \<longrightarrow> els ?h ! k = els0 ! k"
    using m j by (auto simp: host_upto_def e'(2) nth_list_update)
  ultimately show ?thesis using e'(1-4) len unfolding host_upto_def by simp
qed

lemma pairs_skip:
  assumes "pairs_upto c1 c2 s e2 t ms"
    and "\<And>j. s \<le> j \<Longrightarrow> j < e2 \<Longrightarrow> \<not> nullish (vkey (c2 ! j)) \<Longrightarrow> vkey (fst (c1 ! t)) \<noteq> vkey (c2 ! j)"
  shows "pairs_upto c1 c2 s e2 (Suc t) ms"
  using assms unfolding pairs_upto_def by (auto simp: less_Suc_eq)

lemma pairs_add:
  assumes p: "pairs_upto c1 c2 s e2 t ms" and "s \<le> t"
    and j: "s \<le> j" "j < e2" "j \<notin> snd ` set ms" "vkey (fst (c1 ! t)) = vkey (c2 ! j)"
    and u: "\<And>k. s \<le> k \<Longrightarrow> k < e2 \<Longrightarrow> \<not> nullish (vkey (c2 ! k)) \<Longrightarrow> vkey (c2 ! k) = vkey (c2 ! j) \<Longrightarrow> k = j"
  shows "pairs_upto c1 c2 s e2 (Suc t) (ms @ [(t, j)])"
proof -
  have "\<forall>x \<in> set (map fst ms). x < t" using p by (auto simp: pairs_upto_def)
  then have "sorted_wrt (<) (map fst (ms @ [(t, j)]))" using p by (simp add: sorted_wrt_append pairs_upto_def)
  moreover have "distinct (map snd (ms @ [(t, j)]))" using p j(3) by (auto simp: pairs_upto_def)
  moreover have "\<forall>(a, b) \<in> set (ms @ [(t, j)]). s \<le> a \<and> a < Suc t \<and> s \<le> b \<and> b < e2 \<and> vkey (fst (c1 ! a)) = vkey (c2 ! b)"
    using p j assms(2) by (auto simp: pairs_upto_def)
  moreover have "\<forall>a b. s \<le> a \<and> a < Suc t \<and> s \<le> b \<and> b < e2 \<and> \<not> nullish (vkey (c2 ! b)) \<and>
      vkey (fst (c1 ! a)) = vkey (c2 ! b) \<longrightarrow> (a, b) \<in> set (ms @ [(t, j)])"
    using p j(4) u by (auto simp: pairs_upto_def less_Suc_eq)
  ultimately show ?thesis unfolding pairs_upto_def by blast
qed

lemma counts_add:
  assumes c: "counts_ok s e2 ms w" and j: "s \<le> j" "j < e2" "j \<notin> snd ` set ms" and lo: "\<forall>p \<in> set ms. s \<le> snd p"
  shows "counts_ok s e2 (ms @ [(t, j)])
    (w\<lparr>newIndexToOldIndexMap := (newIndexToOldIndexMap w)[j - s := t + 1],
       maxNewIndexSoFar := (if j \<ge> maxNewIndexSoFar w then j else maxNewIndexSoFar w),
       moved := (moved w \<or> j < maxNewIndexSoFar w), patched := patched w + 1\<rparr>)"
proof -
  let ?arr = "(newIndexToOldIndexMap w)[j - s := t + 1]"
  have other: "?arr ! (b - s) = newIndexToOldIndexMap w ! (b - s)" if "(a, b) \<in> set ms" for a b
  proof -
    have "s \<le> b" "b \<noteq> j" using lo j(3) that by force+
    then show ?thesis using j(1) by (simp add: nth_list_update eq_diff_iff)
  qed
  have "\<forall>(a, b) \<in> set (ms @ [(t, j)]). ?arr ! (b - s) = Suc a \<and>
      b \<le> (if j \<ge> maxNewIndexSoFar w then j else maxNewIndexSoFar w)"
    using c other j(1,2) by (fastforce simp: counts_ok_def)
  moreover have "\<forall>x < e2 - s. s + x \<notin> snd ` set (ms @ [(t, j)]) \<longrightarrow> ?arr ! x = 0"
    using c j(1) by (auto simp: counts_ok_def nth_list_update)
  moreover have "sorted_wrt (<) (map snd (ms @ [(t, j)]))" if "\<not> moved w" "\<not> j < maxNewIndexSoFar w"
  proof -
    have "b < j" if "b \<in> set (map snd ms)" for b
    proof -
      have "b \<le> maxNewIndexSoFar w" "b \<noteq> j" using c that j(3) by (auto simp: counts_ok_def)
      then show ?thesis using \<open>\<not> j < maxNewIndexSoFar w\<close> by simp
    qed
    then show ?thesis using c that(1) by (simp add: counts_ok_def sorted_wrt_append)
  qed
  ultimately show ?thesis using c by (auto simp: counts_ok_def)
qed

lemma keys_unique:
  "distinct_keys c \<Longrightarrow> i < length c \<Longrightarrow> j < length c \<Longrightarrow> \<not> nullish (vkey (c ! i)) \<Longrightarrow> vkey (c ! i) = vkey (c ! j) \<Longrightarrow> i = j"
  by (simp add: distinct_keys_def)

lemma match_step:
  assumes p: "pairs_upto c1 c2 s e2 t ms" and c: "counts_ok s e2 ms w"
    and h: "host_upto c1 c2 s e1 e2 before behind els0 t ms h"
    and b: "s \<le> t" "t < e1" "e1 \<le> length c1" "e2 \<le> length c2" "length els0 = length c2"
    and k: "distinct_keys (map fst c1)" "distinct_keys c2"
  shows "\<exists>ms' w' h'. match_old c2 s e2 (key_index c2 s e2) (t, c1 ! t) (w, h) = (w', h') \<and>
    pairs_upto c1 c2 s e2 (Suc t) ms' \<and> counts_ok s e2 ms' w' \<and>
    host_upto c1 c2 s e1 e2 before behind els0 (Suc t) ms' h'"
proof -
  obtain n e where n: "c1 ! t = (n, e)" by fastforce
  let ?arr = "newIndexToOldIndexMap w"
  have key1: "i = t" if "i < length c1" "\<not> nullish (vkey n)" "vkey (fst (c1 ! i)) = vkey n" for i
    using keys_unique [OF k(1), of i t] that b n by simp
  have key2: "i = j" if "i < e2" "j < e2" "\<not> nullish (vkey (c2 ! i))" "vkey (c2 ! i) = vkey (c2 ! j)" for i j
    using keys_unique [OF k(2), of i j] that b by simp
  have pair: "s \<le> i" "i < t" "s \<le> j" "j < e2" "vkey (fst (c1 ! i)) = vkey (c2 ! j)" "?arr ! (j - s) = Suc i"
    if "(i, j) \<in> set ms" for i j
    using p c that by (auto simp: pairs_upto_def counts_ok_def)
  have free: "j \<notin> snd ` set ms" if "\<not> nullish (vkey n)" "vkey n = vkey (c2 ! j)" for j
  proof
    assume "j \<in> snd ` set ms"
    then obtain i where i: "(i, j) \<in> set ms" by auto
    have "i = t" using pair [OF i] that b by (intro key1) auto
    with pair(2) [OF i] show False by simp
  qed
  have drop: ?thesis
    if old: "match_old c2 s e2 (key_index c2 s e2) (t, c1 ! t) (w, h) = (w, unmount_child e h)"
      and none: "\<And>j. s \<le> j \<Longrightarrow> j < e2 \<Longrightarrow> \<not> nullish (vkey (c2 ! j)) \<Longrightarrow> vkey n \<noteq> vkey (c2 ! j)"
  proof (intro exI conjI)
    show "match_old c2 s e2 (key_index c2 s e2) (t, c1 ! t) (w, h) = (w, unmount_child e h)" by (rule old)
    show "pairs_upto c1 c2 s e2 (Suc t) ms" using none n by (intro pairs_skip [OF p]) auto
    show "host_upto c1 c2 s e1 e2 before behind els0 (Suc t) ms (unmount_child e h)"
      using host_unmount [OF h b(2)] n by simp
  qed (rule c)
  show ?thesis
  proof (cases "patched w \<ge> e2 - s")
    case True
    have "snd ` set ms = {s..<e2}"
    proof (rule card_subset_eq)
      show "snd ` set ms \<subseteq> {s..<e2}" using pair(3,4) by auto
      have "card (snd ` set ms) = length ms"
        using p distinct_card [of "map snd ms"] by (simp add: pairs_upto_def)
      moreover have "card (snd ` set ms) \<le> card {s..<e2}" using pair(3,4) by (intro card_mono) auto
      ultimately show "card (snd ` set ms) = card {s..<e2}" using True c by (simp add: counts_ok_def)
    qed simp
    with True n free show ?thesis by (intro drop) auto
  next
    case few: False
    show ?thesis
    proof (cases "new_index c2 s e2 (key_index c2 s e2) ?arr n")
      case None
      have "vkey n \<noteq> vkey (c2 ! j)" if "s \<le> j" "j < e2" "\<not> nullish (vkey (c2 ! j))" for j
        using None key_index_complete [OF k(2) that(3,1,2) b(4)] that(3) by (auto simp: new_index_def split: if_splits)
      with None few n show ?thesis by (intro drop) auto
    next
      case (Some j)
      have j: "s \<le> j" "j < e2" "vkey n = vkey (c2 ! j)" "j \<notin> snd ` set ms"
      proof -
        have "s \<le> j \<and> j < e2 \<and> vkey n = vkey (c2 ! j) \<and> j \<notin> snd ` set ms"
        proof (cases "nullish (vkey n)")
          case False
          with Some key_index_sound [of c2 s e2 "vkey n" j] free show ?thesis by (simp add: new_index_def)
        next
          case True
          with Some have "j \<in> set [s..<e2]" "?arr ! (j - s) = 0" "isSameVNodeType n (c2 ! j)"
            by (auto simp: new_index_def find_Some_iff)
          with pair(6) show ?thesis by (auto simp: isSameVNodeType_def)
        qed
        then show "s \<le> j" "j < e2" "vkey n = vkey (c2 ! j)" "j \<notin> snd ` set ms" by simp_all
      qed
      have "\<forall>q \<in> set ms. s \<le> snd q" using pair(3) by auto
      note new = counts_add [OF c j(1,2,4) this, of t] host_patch [OF h b(2) j(1,2) _ j(4)]
        pairs_add [OF p b(1) j(1,2,4)]
      show ?thesis using few Some n j b new key2 [of _ j] by (intro exI conjI) simp_all
    qed
  qed
qed

lemma match_all:
  assumes p: "pairs_upto c1 c2 s e2 s ms0" "counts_ok s e2 ms0 w0" "host_upto c1 c2 s e1 e2 before behind els0 s ms0 h0"
    and b: "e1 \<le> length c1" "e2 \<le> length c2" "length els0 = length c2"
    and k: "distinct_keys (map fst c1)" "distinct_keys c2"
  shows "s \<le> t \<Longrightarrow> t \<le> e1 \<Longrightarrow> \<exists>ms w h.
    fold (match_old c2 s e2 (key_index c2 s e2)) (map (\<lambda>i. (i, c1 ! i)) [s..<t]) (w0, h0) = (w, h) \<and>
    pairs_upto c1 c2 s e2 t ms \<and> counts_ok s e2 ms w \<and> host_upto c1 c2 s e1 e2 before behind els0 t ms h"
proof (induction t)
  case 0
  with p show ?case by auto
next
  case (Suc t)
  show ?case
  proof (cases "s \<le> t")
    case True
    with Suc obtain ms w h where
      f: "fold (match_old c2 s e2 (key_index c2 s e2)) (map (\<lambda>i. (i, c1 ! i)) [s..<t]) (w0, h0) = (w, h)" and
      i: "pairs_upto c1 c2 s e2 t ms" "counts_ok s e2 ms w" "host_upto c1 c2 s e1 e2 before behind els0 t ms h"
      by auto
    from match_step [OF i True _ b k] Suc.prems(2) f True show ?thesis by auto
  next
    case False
    with Suc.prems have "Suc t = s" by simp
    with p show ?thesis by auto
  qed
qed

text \<open>
  What the loop over the old children leaves is what the loop over the new ones starts from: the
  matched elements are the middle part of the container, and those that are not moved are
  already in the order of the new children.
\<close>

lemma sorted_wrt_pair:
  "sorted_wrt R xs \<Longrightarrow> x \<in> set xs \<Longrightarrow> y \<in> set xs \<Longrightarrow> x = y \<or> R x y \<or> R y x"
  by (induction xs) auto

definition stays :: "matching \<Rightarrow> nat \<Rightarrow> bool" where
  "stays w x \<longleftrightarrow> newIndexToOldIndexMap w ! x \<noteq> 0 \<and>
     (moved w \<longrightarrow> x \<in> set (getSequence (newIndexToOldIndexMap w)))"

lemma matched_indices:
  assumes p: "pairs_upto c1 c2 s e2 t ms" and c: "counts_ok s e2 ms w"
  defines "js \<equiv> map (\<lambda>q. snd q - s) ms"
  shows "distinct js" "set js = {x. x < e2 - s \<and> newIndexToOldIndexMap w ! x \<noteq> 0}"
    "sorted_wrt (\<lambda>x y. newIndexToOldIndexMap w ! x < newIndexToOldIndexMap w ! y) js"
    "\<not> moved w \<Longrightarrow> sorted_wrt (<) js"
proof -
  let ?arr = "newIndexToOldIndexMap w"
  have q: "s \<le> j" "j < e2" "?arr ! (j - s) = Suc i" if "(i, j) \<in> set ms" for i j
    using p c that by (auto simp: pairs_upto_def counts_ok_def)
  have zero: "\<And>x. x < e2 - s \<Longrightarrow> s + x \<notin> snd ` set ms \<Longrightarrow> ?arr ! x = 0" using c by (auto simp: counts_ok_def)
  have inj: "inj_on (\<lambda>j. j - s) (set (map snd ms))" proof (rule inj_onI)
    fix a b assume "a \<in> set (map snd ms)" "b \<in> set (map snd ms)" "a - s = b - s"
    moreover from this have "s \<le> a" "s \<le> b" using q(1) by auto
    ultimately show "a = b" by simp
  qed
  have js: "js = map (\<lambda>j. j - s) (map snd ms)" by (simp add: js_def)
  show "distinct js" unfolding js distinct_map using p inj by (simp add: pairs_upto_def distinct_map)
  show "set js = {x. x < e2 - s \<and> ?arr ! x \<noteq> 0}"
  proof (intro set_eqI iffI)
    fix x assume "x \<in> set js"
    then obtain i j where "(i, j) \<in> set ms" "x = j - s" by (auto simp: js_def)
    with q [of i j] show "x \<in> {x. x < e2 - s \<and> ?arr ! x \<noteq> 0}" by auto
  next
    fix x assume "x \<in> {x. x < e2 - s \<and> ?arr ! x \<noteq> 0}"
    with zero obtain i where "(i, s + x) \<in> set ms" by fastforce
    then show "x \<in> set js" by (force simp: js_def)
  qed
  have "sorted_wrt (\<lambda>a b. fst a < fst b) ms" using p by (simp add: pairs_upto_def sorted_wrt_map)
  then show "sorted_wrt (\<lambda>x y. ?arr ! x < ?arr ! y) js"
    unfolding js_def sorted_wrt_map by (rule sorted_wrt_mono_rel [rotated]) (auto simp: q(3))
  assume "\<not> moved w"
  then have "sorted_wrt (\<lambda>a b. snd a < snd b) ms" using c by (simp add: counts_ok_def sorted_wrt_map)
  then show "sorted_wrt (<) js"
    unfolding js_def sorted_wrt_map by (rule sorted_wrt_mono_rel [rotated]) (use q(1) in fastforce)
qed

lemma stays_in_order:
  assumes p: "pairs_upto c1 c2 s e2 t ms" and c: "counts_ok s e2 ms w" and n: "s < e2"
  shows "filter (stays w) (map (\<lambda>q. snd q - s) ms) = filter (stays w) [0..<e2 - s]"
proof -
  let ?arr = "newIndexToOldIndexMap w" and ?js = "map (\<lambda>q. snd q - s) ms"
  note j = matched_indices [OF p c]
  have "?arr \<noteq> []" using c n by (auto simp: counts_ok_def)
  note seq = getSequence_increasing [OF this]
  have "sorted_wrt (<) (filter (stays w) ?js)"
  proof (cases "moved w")
    case False
    then show ?thesis by (intro sorted_wrt_filter j(4))
  next
    case True
    have "a < b" if "stays w a" "stays w b" "?arr ! a < ?arr ! b" for a b
      using sorted_wrt_pair [OF seq(1), of a b] that True by (auto simp: stays_def)
    then show ?thesis
      by (intro sorted_wrt_mono_rel [OF _ sorted_wrt_filter [OF j(3)]]) auto
  qed
  moreover have "set (filter (stays w) ?js) = set (filter (stays w) [0..<e2 - s])"
    using j(2) by (auto simp: stays_def)
  ultimately show ?thesis
    by (intro strict_sorted_equal) (auto intro: sorted_wrt_filter)
qed

lemma matched_placed:
  assumes p: "pairs_upto c1 c2 s e2 e1 ms" and c: "counts_ok s e2 ms w"
    and h: "host_upto c1 c2 s e1 e2 before behind els0 e1 ms h" and n: "s < e2" "e2 \<le> length els0"
  shows "placed_from before behind (newIndexToOldIndexMap w) (stays w) s (e2 - s) (e2 - s) h"
proof -
  let ?arr = "newIndexToOldIndexMap w" and ?js = "map (\<lambda>q. snd q - s) ms" and ?n = "e2 - s"
  let ?M = "movable ?arr (stays w) ?n"
  note j = matched_indices [OF p c]
  have "\<And>q. q \<in> set ms \<Longrightarrow> s \<le> snd q" using p by (auto simp: pairs_upto_def)
  then have "map (\<lambda>q. the (els h ! snd q)) ms = map (el_at s h) ?js" by (simp add: el_at_def)
  then have k: "kids h = before @ map (el_at s h) ?js @ behind" using h by (simp add: host_upto_def)
  have d: "distinct (kids h)" "\<forall>e \<in> set (kids h). e < next_el h" "length (els h) = length els0"
    using h unfolding host_upto_def by blast+
  have "distinct (map (el_at s h) ?js)" using d(1) unfolding k by (simp only: distinct_append)
  then have inj: "inj_on (el_at s h) (set ?js)" by (simp only: distinct_map)
  have some: "els h ! (s + x) \<noteq> None" if "x \<in> set ?js" for x
  proof -
    from that obtain i b where "(i, b) \<in> set ms" "x = b - s" by auto
    moreover from this have "s \<le> b" using p by (auto simp: pairs_upto_def)
    ultimately show ?thesis using h by (auto simp: host_upto_def)
  qed
  have M: "?M \<subseteq> set ?js" "\<And>x. x \<in> set ?js \<Longrightarrow> x \<notin> ?M \<longleftrightarrow> stays w x" using j(2) by (auto simp: movable_def)
  then have img: "el_at s h x \<notin> el_at s h ` ?M \<longleftrightarrow> stays w x" if "x \<in> set ?js" for x
    using inj that by (auto simp: inj_on_image_mem_iff)
  have "e \<notin> el_at s h ` ?M" if "e \<in> set before \<union> set behind" for e
    using d(1) that M(1) unfolding k by auto
  then have "filter (\<lambda>e. e \<notin> el_at s h ` ?M) before = before" "filter (\<lambda>e. e \<notin> el_at s h ` ?M) behind = behind"
    by (auto intro!: filter_True)
  moreover have "filter (\<lambda>e. e \<notin> el_at s h ` ?M) (map (el_at s h) ?js) = map (el_at s h) (filter (stays w) ?js)"
    unfolding filter_map comp_def using img by (intro arg_cong [where f = "map _"] filter_cong) auto
  ultimately have f: "filter (\<lambda>e. e \<notin> el_at s h ` ?M) (kids h) =
      before @ map (el_at s h) (filter (stays w) [0..<?n]) @ map (el_at s h) [?n..<?n] @ behind"
    using stays_in_order [OF p c n(1)] unfolding k by simp
  have A: "{x. x < ?n \<and> (?arr ! x \<noteq> 0 \<or> ?n \<le> x)} = set ?js" using j(2) by auto
  have "el_at s h x \<in> set (kids h)" if "x \<in> set ?js" for x
    using imageI [OF that, of "el_at s h"] unfolding k set_append set_map [of "el_at s h"] by blast
  then have "\<forall>x < ?n. ?arr ! x \<noteq> 0 \<or> ?n \<le> x \<longrightarrow> els h ! (s + x) \<noteq> None \<and> el_at s h x \<in> set (kids h)"
    using some A by blast
  then show ?thesis using d n inj f unfolding placed_from_def A by auto
qed

text \<open>The middle part, from what stands before it to what stands behind it.\<close>

lemma patch_middle_ok:
  assumes k: "kids h = before @ map (\<lambda>i. snd (c1 ! i)) [s..<e1] @ behind" "distinct (kids h)" "\<forall>e \<in> set (kids h). e < next_el h"
    and b: "s < e2" "e2 \<le> length c2" "s \<le> e1" "e1 \<le> length c1" "length (els h) = length c2"
    and an: "anchor_at pa e2 h = first behind"
    and dk: "distinct_keys (map fst c1)" "distinct_keys c2"
  defines "h' \<equiv> patch_middle c1 c2 s e1 e2 pa h"
  shows "kids h' = before @ map (\<lambda>j. the (els h' ! j)) [s..<e2] @ behind" "\<forall>j. s \<le> j \<and> j < e2 \<longrightarrow> els h' ! j \<noteq> None"
    "length (els h') = length c2" "\<forall>j. j < s \<or> e2 \<le> j \<longrightarrow> els h' ! j = els h ! j"
    "\<forall>i j. s \<le> i \<and> i < e1 \<and> s \<le> j \<and> j < e2 \<and> \<not> nullish (vkey (c2 ! j)) \<and> isSameVNodeType (fst (c1 ! i)) (c2 ! j) \<longrightarrow>
       els h' ! j = Some (snd (c1 ! i))"
proof -
  let ?w0 = "\<lparr>patched = 0, moved = False, maxNewIndexSoFar = 0, newIndexToOldIndexMap = replicate (e2 - s) 0\<rparr>"
  have "pairs_upto c1 c2 s e2 s []" "counts_ok s e2 [] ?w0" "host_upto c1 c2 s e1 e2 before behind (els h) s [] h"
    using k b by (simp_all add: pairs_upto_def counts_ok_def host_upto_def)
  from match_all [OF this b(4,2,5) dk b(3) order_refl] obtain ms w h1 where
    f: "fold (match_old c2 s e2 (key_index c2 s e2)) (map (\<lambda>i. (i, c1 ! i)) [s..<e1]) (?w0, h) = (w, h1)"
    and m: "pairs_upto c1 c2 s e2 e1 ms" "counts_ok s e2 ms w" "host_upto c1 c2 s e1 e2 before behind (els h) e1 ms h1"
    by blast
  let ?arr = "newIndexToOldIndexMap w"
  let ?seq = "rev (if moved w then getSequence ?arr else [])"
  have h': "h' = place s pa ?arr (moved w) (e2 - s) ?seq h1"
    unfolding h'_def patch_middle_def Let_def f by simp
  have arr: "?arr \<noteq> []" "length ?arr = e2 - s" using m(2) b(1) by (auto simp: counts_ok_def)
  note gs = getSequence_increasing [OF arr(1)]
  have "sorted_wrt (<) (getSequence ?arr)" by (rule sorted_wrt_mono_rel [OF _ gs(1)]) simp
  then have "sorted_wrt (>) ?seq" by (simp add: sorted_wrt_rev)
  moreover have "\<forall>x \<in> set ?seq. x < e2 - s" "\<forall>x \<in> set ?seq. ?arr ! x = 0 \<longrightarrow> x = 0" using gs(2) arr(2) by auto
  moreover have "anchor_at pa (s + (e2 - s)) h1 = first behind"
    using an m(3) b(1) anchor_at_cong [of h1 h e2 pa] by (simp add: host_upto_def)
  moreover have "placed_from before behind ?arr (stays w) s (e2 - s) (e2 - s) h1"
    using b by (intro matched_placed [OF m]) auto
  ultimately have pl: "placed_from before behind ?arr (stays w) s (e2 - s) 0 h'"
    "length (els h') = length (els h1)" "\<And>j. j < s \<or> s + (e2 - s) \<le> j \<or> ?arr ! (j - s) \<noteq> 0 \<Longrightarrow> els h' ! j = els h1 ! j"
    using place_ok [of before behind ?arr "stays w" s "e2 - s" "e2 - s" h1 pa ?seq "moved w"]
    unfolding h' by (auto simp: stays_def)
  have "movable ?arr (stays w) 0 = {}" by (simp add: movable_def)
  then have "kids h' = before @ map (el_at s h') [0..<e2 - s] @ behind" using pl(1) by (simp add: placed_from_def)
  moreover have "map (el_at s h') [0..<e2 - s] = map (\<lambda>j. the (els h' ! j)) [s..<e2]"
    using b(1) by (intro nth_equalityI) (auto simp: el_at_def)
  ultimately show "kids h' = before @ map (\<lambda>j. the (els h' ! j)) [s..<e2] @ behind" by simp
  show "\<forall>j. s \<le> j \<and> j < e2 \<longrightarrow> els h' ! j \<noteq> None"
  proof (intro allI impI)
    fix j assume "s \<le> j \<and> j < e2"
    then have "j - s < e2 - s" "s + (j - s) = j" by auto
    with pl(1) show "els h' ! j \<noteq> None" unfolding placed_from_def by (metis le0)
  qed
  have h1: "length (els h1) = length (els h)" "\<And>j. j < s \<or> e2 \<le> j \<Longrightarrow> els h1 ! j = els h ! j"
    "\<And>i j. (i, j) \<in> set ms \<Longrightarrow> isSameVNodeType (fst (c1 ! i)) (c2 ! j) \<Longrightarrow> els h1 ! j = Some (snd (c1 ! i))"
    using m(3) unfolding host_upto_def by blast+
  show "length (els h') = length c2" using pl(2) h1(1) b(5) by simp
  show "\<forall>j. j < s \<or> e2 \<le> j \<longrightarrow> els h' ! j = els h ! j" using pl(3) h1(2) b(1) by auto
  show "\<forall>i j. s \<le> i \<and> i < e1 \<and> s \<le> j \<and> j < e2 \<and> \<not> nullish (vkey (c2 ! j)) \<and> isSameVNodeType (fst (c1 ! i)) (c2 ! j) \<longrightarrow>
       els h' ! j = Some (snd (c1 ! i))"
  proof (intro allI impI)
    fix i j
    assume a: "s \<le> i \<and> i < e1 \<and> s \<le> j \<and> j < e2 \<and> \<not> nullish (vkey (c2 ! j)) \<and> isSameVNodeType (fst (c1 ! i)) (c2 ! j)"
    then have ij: "(i, j) \<in> set ms" using m(1) by (simp add: pairs_upto_def isSameVNodeType_def)
    then have "?arr ! (j - s) \<noteq> 0" using m(2) by (auto simp: counts_ok_def)
    then show "els h' ! j = Some (snd (c1 ! i))" using pl(3) [of j] h1(3) [OF ij] a by simp
  qed
qed

section \<open>The common ends\<close>

lemma sync_start_ok:
  "sync_start c1 c2 i h = (i', h') \<Longrightarrow> i + length c2 \<le> length (els h) \<Longrightarrow>
   \<exists>k. i' = i + k \<and> k \<le> length c1 \<and> k \<le> length c2 \<and> kids h' = kids h \<and> next_el h' = next_el h \<and>
     length (els h') = length (els h) \<and>
     (\<forall>x < k. isSameVNodeType (fst (c1 ! x)) (c2 ! x) \<and> els h' ! (i + x) = Some (snd (c1 ! x))) \<and>
     (\<forall>j. j < i \<or> i + k \<le> j \<longrightarrow> els h' ! j = els h ! j)"
proof (induction c1 c2 i h rule: sync_start.induct)
  case (1 n1 c1 n2 c2 i h)
  show ?case
  proof (cases "isSameVNodeType (fst n1) n2")
    case True
    let ?h = "h\<lparr>els := (els h)[i := Some (snd n1)]\<rparr>"
    have p: "patch_child n1 n2 i h = ?h" using True by (simp add: patch_child_def)
    with 1 True obtain k where k: "i' = Suc i + k" "k \<le> length c1" "k \<le> length c2" "kids h' = kids h"
      "next_el h' = next_el h" "length (els h') = length (els h)"
      "\<forall>x < k. isSameVNodeType (fst (c1 ! x)) (c2 ! x) \<and> els h' ! (Suc i + x) = Some (snd (c1 ! x))"
      "\<forall>j. j < Suc i \<or> Suc i + k \<le> j \<longrightarrow> els h' ! j = els ?h ! j"
      by fastforce
    have "isSameVNodeType (fst ((n1 # c1) ! x)) ((n2 # c2) ! x) \<and> els h' ! (i + x) = Some (snd ((n1 # c1) ! x))"
      if "x < Suc k" for x
      using that k(7,8) True 1(3) by (cases x) auto
    with k(1-6,8) show ?thesis by (intro exI [of _ "Suc k"]) auto
  next
    case False
    with 1(2) show ?thesis by (intro exI [of _ 0]) auto
  qed
qed auto

lemma sync_end_ok:
  "sync_end c1 c2 e2 h = (e', h') \<Longrightarrow> length c2 \<le> e2 \<Longrightarrow> e2 \<le> length (els h) \<Longrightarrow>
   \<exists>k. e' = e2 - k \<and> k \<le> length c1 \<and> k \<le> length c2 \<and> kids h' = kids h \<and> next_el h' = next_el h \<and>
     length (els h') = length (els h) \<and>
     (\<forall>x < k. isSameVNodeType (fst (c1 ! x)) (c2 ! x) \<and> els h' ! (e2 - Suc x) = Some (snd (c1 ! x))) \<and>
     (\<forall>j. j < e2 - k \<or> e2 \<le> j \<longrightarrow> els h' ! j = els h ! j)"
proof (induction c1 c2 e2 h rule: sync_end.induct)
  case (1 n1 c1 n2 c2 e2 h)
  show ?case
  proof (cases "isSameVNodeType (fst n1) n2")
    case True
    let ?h = "h\<lparr>els := (els h)[e2 - 1 := Some (snd n1)]\<rparr>"
    have p: "patch_child n1 n2 (e2 - 1) h = ?h" using True by (simp add: patch_child_def)
    with 1 True obtain k where k: "e' = e2 - 1 - k" "k \<le> length c1" "k \<le> length c2" "kids h' = kids h"
      "next_el h' = next_el h" "length (els h') = length (els h)"
      "\<forall>x < k. isSameVNodeType (fst (c1 ! x)) (c2 ! x) \<and> els h' ! (e2 - 1 - Suc x) = Some (snd (c1 ! x))"
      "\<forall>j. j < e2 - 1 - k \<or> e2 - 1 \<le> j \<longrightarrow> els h' ! j = els ?h ! j"
      by fastforce
    have "isSameVNodeType (fst ((n1 # c1) ! x)) ((n2 # c2) ! x) \<and> els h' ! (e2 - Suc x) = Some (snd ((n1 # c1) ! x))"
      if "x < Suc k" for x
      using that k(7,8) True 1(3,4) by (cases x) auto
    moreover have "els h' ! j = els h ! j" if "j < e2 - Suc k \<or> e2 \<le> j" for j
      using that k(8) 1(3) by auto
    ultimately show ?thesis using k(1-6) by (intro exI [of _ "Suc k"]) auto
  next
    case False
    with 1(2) show ?thesis by (intro exI [of _ 0]) auto
  qed
qed auto

text \<open>
  The children before \<open>s\<close> and the old ones from \<open>e1\<close>, the new ones from \<open>e2\<close> are the common ends;
  nothing has been moved yet.
\<close>

definition synced ::
  "(vnode \<times> nat) list \<Rightarrow> vnode list \<Rightarrow> nat \<Rightarrow> nat \<Rightarrow> nat \<Rightarrow> host \<Rightarrow> bool" where
  "synced c1 c2 s e1 e2 h \<longleftrightarrow>
     s \<le> e1 \<and> e1 \<le> length c1 \<and> s \<le> e2 \<and> e2 \<le> length c2 \<and> length c1 - e1 = length c2 - e2 \<and>
     length (els h) = length c2 \<and>
     (\<forall>j < s. isSameVNodeType (fst (c1 ! j)) (c2 ! j) \<and> els h ! j = Some (snd (c1 ! j))) \<and>
     (\<forall>x < length c2 - e2. isSameVNodeType (fst (c1 ! (e1 + x))) (c2 ! (e2 + x)) \<and>
        els h ! (e2 + x) = Some (snd (c1 ! (e1 + x))))"

lemma sync_both:
  assumes l: "length (els h) = length c2"
    and f: "sync_start c1 c2 0 h = (i, h1)" "sync_end (rev (drop i c1)) (rev (drop i c2)) (length c2) h1 = (e2, h2)"
  shows "synced c1 c2 i (length c1 - (length c2 - e2)) e2 h2" "kids h2 = kids h" "next_el h2 = next_el h"
proof -
  from sync_start_ok [OF f(1)] l have i: "i \<le> length c1" "i \<le> length c2" "kids h1 = kids h" "next_el h1 = next_el h"
    "length (els h1) = length c2"
    "\<forall>x < i. isSameVNodeType (fst (c1 ! x)) (c2 ! x) \<and> els h1 ! x = Some (snd (c1 ! x))"
    by auto
  from sync_end_ok [OF f(2)] i obtain k where k: "e2 = length c2 - k" "k \<le> length c1 - i" "k \<le> length c2 - i"
    "kids h2 = kids h1" "next_el h2 = next_el h1" "length (els h2) = length c2"
    "\<forall>x < k. isSameVNodeType (fst (rev (drop i c1) ! x)) (rev (drop i c2) ! x) \<and>
       els h2 ! (length c2 - Suc x) = Some (snd (rev (drop i c1) ! x))"
    "\<forall>j. j < length c2 - k \<or> length c2 \<le> j \<longrightarrow> els h2 ! j = els h1 ! j"
    by auto
  have rev: "rev (drop i xs) ! x = xs ! (length xs - Suc x)" if "x < k" "k \<le> length xs - i" for xs :: "'x list" and x
    using that by (simp add: rev_nth)
  have tail: "isSameVNodeType (fst (c1 ! (length c1 - k + x))) (c2 ! (length c2 - k + x)) \<and>
      els h2 ! (length c2 - k + x) = Some (snd (c1 ! (length c1 - k + x)))" if "x < k" for x
  proof -
    have "k - Suc x < k" using that by simp
    moreover have "length c1 - Suc (k - Suc x) = length c1 - k + x" "length c2 - Suc (k - Suc x) = length c2 - k + x"
      using that k(2,3) i(1,2) by linarith+
    ultimately show ?thesis using k(7) rev [of "k - Suc x" c1] rev [of "k - Suc x" c2] k(2,3) by metis
  qed
  have "length c2 - e2 = k" using k(1,3) by simp
  moreover have "\<forall>j < i. els h2 ! j = els h1 ! j" using k(3,8) i(2) by auto
  ultimately show "synced c1 c2 i (length c1 - (length c2 - e2)) e2 h2"
    unfolding synced_def using i k tail by auto
  show "kids h2 = kids h" "next_el h2 = next_el h" using i k by simp_all
qed

section \<open>Runs of new and of old children\<close>

lemma mount_run:
  assumes "kids h = X @ Y" "distinct (kids h)" "\<forall>e \<in> set (kids h). e < next_el h" "t \<le> length (els h)"
  shows "s \<le> t \<Longrightarrow>
    (let h' = fold (\<lambda>j. mount_child j (first Y)) [s..<t] h in
     kids h' = X @ map (\<lambda>j. the (els h' ! j)) [s..<t] @ Y \<and> distinct (kids h') \<and>
     (\<forall>e \<in> set (kids h'). e < next_el h') \<and> length (els h') = length (els h) \<and>
     (\<forall>j. s \<le> j \<and> j < t \<longrightarrow> els h' ! j \<noteq> None) \<and> (\<forall>j. j < s \<or> t \<le> j \<longrightarrow> els h' ! j = els h ! j))"
  using assms(4)
proof (induction t)
  case 0
  with assms show ?case by (simp add: Let_def)
next
  case (Suc t)
  show ?case
  proof (cases "s \<le> t")
    case False
    then have "s = Suc t" using Suc.prems(1) by simp
    with assms show ?thesis by (auto simp: Let_def)
  next
    case True
    define h1 where "h1 = fold (\<lambda>j. mount_child j (first Y)) [s..<t] h"
    let ?X = "X @ map (\<lambda>j. the (els h1 ! j)) [s..<t]" and ?h = "mount_child t (first Y) h1"
    have h1: "kids h1 = ?X @ Y" "distinct (kids h1)" "\<forall>e \<in> set (kids h1). e < next_el h1"
      "length (els h1) = length (els h)" "\<And>j. s \<le> j \<Longrightarrow> j < t \<Longrightarrow> els h1 ! j \<noteq> None"
      "\<And>j. j < s \<or> t \<le> j \<Longrightarrow> els h1 ! j = els h ! j"
      using Suc.IH [OF True Suc_leD [OF Suc.prems(2)]] unfolding Let_def h1_def append_assoc by blast+
    have new: "next_el h1 \<notin> set (?X @ Y)" using h1(3) unfolding h1(1) by blast
    have d: "distinct (?X @ Y)" using h1(2) unfolding h1(1) .
    have k: "kids ?h = ?X @ next_el h1 # Y"
      using insert_before_middle [OF d new] h1(1) by (simp add: mount_child_def)
    have e: "els ?h ! j = (if j = t then Some (next_el h1) else els h1 ! j)" for j
      using Suc.prems h1(4) by (simp add: mount_child_def nth_list_update)
    have "map (\<lambda>j. the (els ?h ! j)) [s..<Suc t] = map (\<lambda>j. the (els h1 ! j)) [s..<t] @ [next_el h1]"
      using True by (simp add: e)
    then have "kids ?h = X @ map (\<lambda>j. the (els ?h ! j)) [s..<Suc t] @ Y" using k by simp
    moreover have "distinct (kids ?h)" using d new unfolding k by auto
    moreover have "\<forall>y \<in> set (kids ?h). y < next_el ?h"
      using h1(3) unfolding k h1(1) by (auto simp: mount_child_def less_Suc_eq)
    moreover have "\<forall>j. s \<le> j \<and> j < Suc t \<longrightarrow> els ?h ! j \<noteq> None" using h1(5) by (auto simp: e less_Suc_eq)
    moreover have "\<forall>j. j < s \<or> Suc t \<le> j \<longrightarrow> els ?h ! j = els h ! j" using h1(6) True by (auto simp: e)
    moreover have "length (els ?h) = length (els h)" using h1(4) by simp
    moreover have F: "fold (\<lambda>j. mount_child j (first Y)) [s..<Suc t] h = ?h" using True by (simp add: h1_def)
    ultimately show ?thesis unfolding Let_def F by blast
  qed
qed

lemma unmount_run:
  "kids h = X @ map (\<lambda>j. snd (c1 ! j)) [s..<t] @ Y \<Longrightarrow> distinct (kids h) \<Longrightarrow> s \<le> t \<Longrightarrow>
   kids (fold (\<lambda>j. unmount_child (snd (c1 ! j))) [s..<t] h) = X @ Y \<and>
   els (fold (\<lambda>j. unmount_child (snd (c1 ! j))) [s..<t] h) = els h"
proof (induction "t - s" arbitrary: s h)
  case (Suc n)
  let ?h = "unmount_child (snd (c1 ! s)) h" and ?Y = "map (\<lambda>j. snd (c1 ! j)) [Suc s..<t] @ Y"
  have st: "s < t" using Suc by simp
  then have k: "kids h = X @ snd (c1 ! s) # ?Y" using Suc.prems(1) by (simp add: upt_rec [of s])
  then have "kids ?h = X @ ?Y" using Suc.prems(2) remove_middle [of X "snd (c1 ! s)" ?Y] by (simp add: unmount_child_def)
  moreover have "distinct (X @ ?Y)" using Suc.prems(2) unfolding k by simp
  ultimately have "kids (fold (\<lambda>j. unmount_child (snd (c1 ! j))) [Suc s..<t] ?h) = X @ Y \<and>
      els (fold (\<lambda>j. unmount_child (snd (c1 ! j))) [Suc s..<t] ?h) = els ?h"
    using Suc st by (intro Suc.hyps(1)) auto
  then show ?case using st by (simp add: upt_rec [of s] unmount_child_def)
qed simp

section \<open>The order of the children\<close>

text \<open>
  What every update has to reach: all new children have an element, the container holds these in
  order between what stood around the old children, and a child with the key and the type of an
  old one has its element.
\<close>

definition children_in_order ::
  "nat list \<Rightarrow> nat list \<Rightarrow> vnode list \<Rightarrow> host \<Rightarrow> bool" where
  "children_in_order pre post c2 h \<longleftrightarrow>
     length (els h) = length c2 \<and> None \<notin> set (els h) \<and> kids h = pre @ map the (els h) @ post"

definition elements_kept :: "(vnode \<times> nat) list \<Rightarrow> vnode list \<Rightarrow> host \<Rightarrow> bool" where
  "elements_kept c1 c2 h \<longleftrightarrow>
     (\<forall>i < length c1. \<forall>j < length c2. \<not> nullish (vkey (c2 ! j)) \<and> isSameVNodeType (fst (c1 ! i)) (c2 ! j) \<longrightarrow>
        els h ! j = Some (snd (c1 ! i)))"

lemma upt_three: "s \<le> e \<Longrightarrow> e \<le> n \<Longrightarrow> [0..<n] = [0..<s] @ [s..<e] @ [e..<n]"
  by (metis le0 le_trans upt_add_eq_append le_add_diff_inverse)

lemma map_nth_part: "e \<le> length xs \<Longrightarrow> map (\<lambda>j. f (xs ! j)) [s..<e] = map f (drop s (take e xs))"
  by (intro nth_equalityI) auto

lemma finish:
  assumes y: "synced c1 c2 s e1 e2 h" and dk: "distinct_keys (map fst c1)" "distinct_keys c2"
    and k: "kids h' = (pre @ map snd (take s c1)) @ map (\<lambda>j. the (els h' ! j)) [s..<e2] @ map snd (drop e1 c1) @ post"
    and l: "length (els h') = length c2" and some: "\<And>j. s \<le> j \<Longrightarrow> j < e2 \<Longrightarrow> els h' ! j \<noteq> None"
    and out: "\<And>j. j < s \<or> e2 \<le> j \<Longrightarrow> els h' ! j = els h ! j"
    and mid: "\<And>i j. s \<le> i \<Longrightarrow> i < e1 \<Longrightarrow> s \<le> j \<Longrightarrow> j < e2 \<Longrightarrow> \<not> nullish (vkey (c2 ! j)) \<Longrightarrow>
      isSameVNodeType (fst (c1 ! i)) (c2 ! j) \<Longrightarrow> els h' ! j = Some (snd (c1 ! i))"
  shows "children_in_order pre post c2 h' \<and> elements_kept c1 c2 h'"
proof
  have b: "s \<le> e1" "e1 \<le> length c1" "s \<le> e2" "e2 \<le> length c2" "length c1 - e1 = length c2 - e2"
    using y by (simp_all add: synced_def)
  have lo: "isSameVNodeType (fst (c1 ! j)) (c2 ! j)" "els h' ! j = Some (snd (c1 ! j))" if "j < s" for j
    using y out that by (simp_all add: synced_def)
  have hi: "isSameVNodeType (fst (c1 ! (e1 + x))) (c2 ! (e2 + x))" "els h' ! (e2 + x) = Some (snd (c1 ! (e1 + x)))"
    if "x < length c2 - e2" for x
    using y out that by (simp_all add: synced_def)
  have whole: "els h' ! j \<noteq> None" if "j < length c2" for j
    using lo [of j] some [of j] hi [of "j - e2"] that by (cases "j < s"; cases "j < e2") auto
  have "map (\<lambda>j. the (els h' ! j)) [0..<s] = map snd (take s c1)"
    using lo(2) b by (intro nth_equalityI) auto
  moreover have "map (\<lambda>j. the (els h' ! j)) [e2..<length c2] = map snd (drop e1 c1)"
    using hi(2) b by (intro nth_equalityI) auto
  ultimately have "kids h' = pre @ map (\<lambda>j. the (els h' ! j)) [0..<length c2] @ post"
    using k upt_three [OF b(3,4)] by simp
  also have "map (\<lambda>j. the (els h' ! j)) [0..<length c2] = map the (els h')" using l by (intro nth_equalityI) auto
  finally show "children_in_order pre post c2 h'"
    using l whole by (auto simp: children_in_order_def in_set_conv_nth)
  have "els h' ! j = Some (snd (c1 ! i))"
    if "i < length c1" "j < length c2" "\<not> nullish (vkey (c2 ! j))" "isSameVNodeType (fst (c1 ! i)) (c2 ! j)" for i j
  proof -
    have kij: "vkey (fst (c1 ! i)) = vkey (c2 ! j)" using that by (simp add: isSameVNodeType_def)
    have old: "i = i'" if "i' < length c1" "isSameVNodeType (fst (c1 ! i')) (c2 ! j)" for i'
      using keys_unique [OF dk(1), of i i'] that \<open>i < length c1\<close> kij \<open>\<not> nullish (vkey (c2 ! j))\<close>
      by (simp add: isSameVNodeType_def)
    have new: "j = j'" if "j' < length c2" "isSameVNodeType (fst (c1 ! i)) (c2 ! j')" for j'
      using keys_unique [OF dk(2), of j j'] that \<open>j < length c2\<close> kij \<open>\<not> nullish (vkey (c2 ! j))\<close>
      by (simp add: isSameVNodeType_def)
    consider "j < s" | "e2 \<le> j" | "s \<le> j" "j < e2" by linarith
    then show ?thesis
    proof cases
      case 1
      with lo [of j] old [of j] b show ?thesis by auto
    next
      case 2
      with hi [of "j - e2"] old [of "e1 + (j - e2)"] b \<open>j < length c2\<close> show ?thesis by auto
    next
      case 3
      have "s \<le> i" using lo(1) [of i] new [of i] 3 b by (cases "i < s") auto
      moreover have "i < e1"
        using hi(1) [of "i - e1"] new [of "e2 + (i - e1)"] 3 b \<open>i < length c1\<close> by (cases "i < e1") auto
      ultimately show ?thesis using mid 3 that by blast
    qed
  qed
  then show "elements_kept c1 c2 h'" by (simp add: elements_kept_def)
qed

lemma keyed_children:
  assumes k: "kids h = pre @ map snd c1 @ post" "distinct (kids h)" "\<forall>e \<in> set (kids h). e < next_el h"
    and l: "length (els h) = length c2" and pa: "parentAnchor = first post"
    and dk: "distinct_keys (map fst c1)" "distinct_keys c2"
  shows "children_in_order pre post c2 (patchKeyedChildren c1 c2 parentAnchor h) \<and>
    elements_kept c1 c2 (patchKeyedChildren c1 c2 parentAnchor h)"
proof -
  obtain i h1 where f1: "sync_start c1 c2 0 h = (i, h1)" by fastforce
  obtain e2 h2 where f2: "sync_end (rev (drop i c1)) (rev (drop i c2)) (length c2) h1 = (e2, h2)" by fastforce
  define e1 where "e1 = length c1 - (length c2 - e2)"
  note y = sync_both [OF l f1 f2, folded e1_def]
  have b: "i \<le> e1" "e1 \<le> length c1" "i \<le> e2" "e2 \<le> length c2" "length c1 - e1 = length c2 - e2"
    "length (els h2) = length c2" using y(1) by (simp_all add: synced_def)
  let ?X = "pre @ map snd (take i c1)" and ?Y = "map snd (drop e1 c1) @ post"
  let ?M = "map (\<lambda>j. snd (c1 ! j)) [i..<e1]"
  have "map snd c1 = map snd (take i c1) @ ?M @ map snd (drop e1 c1)"
    using b(1,2) by (simp add: map_nth_part flip: map_append)
      (metis append_assoc append_take_drop_id drop_take le_add_diff_inverse take_add)
  then have k2: "kids h2 = ?X @ ?M @ ?Y" "distinct (kids h2)" "\<forall>e \<in> set (kids h2). e < next_el h2"
    using k y(2,3) by simp_all
  have an: "anchor_at parentAnchor e2 h2 = first ?Y"
  proof (cases "e2 < length c2")
    case True
    then have "els h2 ! e2 = Some (snd (c1 ! e1))" "e1 < length c1"
      using y(1) b by (auto simp: synced_def dest!: spec [of _ 0])
    moreover have "drop e1 c1 = c1 ! e1 # drop (Suc e1) c1" using \<open>e1 < length c1\<close> by (simp add: Cons_nth_drop_Suc)
    ultimately show ?thesis using True b(6) by (simp add: anchor_at_def)
  next
    case False
    with b pa show ?thesis by (simp add: anchor_at_def)
  qed
  have p: "patchKeyedChildren c1 c2 parentAnchor h =
    (if i \<ge> e1 then (if i < e2 then fold (\<lambda>j. mount_child j (first ?Y)) [i..<e2] h2 else h2)
     else if i \<ge> e2 then fold (\<lambda>j. unmount_child (snd (c1 ! j))) [i..<e1] h2
     else patch_middle c1 c2 i e1 e2 parentAnchor h2)"
    unfolding patchKeyedChildren_def f1 Let_def prod.case f2 e1_def [symmetric] an ..
  consider (mount) "e1 \<le> i" | (unmount) "i < e1" "e2 \<le> i" | (mid) "i < e1" "i < e2" by linarith
  then show ?thesis
  proof cases
    case mount
    then have "kids h2 = ?X @ ?Y" using k2(1) by simp
    from mount_run [OF this k2(2,3) _ b(3)] b have r:
      "let h' = fold (\<lambda>j. mount_child j (first ?Y)) [i..<e2] h2 in
       kids h' = ?X @ map (\<lambda>j. the (els h' ! j)) [i..<e2] @ ?Y \<and> distinct (kids h') \<and>
       (\<forall>e \<in> set (kids h'). e < next_el h') \<and> length (els h') = length (els h2) \<and>
       (\<forall>j. i \<le> j \<and> j < e2 \<longrightarrow> els h' ! j \<noteq> None) \<and> (\<forall>j. j < i \<or> e2 \<le> j \<longrightarrow> els h' ! j = els h2 ! j)"
      by simp
    have "patchKeyedChildren c1 c2 parentAnchor h = fold (\<lambda>j. mount_child j (first ?Y)) [i..<e2] h2"
      using mount b(3) unfolding p by simp
    then show ?thesis using r mount b by (intro finish [OF y(1) dk]) (auto simp: Let_def)
  next
    case unmount
    with b have e: "patchKeyedChildren c1 c2 parentAnchor h = fold (\<lambda>j. unmount_child (snd (c1 ! j))) [i..<e1] h2"
      unfolding p by simp
    have "kids (patchKeyedChildren c1 c2 parentAnchor h) = ?X @ ?Y" "els (patchKeyedChildren c1 c2 parentAnchor h) = els h2"
      using unmount_run [OF k2(1,2) b(1)] unfolding e by simp_all
    then show ?thesis using unmount b by (intro finish [OF y(1) dk]) simp_all
  next
    case mid
    then have e: "patchKeyedChildren c1 c2 parentAnchor h = patch_middle c1 c2 i e1 e2 parentAnchor h2" unfolding p by simp
    note m = patch_middle_ok [OF k2 mid(2) b(4,1,2,6) an dk]
    show ?thesis unfolding e
      by (rule finish [OF y(1) dk]) (use m in \<open>auto simp: b(6)\<close>)
  qed
qed

text \<open>
  C16: updating a list of keyed children, by a common start, a
  common end, matching by key and moving only what is not in the increasing sequence, gives every
  new child an element, leaves the container with these elements in the order of the new
  children between what stood before and behind the old ones, and lets a child with the key and
  the type of an old one keep its element; provided no key occurs twice among the old or among
  the new children.
\<close>

theorem keyed_children_end_in_order:
  assumes "kids h = pre @ map snd c1 @ post" "distinct (kids h)" "\<forall>e \<in> set (kids h). e < next_el h"
    and "length (els h) = length c2" "parentAnchor = first post"
    and "distinct_keys (map fst c1)" "distinct_keys c2"
  shows "children_in_order pre post c2 (patchKeyedChildren c1 c2 parentAnchor h) \<and>
    elements_kept c1 c2 (patchKeyedChildren c1 c2 parentAnchor h)"
  by (rule keyed_children [OF assms])

text \<open>Four old children behind another element: the third goes first, the second is left out, one is new.\<close>

theorem keyed_children_end_in_order_witness:
  "let v = (\<lambda>k. \<lparr>vtype = ''li'', vkey = JNum k\<rparr>); c1 = [(v 1, 1), (v 2, 2), (v 3, 3), (v 4, 4)];
       c2 = [v 3, v 1, v 5, v 4]; h = \<lparr>kids = [0, 1, 2, 3, 4, 5], next_el = 6, els = replicate 4 None\<rparr>;
       h' = patchKeyedChildren c1 c2 (Some 5) h
   in children_in_order [0] [5] c2 h' \<and> elements_kept c1 c2 h' \<and> kids h' = [0, 3, 1, 6, 4, 5]"
proof -
  let ?v = "\<lambda>k. \<lparr>vtype = ''li'', vkey = JNum k\<rparr>"
  let ?c1 = "[(?v 1, 1), (?v 2, 2), (?v 3, 3), (?v 4, 4)]" and ?c2 = "[?v 3, ?v 1, ?v 5, ?v 4]"
  let ?h = "\<lparr>kids = [0, 1, 2, 3, 4, 5], next_el = 6, els = replicate 4 None\<rparr>"
  have "distinct_keys (map fst ?c1)" "distinct_keys ?c2" by code_simp+
  then have "children_in_order [0] [5] ?c2 (patchKeyedChildren ?c1 ?c2 (Some 5) ?h) \<and>
      elements_kept ?c1 ?c2 (patchKeyedChildren ?c1 ?c2 (Some 5) ?h)"
    by (intro keyed_children_end_in_order) simp_all
  moreover have "kids (patchKeyedChildren ?c1 ?c2 (Some 5) ?h) = [0, 3, 1, 6, 4, 5]" by code_simp
  ultimately show ?thesis by (simp only: Let_def)
qed

section \<open>The order of children without keys\<close>

lemma patch_run:
  assumes "kids h = pre @ map snd c1 @ post" "distinct (kids h)" "\<forall>e \<in> set (kids h). e < next_el h"
    "length (els h) = length c2"
  shows "t \<le> length c1 \<Longrightarrow> t \<le> length c2 \<Longrightarrow>
    (let h' = fold (\<lambda>i. patch_child (c1 ! i) (c2 ! i) i) [0..<t] h in
     kids h' = pre @ map (\<lambda>j. the (els h' ! j)) [0..<t] @ map (\<lambda>j. snd (c1 ! j)) [t..<length c1] @ post \<and>
     distinct (kids h') \<and> (\<forall>e \<in> set (kids h'). e < next_el h') \<and> length (els h') = length c2 \<and>
     (\<forall>j < t. els h' ! j \<noteq> None \<and> (isSameVNodeType (fst (c1 ! j)) (c2 ! j) \<longrightarrow> els h' ! j = Some (snd (c1 ! j)))))"
proof (induction t)
  case 0
  have "map (\<lambda>j. snd (c1 ! j)) [0..<length c1] = map snd c1" by (intro nth_equalityI) auto
  with assms show ?case by (simp add: Let_def)
next
  case (Suc t)
  define h1 where "h1 = fold (\<lambda>i. patch_child (c1 ! i) (c2 ! i) i) [0..<t] h"
  let ?X = "pre @ map (\<lambda>j. the (els h1 ! j)) [0..<t]" and ?Y = "map (\<lambda>j. snd (c1 ! j)) [Suc t..<length c1] @ post"
  let ?h = "patch_child (c1 ! t) (c2 ! t) t h1"
  obtain n e where n: "c1 ! t = (n, e)" by fastforce
  have all: "kids h1 = ?X @ map (\<lambda>j. snd (c1 ! j)) [t..<length c1] @ post" "distinct (kids h1)"
    "\<forall>e \<in> set (kids h1). e < next_el h1" "length (els h1) = length c2"
    "\<And>j. j < t \<Longrightarrow> els h1 ! j \<noteq> None \<and> (isSameVNodeType (fst (c1 ! j)) (c2 ! j) \<longrightarrow> els h1 ! j = Some (snd (c1 ! j)))"
    using Suc.IH [OF Suc_leD [OF Suc.prems(1)] Suc_leD [OF Suc.prems(2)]]
    unfolding Let_def h1_def append_assoc by blast+
  have "map (\<lambda>j. snd (c1 ! j)) [t..<length c1] @ post = e # ?Y" using Suc.prems(1) n by (simp add: upt_rec [of t])
  then have "kids h1 = ?X @ e # ?Y" using all(1) by (simp only:)
  note h1 = this all(2-5)
  from patch_child_place [OF h1(2,1,3), of n "c2 ! t" t] obtain e' where
    e': "kids ?h = ?X @ e' # ?Y" "els ?h = (els h1)[t := Some e']" "distinct (?X @ e' # ?Y)"
    "\<forall>y \<in> set (?X @ e' # ?Y). y < next_el ?h" "isSameVNodeType n (c2 ! t) \<longrightarrow> e' = e"
    unfolding n by blast
  have el: "els ?h ! j = (if j = t then Some e' else els h1 ! j)" for j
    using Suc.prems h1(4) by (simp add: e'(2) nth_list_update)
  have "map (\<lambda>j. the (els ?h ! j)) [0..<Suc t] = map (\<lambda>j. the (els h1 ! j)) [0..<t] @ [e']" by (simp add: el)
  then have "kids ?h = pre @ map (\<lambda>j. the (els ?h ! j)) [0..<Suc t] @ ?Y" using e'(1) by simp
  moreover have "\<forall>j < Suc t. els ?h ! j \<noteq> None \<and>
      (isSameVNodeType (fst (c1 ! j)) (c2 ! j) \<longrightarrow> els ?h ! j = Some (snd (c1 ! j)))"
    unfolding el using h1(5) e'(5) n by (auto simp: less_Suc_eq)
  moreover have F: "fold (\<lambda>i. patch_child (c1 ! i) (c2 ! i) i) [0..<Suc t] h = ?h" by (simp add: h1_def)
  moreover have "length (els ?h) = length c2" using h1(4) by (simp add: e'(2))
  moreover have "distinct (kids ?h)" "\<forall>y \<in> set (kids ?h). y < next_el ?h" using e'(3,4) unfolding e'(1) by blast+
  ultimately show ?case unfolding Let_def F by blast
qed

lemma unkeyed_children:
  assumes k: "kids h = pre @ map snd c1 @ post" "distinct (kids h)" "\<forall>e \<in> set (kids h). e < next_el h"
    and l: "length (els h) = length c2" and an: "anchor = first post"
  shows "children_in_order pre post c2 (patchUnkeyedChildren c1 c2 anchor h) \<and>
    (\<forall>i < min (length c1) (length c2). isSameVNodeType (fst (c1 ! i)) (c2 ! i) \<longrightarrow>
       els (patchUnkeyedChildren c1 c2 anchor h) ! i = Some (snd (c1 ! i)))"
proof -
  let ?n = "min (length c1) (length c2)" and ?h' = "patchUnkeyedChildren c1 c2 anchor h"
  define h1 where "h1 = fold (\<lambda>i. patch_child (c1 ! i) (c2 ! i) i) [0..<?n] h"
  have h1: "kids h1 = (pre @ map (\<lambda>j. the (els h1 ! j)) [0..<?n]) @ map (\<lambda>j. snd (c1 ! j)) [?n..<length c1] @ post"
    "distinct (kids h1)" "\<forall>e \<in> set (kids h1). e < next_el h1" "length (els h1) = length c2"
    "\<And>j. j < ?n \<Longrightarrow> els h1 ! j \<noteq> None \<and> (isSameVNodeType (fst (c1 ! j)) (c2 ! j) \<longrightarrow> els h1 ! j = Some (snd (c1 ! j)))"
    using patch_run [OF k l min.cobounded1 min.cobounded2] unfolding Let_def h1_def append_assoc by blast+
  have whole: "children_in_order pre post c2 h"
    if "kids h = pre @ map (\<lambda>j. the (els h ! j)) [0..<length c2] @ post" "length (els h) = length c2"
      "\<And>j. j < length c2 \<Longrightarrow> els h ! j \<noteq> None" for h
  proof -
    have "map (\<lambda>j. the (els h ! j)) [0..<length c2] = map the (els h)" using that(2) by (intro nth_equalityI) auto
    with that show ?thesis by (auto simp: children_in_order_def in_set_conv_nth)
  qed
  show ?thesis
  proof (cases "length c2 < length c1")
    case True
    then have n: "?n = length c2" by simp
    have e: "?h' = fold (\<lambda>i. unmount_child (snd (c1 ! i))) [?n..<length c1] h1"
      using True unfolding patchUnkeyedChildren_def Let_def h1_def by simp
    have "kids ?h' = pre @ map (\<lambda>j. the (els h1 ! j)) [0..<length c2] @ post" "els ?h' = els h1"
      using unmount_run [OF h1(1,2)] True unfolding e n by simp_all
    then show ?thesis using h1(4,5) unfolding n by (intro conjI whole) auto
  next
    case False
    let ?X = "pre @ map (\<lambda>j. the (els h1 ! j)) [0..<length c1]"
    have n: "?n = length c1" using False by simp
    have e: "?h' = fold (\<lambda>i. mount_child i (first post)) [length c1..<length c2] h1"
      using False unfolding patchUnkeyedChildren_def Let_def h1_def an by simp
    have "kids h1 = ?X @ post" using h1(1) unfolding n by simp
    from mount_run [OF this h1(2,3), of "length c2" "length c1"] False h1(4)
    have r: "kids ?h' = ?X @ map (\<lambda>j. the (els ?h' ! j)) [length c1..<length c2] @ post"
      "length (els ?h') = length c2" "\<And>j. length c1 \<le> j \<Longrightarrow> j < length c2 \<Longrightarrow> els ?h' ! j \<noteq> None"
      "\<And>j. j < length c1 \<Longrightarrow> els ?h' ! j = els h1 ! j"
      unfolding e Let_def by auto
    have "map (\<lambda>j. the (els h1 ! j)) [0..<length c1] = map (\<lambda>j. the (els ?h' ! j)) [0..<length c1]" using r(4) by simp
    moreover have "[0..<length c2] = [0..<length c1] @ [length c1..<length c2]"
      using False by (metis le_add_diff_inverse not_less upt_add_eq_append zero_le)
    ultimately have "kids ?h' = pre @ map (\<lambda>j. the (els ?h' ! j)) [0..<length c2] @ post" using r(1) by simp
    moreover have "els ?h' ! j \<noteq> None" if "j < length c2" for j
      using r(3,4) [of j] h1(5) [of j] that n by (cases "j < length c1") auto
    ultimately show ?thesis using h1(5) r(2,4) unfolding n by (intro conjI whole) auto
  qed
qed

text \<open>
  Updating children by position, whatever their keys,
  also leaves the container with the elements of the new children in order between what stood
  before and behind the old ones; a child of the type and key of the old one at its position
  keeps that element.
\<close>

theorem unkeyed_children_end_in_order:
  assumes "kids h = pre @ map snd c1 @ post" "distinct (kids h)" "\<forall>e \<in> set (kids h). e < next_el h"
    and "length (els h) = length c2" "anchor = first post"
  shows "children_in_order pre post c2 (patchUnkeyedChildren c1 c2 anchor h) \<and>
    (\<forall>i < min (length c1) (length c2). isSameVNodeType (fst (c1 ! i)) (c2 ! i) \<longrightarrow>
       els (patchUnkeyedChildren c1 c2 anchor h) ! i = Some (snd (c1 ! i)))"
  by (rule unkeyed_children [OF assms])

text \<open>One child of another type is replaced in its place, one is added.\<close>

theorem unkeyed_children_end_in_order_witness:
  "let v = (\<lambda>t. \<lparr>vtype = t, vkey = JNull\<rparr>); c1 = [(v ''p'', 1), (v ''b'', 2)]; c2 = [v ''p'', v ''i'', v ''b''];
       h = \<lparr>kids = [0, 1, 2, 3], next_el = 4, els = replicate 3 None\<rparr>;
       h' = patchUnkeyedChildren c1 c2 (Some 3) h
   in children_in_order [0] [3] c2 h' \<and> kids h' = [0, 1, 4, 5, 3]"
proof -
  let ?v = "\<lambda>t. \<lparr>vtype = t, vkey = JNull\<rparr>"
  let ?c1 = "[(?v ''p'', 1), (?v ''b'', 2)]" and ?c2 = "[?v ''p'', ?v ''i'', ?v ''b'']"
  let ?h = "\<lparr>kids = [0, 1, 2, 3], next_el = 4, els = replicate 3 None\<rparr>"
  have "children_in_order [0] [3] ?c2 (patchUnkeyedChildren ?c1 ?c2 (Some 3) ?h)"
    using unkeyed_children_end_in_order [of ?h "[0]" ?c1 "[3]" ?c2 "Some 3"] by simp
  moreover have "kids (patchUnkeyedChildren ?c1 ?c2 (Some 3) ?h) = [0, 1, 4, 5, 3]" by code_simp
  ultimately show ?thesis by (simp only: Let_def)
qed

end
