(* ===== verification/VuetifyGroup.thy ===== *)
theory VuetifyGroup
  imports VuetifyModel
begin

text \<open>
  Vuetify's groups of selectable items (\<^verbatim>\<open>src/v2/lens3/ui/assets/index.js\<close>, \<open>useGroup\<close> and
  \<open>useGroupItem\<close>), on which its button groups, chips, windows and panels rest. The group keeps
  the list of its items and a proxied model: inside, the selection is a list of item ids; outside
  it is the value, or the list of values, of the selected items. Where an item stands among the
  virtual nodes below the group is decided by the rendered tree (\<open>findChildrenWithProvide\<close>) and
  is the argument \<open>index\<close> of \<open>register\<close>. Two values that are objects count as different objects
  where the code compares them by identity, which decides only whether an unchanged value is
  announced again.

  Shown below: the model of a group reads back the ids written to it; toggling keeps a mandatory
  selection, the bound \<open>max\<close>, and never selects a disabled item; stepping to the next or the
  previous item ends, at an enabled item.
\<close>

section \<open>Items and values\<close>

record group_item =
  item_id :: nat
  item_value :: jsval
  item_disabled :: bool

text \<open>\<open>items[value]\<close>\<close>

definition item_by_index :: "group_item list \<Rightarrow> jsval \<Rightarrow> group_item option" where
  "item_by_index items value =
     (case array_index (to_string value) of
        Some k \<Rightarrow> if k < length items then Some (items ! k) else None
      | None \<Rightarrow> None)"

definition id_of_value :: "group_item list \<Rightarrow> jsval \<Rightarrow> nat list" where
  "id_of_value items value =
     (let by_index = (case item_by_index items value of Some it \<Rightarrow> [item_id it] | None \<Rightarrow> [])
      in case List.find (\<lambda>it. deepEqual value (item_value it)) items of
           Some it \<Rightarrow> if nullish (item_value it) then by_index else [item_id it]
         | None \<Rightarrow> by_index)"

definition getIds :: "group_item list \<Rightarrow> jsval list \<Rightarrow> nat list" where
  "getIds items modelValue = concat (map (id_of_value items) modelValue)"

text \<open>\<open>findIndex\<close>, with \<open>None\<close> for \<open>-1\<close>.\<close>

fun find_index :: "('a \<Rightarrow> bool) \<Rightarrow> 'a list \<Rightarrow> nat option" where
  "find_index P [] = None"
| "find_index P (x # xs) = (if P x then Some 0 else map_option Suc (find_index P xs))"

definition value_of_id :: "group_item list \<Rightarrow> nat \<Rightarrow> jsval list" where
  "value_of_id items i =
     (case find_index (\<lambda>it. item_id it = i) items of
        Some k \<Rightarrow>
          [if nullish (item_value (items ! k)) then JNum (int k) else item_value (items ! k)]
      | None \<Rightarrow> [])"

definition getValues :: "group_item list \<Rightarrow> nat list \<Rightarrow> jsval list" where
  "getValues items ids = concat (map (value_of_id items) ids)"

definition getItemIndex :: "group_item list \<Rightarrow> jsval \<Rightarrow> int" where
  "getItemIndex items value =
     (case getIds items [value] of
        [] \<Rightarrow> -1
      | i # _ \<Rightarrow> (case find_index (\<lambda>it. item_id it = i) items of Some k \<Rightarrow> int k | None \<Rightarrow> -1))"

section \<open>The group\<close>

record group_props =
  multiple :: bool
  mandatory :: jsval
  max_items :: "int option"
  props_disabled :: bool

record group =
  group_props :: group_props
  items :: "group_item list"
  group_model :: proxied
  group_unmounted :: bool
  updates :: "jsval list"

definition group_in :: "group_item list \<Rightarrow> jsval \<Rightarrow> nat list" where
  "group_in its v = (if nullish v then [] else getIds its (wrapInArray v))"

definition group_out :: "bool \<Rightarrow> group_item list \<Rightarrow> nat list \<Rightarrow> jsval" where
  "group_out mult its ids =
     (let arr = getValues its ids
      in if mult then JArr arr else case arr of [] \<Rightarrow> JUndef | v # _ \<Rightarrow> v)"

definition identical :: "jsval \<Rightarrow> jsval \<Rightarrow> bool" where
  "identical a b \<longleftrightarrow> a = b \<and> a \<noteq> JNaN \<and> object_keys a = None"

definition group_same :: "bool \<Rightarrow> group_item list \<Rightarrow> jsval \<Rightarrow> nat list \<Rightarrow> bool" where
  "group_same mult its value ids = identical value (group_out mult its ids)"

definition group_selected :: "group \<Rightarrow> nat list" where
  "group_selected g = model_get (group_in (items g)) ''modelValue'' (group_model g)"

definition write_selection :: "nat list \<Rightarrow> group \<Rightarrow> group" where
  "write_selection ids g =
     (let mult = multiple (group_props g) in
      case model_set (group_out mult (items g)) (group_same mult (items g)) ''modelValue'' ids (group_model g) of
        (p, e) \<Rightarrow> g\<lparr>group_model := p,
                    updates := updates g @ (case e of None \<Rightarrow> [] | Some v \<Rightarrow> [v])\<rparr>)"

definition register_item :: "int \<Rightarrow> group_item \<Rightarrow> group \<Rightarrow> group" where
  "register_item index it g =
     (let it' = (if nullish (item_value it) then it\<lparr>item_value := JNum index\<rparr> else it)
      in g\<lparr>items := (if index > -1 then take (nat index) (items g) @ [it'] @ drop (nat index) (items g)
                     else items g @ [it'])\<rparr>)"

definition forceMandatoryValue :: "group \<Rightarrow> group" where
  "forceMandatoryValue g =
     (case List.find (\<lambda>it. \<not> item_disabled it) (items g) of
        Some it \<Rightarrow>
          if mandatory (group_props g) = JStr ''force'' \<and> group_selected g = []
          then write_selection [item_id it] g else g
      | None \<Rightarrow> g)"

text \<open>\<open>items.splice(-1, 1)\<close> removes the last item.\<close>

definition unregister_item :: "nat \<Rightarrow> group \<Rightarrow> group" where
  "unregister_item i g =
     (if group_unmounted g then g
      else
        let g' = forceMandatoryValue g
        in g'\<lparr>items := (case find_index (\<lambda>it. item_id it = i) (items g') of
                          Some k \<Rightarrow> take k (items g') @ drop (Suc k) (items g')
                        | None \<Rightarrow> butlast (items g'))\<rparr>)"

definition item_is_disabled :: "group \<Rightarrow> nat \<Rightarrow> bool" where
  "item_is_disabled g i =
     (case List.find (\<lambda>it. item_id it = i) (items g) of Some it \<Rightarrow> item_disabled it | None \<Rightarrow> False)"

text \<open>The argument \<open>value\<close> is \<open>None\<close> when it is not given.\<close>

definition group_select :: "nat \<Rightarrow> bool option \<Rightarrow> group \<Rightarrow> group" where
  "group_select i value g =
     (if value = Some True \<and> item_is_disabled g i then g
      else if multiple (group_props g) then
        let internalValue = group_selected g;
            index = find_index (\<lambda>v. v = i) internalValue;
            isSelected = (index \<noteq> None);
            value' = (case value of Some b \<Rightarrow> b | None \<Rightarrow> \<not> isSelected)
        in if isSelected \<and> truthy (mandatory (group_props g)) \<and> length internalValue \<le> 1 then g
           else if \<not> isSelected \<and>
             (case max_items (group_props g) of Some m \<Rightarrow> int (length internalValue) + 1 > m | None \<Rightarrow> False)
           then g
           else write_selection
             (case index of
                None \<Rightarrow> if value' then internalValue @ [i] else internalValue
              | Some k \<Rightarrow> if value' then internalValue
                         else take k internalValue @ drop (Suc k) internalValue) g
      else
        let isSelected = (i \<in> set (group_selected g))
        in if truthy (mandatory (group_props g)) \<and> isSelected then g
           else write_selection
             (if (case value of Some b \<Rightarrow> b | None \<Rightarrow> \<not> isSelected) then [i] else []) g)"

text \<open>The search of \<open>step\<close> from \<open>newIndex\<close>.\<close>

partial_function (option) step_from :: "group_item list \<Rightarrow> nat \<Rightarrow> nat \<Rightarrow> nat \<Rightarrow> nat option" where
  "step_from its offset currentIndex newIndex =
     (if item_disabled (its ! newIndex) \<and> newIndex \<noteq> currentIndex
      then step_from its offset currentIndex ((newIndex + offset) mod length its)
      else Some newIndex)"

declare step_from.simps [code]

text \<open>
  The current id is the id of an item, since the model reads as ids of items; \<open>None\<close> is a search
  that never ends.
\<close>

definition group_step :: "nat \<Rightarrow> group \<Rightarrow> group option" where
  "group_step offset g =
     (case group_selected g of
        [] \<Rightarrow>
          Some (case List.find (\<lambda>it. \<not> item_disabled it) (items g) of
                  Some it \<Rightarrow> write_selection [item_id it] g
                | None \<Rightarrow> g)
      | currentId # _ \<Rightarrow>
          (case find_index (\<lambda>it. item_id it = currentId) (items g) of
             None \<Rightarrow> Some g
           | Some currentIndex \<Rightarrow>
               map_option (\<lambda>newIndex.
                   if item_disabled (items g ! newIndex) then g
                   else write_selection [item_id (items g ! newIndex)] g)
                 (step_from (items g) offset currentIndex ((currentIndex + offset) mod length (items g)))))"

definition group_next :: "group \<Rightarrow> group option" where
  "group_next g = group_step 1 g"

definition group_prev :: "group \<Rightarrow> group option" where
  "group_prev g = group_step (length (items g) - 1) g"

definition group_is_selected :: "group \<Rightarrow> nat \<Rightarrow> bool" where
  "group_is_selected g i = (i \<in> set (group_selected g))"

section \<open>Items in a group\<close>

definition useGroupItem ::
  "bool \<Rightarrow> string \<Rightarrow> nat \<Rightarrow> jsval \<Rightarrow> bool \<Rightarrow> int \<Rightarrow> group option \<Rightarrow> js_error + group option" where
  "useGroupItem required description i value disabled index g =
     (case g of
        None \<Rightarrow>
          if required
          then Inl (Thrown (''[Vuetify] Could not find useGroup injection with symbol '' @ description))
          else Inr None
      | Some g \<Rightarrow>
          Inr (Some (register_item index
            \<lparr>item_id = i, item_value = value, item_disabled = props_disabled (group_props g) \<or> disabled\<rparr> g)))"

definition toggle :: "nat \<Rightarrow> group \<Rightarrow> group" where
  "toggle i g = group_select i (Some (\<not> group_is_selected g i)) g"

definition selectedClass :: "group \<Rightarrow> nat \<Rightarrow> jsval \<Rightarrow> jsval \<Rightarrow> jsval" where
  "selectedClass g i group_class own_class =
     (if group_is_selected g i then JArr [group_class, own_class] else JBool False)"

section \<open>The model of a group\<close>

text \<open>
  Items with different ids and with values that tell them apart; a group of one selection has no
  arrays as values, since an array stands for several values there.
\<close>

definition wf_items :: "bool \<Rightarrow> group_item list \<Rightarrow> bool" where
  "wf_items mult its \<longleftrightarrow>
     distinct (map item_id its) \<and>
     (\<forall>it \<in> set its. comparable (item_value it) \<and> \<not> nullish (item_value it) \<and>
        (mult \<or> (\<forall>xs. item_value it \<noteq> JArr xs))) \<and>
     (\<forall>i < length its. \<forall>j < length its. deepEqual (item_value (its ! i)) (item_value (its ! j)) \<longrightarrow> i = j)"

definition valid_ids :: "bool \<Rightarrow> group_item list \<Rightarrow> nat list \<Rightarrow> bool" where
  "valid_ids mult its ids \<longleftrightarrow>
     wf_items mult its \<and> set ids \<subseteq> item_id ` set its \<and> (mult \<or> length ids \<le> 1)"

lemma find_index_Some:
  "find_index P xs = Some k \<longleftrightarrow> k < length xs \<and> P (xs ! k) \<and> (\<forall>j < k. \<not> P (xs ! j))"
proof (induction xs arbitrary: k)
  case (Cons x xs)
  then show ?case by (cases k) (auto simp: less_Suc_eq_0_disj)
qed simp

lemma find_index_None: "find_index P xs = None \<longleftrightarrow> (\<forall>x \<in> set xs. \<not> P x)"
  by (induction xs) auto

lemma find_index_id:
  assumes "distinct (map item_id its)" "k < length its"
  shows "find_index (\<lambda>it. item_id it = item_id (its ! k)) its = Some k"
  using assms nth_eq_iff_index_eq [of "map item_id its"] by (auto simp: find_index_Some)

lemma value_of_id_nth:
  "wf_items mult its \<Longrightarrow> k < length its \<Longrightarrow> value_of_id its (item_id (its ! k)) = [item_value (its ! k)]"
  by (simp add: value_of_id_def wf_items_def find_index_id)

lemma id_of_value_nth:
  assumes "wf_items mult its" "k < length its"
  shows "id_of_value its (item_value (its ! k)) = [item_id (its ! k)]"
proof -
  have "deepEqual (item_value (its ! k)) (item_value (its ! k))" "\<not> nullish (item_value (its ! k))"
    using assms by (simp_all add: wf_items_def deepEqual_refl)
  moreover have "\<not> deepEqual (item_value (its ! k)) (item_value (its ! j))" if "j < k" for j
    using assms that unfolding wf_items_def by (metis less_irrefl less_trans)
  ultimately have "List.find (\<lambda>it. deepEqual (item_value (its ! k)) (item_value it)) its = Some (its ! k)"
    using assms(2) by (auto simp: find_Some_iff intro!: exI [of _ k])
  with \<open>\<not> nullish (item_value (its ! k))\<close> show ?thesis by (simp add: id_of_value_def)
qed

lemma ids_of_values:
  "wf_items mult its \<Longrightarrow> set ids \<subseteq> item_id ` set its \<Longrightarrow> getIds its (getValues its ids) = ids"
proof (induction ids)
  case (Cons i ids)
  then obtain k where "k < length its" "i = item_id (its ! k)" by (force simp: in_set_conv_nth)
  with Cons show ?case
    by (simp add: getIds_def getValues_def value_of_id_nth id_of_value_nth)
qed (simp add: getIds_def getValues_def)

lemma group_round_trip: "valid_ids mult its ids \<Longrightarrow> group_in its (group_out mult its ids) = ids"
proof -
  assume v: "valid_ids mult its ids"
  then have r: "getIds its (getValues its ids) = ids" by (auto simp: valid_ids_def ids_of_values)
  show ?thesis
  proof (cases mult)
    case True
    with r show ?thesis by (simp add: group_in_def group_out_def nullish_def Let_def)
  next
    case False
    with v consider "ids = []" | k where "k < length its" "ids = [item_id (its ! k)]"
      by (cases ids) (force simp: valid_ids_def in_set_conv_nth)+
    then show ?thesis
    proof cases
      case 1
      with False show ?thesis by (simp add: group_in_def group_out_def getValues_def nullish_def)
    next
      case (2 k)
      let ?v = "item_value (its ! k)"
      have w: "getValues its ids = [?v]" "\<not> nullish ?v" "\<forall>xs. ?v \<noteq> JArr xs"
        using v 2 False value_of_id_nth [of mult its k]
        by (auto simp: valid_ids_def getValues_def wf_items_def)
      then have "wrapInArray ?v = [?v]" by (cases ?v) auto
      with w r False show ?thesis by (simp add: group_in_def group_out_def)
    qed
  qed
qed

interpretation group_ids: proxied_model "group_in its" "group_out mult its" "group_same mult its" "valid_ids mult its"
  for mult its
  by unfold_locales (auto simp: group_round_trip group_same_def identical_def)

lemma group_written:
  assumes "valid_ids (multiple (group_props g)) (items g) ids" and "\<not> isControlled ''modelValue'' (group_model g)"
  shows "group_selected (write_selection ids g) = ids"
  using group_ids.uncontrolled_read_after_write [OF assms]
  by (simp add: group_selected_def write_selection_def Let_def case_prod_beta)

lemma write_selection_fields [simp]:
  "items (write_selection ids g) = items g" "group_props (write_selection ids g) = group_props g"
  by (simp_all add: write_selection_def Let_def split: prod.splits)

lemma group_selected_registered: "set (group_selected g) \<subseteq> item_id ` set (items g)"
proof -
  have "set (id_of_value its v) \<subseteq> item_id ` set its" for its v
    by (auto simp: id_of_value_def item_by_index_def find_Some_iff Let_def split: option.splits if_splits)
  then show ?thesis
    unfolding group_selected_def model_get_def group_in_def getIds_def by (simp add: UN_subset_iff)
qed

section \<open>Toggling\<close>

lemma toggle_selection:
  assumes "wf_items (multiple (group_props g)) (items g)" and "\<not> isControlled ''modelValue'' (group_model g)"
    and "i \<in> item_id ` set (items g)" and "multiple (group_props g) \<or> length (group_selected g) \<le> 1"
  defines "sel \<equiv> group_selected g" and "on \<equiv> i \<in> set (group_selected g)"
  shows "group_selected (toggle i g) =
    (if on then
       if truthy (mandatory (group_props g)) \<and> length sel \<le> 1 then sel else remove1 i sel
     else if item_is_disabled g i then sel
     else if multiple (group_props g) then
       (case max_items (group_props g) of
          Some m \<Rightarrow> if int (length sel) + 1 > m then sel else sel @ [i]
        | None \<Rightarrow> sel @ [i])
     else [i])"
proof -
  let ?m = "multiple (group_props g)"
  have reg: "set sel \<subseteq> item_id ` set (items g)"
    unfolding sel_def by (rule group_selected_registered)
  have w: "group_selected (write_selection ids g) = ids"
    if "set ids \<subseteq> insert i (set sel)" "?m \<or> length ids \<le> 1" for ids
    using that reg assms(1,3) by (intro group_written assms(2)) (auto simp: valid_ids_def)
  have cut: "take k sel @ drop (Suc k) sel = remove1 i sel" if "find_index (\<lambda>v. v = i) sel = Some k" for k
    using that by (induction sel arbitrary: k) (auto split: if_splits)
  show ?thesis
  proof (cases on)
    case True
    then obtain k where k: "find_index (\<lambda>v. v = i) sel = Some k"
      using find_index_None [of "\<lambda>v. v = i" sel] by (auto simp: sel_def on_def)
    have one: "\<not> ?m \<Longrightarrow> sel = [i]"
      using True assms(4) by (cases sel rule: remdups_adj.cases) (auto simp: sel_def on_def)
    show ?thesis
      using True k cut [OF k] w [of "remove1 i sel"] w [of "[]"] one set_remove1_subset [of i sel]
      by (auto simp: toggle_def group_select_def group_is_selected_def on_def sel_def Let_def)
  next
    case False
    then have k: "find_index (\<lambda>v. v = i) sel = None"
      by (auto simp: find_index_None sel_def on_def)
    show ?thesis
      using False k w [of "sel @ [i]"] w [of "[i]"]
      by (auto simp: toggle_def group_select_def group_is_selected_def on_def sel_def Let_def split: option.splits)
  qed
qed

text \<open>
  C38. In a group that keeps its selection itself and whose items have values
  that tell them apart, a click on an item keeps what the group promises: a mandatory selection
  does not become empty, the number of selected items stays within \<open>max\<close>, a group of one
  selection has at most one, only items of the group are selected, and a disabled item is not
  selected by it.
\<close>

theorem toggle_keeps_limits:
  assumes "wf_items (multiple (group_props g)) (items g)" and "\<not> isControlled ''modelValue'' (group_model g)"
    and "i \<in> item_id ` set (items g)" and "multiple (group_props g) \<or> length (group_selected g) \<le> 1"
  shows "(truthy (mandatory (group_props g)) \<and> group_selected g \<noteq> [] \<longrightarrow> group_selected (toggle i g) \<noteq> []) \<and>
    (\<forall>m. multiple (group_props g) \<and> max_items (group_props g) = Some m \<and> int (length (group_selected g)) \<le> m \<longrightarrow>
       int (length (group_selected (toggle i g))) \<le> m) \<and>
    (multiple (group_props g) \<or> length (group_selected (toggle i g)) \<le> 1) \<and>
    set (group_selected (toggle i g)) \<subseteq> item_id ` set (items g) \<and>
    (item_is_disabled g i \<and> \<not> group_is_selected g i \<longrightarrow> \<not> group_is_selected (toggle i g) i)"
proof -
  let ?sel = "group_selected g" and ?sel' = "group_selected (toggle i g)"
  note t = toggle_selection [OF assms]
  have items: "items (toggle i g) = items g"
    by (simp add: toggle_def group_select_def Let_def)
  have "truthy (mandatory (group_props g)) \<and> ?sel \<noteq> [] \<longrightarrow> ?sel' \<noteq> []"
    unfolding t by (auto simp: length_remove1 dest: arg_cong [where f = length] split: option.splits)
  moreover have "\<forall>m. multiple (group_props g) \<and> max_items (group_props g) = Some m \<and> int (length ?sel) \<le> m \<longrightarrow>
      int (length ?sel') \<le> m"
    unfolding t by (auto simp: length_remove1)
  moreover have "multiple (group_props g) \<or> length ?sel' \<le> 1"
    unfolding t using assms(4) by (auto simp: length_remove1)
  moreover have "set ?sel' \<subseteq> item_id ` set (items g)"
    using group_selected_registered [of "toggle i g"] by (simp add: items)
  moreover have "item_is_disabled g i \<and> \<not> group_is_selected g i \<longrightarrow> \<not> group_is_selected (toggle i g) i"
    unfolding group_is_selected_def t by auto
  ultimately show ?thesis by blast
qed

section \<open>Stepping\<close>

lemma step_from_ends:
  assumes "c < length its" "k \<le> length its"
  shows "\<exists>j. step_from its off c ((c + k * off) mod length its) = Some j \<and> j < length its \<and>
    (j = c \<or> \<not> item_disabled (its ! j))"
  using assms(2)
proof (induction "length its - k" arbitrary: k)
  case 0
  then have "k = length its" by simp
  then have "(c + k * off) mod length its = c" using assms(1) by simp
  then show ?case using assms(1) by (subst step_from.simps) auto
next
  case (Suc d)
  let ?j = "(c + k * off) mod length its"
  show ?case
  proof (cases "item_disabled (its ! ?j) \<and> ?j \<noteq> c")
    case False
    moreover have "?j < length its" using assms(1) by (intro mod_less_divisor) linarith
    ultimately show ?thesis by (subst step_from.simps) auto
  next
    case True
    have "(?j + off) mod length its = (c + Suc k * off) mod length its"
      by (simp add: mod_simps algebra_simps)
    with True Suc.hyps(1) [of "Suc k"] Suc.hyps(2) show ?thesis
      by (subst step_from.simps) simp
  qed
qed

text \<open>
  In such a group, stepping to the next or to the previous item ends, however
  many items are disabled: the group then has the selection it had, or one enabled item selected.
\<close>

theorem group_step_ends:
  assumes "wf_items (multiple (group_props g)) (items g)" and "\<not> isControlled ''modelValue'' (group_model g)"
  shows "\<exists>g'. group_step offset g = Some g' \<and>
    (g' = g \<or> (\<exists>it \<in> set (items g). \<not> item_disabled it \<and> group_selected g' = [item_id it]))"
proof -
  have w: "group_selected (write_selection [item_id it] g) = [item_id it]" if "it \<in> set (items g)" for it
    using that assms by (intro group_written) (simp_all add: valid_ids_def)
  show ?thesis
  proof (cases "group_selected g")
    case Nil
    show ?thesis
    proof (cases "List.find (\<lambda>it. \<not> item_disabled it) (items g)")
      case None
      with Nil show ?thesis by (simp add: group_step_def)
    next
      case (Some it)
      then have "it \<in> set (items g)" "\<not> item_disabled it" by (auto simp: find_Some_iff)
      with Nil Some w show ?thesis by (auto simp: group_step_def)
    qed
  next
    case (Cons i ids)
    then obtain c where c: "find_index (\<lambda>it. item_id it = i) (items g) = Some c"
      using group_selected_registered [of g] find_index_None [of "\<lambda>it. item_id it = i" "items g"] by fastforce
    then have "c < length (items g)" by (simp add: find_index_Some)
    then obtain j where "step_from (items g) offset c ((c + offset) mod length (items g)) = Some j" "j < length (items g)"
      using step_from_ends [of c "items g" 1 offset] by auto
    with Cons c w [of "items g ! j"] show ?thesis
      by (auto simp: group_step_def)
  qed
qed

section \<open>An example\<close>

text \<open>Three buttons, the second one disabled.\<close>

definition buttons :: "jsval \<Rightarrow> jsval \<Rightarrow> group" where
  "buttons mand value =
     \<lparr>group_props = \<lparr>multiple = False, mandatory = mand, max_items = None, props_disabled = False\<rparr>,
      items = [\<lparr>item_id = 7, item_value = JStr ''a'', item_disabled = False\<rparr>,
               \<lparr>item_id = 8, item_value = JStr ''b'', item_disabled = True\<rparr>,
               \<lparr>item_id = 9, item_value = JStr ''c'', item_disabled = False\<rparr>],
      group_model = useProxiedModel [] value JUndef, group_unmounted = False, updates = []\<rparr>"

lemma buttons_wf: "wf_items (multiple (group_props (buttons m v))) (items (buttons m v))"
  by (auto simp: wf_items_def buttons_def nullish_def less_Suc_eq numeral_3_eq_3)

lemma buttons_uncontrolled: "\<not> isControlled ''modelValue'' (group_model (buttons m v))"
  by (simp add: buttons_def useProxiedModel_def isControlled_def Let_def)

lemma buttons_selected: "group_selected (buttons m (JStr ''a'')) = [7]"
  using buttons_uncontrolled [of m "JStr ''a''"]
  by (simp add: group_selected_def model_get_def outer_value_def)
    (simp add: buttons_def useProxiedModel_def group_in_def nullish_def getIds_def id_of_value_def Let_def)

theorem toggle_keeps_limits_witness:
  "group_selected (toggle 7 (buttons (JBool True) (JStr ''a''))) \<noteq> []"
  using toggle_keeps_limits [OF buttons_wf buttons_uncontrolled, of 7 "JBool True" "JStr ''a''"]
  by (simp add: buttons_selected) (simp add: buttons_def)

theorem group_step_ends_witness:
  "\<exists>g'. group_step 1 (buttons (JBool False) (JStr ''a'')) = Some g'"
  using group_step_ends [OF buttons_wf buttons_uncontrolled, of 1 "JBool False" "JStr ''a''"] by blast

text \<open>
  A mandatory selection can still get lost: \<open>select(id, false)\<close> of an item that is not selected
  clears a group of one selection, and an item that leaves a group whose selection is forced is
  removed only after the check, so that the group is left with nothing selected.
\<close>

lemma mandatory_cleared_by_other_item:
  "group_selected (group_select 9 (Some False) (buttons (JBool True) (JStr ''a''))) = []"
proof -
  have "group_selected (write_selection [] (buttons (JBool True) (JStr ''a''))) = []"
    by (intro group_written buttons_uncontrolled) (simp add: valid_ids_def buttons_wf)
  then show ?thesis
    using buttons_selected [of "JBool True"]
    by (simp add: group_select_def Let_def) (simp add: buttons_def)
qed

lemma forced_selection_lost_with_item:
  "group_selected (unregister_item 7 (buttons (JStr ''force'') (JStr ''a''))) = []"
proof -
  let ?g = "buttons (JStr ''force'') (JStr ''a'')"
  have "forceMandatoryValue ?g = ?g"
    by (simp add: forceMandatoryValue_def buttons_selected split: option.splits)
  then have "unregister_item 7 ?g = ?g\<lparr>items := tl (items ?g)\<rparr>"
    by (simp add: unregister_item_def Let_def) (simp add: buttons_def)
  then show ?thesis
    using buttons_uncontrolled [of "JStr ''force''" "JStr ''a''"]
    by (simp add: group_selected_def model_get_def outer_value_def)
      (simp add: buttons_def useProxiedModel_def group_in_def nullish_def getIds_def id_of_value_def
        item_by_index_def array_index_def read_nat_def digit_val_def Let_def)
qed

end
