(* ===== verification/VueScheduler.thy ===== *)
theory VueScheduler
  imports VuetifyGroup "HOL-Library.Extended_Nat"
begin

text \<open>
  Vue's scheduler (\<^verbatim>\<open>src/v2/lens3/ui/assets/index.js\<close>, \<open>queueJob\<close> to \<open>flushJobs\<close>): the queue
  of render and watcher jobs that a reply or a click fills and that is flushed before the page
  is painted. A job is an object with a number for its identity. What it does is not part of the
  scheduler: a parameter \<open>body\<close> takes what the jobs share (of any type) and the job and gives the
  calls into the scheduler that the job makes, in order; a job of the queue that raises is handled
  around the call (\<open>callWithErrorHandling\<close>) and the loop goes on with the next one. The callbacks
  run before and after a flush are called with no such handling of the scheduler's own: what they
  are (watchers, hooks, directives) handles its errors itself, and one that raised out of
  \<open>flushPreFlushCbs\<close> or \<open>flushPostFlushCbs\<close> is not modelled. \<open>ran\<close> records the jobs in the
  order they are run.

  The functions from \<open>flushPreFlushCbs\<close> to \<open>flushJobs\<close> call each other through the jobs. They are
  tasks on a stack, as on the stack of the language: one step of the task on top does the work up
  to the next call and leaves the called task and its own continuation. Shown: the jobs that wait
  behind the running one stay sorted, parents before children; a flush ends as soon as the jobs
  stop calling the scheduler, with nothing left, and a job that waited was run, unless it was
  deactivated or a job took it back from behind itself, as a parent does with the update of a
  child that it updates on the spot (\<open>updateComponent\<close>).
\<close>

section \<open>Jobs and their order\<close>

record job =
  job_name :: nat
  job_id :: "nat option"
  pre :: bool
  allowRecurse :: bool

definition getId :: "job \<Rightarrow> enat" where
  "getId j = (case job_id j of None \<Rightarrow> \<infinity> | Some i \<Rightarrow> enat i)"

text \<open>\<open>None\<close> is \<open>NaN\<close>, the difference of two infinities, which a sort takes as equal.\<close>

definition id_diff :: "job \<Rightarrow> job \<Rightarrow> int option" where
  "id_diff a b =
     (case (job_id a, job_id b) of
        (Some i, Some j) \<Rightarrow> Some (int i - int j)
      | (None, Some _) \<Rightarrow> Some 1
      | (Some _, None) \<Rightarrow> Some (-1)
      | (None, None) \<Rightarrow> None)"

definition comparator :: "job \<Rightarrow> job \<Rightarrow> int option" where
  "comparator a b =
     (let diff = id_diff a b in
      if diff = Some 0 then
        (if pre a \<and> \<not> pre b then Some (-1) else if pre b \<and> \<not> pre a then Some 1 else diff)
      else diff)"

text \<open>The stable sort of an array with a comparator.\<close>

fun sort_into :: "(job \<Rightarrow> job \<Rightarrow> int option) \<Rightarrow> job \<Rightarrow> job list \<Rightarrow> job list" where
  "sort_into cmp x [] = [x]"
| "sort_into cmp x (y # ys) =
     (case cmp y x of
        Some d \<Rightarrow> if d < 0 then y # sort_into cmp x ys else x # y # ys
      | None \<Rightarrow> x # y # ys)"

definition sort_jobs :: "(job \<Rightarrow> job \<Rightarrow> int option) \<Rightarrow> job list \<Rightarrow> job list" where
  "sort_jobs cmp xs = foldr (sort_into cmp) xs []"

section \<open>The queue\<close>

text \<open>The scheduler's variables; \<open>inactive\<close> holds the jobs whose \<open>active\<close> is \<open>false\<close>.\<close>

record 'e sched =
  isFlushing :: bool
  isFlushPending :: bool
  queue :: "job list"
  flushIndex :: nat
  pendingPostFlushCbs :: "job list"
  activePostFlushCbs :: "job list option"
  postFlushIndex :: nat
  currentFlushPromise :: bool
  inactive :: "job list"
  ran :: "job list"
  shared :: 'e

function insertion_loop :: "job list \<Rightarrow> nat \<Rightarrow> nat \<Rightarrow> nat \<Rightarrow> nat" where
  "insertion_loop q i start stop =
     (if start < stop then
        let middle = (start + stop) div 2; middleJob = q ! middle
        in if getId middleJob < enat i \<or> getId middleJob = enat i \<and> pre middleJob
           then insertion_loop q i (middle + 1) stop
           else insertion_loop q i start middle
      else start)"
  by pat_completeness auto
termination by (relation "measure (\<lambda>(q, i, start, stop). stop - start)") auto

declare insertion_loop.simps [simp del]

definition findInsertionIndex :: "nat \<Rightarrow> 'e sched \<Rightarrow> nat" where
  "findInsertionIndex i s = insertion_loop (queue s) i (flushIndex s + 1) (length (queue s))"

definition queueFlush :: "'e sched \<Rightarrow> 'e sched" where
  "queueFlush s =
     (if \<not> isFlushing s \<and> \<not> isFlushPending s
      then s\<lparr>isFlushPending := True, currentFlushPromise := True\<rparr> else s)"

definition queueJob :: "job \<Rightarrow> 'e sched \<Rightarrow> 'e sched" where
  "queueJob job s =
     (let from = (if isFlushing s \<and> allowRecurse job then flushIndex s + 1 else flushIndex s) in
      if queue s = [] \<or> job \<notin> set (drop from (queue s)) then
        queueFlush
          (case job_id job of
             None \<Rightarrow> s\<lparr>queue := queue s @ [job]\<rparr>
           | Some i \<Rightarrow>
               let n = findInsertionIndex i s
               in s\<lparr>queue := take n (queue s) @ job # drop n (queue s)\<rparr>)
      else s)"

definition invalidateJob :: "job \<Rightarrow> 'e sched \<Rightarrow> 'e sched" where
  "invalidateJob job s =
     (case find_index (\<lambda>j. j = job) (queue s) of
        Some i \<Rightarrow> if flushIndex s < i then s\<lparr>queue := take i (queue s) @ drop (Suc i) (queue s)\<rparr> else s
      | None \<Rightarrow> s)"

text \<open>\<open>queuePostFlushCb\<close> with one callback and with an array of them.\<close>

definition queuePostFlushCb :: "job \<Rightarrow> 'e sched \<Rightarrow> 'e sched" where
  "queuePostFlushCb cb s =
     queueFlush
       (case activePostFlushCbs s of
          Some a \<Rightarrow>
            if cb \<in> set (drop (if allowRecurse cb then postFlushIndex s + 1 else postFlushIndex s) a) then s
            else s\<lparr>pendingPostFlushCbs := pendingPostFlushCbs s @ [cb]\<rparr>
        | None \<Rightarrow> s\<lparr>pendingPostFlushCbs := pendingPostFlushCbs s @ [cb]\<rparr>)"

definition queuePostFlushCbs :: "job list \<Rightarrow> 'e sched \<Rightarrow> 'e sched" where
  "queuePostFlushCbs cbs s = queueFlush (s\<lparr>pendingPostFlushCbs := pendingPostFlushCbs s @ cbs\<rparr>)"

definition deactivate :: "job \<Rightarrow> 'e sched \<Rightarrow> 'e sched" where
  "deactivate job s = s\<lparr>inactive := job # inactive s\<rparr>"

section \<open>Flushing\<close>

datatype call =
    Queue_job job
  | Queue_post job
  | Queue_posts "job list"
  | Invalidate job
  | Deactivate job
  | Flush_pre "nat option"
  | Flush_post

text \<open>
  The tasks: a job, the calls a job has still to make, \<open>flushPreFlushCbs\<close> at an index,
  \<open>flushPostFlushCbs\<close> with its loop and the loop's increment, the loop of \<open>flushJobs\<close> and its
  increment, \<open>flushJobs\<close>, its \<open>finally\<close> block up to the callbacks and the rest of the block.
\<close>

datatype task =
    Job job
  | Calls "call list"
  | Pre "nat option" nat
  | Post
  | Post_loop
  | Post_next
  | Jobs_loop
  | Jobs_next
  | Flush
  | Flush_finally
  | Flush_done

text \<open>\<open>[...new Set(xs)]\<close>: the first occurrence of each. The loop over the active callbacks has
  some as long as it runs, so the case that it has none is not reached.\<close>

definition dedupe :: "job list \<Rightarrow> job list" where
  "dedupe xs = rev (remdups (rev xs))"

definition skip_cb :: "nat option \<Rightarrow> job \<Rightarrow> bool" where
  "skip_cb inst cb \<longleftrightarrow> \<not> pre cb \<or> inst \<noteq> None \<and> job_id cb \<noteq> inst"

fun do_call :: "call \<Rightarrow> 'e sched \<Rightarrow> task list \<times> 'e sched" where
  "do_call (Queue_job j) s = ([], queueJob j s)"
| "do_call (Queue_post j) s = ([], queuePostFlushCb j s)"
| "do_call (Queue_posts js) s = ([], queuePostFlushCbs js s)"
| "do_call (Invalidate j) s = ([], invalidateJob j s)"
| "do_call (Deactivate j) s = ([], deactivate j s)"
| "do_call (Flush_pre inst) s = ([Pre inst (if isFlushing s then flushIndex s + 1 else 0)], s)"
| "do_call Flush_post s = ([Post], s)"

definition pre_step :: "nat option \<Rightarrow> nat \<Rightarrow> 'e sched \<Rightarrow> task list \<times> 'e sched" where
  "pre_step inst i s =
     (if i < length (queue s) then
        let cb = queue s ! i in
        if skip_cb inst cb then ([Pre inst (i + 1)], s)
        else ([Job cb, Pre inst i], s\<lparr>queue := take i (queue s) @ drop (Suc i) (queue s)\<rparr>)
      else ([], s))"

definition post_step :: "'e sched \<Rightarrow> task list \<times> 'e sched" where
  "post_step s =
     (if pendingPostFlushCbs s = [] then ([], s)
      else
        let deduped = sort_jobs id_diff (dedupe (pendingPostFlushCbs s));
            s' = s\<lparr>pendingPostFlushCbs := []\<rparr>
        in case activePostFlushCbs s of
             Some a \<Rightarrow> ([], s'\<lparr>activePostFlushCbs := Some (a @ deduped)\<rparr>)
           | None \<Rightarrow> ([Post_loop], s'\<lparr>activePostFlushCbs := Some deduped, postFlushIndex := 0\<rparr>))"

text \<open>The callback at the index runs to its end: one that raises out of the loop is not modelled.\<close>

definition post_loop_step :: "'e sched \<Rightarrow> task list \<times> 'e sched" where
  "post_loop_step s =
     (case activePostFlushCbs s of
        None \<Rightarrow> ([], s)
      | Some a \<Rightarrow>
          if postFlushIndex s < length a then ([Job (a ! postFlushIndex s), Post_next], s)
          else ([], s\<lparr>activePostFlushCbs := None, postFlushIndex := 0\<rparr>))"

definition jobs_loop_step :: "'e sched \<Rightarrow> task list \<times> 'e sched" where
  "jobs_loop_step s =
     (if flushIndex s < length (queue s) then
        let job = queue s ! flushIndex s
        in if job \<notin> set (inactive s) then ([Job job, Jobs_next], s) else ([Jobs_next], s)
      else ([], s))"

definition flush_done :: "'e sched \<Rightarrow> task list \<times> 'e sched" where
  "flush_done s =
     (let s' = s\<lparr>isFlushing := False, currentFlushPromise := False\<rparr>
      in (if queue s' \<noteq> [] \<or> pendingPostFlushCbs s' \<noteq> [] then [Flush] else [], s'))"

fun sched_step ::
  "('e \<Rightarrow> job \<Rightarrow> 'e \<times> call list) \<Rightarrow> task \<Rightarrow> 'e sched \<Rightarrow> task list \<times> 'e sched" where
  "sched_step body (Job j) s =
     (case body (shared s) j of (e, calls) \<Rightarrow> ([Calls calls], s\<lparr>shared := e, ran := ran s @ [j]\<rparr>))"
| "sched_step body (Calls []) s = ([], s)"
| "sched_step body (Calls (c # cs)) s = (case do_call c s of (ts, s') \<Rightarrow> (ts @ [Calls cs], s'))"
| "sched_step body (Pre inst i) s = pre_step inst i s"
| "sched_step body Post s = post_step s"
| "sched_step body Post_loop s = post_loop_step s"
| "sched_step body Post_next s = ([Post_loop], s\<lparr>postFlushIndex := postFlushIndex s + 1\<rparr>)"
| "sched_step body Jobs_loop s = jobs_loop_step s"
| "sched_step body Jobs_next s = ([Jobs_loop], s\<lparr>flushIndex := flushIndex s + 1\<rparr>)"
| "sched_step body Flush s =
     ([Jobs_loop, Flush_finally],
      s\<lparr>isFlushPending := False, isFlushing := True, queue := sort_jobs comparator (queue s), flushIndex := 0\<rparr>)"
| "sched_step body Flush_finally s = ([Post, Flush_done], s\<lparr>flushIndex := 0, queue := []\<rparr>)"
| "sched_step body Flush_done s = flush_done s"

partial_function (option) run ::
  "('e \<Rightarrow> job \<Rightarrow> 'e \<times> call list) \<Rightarrow> task list \<Rightarrow> 'e sched \<Rightarrow> 'e sched option" where
  "run body ts s =
     (case ts of
        [] \<Rightarrow> Some s
      | t # rest \<Rightarrow> (case sched_step body t s of (new, s') \<Rightarrow> run body (new @ rest) s'))"

definition flushJobs :: "('e \<Rightarrow> job \<Rightarrow> 'e \<times> call list) \<Rightarrow> 'e sched \<Rightarrow> 'e sched option" where
  "flushJobs body s = run body [Flush] s"

section \<open>Sorting and inserting\<close>

text \<open>The order of jobs as a key: by number, callbacks of the same number that go before updates first.\<close>

definition job_key :: "job \<Rightarrow> enat" where
  "job_key j = (case job_id j of None \<Rightarrow> \<infinity> | Some i \<Rightarrow> enat (2 * i + (if pre j then 0 else 1)))"

lemma comparator_less: "(case comparator a b of Some d \<Rightarrow> d < 0 | None \<Rightarrow> False) \<longleftrightarrow> job_key a < job_key b"
  by (auto simp: comparator_def id_diff_def job_key_def Let_def split: option.splits)

lemma id_diff_less: "(case id_diff a b of Some d \<Rightarrow> d < 0 | None \<Rightarrow> False) \<longleftrightarrow> getId a < getId b"
  by (auto simp: id_diff_def getId_def split: option.splits)

lemma sort_into_insort:
  assumes "\<And>a b. (case cmp a b of Some d \<Rightarrow> d < 0 | None \<Rightarrow> False) \<longleftrightarrow> key a < (key b :: 'k :: linorder)"
  shows "sort_into cmp x ys = insort_key key x ys"
proof (induction ys)
  case (Cons y ys)
  then show ?case using assms [of y x] by (auto simp: not_le split: option.splits if_splits)
qed simp

lemma sort_jobs_comparator: "sort_jobs comparator xs = sort_key job_key xs"
  by (induction xs) (simp_all add: sort_jobs_def sort_into_insort [OF comparator_less])

lemma sort_jobs_id_diff: "sort_jobs id_diff xs = sort_key getId xs"
  by (induction xs) (simp_all add: sort_jobs_def sort_into_insort [OF id_diff_less])

lemma goes_before: "getId m < enat i \<or> getId m = enat i \<and> pre m \<longleftrightarrow> job_key m \<le> enat (2 * i)"
  by (auto simp: getId_def job_key_def split: option.splits)

lemma insertion_loop_ok:
  "sorted (map job_key (drop lo q)) \<Longrightarrow> lo \<le> start \<Longrightarrow> start \<le> stop \<Longrightarrow> stop \<le> length q \<Longrightarrow>
    (\<forall>k. lo \<le> k \<and> k < start \<longrightarrow> job_key (q ! k) \<le> enat (2 * i)) \<Longrightarrow>
    (\<forall>k. stop \<le> k \<and> k < length q \<longrightarrow> enat (2 * i) < job_key (q ! k)) \<Longrightarrow>
    (let n = insertion_loop q i start stop in start \<le> n \<and> n \<le> stop \<and>
      (\<forall>k. lo \<le> k \<and> k < n \<longrightarrow> job_key (q ! k) \<le> enat (2 * i)) \<and>
      (\<forall>k. n \<le> k \<and> k < length q \<longrightarrow> enat (2 * i) < job_key (q ! k)))"
proof (induction q i start stop rule: insertion_loop.induct)
  case (1 q i start stop)
  have mono: "job_key (q ! k) \<le> job_key (q ! l)" if "lo \<le> k" "k \<le> l" "l < length q" for k l
    using sorted_nth_mono [OF 1(3), of "k - lo" "l - lo"] that by simp
  show ?case
  proof (cases "start < stop")
    case False
    with 1 show ?thesis by (subst insertion_loop.simps) (simp add: Let_def)
  next
    case True
    let ?m = "(start + stop) div 2"
    have m: "start \<le> ?m" "?m < stop" using True by auto
    show ?thesis
    proof (cases "job_key (q ! ?m) \<le> enat (2 * i)")
      case before: True
      have "job_key (q ! k) \<le> enat (2 * i)" if "lo \<le> k" "k < ?m + 1" for k
      proof -
        have "job_key (q ! k) \<le> job_key (q ! ?m)" using that m 1(6) by (intro mono) linarith+
        with before show ?thesis by simp
      qed
      then have "let n = insertion_loop q i (?m + 1) stop in ?m + 1 \<le> n \<and> n \<le> stop \<and>
          (\<forall>k. lo \<le> k \<and> k < n \<longrightarrow> job_key (q ! k) \<le> enat (2 * i)) \<and>
          (\<forall>k. n \<le> k \<and> k < length q \<longrightarrow> enat (2 * i) < job_key (q ! k))"
        using 1 True before m by (intro 1(1)) (auto simp: goes_before)
      with True before m show ?thesis by (subst insertion_loop.simps) (auto simp: goes_before Let_def)
    next
      case after: False
      have "enat (2 * i) < job_key (q ! k)" if "?m \<le> k" "k < length q" for k
      proof -
        have "job_key (q ! ?m) \<le> job_key (q ! k)" using that m 1(4) by (intro mono) linarith+
        with after show ?thesis by (simp add: not_le less_le_trans)
      qed
      then have "let n = insertion_loop q i start ?m in start \<le> n \<and> n \<le> ?m \<and>
          (\<forall>k. lo \<le> k \<and> k < n \<longrightarrow> job_key (q ! k) \<le> enat (2 * i)) \<and>
          (\<forall>k. n \<le> k \<and> k < length q \<longrightarrow> enat (2 * i) < job_key (q ! k))"
        using 1 True after m by (intro 1(2)) (auto simp: goes_before)
      with True after m show ?thesis by (subst insertion_loop.simps) (auto simp: goes_before Let_def)
    qed
  qed
qed

text \<open>The jobs that wait behind the running one.\<close>

definition waiting :: "'e sched \<Rightarrow> job list" where
  "waiting s = drop (flushIndex s + 1) (queue s)"

lemma queueFlush_fields [simp]:
  "queue (queueFlush s) = queue s" "flushIndex (queueFlush s) = flushIndex s" "isFlushing (queueFlush s) = isFlushing s"
  "pendingPostFlushCbs (queueFlush s) = pendingPostFlushCbs s" "activePostFlushCbs (queueFlush s) = activePostFlushCbs s"
  "postFlushIndex (queueFlush s) = postFlushIndex s" "inactive (queueFlush s) = inactive s" "ran (queueFlush s) = ran s"
  "shared (queueFlush s) = shared s"
  by (simp_all add: queueFlush_def)

lemma queueJob_fields [simp]:
  "flushIndex (queueJob j s) = flushIndex s" "isFlushing (queueJob j s) = isFlushing s"
  "pendingPostFlushCbs (queueJob j s) = pendingPostFlushCbs s" "activePostFlushCbs (queueJob j s) = activePostFlushCbs s"
  "postFlushIndex (queueJob j s) = postFlushIndex s" "inactive (queueJob j s) = inactive s" "ran (queueJob j s) = ran s"
  "shared (queueJob j s) = shared s"
  by (simp_all add: queueJob_def Let_def split: option.split)

text \<open>Where \<open>queueJob\<close> puts a job: behind the running one, nothing else changes.\<close>

lemma queueJob_place:
  obtains (same) "queueJob j s = s" "j \<in> set (queue s)"
  | (new) n where "queue (queueJob j s) = take n (queue s) @ j # drop n (queue s)"
      "n = (case job_id j of None \<Rightarrow> length (queue s) | Some i \<Rightarrow> findInsertionIndex i s)"
proof (cases "queue s = [] \<or> j \<notin> set (drop (if isFlushing s \<and> allowRecurse j then flushIndex s + 1 else flushIndex s) (queue s))")
  case True
  then show thesis by (cases "job_id j") (auto simp: queueJob_def Let_def intro!: new)
next
  case False
  then have "j \<in> set (queue s)" by (metis in_set_dropD)
  with False show thesis by (intro same) (simp_all add: queueJob_def)
qed

lemma queueJob_sorted:
  assumes "sorted (map job_key (waiting s))" "flushIndex s < length (queue s)"
  shows "sorted (map job_key (waiting (queueJob j s)))" "flushIndex s < length (queue (queueJob j s))"
proof -
  let ?lo = "flushIndex s + 1" and ?q = "queue s"
  show "sorted (map job_key (waiting (queueJob j s)))"
  proof (cases rule: queueJob_place [of j s])
    case same
    with assms show ?thesis by simp
  next
    case (new n)
    have n: "?lo \<le> n \<and> n \<le> length ?q \<and> (\<forall>k. ?lo \<le> k \<and> k < n \<longrightarrow> job_key (?q ! k) \<le> job_key j) \<and>
        (\<forall>k. n \<le> k \<and> k < length ?q \<longrightarrow> job_key j \<le> job_key (?q ! k))"
    proof (cases "job_id j")
      case None
      then have "job_key j = \<infinity>" by (simp add: job_key_def)
      with None new(2) assms(2) show ?thesis by auto
    next
      case (Some i)
      have key: "enat (2 * i) \<le> job_key j" "\<And>k. enat (2 * i) < k \<Longrightarrow> job_key j \<le> k"
        using Some by (auto simp: job_key_def eSuc_enat [symmetric] ileI1 simp flip: eSuc_enat)
      have so: "sorted (map job_key (drop ?lo ?q))" using assms(1) by (simp add: waiting_def)
      have "let n = insertion_loop ?q i ?lo (length ?q) in ?lo \<le> n \<and> n \<le> length ?q \<and>
          (\<forall>k. ?lo \<le> k \<and> k < n \<longrightarrow> job_key (?q ! k) \<le> enat (2 * i)) \<and>
          (\<forall>k. n \<le> k \<and> k < length ?q \<longrightarrow> enat (2 * i) < job_key (?q ! k))"
        using assms(2) by (intro insertion_loop_ok [OF so]) auto
      then have "?lo \<le> n \<and> n \<le> length ?q \<and> (\<forall>k. ?lo \<le> k \<and> k < n \<longrightarrow> job_key (?q ! k) \<le> enat (2 * i)) \<and>
          (\<forall>k. n \<le> k \<and> k < length ?q \<longrightarrow> enat (2 * i) < job_key (?q ! k))"
        using Some new(2) by (simp add: findInsertionIndex_def Let_def)
      then show ?thesis using key order.trans by blast
    qed
    then have w: "waiting (queueJob j s) = drop ?lo (take n ?q) @ j # drop n ?q"
      by (simp add: waiting_def new(1))
    have "sorted (map job_key (drop ?lo (take n ?q) @ drop n ?q))"
    proof -
      have "drop ?lo (take n ?q) @ drop n ?q = drop ?lo ?q" using n
        by (metis append_take_drop_id drop_append drop_drop drop_take le_add_diff_inverse2 take_drop)
      then show ?thesis using assms(1) by (simp add: waiting_def)
    qed
    moreover have "\<forall>x \<in> set (drop ?lo (take n ?q)). job_key x \<le> job_key j"
      using n by (auto simp: in_set_conv_nth)
    moreover have "\<forall>x \<in> set (drop n ?q). job_key j \<le> job_key x"
      using n by (auto simp: in_set_conv_nth)
    ultimately show ?thesis unfolding w by (auto simp: sorted_append)
  qed
  show "flushIndex s < length (queue (queueJob j s))"
    using assms(2) by (cases rule: queueJob_place [of j s]) auto
qed

section \<open>The phases of a flush\<close>

text \<open>
  What may stand on the stack above the loop over the jobs or above the end of a flush: jobs,
  their calls, callbacks before updates (from behind the running job), callbacks after updates;
  one loop over the latter is under way exactly if there are active ones.
\<close>

fun inner_task :: "nat \<Rightarrow> task \<Rightarrow> bool" where
  "inner_task fi (Pre inst i) = (fi < i)"
| "inner_task fi t = (case t of Job _ \<Rightarrow> True | Calls _ \<Rightarrow> True | Post \<Rightarrow> True | Post_loop \<Rightarrow> True | Post_next \<Rightarrow> True | _ \<Rightarrow> False)"

definition post_tasks :: "task list \<Rightarrow> task list" where
  "post_tasks us = filter (\<lambda>t. t = Post_loop \<or> t = Post_next) us"

definition post_ok :: "task list \<Rightarrow> 'e sched \<Rightarrow> bool" where
  "post_ok us s \<longleftrightarrow>
     (case activePostFlushCbs s of
        None \<Rightarrow> post_tasks us = []
      | Some a \<Rightarrow> length (post_tasks us) = 1 \<and> postFlushIndex s \<le> length a \<and>
          (Post_next \<in> set us \<longrightarrow> postFlushIndex s < length a))"

definition inner :: "task list \<Rightarrow> 'e sched \<Rightarrow> bool" where
  "inner us s \<longleftrightarrow> list_all (inner_task (flushIndex s)) us \<and> post_ok us s \<and> isFlushing s"

lemma post_tasks_simps [simp]:
  "post_tasks [] = []" "post_tasks (Job j # us) = post_tasks us" "post_tasks (Calls cs # us) = post_tasks us"
  "post_tasks (Pre inst i # us) = post_tasks us" "post_tasks (Post # us) = post_tasks us"
  "post_tasks (Post_loop # us) = Post_loop # post_tasks us" "post_tasks (Post_next # us) = Post_next # post_tasks us"
  "post_tasks (us @ vs) = post_tasks us @ post_tasks vs"
  by (simp_all add: post_tasks_def)

lemma post_next_in: "Post_next \<in> set us \<longleftrightarrow> Post_next \<in> set (post_tasks us)"
  by (simp add: post_tasks_def)

lemma invalidateJob_fields [simp]:
  "flushIndex (invalidateJob j s) = flushIndex s" "isFlushing (invalidateJob j s) = isFlushing s"
  "activePostFlushCbs (invalidateJob j s) = activePostFlushCbs s" "postFlushIndex (invalidateJob j s) = postFlushIndex s"
  "shared (invalidateJob j s) = shared s"
  by (simp_all add: invalidateJob_def split: option.split)

lemma queuePost_fields [simp]:
  "flushIndex (queuePostFlushCb j s) = flushIndex s" "isFlushing (queuePostFlushCb j s) = isFlushing s"
  "activePostFlushCbs (queuePostFlushCb j s) = activePostFlushCbs s" "postFlushIndex (queuePostFlushCb j s) = postFlushIndex s"
  "shared (queuePostFlushCb j s) = shared s" "queue (queuePostFlushCb j s) = queue s"
  "ran (queuePostFlushCb j s) = ran s" "inactive (queuePostFlushCb j s) = inactive s"
  by (simp_all add: queuePostFlushCb_def split: option.split)

lemma do_call_inner:
  assumes "do_call c s = (new, s')" "isFlushing s"
  shows "flushIndex s' = flushIndex s \<and> isFlushing s' \<and> activePostFlushCbs s' = activePostFlushCbs s \<and>
    postFlushIndex s' = postFlushIndex s \<and> list_all (inner_task (flushIndex s)) new \<and> post_tasks new = [] \<and>
    Post_next \<notin> set new"
  using assms by (cases c) (auto simp: queuePostFlushCbs_def deactivate_def)

lemma inner_step:
  assumes "inner (u # us) s" "sched_step body u s = (new, s')"
  shows "inner (new @ us) s' \<and> flushIndex s' = flushIndex s"
proof -
  have l: "inner_task (flushIndex s) u" "list_all (inner_task (flushIndex s)) us" "isFlushing s" "post_ok (u # us) s"
    using assms(1) by (simp_all add: inner_def)
  show ?thesis
  proof (cases u)
    case (Job j)
    with assms(2) l show ?thesis by (auto simp: inner_def post_ok_def split: prod.splits option.splits)
  next
    case (Calls cs)
    show ?thesis
    proof (cases cs)
      case Nil
      with assms(2) l Calls show ?thesis by (auto simp: inner_def post_ok_def split: option.splits)
    next
      case (Cons c rest)
      obtain ts where c: "do_call c s = (ts, s')" "new = ts @ [Calls rest]"
        using assms(2) Calls Cons by (auto split: prod.splits)
      from do_call_inner [OF c(1) l(3)] l Calls c(2) show ?thesis
        by (auto simp: inner_def post_ok_def split: option.splits)
    qed
  next
    case (Pre inst i)
    with assms(2) l show ?thesis
      by (auto simp: inner_def post_ok_def pre_step_def Let_def split: if_splits option.splits)
  next
    case Post
    with assms(2) l post_next_in [of us] show ?thesis
      by (auto simp: inner_def post_ok_def post_step_def Let_def split: if_splits option.splits)
  next
    case Post_loop
    with assms(2) l post_next_in [of us] show ?thesis
      by (auto simp: inner_def post_ok_def post_loop_step_def split: if_splits option.splits)
  next
    case Post_next
    with assms(2) l post_next_in [of us] show ?thesis
      by (auto simp: inner_def post_ok_def split: option.splits)
  qed (use l in simp_all)
qed

lemma remove_behind:
  assumes "i < length q" "fi < i"
  shows "\<exists>xs ys. drop (Suc fi) q = xs @ q ! i # ys \<and> drop (Suc fi) (take i q @ drop (Suc i) q) = xs @ ys \<and>
    fi < length (take i q @ drop (Suc i) q)"
proof (intro exI conjI)
  show "drop (Suc fi) (take i q @ drop (Suc i) q) = drop (Suc fi) (take i q) @ drop (Suc i) q"
    using assms by simp
  have "drop (Suc fi) q = drop (Suc fi) (take i q @ q ! i # drop (Suc i) q)" using assms by (simp add: id_take_nth_drop [symmetric])
  then show "drop (Suc fi) q = drop (Suc fi) (take i q) @ q ! i # drop (Suc i) q" using assms by simp
  show "fi < length (take i q @ drop (Suc i) q)" using assms by simp
qed

text \<open>While a job runs, what waits behind it stays sorted.\<close>

lemma remove_sorted:
  assumes "sorted (map job_key (drop (Suc fi) q))" "i < length q" "fi < i"
  shows "sorted (map job_key (drop (Suc fi) (take i q @ drop (Suc i) q)))" "fi < length (take i q @ drop (Suc i) q)"
proof -
  let ?q = "take i q @ drop (Suc i) q"
  obtain xs ys where x: "drop (Suc fi) q = xs @ q ! i # ys" "drop (Suc fi) ?q = xs @ ys" "fi < length ?q"
    using remove_behind [OF assms(2,3)] by blast
  show "sorted (map job_key (drop (Suc fi) ?q))" using assms(1) unfolding x(1,2) by (auto simp: sorted_append)
  show "fi < length ?q" by (rule x(3))
qed

lemma find_index_less: "find_index P xs = Some i \<Longrightarrow> i < length xs"
  by (induction xs arbitrary: i) (auto split: if_splits)

lemma invalidateJob_sorted:
  assumes "sorted (map job_key (waiting s))" "flushIndex s < length (queue s)"
  shows "sorted (map job_key (waiting (invalidateJob j s))) \<and> flushIndex s < length (queue (invalidateJob j s))"
  using assms remove_sorted [of "flushIndex s" "queue s"]
  by (auto simp: invalidateJob_def waiting_def dest: find_index_less split: option.split)

lemma inner_sorted:
  assumes "inner (u # us) s" "sched_step body u s = (new, s')"
    and "sorted (map job_key (waiting s))" "flushIndex s < length (queue s)"
  shows "sorted (map job_key (waiting s')) \<and> flushIndex s' < length (queue s')"
proof -
  have l: "inner_task (flushIndex s) u" using assms(1) by (simp add: inner_def)
  show ?thesis
  proof (cases u)
    case (Calls cs)
    show ?thesis
    proof (cases cs)
      case Nil
      with assms Calls show ?thesis by simp
    next
      case (Cons c rest)
      obtain ts where c: "do_call c s = (ts, s')" using assms(2) Calls Cons by (auto split: prod.splits)
      then show ?thesis
        using assms(3,4) queueJob_sorted [OF assms(3,4)] invalidateJob_sorted [OF assms(3,4)]
        by (cases c) (auto simp: waiting_def queuePostFlushCbs_def deactivate_def)
    qed
  next
    case (Pre inst i)
    with assms l remove_sorted [of "flushIndex s" "queue s" i] show ?thesis
      by (auto simp: pre_step_def waiting_def Let_def split: if_splits)
  qed (use assms l in \<open>auto simp: waiting_def post_step_def post_loop_step_def Let_def split: prod.splits option.splits if_splits\<close>)
qed

inductive phase :: "task list \<Rightarrow> 'e sched \<Rightarrow> bool" where
  idle: "queue s = [] \<Longrightarrow> pendingPostFlushCbs s = [] \<Longrightarrow> activePostFlushCbs s = None \<Longrightarrow> \<not> isFlushing s \<Longrightarrow>
    flushIndex s = 0 \<Longrightarrow> phase [] s"
| flushing: "activePostFlushCbs s = None \<Longrightarrow> flushIndex s = 0 \<Longrightarrow> phase [Flush] s"
| looping: "activePostFlushCbs s = None \<Longrightarrow> isFlushing s \<Longrightarrow> sorted (map job_key (waiting s)) \<Longrightarrow>
    phase [Jobs_loop, Flush_finally] s"
| running: "inner us s \<Longrightarrow> sorted (map job_key (waiting s)) \<Longrightarrow> flushIndex s < length (queue s) \<Longrightarrow>
    phase (us @ [Jobs_next, Flush_finally]) s"
| leaving: "activePostFlushCbs s = None \<Longrightarrow> isFlushing s \<Longrightarrow> length (queue s) \<le> flushIndex s \<Longrightarrow>
    phase [Flush_finally] s"
| posting: "inner us s \<Longrightarrow> flushIndex s = 0 \<Longrightarrow> phase (us @ [Flush_done]) s"

lemma inner_nil: "inner [] s \<longleftrightarrow> activePostFlushCbs s = None \<and> isFlushing s"
  by (auto simp: inner_def post_ok_def split: option.splits)

lemma inner_job: "inner [Job j] s \<longleftrightarrow> activePostFlushCbs s = None \<and> isFlushing s"
  by (auto simp: inner_def post_ok_def split: option.splits)

lemma inner_post: "inner [Post] s \<longleftrightarrow> activePostFlushCbs s = None \<and> isFlushing s"
  by (auto simp: inner_def post_ok_def split: option.splits)

lemma phase_step:
  assumes "phase (t # ts) s" "sched_step body t s = (new, s')"
  shows "phase (new @ ts) s'"
  using assms(1)
proof (cases rule: phase.cases)
  case flushing
  with assms(2) show ?thesis
    by (auto simp: sort_jobs_comparator waiting_def drop_map sorted_wrt_drop intro!: phase.looping
        simp flip: drop_map)
next
  case looping
  show ?thesis
  proof (cases "flushIndex s < length (queue s)")
    case False
    with looping assms(2) show ?thesis by (auto simp: jobs_loop_step_def intro: phase.leaving)
  next
    case True
    with looping assms(2) phase.running [of "[Job (queue s ! flushIndex s)]" s] phase.running [of "[]" s] show ?thesis
      by (auto simp: jobs_loop_step_def Let_def inner_nil inner_job split: if_splits)
  qed
next
  case (running us)
  show ?thesis
  proof (cases us)
    case Nil
    have "waiting (s\<lparr>flushIndex := flushIndex s + 1\<rparr>) = drop 1 (waiting s)" by (simp add: waiting_def)
    then have "sorted (map job_key (waiting (s\<lparr>flushIndex := flushIndex s + 1\<rparr>)))"
      using running(3) by (simp only: drop_map [symmetric] sorted_wrt_drop)
    with Nil running assms(2) show ?thesis by (auto simp: inner_nil intro!: phase.looping)
  next
    case (Cons u rest)
    with running(1) have u: "u = t" "ts = rest @ [Jobs_next, Flush_finally]" by auto
    from inner_step [of u rest s body new s'] inner_sorted [of u rest s body new s'] running Cons u assms(2)
    show ?thesis using phase.running [of "new @ rest" s'] by simp
  qed
next
  case leaving
  with assms(2) phase.posting [of "[Post]" "s\<lparr>flushIndex := 0, queue := []\<rparr>"] show ?thesis
    by (auto simp: inner_post)
next
  case (posting us)
  show ?thesis
  proof (cases us)
    case Nil
    with posting assms(2) show ?thesis by (auto simp: flush_done_def Let_def inner_nil intro!: phase.idle phase.flushing)
  next
    case (Cons u rest)
    with posting(1) have u: "u = t" "ts = rest @ [Flush_done]" by auto
    from inner_step [of u rest s body new s'] posting Cons u assms(2)
    show ?thesis using phase.posting [of "new @ rest" s'] by simp
  qed
qed

text \<open>The states a flush passes through.\<close>

inductive reaches ::
  "('e \<Rightarrow> job \<Rightarrow> 'e \<times> call list) \<Rightarrow> 'e sched \<Rightarrow> task list \<Rightarrow> 'e sched \<Rightarrow> bool" for body s0 where
  start: "reaches body s0 [Flush] s0"
| step: "reaches body s0 (t # ts) s \<Longrightarrow> sched_step body t s = (new, s') \<Longrightarrow> reaches body s0 (new @ ts) s'"

lemma reaches_phase:
  "reaches body s0 ts s \<Longrightarrow> activePostFlushCbs s0 = None \<Longrightarrow> flushIndex s0 = 0 \<Longrightarrow> phase ts s"
  by (induction rule: reaches.induct) (auto intro: phase.flushing phase_step)

lemma inner_no_next: "inner us s \<Longrightarrow> Jobs_next \<notin> set us" "inner us s \<Longrightarrow> isFlushing s"
  by (auto simp: inner_def list_all_iff)

text \<open>
  C25. At every moment of a flush at which a job of the queue runs, whatever the
  jobs queue, invalidate or flush while they run: the jobs that wait behind the running one are
  sorted, components by their number, so that parents come before their children, and for the
  same number watchers before the update.
\<close>

theorem jobs_wait_in_order:
  assumes "reaches body s0 ts s" "activePostFlushCbs s0 = None" "flushIndex s0 = 0" "Jobs_next \<in> set ts"
  shows "isFlushing s \<and> flushIndex s < length (queue s) \<and> sorted (map job_key (waiting s))"
  using reaches_phase [OF assms(1-3)] assms(4)
  by (cases rule: phase.cases) (auto dest: inner_no_next)

definition idle_sched :: "'e \<Rightarrow> job list \<Rightarrow> job list \<Rightarrow> 'e sched" where
  "idle_sched e js cbs =
     \<lparr>isFlushing = False, isFlushPending = True, queue = js, flushIndex = 0, pendingPostFlushCbs = cbs,
      activePostFlushCbs = None, postFlushIndex = 0, currentFlushPromise = True, inactive = [], ran = [], shared = e\<rparr>"

text \<open>
  Three updates, and the middle one queues a fourth when it runs, which goes in front of the last.
\<close>

definition update_job :: "nat \<Rightarrow> job" where
  "update_job n = \<lparr>job_name = n, job_id = Some n, pre = False, allowRecurse = True\<rparr>"

definition one_more :: "nat \<Rightarrow> job \<Rightarrow> nat \<times> call list" where
  "one_more e j = (if e = 0 \<or> j \<noteq> update_job 2 then (e, []) else (e - 1, [Queue_job (update_job 3), Flush_pre None]))"

fun steps :: "('e \<Rightarrow> job \<Rightarrow> 'e \<times> call list) \<Rightarrow> nat \<Rightarrow> task list \<Rightarrow> 'e sched \<Rightarrow> task list \<times> 'e sched" where
  "steps body (Suc n) (t # ts) s = (case sched_step body t s of (new, s') \<Rightarrow> steps body n (new @ ts) s')"
| "steps body n ts s = (ts, s)"

lemma reaches_steps: "reaches body s0 ts s \<Longrightarrow> steps body n ts s = (ts', s') \<Longrightarrow> reaches body s0 ts' s'"
  by (induction body n ts s rule: steps.induct) (auto dest: reaches.step split: prod.splits)

theorem jobs_wait_in_order_witness:
  "let s0 = idle_sched 1 (map update_job [4, 2, 1]) []; (ts, s) = steps one_more 8 [Flush] s0
   in reaches one_more s0 ts s \<and> Jobs_next \<in> set ts \<and> isFlushing s \<and> flushIndex s < length (queue s) \<and>
     sorted (map job_key (waiting s)) \<and> map job_name (waiting s) = [3, 4]"
proof -
  let ?s0 = "idle_sched (1 :: nat) (map update_job [4, 2, 1]) []"
  obtain ts s where st: "steps one_more 8 [Flush] ?s0 = (ts, s)" by fastforce
  have "Jobs_next \<in> set (fst (steps one_more 8 [Flush] ?s0)) \<and> map job_name (waiting (snd (steps one_more 8 [Flush] ?s0))) = [3, 4]"
    by code_simp
  then have j: "Jobs_next \<in> set ts" "map job_name (waiting s) = [3, 4]" unfolding st fst_conv snd_conv by blast+
  have r: "reaches one_more ?s0 ts s" by (rule reaches_steps [OF reaches.start st])
  have "isFlushing s \<and> flushIndex s < length (queue s) \<and> sorted (map job_key (waiting s))"
    by (rule jobs_wait_in_order [OF r _ _ j(1)]) (simp_all add: idle_sched_def)
  with r j show ?thesis unfolding Let_def st prod.case by blast
qed

section \<open>A flush ends\<close>

text \<open>
  Jobs settle if some measure of what they share never grows and a job that calls the scheduler
  makes it smaller: the jobs stop queueing more after finitely many calls.
\<close>

definition settles :: "('e \<Rightarrow> nat) \<Rightarrow> ('e \<Rightarrow> job \<Rightarrow> 'e \<times> call list) \<Rightarrow> bool" where
  "settles w body \<longleftrightarrow>
     (\<forall>e j. w (fst (body e j)) \<le> w e \<and> (snd (body e j) \<noteq> [] \<longrightarrow> w (fst (body e j)) < w e))"

lemma run_Nil [simp]: "run body [] s = Some s"
  by (simp add: run.simps)

lemma run_Cons: "run body (t # ts) s = (case sched_step body t s of (new, s') \<Rightarrow> run body (new @ ts) s')"
  by (subst run.simps) simp

lemma run_append:
  assumes ret: "run body ts s = Some s'"
  shows "run body (ts @ us) s = run body us s'"
proof (rule run.raw_induct [where P = "\<lambda>body ts s s'. run body (ts @ us) s = run body us s'", OF _ ret], goal_cases)
  case (1 run' body ts s s')
  show ?case
  proof (cases ts)
    case Nil
    with 1(2) show ?thesis by simp
  next
    case (Cons t rest)
    obtain new s1 where st: "sched_step body t s = (new, s1)" by fastforce
    with 1(2) Cons have "run' body (new @ rest) s1 = Some s'" by simp
    from 1(1) [OF this] st Cons show ?thesis by (simp add: run_Cons)
  qed
qed

lemma reaches_run: "reaches body s0 ts s \<Longrightarrow> run body [Flush] s0 = run body ts s"
  by (induction rule: reaches.induct) (auto simp: run_Cons)

text \<open>A task ends, with a measure that has not grown; jobs that call nothing change nothing else.\<close>

definition ends :: "('e \<Rightarrow> nat) \<Rightarrow> ('e \<Rightarrow> job \<Rightarrow> 'e \<times> call list) \<Rightarrow> task list \<Rightarrow> 'e sched \<Rightarrow> 'e sched \<Rightarrow> bool" where
  "ends w body ts s s' \<longleftrightarrow> run body ts s = Some s' \<and> w (shared s') \<le> w (shared s)"

lemma ends_Nil: "ends w body [] s s"
  by (simp add: ends_def)

lemma ends_append: "ends w body ts s s1 \<Longrightarrow> ends w body us s1 s2 \<Longrightarrow> ends w body (ts @ us) s s2"
  by (auto simp: ends_def run_append)

lemma ends_step:
  "sched_step body t s = (new, s1) \<Longrightarrow> w (shared s1) \<le> w (shared s) \<Longrightarrow> ends w body (new @ ts) s1 s' \<Longrightarrow> ends w body (t # ts) s s'"
  by (auto simp: ends_def run_Cons)

text \<open>All tasks that jobs can start end, for measures up to a bound.\<close>

definition inner_ends :: "('e \<Rightarrow> nat) \<Rightarrow> ('e \<Rightarrow> job \<Rightarrow> 'e \<times> call list) \<Rightarrow> nat \<Rightarrow> bool" where
  "inner_ends w body n \<longleftrightarrow>
     (\<forall>s :: 'e sched. w (shared s) < n \<longrightarrow>
        (\<forall>cs. \<exists>s'. ends w body [Calls cs] s s') \<and> (\<forall>inst i. \<exists>s'. ends w body [Pre inst i] s s') \<and>
        (\<exists>s'. ends w body [Post_loop] s s'))"

lemma job_ends:
  assumes "settles w body" "inner_ends w body (w (shared s))"
  shows "\<exists>s'. ends w body [Job j] s s' \<and> (w (shared s') < w (shared s) \<or> (\<exists>e. s' = s\<lparr>shared := e, ran := ran s @ [j]\<rparr>))"
proof -
  obtain e cs where b: "body (shared s) j = (e, cs)" by fastforce
  let ?s = "s\<lparr>shared := e, ran := ran s @ [j]\<rparr>"
  have le: "w e \<le> w (shared s)" "cs \<noteq> [] \<Longrightarrow> w e < w (shared s)"
    using assms(1) b unfolding settles_def by (metis fst_conv snd_conv)+
  have st: "sched_step body (Job j) s = ([Calls cs], ?s)" by (simp add: b)
  show ?thesis
  proof (cases "cs = []")
    case True
    have "ends w body [Job j] s ?s"
      by (rule ends_step [OF st]) (use le(1) True in \<open>auto simp: ends_def run_Cons\<close>)
    then show ?thesis by auto
  next
    case False
    then have "w (shared ?s) < w (shared s)" using le by simp
    then obtain s' where s': "ends w body [Calls cs] ?s s'" using assms(2) unfolding inner_ends_def by blast
    then have "w (shared s') \<le> w e" by (simp add: ends_def)
    then have "w (shared s') < w (shared s)" using le False by simp
    moreover have "ends w body [Job j] s s'" by (rule ends_step [OF st]) (use le s' in auto)
    ultimately show ?thesis by auto
  qed
qed

lemma loop_step:
  assumes "sched_step body t s = ([Job j, t'], s1)" "shared s1 = shared s" "ends w body [Job j] s1 s2" "ends w body [t'] s2 s3"
  shows "ends w body [t] s s3"
  using ends_append [OF assms(3,4)] assms(2) by (intro ends_step [OF assms(1)]) simp_all

lemma pre_ends:
  assumes st: "settles w body"
  shows "inner_ends w body (w (shared s)) \<Longrightarrow> \<exists>s'. ends w body [Pre inst i] s s'"
proof (induction "length (queue s) - i" arbitrary: s i rule: less_induct)
  case less
  show ?case
  proof (cases "i < length (queue s)")
    case False
    then have "ends w body [Pre inst i] s s" by (intro ends_step) (auto simp: pre_step_def ends_Nil)
    then show ?thesis ..
  next
    case i: True
    show ?thesis
    proof (cases "skip_cb inst (queue s ! i)")
      case True
      obtain s' where "ends w body [Pre inst (i + 1)] s s'" using less i by (meson diff_less_mono2 less_add_one)
      then have "ends w body [Pre inst i] s s'"
        using i True by (intro ends_step [where new = "[Pre inst (i + 1)]"]) (auto simp: pre_step_def Let_def)
      then show ?thesis ..
    next
      case False
      let ?s = "s\<lparr>queue := take i (queue s) @ drop (Suc i) (queue s)\<rparr>"
      have step: "sched_step body (Pre inst i) s = ([Job (queue s ! i), Pre inst i], ?s)"
        using i False by (simp add: pre_step_def Let_def)
      obtain s1 where s1: "ends w body [Job (queue s ! i)] ?s s1"
        "w (shared s1) < w (shared s) \<or> (\<exists>e. s1 = ?s\<lparr>shared := e, ran := ran ?s @ [queue s ! i]\<rparr>)"
        using job_ends [OF st, of ?s "queue s ! i"] less(2) by auto
      have le: "w (shared s1) \<le> w (shared s)" using s1(1) by (simp add: ends_def)
      obtain s2 where "ends w body [Pre inst i] s1 s2"
      proof (cases "w (shared s1) < w (shared s)")
        case True
        with less(2) that show thesis unfolding inner_ends_def by blast
      next
        case False
        with s1(2) have "length (queue s1) - i < length (queue s) - i" using i by auto
        moreover have "inner_ends w body (w (shared s1))" using less(2) le False by simp
        ultimately show thesis using less(1) that by blast
      qed
      then have "ends w body [Pre inst i] s s2" by (intro loop_step [OF step _ s1(1)]) auto
      then show ?thesis ..
    qed
  qed
qed

lemma post_loop_ends:
  assumes st: "settles w body"
  shows "inner_ends w body (w (shared s)) \<Longrightarrow> \<exists>s'. ends w body [Post_loop] s s' \<and>
    (w (shared s') < w (shared s) \<or> queue s' = queue s \<and> pendingPostFlushCbs s' = pendingPostFlushCbs s)"
proof (induction "case activePostFlushCbs s of None \<Rightarrow> 0 | Some a \<Rightarrow> length a - postFlushIndex s" arbitrary: s rule: less_induct)
  case less
  show ?case
  proof (cases "\<exists>a. activePostFlushCbs s = Some a \<and> postFlushIndex s < length a")
    case False
    let ?s = "case activePostFlushCbs s of None \<Rightarrow> s | Some a \<Rightarrow> s\<lparr>activePostFlushCbs := None, postFlushIndex := 0\<rparr>"
    have "ends w body [Post_loop] s ?s"
      by (rule ends_step [where new = "[]" and ?s1.0 = ?s])
        (use False in \<open>auto simp: post_loop_step_def ends_Nil split: option.splits\<close>)
    then show ?thesis by (intro exI [of _ ?s]) (auto split: option.split)
  next
    case True
    then obtain a where a: "activePostFlushCbs s = Some a" "postFlushIndex s < length a" by blast
    let ?j = "a ! postFlushIndex s"
    have step: "sched_step body Post_loop s = ([Job ?j, Post_next], s)" using a by (simp add: post_loop_step_def)
    obtain s1 where s1: "ends w body [Job ?j] s s1"
      "w (shared s1) < w (shared s) \<or> (\<exists>e. s1 = s\<lparr>shared := e, ran := ran s @ [?j]\<rparr>)"
      using job_ends [OF st less(2)] by blast
    let ?s2 = "s1\<lparr>postFlushIndex := postFlushIndex s1 + 1\<rparr>"
    obtain s3 where s3: "ends w body [Post_loop] ?s2 s3"
      "w (shared s3) < w (shared s) \<or> queue s3 = queue s \<and> pendingPostFlushCbs s3 = pendingPostFlushCbs s"
    proof (cases "w (shared s1) < w (shared s)")
      case True
      with less(2) obtain s3 where "ends w body [Post_loop] ?s2 s3" unfolding inner_ends_def by fastforce
      moreover from this True have "w (shared s3) < w (shared s)" by (simp add: ends_def)
      ultimately show thesis using that by blast
    next
      case False
      with s1(2) obtain e where e: "s1 = s\<lparr>shared := e, ran := ran s @ [?j]\<rparr>" by blast
      have "w e = w (shared s)" using False s1(1) by (simp add: ends_def e)
      then have "\<exists>s'. ends w body [Post_loop] ?s2 s' \<and> (w (shared s') < w (shared ?s2) \<or>
          queue s' = queue ?s2 \<and> pendingPostFlushCbs s' = pendingPostFlushCbs ?s2)"
        using less(2) a by (intro less(1)) (auto simp: e)
      with \<open>w e = w (shared s)\<close> that show thesis by (auto simp: e)
    qed
    have "ends w body [Post_next] s1 s3"
      by (rule ends_step [where new = "[Post_loop]"]) (use s3(1) in auto)
    then have "ends w body [Post_loop] s s3" by (rule loop_step [OF step refl s1(1)])
    with s3(2) show ?thesis by blast
  qed
qed

lemma post_ends:
  assumes "settles w body" "inner_ends w body (w (shared s))"
  shows "\<exists>s'. ends w body [Post] s s' \<and>
    (w (shared s') < w (shared s) \<or> queue s' = queue s \<and> pendingPostFlushCbs s' = [])"
proof -
  obtain new s1 where st: "sched_step body Post s = (new, s1)" by fastforce
  then have s1: "shared s1 = shared s" "queue s1 = queue s" "pendingPostFlushCbs s1 = []" "new = [] \<or> new = [Post_loop]"
    by (auto simp: post_step_def Let_def split: if_splits option.splits)
  show ?thesis
  proof (cases "new = []")
    case True
    with st s1 have "ends w body [Post] s s1" by (intro ends_step [OF st]) (auto simp: ends_Nil)
    with s1 show ?thesis by auto
  next
    case False
    obtain s' where "ends w body [Post_loop] s1 s'"
      "w (shared s') < w (shared s1) \<or> queue s' = queue s1 \<and> pendingPostFlushCbs s' = pendingPostFlushCbs s1"
      using post_loop_ends [OF assms(1), of s1] assms(2) s1(1) by auto
    moreover from this False s1 have "ends w body [Post] s s'" by (intro ends_step [OF st]) auto
    ultimately show ?thesis using s1 by auto
  qed
qed

lemma do_call_new:
  "do_call c s = (new, s') \<Longrightarrow> shared s' = shared s \<and> (new = [] \<or> (\<exists>inst i. new = [Pre inst i]) \<or> new = [Post])"
  by (cases c) (auto simp: queuePostFlushCbs_def deactivate_def)

lemma calls_end:
  assumes st: "settles w body" and "inner_ends w body n"
  shows "w (shared s) \<le> n \<Longrightarrow> \<exists>s'. ends w body [Calls cs] s s'"
proof (induction cs arbitrary: s)
  case Nil
  have "ends w body [Calls []] s s" by (rule ends_step [where new = "[]"]) (auto simp: ends_Nil)
  then show ?case ..
next
  case (Cons c cs)
  obtain new s1 where c: "do_call c s = (new, s1)" by fastforce
  note new = do_call_new [OF c]
  have "inner_ends w body (w (shared s1))" using assms(2) Cons.prems new unfolding inner_ends_def by auto
  then obtain s2 where s2: "ends w body new s1 s2"
    using new pre_ends [OF st, of s1] post_ends [OF st, of s1] ends_Nil by blast
  then have "w (shared s2) \<le> n" using Cons.prems new by (simp add: ends_def)
  then obtain s3 where "ends w body [Calls cs] s2 s3" using Cons.IH by blast
  from ends_append [OF s2 this] have "ends w body [Calls (c # cs)] s s3"
    using c new by (intro ends_step [where new = "new @ [Calls cs]"]) auto
  then show ?case ..
qed

lemma inner_ends_all: "settles w body \<Longrightarrow> inner_ends w body n"
proof (induction n)
  case 0
  then show ?case by (simp add: inner_ends_def)
next
  case (Suc n)
  then have n: "inner_ends w body n" by simp
  show ?case unfolding inner_ends_def
  proof (intro allI impI conjI)
    fix s :: "'a sched" and cs inst i
    assume s: "w (shared s) < Suc n"
    then have k: "inner_ends w body (w (shared s))" using n unfolding inner_ends_def by auto
    show "\<exists>s'. ends w body [Calls cs] s s'" using s by (intro calls_end [OF Suc.prems n]) simp
    show "\<exists>s'. ends w body [Pre inst i] s s'" by (rule pre_ends [OF Suc.prems k])
    show "\<exists>s'. ends w body [Post_loop] s s'" using post_loop_ends [OF Suc.prems k] by blast
  qed
qed

lemma jobs_loop_ends:
  assumes st: "settles w body"
  shows "\<exists>s'. ends w body [Jobs_loop] s s'"
proof (induction "(w (shared s), length (queue s) - flushIndex s)" arbitrary: s rule: wf_induct_rule [OF wf_lex_prod [OF wf_less_than wf_less_than]])
  case 1
  note IH = 1 [simplified]
  show ?case
  proof (cases "flushIndex s < length (queue s)")
    case False
    then have "ends w body [Jobs_loop] s s" by (intro ends_step [where new = "[]"]) (auto simp: jobs_loop_step_def ends_Nil)
    then show ?thesis ..
  next
    case fi: True
    let ?j = "queue s ! flushIndex s"
    obtain s1 where s1: "run body (if ?j \<in> set (inactive s) then [] else [Job ?j]) s = Some s1" "w (shared s1) \<le> w (shared s)"
      "w (shared s1) < w (shared s) \<or> queue s1 = queue s \<and> flushIndex s1 = flushIndex s"
    proof (cases "?j \<in> set (inactive s)")
      case True
      then show thesis by (intro that [of s]) auto
    next
      case False
      obtain s1 where "ends w body [Job ?j] s s1"
        "w (shared s1) < w (shared s) \<or> (\<exists>e. s1 = s\<lparr>shared := e, ran := ran s @ [?j]\<rparr>)"
        using job_ends [OF st inner_ends_all [OF st]] by blast
      with False show thesis by (intro that [of s1]) (auto simp: ends_def)
    qed
    let ?s2 = "s1\<lparr>flushIndex := flushIndex s1 + 1\<rparr>"
    have "w (shared ?s2) < w (shared s) \<or> w (shared ?s2) = w (shared s) \<and> length (queue ?s2) - flushIndex ?s2 < length (queue s) - flushIndex s"
      using s1(2,3) fi by auto
    then obtain s3 where s3: "ends w body [Jobs_loop] ?s2 s3" using IH [of ?s2] by auto
    have "ends w body [Jobs_next] s1 s3" by (rule ends_step [where new = "[Jobs_loop]"]) (use s3 in auto)
    moreover have "ends w body (if ?j \<in> set (inactive s) then [] else [Job ?j]) s s1" using s1 by (simp add: ends_def)
    ultimately have "ends w body ((if ?j \<in> set (inactive s) then [] else [Job ?j]) @ [Jobs_next]) s s3"
      by (rule ends_append [rotated])
    then have "ends w body [Jobs_loop] s s3"
      using fi by (intro ends_step [where new = "(if ?j \<in> set (inactive s) then [] else [Job ?j]) @ [Jobs_next]"])
        (auto simp: jobs_loop_step_def Let_def)
    then show ?thesis ..
  qed
qed

lemma flush_ends:
  assumes st: "settles w body"
  shows "\<exists>s'. ends w body [Flush] s s'"
proof (induction "w (shared s)" arbitrary: s rule: less_induct)
  case less
  let ?s = "s\<lparr>isFlushPending := False, isFlushing := True, queue := sort_jobs comparator (queue s), flushIndex := 0\<rparr>"
  obtain s1 where s1: "ends w body [Jobs_loop] ?s s1" using jobs_loop_ends [OF st] by blast
  let ?s1 = "s1\<lparr>flushIndex := 0, queue := []\<rparr>"
  obtain s2 where s2: "ends w body [Post] ?s1 s2"
    "w (shared s2) < w (shared ?s1) \<or> queue s2 = queue ?s1 \<and> pendingPostFlushCbs s2 = []"
    using post_ends [OF st inner_ends_all [OF st]] by blast
  let ?s2 = "s2\<lparr>isFlushing := False, currentFlushPromise := False\<rparr>"
  have w: "w (shared s1) \<le> w (shared s)" "w (shared s2) \<le> w (shared s1)" using s1 s2(1) by (simp_all add: ends_def)
  obtain s3 where s3: "ends w body [Flush_done] s2 s3"
  proof (cases "queue s2 = [] \<and> pendingPostFlushCbs s2 = []")
    case True
    then have "ends w body [Flush_done] s2 ?s2" by (intro ends_step [where new = "[]"]) (auto simp: flush_done_def ends_Nil)
    with that show thesis by blast
  next
    case False
    then have "w (shared ?s2) < w (shared s)" using s2(2) w by auto
    then obtain s3 where "ends w body [Flush] ?s2 s3" using less by blast
    then have "ends w body [Flush_done] s2 s3"
      using False by (intro ends_step [where new = "[Flush]"]) (auto simp: flush_done_def)
    with that show thesis by blast
  qed
  have "ends w body [Flush_finally] s1 s3"
    by (rule ends_step [where new = "[Post, Flush_done]"]) (use ends_append [OF s2(1) s3] in auto)
  from ends_append [OF s1 this] have "ends w body [Flush] s s3"
    by (intro ends_step [where new = "[Jobs_loop, Flush_finally]"]) auto
  then show ?case ..
qed

section \<open>Every waiting job is run\<close>

text \<open>A job that some job takes back while it waits behind the running one.\<close>

definition taken_back :: "('e \<Rightarrow> job \<Rightarrow> 'e \<times> call list) \<Rightarrow> 'e sched \<Rightarrow> job \<Rightarrow> bool" where
  "taken_back body s0 j \<longleftrightarrow>
     (\<exists>cs ts s. reaches body s0 (Calls (Invalidate j # cs) # ts) s \<and> j \<in> set (waiting s))"

text \<open>The jobs that have been run or are still to be run.\<close>

definition post_owed :: "task list \<Rightarrow> 'e sched \<Rightarrow> job set" where
  "post_owed ts s =
     set (drop (if Post_next \<in> set ts then Suc (postFlushIndex s) else postFlushIndex s)
       (case activePostFlushCbs s of None \<Rightarrow> [] | Some a \<Rightarrow> a))"

definition queue_owed :: "task list \<Rightarrow> 'e sched \<Rightarrow> job set" where
  "queue_owed ts s = set (drop (if Jobs_next \<in> set ts then Suc (flushIndex s) else flushIndex s) (queue s))"

definition owed :: "task list \<Rightarrow> 'e sched \<Rightarrow> job set" where
  "owed ts s = set (ran s) \<union> {j. Job j \<in> set ts} \<union> set (pendingPostFlushCbs s) \<union> post_owed ts s \<union> queue_owed ts s"

lemma set_sort_jobs [simp]: "set (sort_jobs comparator xs) = set xs" "set (sort_jobs id_diff xs) = set xs"
  by (simp_all add: sort_jobs_comparator sort_jobs_id_diff)

lemma set_dedupe [simp]: "set (dedupe xs) = set xs"
  by (simp add: dedupe_def)

lemma phase_post_ok: "phase ts s \<Longrightarrow> post_ok ts s"
proof (induction rule: phase.induct)
  case (running us s)
  then show ?case by (auto simp: inner_def post_ok_def post_tasks_def split: option.splits)
next
  case (posting us s)
  then show ?case by (auto simp: inner_def post_ok_def post_tasks_def split: option.splits)
qed (simp_all add: post_ok_def post_tasks_def)

inductive_cases phase_Flush: "phase (Flush # ts) s"
inductive_cases phase_finally: "phase (Flush_finally # ts) s"
inductive_cases phase_Jobs_loop: "phase (Jobs_loop # ts) s"
inductive_cases phase_Jobs_next: "phase (Jobs_next # ts) s"
inductive_cases phase_Pre: "phase (Pre inst i # ts) s"

lemma phase_top:
  "phase (Pre inst i # ts) s \<Longrightarrow> flushIndex s < i"
  "phase (Jobs_next # ts) s \<Longrightarrow> Jobs_next \<notin> set ts"
  "phase (Jobs_loop # ts) s \<Longrightarrow> Jobs_next \<notin> set ts"
  "phase (Flush_finally # ts) s \<Longrightarrow> length (queue s) \<le> flushIndex s \<and> Jobs_next \<notin> set ts"
  "phase (Flush # ts) s \<Longrightarrow> flushIndex s = 0 \<and> Jobs_next \<notin> set ts"
  by (auto elim!: phase_Pre phase_Jobs_next phase_Jobs_loop phase_finally phase_Flush
      simp: inner_def append_eq_Cons_conv Cons_eq_append_conv)

lemma insertion_loop_ge: "start \<le> insertion_loop q i start stop"
proof (induction q i start stop rule: insertion_loop.induct)
  case (1 q i start stop)
  then show ?case by (subst insertion_loop.simps) (fastforce simp: Let_def)
qed

lemma queueJob_keeps:
  assumes "k \<le> Suc (flushIndex s)"
  shows "set (drop k (queue s)) \<subseteq> set (drop k (queue (queueJob j s)))"
proof (cases rule: queueJob_place [of j s])
  case (new n)
  have "k \<le> n \<or> length (queue s) \<le> n"
    using new(2) assms insertion_loop_ge [of "flushIndex s + 1" "queue s"]
    by (cases "job_id j") (auto simp: findInsertionIndex_def intro: order.trans)
  then show ?thesis
  proof (cases "n < length (queue s)")
    case True
    with \<open>k \<le> n \<or> length (queue s) \<le> n\<close> have "k \<le> n" by simp
    then have "drop k (queue s) = drop k (take n (queue s)) @ drop n (queue s)"
      using True by (metis append_take_drop_id diff_is_0_eq drop0 drop_append length_take min.absorb4)
    then show ?thesis using True \<open>k \<le> n\<close> unfolding new(1) by auto
  qed (auto simp: new(1))
qed simp

lemma remove_owed:
  assumes "k \<le> i" "i < length q"
  shows "set (drop k q) \<subseteq> insert (q ! i) (set (drop k (take i q @ drop (Suc i) q)))"
proof -
  have "drop k q = drop k (take i q @ q ! i # drop (Suc i) q)" using assms by (simp add: id_take_nth_drop [symmetric])
  then show ?thesis using assms by auto
qed

text \<open>The one job a call takes out of what is owed.\<close>

definition gone :: "call \<Rightarrow> 'e sched \<Rightarrow> job set" where
  "gone c s = {j. c = Invalidate j \<and> j \<in> set (waiting s)}"

lemma invalidateJob_more_fields [simp]:
  "pendingPostFlushCbs (invalidateJob j s) = pendingPostFlushCbs s" "inactive (invalidateJob j s) = inactive s"
  "ran (invalidateJob j s) = ran s"
  by (simp_all add: invalidateJob_def split: option.split)

lemma invalidateJob_queue:
  assumes "k \<le> Suc (flushIndex s)"
  shows "set (drop k (queue s)) \<subseteq> set (drop k (queue (invalidateJob j s))) \<union> gone (Invalidate j) s"
proof (cases "find_index (\<lambda>i. i = j) (queue s)")
  case (Some i)
  then have i: "i < length (queue s)" "queue s ! i = j" using find_index_Some by fastforce+
  show ?thesis
  proof (cases "flushIndex s < i")
    case True
    with i have "j \<in> set (waiting s)" using remove_behind [of i "queue s" "flushIndex s"] by (auto simp: waiting_def)
    moreover have "k \<le> i" using assms True by simp
    ultimately show ?thesis using remove_owed [of k i "queue s"] i Some True by (auto simp: invalidateJob_def gone_def)
  qed (simp add: invalidateJob_def Some)
qed (simp add: invalidateJob_def)

lemma owed_calls:
  assumes c: "do_call c s = (new, s')"
  shows "owed (Calls (c # cs) # ts) s \<subseteq> owed (new @ Calls cs # ts) s' \<union> gone c s \<and> set (inactive s) \<subseteq> set (inactive s')"
proof
  let ?k = "if Jobs_next \<in> set ts then Suc (flushIndex s) else flushIndex s"
  have q: "set (drop ?k (queue s)) \<subseteq> set (drop ?k (queue (queueJob j s)))" for j
    by (rule queueJob_keeps) simp
  have i: "set (drop ?k (queue s)) \<subseteq> set (drop ?k (queue (invalidateJob j s))) \<union> gone (Invalidate j) s" for j
    by (rule invalidateJob_queue) simp
  show "owed (Calls (c # cs) # ts) s \<subseteq> owed (new @ Calls cs # ts) s' \<union> gone c s"
  proof (cases c)
    case (Queue_job j)
    with c q [of j] show ?thesis by (auto simp: owed_def post_owed_def queue_owed_def)
  next
    case (Queue_post j)
    have "set (pendingPostFlushCbs s) \<subseteq> set (pendingPostFlushCbs (queuePostFlushCb j s))"
      by (auto simp: queuePostFlushCb_def split: option.split)
    with c Queue_post show ?thesis by (auto simp: owed_def post_owed_def queue_owed_def)
  next
    case (Invalidate j)
    with c i [of j] show ?thesis by (auto simp: owed_def post_owed_def queue_owed_def)
  qed (use c in \<open>auto simp: owed_def post_owed_def queue_owed_def queuePostFlushCbs_def deactivate_def\<close>)
  show "set (inactive s) \<subseteq> set (inactive s')" using c by (cases c) (auto simp: queuePostFlushCbs_def deactivate_def)
qed

fun taken :: "task \<Rightarrow> 'e sched \<Rightarrow> job set" where
  "taken (Calls (c # cs)) s = gone c s"
| "taken t s = {}"

lemma owed_step:
  assumes p: "phase (t # ts) s" and st: "sched_step body t s = (new, s')"
  shows "owed (t # ts) s \<subseteq> owed (new @ ts) s' \<union> set (inactive s) \<union> taken t s \<and> set (inactive s) \<subseteq> set (inactive s')"
proof (cases t)
  case (Job j)
  with st show ?thesis by (auto simp: owed_def post_owed_def queue_owed_def split: prod.splits)
next
  case (Calls cs)
  show ?thesis
  proof (cases cs)
    case Nil
    with Calls st show ?thesis by (auto simp: owed_def post_owed_def queue_owed_def)
  next
    case (Cons c rest)
    then obtain new' where c: "do_call c s = (new', s')" "new = new' @ [Calls rest]"
      using Calls st by (auto split: prod.splits)
    with owed_calls [OF c(1), of rest ts] Cons Calls show ?thesis by auto
  qed
next
  case (Pre inst i)
  then have i: "flushIndex s < i" using p phase_top(1) by blast
  let ?k = "if Jobs_next \<in> set ts then Suc (flushIndex s) else flushIndex s"
  show ?thesis
  proof (cases "i < length (queue s) \<and> \<not> skip_cb inst (queue s ! i)")
    case True
    with i have "set (drop ?k (queue s)) \<subseteq> insert (queue s ! i) (set (drop ?k (take i (queue s) @ drop (Suc i) (queue s))))"
      by (intro remove_owed) auto
    with True Pre st show ?thesis
      by (auto simp: pre_step_def owed_def post_owed_def queue_owed_def Let_def)
  next
    case False
    with Pre st show ?thesis
      by (auto simp: pre_step_def owed_def post_owed_def queue_owed_def Let_def split: if_splits)
  qed
next
  case Post
  note ok = phase_post_ok [OF p, unfolded Post post_ok_def]
  show ?thesis
  proof (cases "activePostFlushCbs s")
    case None
    with ok post_next_in [of ts] have "Post_next \<notin> set ts" by simp
    with None Post st show ?thesis
      by (auto simp: post_step_def owed_def post_owed_def queue_owed_def Let_def split: if_splits)
  next
    case (Some a)
    let ?k = "if Post_next \<in> set ts then Suc (postFlushIndex s) else postFlushIndex s"
    have "?k \<le> length a" using ok Some by auto
    then have "set (drop ?k (a @ xs)) = set (drop ?k a) \<union> set xs" for xs by simp
    with Some Post st show ?thesis
      by (auto simp: post_step_def owed_def post_owed_def queue_owed_def Let_def simp del: drop_append split: if_splits)
  qed
next
  case Post_loop
  note ok = phase_post_ok [OF p, unfolded Post_loop post_ok_def]
  show ?thesis
  proof (cases "activePostFlushCbs s")
    case None
    with ok show ?thesis by simp
  next
    case (Some a)
    with ok post_next_in [of ts] have n: "Post_next \<notin> set ts" by auto
    show ?thesis
    proof (cases "postFlushIndex s < length a")
      case True
      then have "drop (postFlushIndex s) a = a ! postFlushIndex s # drop (Suc (postFlushIndex s)) a"
        by (simp add: Cons_nth_drop_Suc)
      with True n Some Post_loop st show ?thesis
        by (auto simp: post_loop_step_def owed_def post_owed_def queue_owed_def)
    next
      case False
      with n Some Post_loop st show ?thesis
        by (auto simp: post_loop_step_def owed_def post_owed_def queue_owed_def)
    qed
  qed
next
  case Post_next
  note ok = phase_post_ok [OF p, unfolded Post_next post_ok_def]
  have "Post_next \<notin> set ts" using ok post_next_in [of ts] by (auto split: option.splits)
  with Post_next st show ?thesis by (auto simp: owed_def post_owed_def queue_owed_def)
next
  case Jobs_loop
  have n: "Jobs_next \<notin> set ts" using p Jobs_loop phase_top(3) by blast
  show ?thesis
  proof (cases "flushIndex s < length (queue s)")
    case True
    then have "drop (flushIndex s) (queue s) = queue s ! flushIndex s # drop (Suc (flushIndex s)) (queue s)"
      by (simp add: Cons_nth_drop_Suc)
    with True n Jobs_loop st show ?thesis
      by (auto simp: jobs_loop_step_def owed_def post_owed_def queue_owed_def Let_def split: if_splits)
  next
    case False
    with n Jobs_loop st show ?thesis
      by (auto simp: jobs_loop_step_def owed_def post_owed_def queue_owed_def)
  qed
next
  case Jobs_next
  have "Jobs_next \<notin> set ts" using p Jobs_next phase_top(2) by blast
  with Jobs_next st show ?thesis by (auto simp: owed_def post_owed_def queue_owed_def)
next
  case Flush
  have "flushIndex s = 0 \<and> Jobs_next \<notin> set ts" using p Flush phase_top(5) by blast
  with Flush st show ?thesis by (auto simp: owed_def post_owed_def queue_owed_def)
next
  case Flush_finally
  have "length (queue s) \<le> flushIndex s \<and> Jobs_next \<notin> set ts" using p Flush_finally phase_top(4) by blast
  with Flush_finally st show ?thesis by (auto simp: owed_def post_owed_def queue_owed_def)
next
  case Flush_done
  with st show ?thesis
    by (auto simp: flush_done_def owed_def post_owed_def queue_owed_def Let_def)
qed

lemma reaches_owed:
  assumes "activePostFlushCbs s0 = None" "flushIndex s0 = 0" "reaches body s0 ts s"
  shows "owed [Flush] s0 \<subseteq> owed ts s \<union> set (inactive s) \<union> {j. taken_back body s0 j}"
  using assms(3)
proof (induction rule: reaches.induct)
  case (step t ts s new s')
  have p: "phase (t # ts) s" by (rule reaches_phase [OF step.hyps(1) assms(1,2)])
  have "taken_back body s0 j" if "j \<in> taken t s" for j
    using that step.hyps(1) unfolding taken_back_def by (cases "(t, s)" rule: taken.cases) (auto simp: gone_def)
  with step owed_step [OF p step.hyps(2)] show ?case by blast
qed blast

lemma run_reaches:
  assumes ret: "run body ts s = Some s'"
  shows "reaches body s0 ts s \<Longrightarrow> reaches body s0 [] s'"
proof (rule run.raw_induct [where P = "\<lambda>body ts s s'. reaches body s0 ts s \<longrightarrow> reaches body s0 [] s'", OF _ ret, THEN mp], goal_cases)
  case (1 run' body ts s s')
  show ?case
  proof
    assume r: "reaches body s0 ts s"
    show "reaches body s0 [] s'"
    proof (cases ts)
      case Nil
      with 1(3) r show ?thesis by simp
    next
      case (Cons t rest)
      obtain new s1 where st: "sched_step body t s = (new, s1)" by fastforce
      with 1(3) Cons have "run' body (new @ rest) s1 = Some s'" by simp
      from 1(2) [OF this] reaches.step [OF r [unfolded Cons] st] show ?thesis by simp
    qed
  qed
qed simp

inductive_cases phase_Nil: "phase [] s"

text \<open>
  C24. A flush ends when the jobs settle, however often they queue each other,
  take each other back or flush callbacks before that, with nothing left in the queue and among
  the callbacks and the scheduler ready for the next flush; and every job that waited in the queue
  or among the callbacks has been run, unless it has been deactivated or some job took it back
  while it waited behind the running one.
\<close>

theorem flush_runs_every_job:
  assumes "settles w body" "activePostFlushCbs s = None" "flushIndex s = 0"
  shows "\<exists>s'. flushJobs body s = Some s' \<and> queue s' = [] \<and> pendingPostFlushCbs s' = [] \<and> \<not> isFlushing s' \<and>
    set (queue s) \<union> set (pendingPostFlushCbs s) \<subseteq> set (ran s') \<union> set (inactive s') \<union> {j. taken_back body s j}"
proof -
  obtain s' where s': "run body [Flush] s = Some s'" using flush_ends [OF assms(1)] unfolding ends_def by blast
  have r: "reaches body s [] s'" by (rule run_reaches [OF s' reaches.start])
  have p: "queue s' = []" "pendingPostFlushCbs s' = []" "activePostFlushCbs s' = None" "\<not> isFlushing s'"
    using reaches_phase [OF r assms(2,3)] by (auto elim: phase_Nil)
  have "owed [Flush] s \<subseteq> owed [] s' \<union> set (inactive s') \<union> {j. taken_back body s j}"
    by (rule reaches_owed [OF assms(2,3) r])
  then have "set (queue s) \<union> set (pendingPostFlushCbs s) \<subseteq> set (ran s') \<union> set (inactive s') \<union> {j. taken_back body s j}"
    using p assms(3) by (auto simp: owed_def post_owed_def queue_owed_def)
  with s' p show ?thesis by (auto simp: flushJobs_def)
qed

text \<open>A parent takes back the update of its child 4, and the update 2 queues one more and a callback.\<close>

definition update_child :: "nat \<Rightarrow> job \<Rightarrow> nat \<times> call list" where
  "update_child e j =
     (if e = 0 then (e, [])
      else if j = update_job 1 then (e - 1, [Invalidate (update_job 4)])
      else if j = update_job 2 then (e - 1, [Queue_job (update_job 3), Queue_post (update_job 8)])
      else (e, []))"

theorem flush_runs_every_job_witness:
  "let s = idle_sched 2 (map update_job [4, 2, 1]) [update_job 7]
   in taken_back update_child s (update_job 4) \<and>
     (\<exists>s'. flushJobs update_child s = Some s' \<and> queue s' = [] \<and> pendingPostFlushCbs s' = [] \<and> \<not> isFlushing s' \<and>
       set (map update_job [4, 2, 1, 7]) \<subseteq> set (ran s') \<union> set (inactive s') \<union> {j. taken_back update_child s j})"
proof -
  let ?s = "idle_sched (2 :: nat) (map update_job [4, 2, 1]) [update_job 7]"
  obtain ts s1 where st: "steps update_child 3 [Flush] ?s = (ts, s1)" by fastforce
  have "hd (fst (steps update_child 3 [Flush] ?s)) = Calls [Invalidate (update_job 4)] \<and>
      fst (steps update_child 3 [Flush] ?s) \<noteq> [] \<and> update_job 4 \<in> set (waiting (snd (steps update_child 3 [Flush] ?s)))"
    by code_simp
  then have "hd ts = Calls [Invalidate (update_job 4)]" "ts \<noteq> []" "update_job 4 \<in> set (waiting s1)"
    unfolding st fst_conv snd_conv by blast+
  with reaches_steps [OF reaches.start st] have "taken_back update_child ?s (update_job 4)"
    unfolding taken_back_def by (metis list.collapse)
  moreover have "settles (\<lambda>n. n) update_child" by (simp add: settles_def update_child_def)
  then have "\<exists>s'. flushJobs update_child ?s = Some s' \<and> queue s' = [] \<and> pendingPostFlushCbs s' = [] \<and> \<not> isFlushing s' \<and>
      set (queue ?s) \<union> set (pendingPostFlushCbs ?s) \<subseteq>
        set (ran s') \<union> set (inactive s') \<union> {j. taken_back update_child ?s j}"
    by (rule flush_runs_every_job) (simp_all add: idle_sched_def)
  moreover have "set (queue ?s) \<union> set (pendingPostFlushCbs ?s) = set (map update_job [4, 2, 1, 7])"
    by (auto simp: idle_sched_def)
  ultimately show ?thesis unfolding Let_def by (simp only: simp_thms)
qed

end
