(* ===== verification/VueReactivity.thy ===== *)
theory VueReactivity
  imports Prelude "HOL-Library.AList"
begin

text \<open>
  Vue's reactivity (\<^verbatim>\<open>src/v2/lens3/ui/assets/index.js\<close>, \<open>ReactiveEffect\<close>, \<open>trackEffect\<close>,
  \<open>triggerEffects\<close>, \<open>RefImpl\<close>, \<open>ComputedRefImpl\<close>): refs, computed refs that keep their value until
  something they read has changed, and watchers, which are the render effects of the components
  and the effects of \<open>watch\<close>, and are handed to the scheduler when what they read may have
  changed. An effect knows how dirty it is: 0 not, 1 while it asks, 2 and 3 maybe, because a
  computed ref it read may change, 4 certainly.

  A function that an effect runs reads sources one by one, each depending on the values before,
  and returns a value; it writes nothing, creates no object, does not throw and does not use its
  old value. Refs are numbered, so are computed refs, such that a computed ref reads only smaller
  ones: they are not cyclic. An object is a value by its identity, and its proxy is the same value,
  so \<open>Object.is\<close> is equality. No watcher is of the kind \<open>sync\<close>. A \<open>Dep\<close> is the map of its
  entries; one that has become empty is dropped by the code and stands for an empty map here.
  Computed refs ask each other for their values; the depth of that, and the depth of triggers, are
  bounded by a number, and going deeper is \<open>None\<close>. It is shown that the number of computed refs is
  deep enough.

  Shown: whatever was read and written before, a computed ref gives the value that computing
  everything afresh gives; a watcher that is not dirty has the value that running it now would
  give, and a dirty one has been handed to the scheduler.
\<close>

section \<open>Sources, effects, state\<close>

datatype source = Ref nat | Comp nat

datatype eff = Computed nat | Watcher nat

datatype rvalue = VUndef | VNull | VBool bool | VNum int | VStr string | VObj nat

datatype getter =
    Return rvalue
  | Read source "rvalue \<Rightarrow> getter"

record effect_state =
  dirtyLevel :: nat
  trackId :: nat
  runnings :: nat
  shouldSchedule :: bool
  deps :: "source list"
  depsLength :: nat
  eff_active :: bool
  eff_allowRecurse :: bool

text \<open>
  \<open>scheduled\<close> are the watchers whose scheduler has been called and that have not been run since.
\<close>

record rstate =
  ref_value :: "nat \<Rightarrow> rvalue"
  comp_value :: "nat \<Rightarrow> rvalue"
  watch_value :: "nat \<Rightarrow> rvalue"
  dep :: "source \<Rightarrow> (eff \<times> nat) list"
  effects :: "eff \<Rightarrow> effect_state"
  activeEffect :: "eff option"
  shouldTrack :: bool
  trackStack :: "bool list"
  pauseScheduleStack :: nat
  queueEffectSchedulers :: "nat list"
  scheduled :: "nat list"

definition new_effect :: effect_state where
  "new_effect = \<lparr>dirtyLevel = 4, trackId = 0, runnings = 0, shouldSchedule = False, deps = [], depsLength = 0, eff_active = True, eff_allowRecurse = False\<rparr>"

definition init_rstate :: "(nat \<Rightarrow> rvalue) \<Rightarrow> rstate" where
  "init_rstate vals =
     \<lparr>ref_value = vals, comp_value = (\<lambda>_. VUndef), watch_value = (\<lambda>_. VUndef), dep = (\<lambda>_. []),
      effects = (\<lambda>_. new_effect), activeEffect = None, shouldTrack = True, trackStack = [],
      pauseScheduleStack = 0, queueEffectSchedulers = [], scheduled = []\<rparr>"

definition upd_effect :: "eff \<Rightarrow> (effect_state \<Rightarrow> effect_state) \<Rightarrow> rstate \<Rightarrow> rstate" where
  "upd_effect e f s = s\<lparr>effects := (effects s)(e := f (effects s e))\<rparr>"

definition level :: "rstate \<Rightarrow> eff \<Rightarrow> nat" where
  "level s e = dirtyLevel (effects s e)"

definition set_level :: "eff \<Rightarrow> nat \<Rightarrow> rstate \<Rightarrow> rstate" where
  "set_level e l = upd_effect e (\<lambda>x. x\<lparr>dirtyLevel := l\<rparr>)"

section \<open>Tracking\<close>

definition pauseTracking :: "rstate \<Rightarrow> rstate" where
  "pauseTracking s = s\<lparr>trackStack := shouldTrack s # trackStack s, shouldTrack := False\<rparr>"

definition resetTracking :: "rstate \<Rightarrow> rstate" where
  "resetTracking s =
     (case trackStack s of
        [] \<Rightarrow> s\<lparr>shouldTrack := True\<rparr>
      | b # bs \<Rightarrow> s\<lparr>shouldTrack := b, trackStack := bs\<rparr>)"

definition cleanupDepEffect :: "source \<Rightarrow> eff \<Rightarrow> rstate \<Rightarrow> rstate" where
  "cleanupDepEffect src e s =
     (case map_of (dep s src) e of
        Some t \<Rightarrow>
          if trackId (effects s e) \<noteq> t then s\<lparr>dep := (dep s)(src := AList.delete e (dep s src))\<rparr> else s
      | None \<Rightarrow> s)"

definition preCleanupEffect :: "eff \<Rightarrow> rstate \<Rightarrow> rstate" where
  "preCleanupEffect e = upd_effect e (\<lambda>x. x\<lparr>trackId := trackId x + 1, depsLength := 0\<rparr>)"

definition postCleanupEffect :: "eff \<Rightarrow> rstate \<Rightarrow> rstate" where
  "postCleanupEffect e s =
     (let x = effects s e in
      if length (deps x) > depsLength x then
        upd_effect e (\<lambda>x. x\<lparr>deps := take (depsLength x) (deps x)\<rparr>)
          (fold (\<lambda>src. cleanupDepEffect src e) (drop (depsLength x) (deps x)) s)
      else s)"

definition trackEffect :: "eff \<Rightarrow> source \<Rightarrow> rstate \<Rightarrow> rstate" where
  "trackEffect e src s =
     (let x = effects s e; n = depsLength x in
      if map_of (dep s src) e = Some (trackId x) then s
      else
        let s1 = s\<lparr>dep := (dep s)(src := AList.update e (trackId x) (dep s src))\<rparr>
        in if n < length (deps x) then
             (if deps x ! n = src then upd_effect e (\<lambda>x. x\<lparr>depsLength := n + 1\<rparr>) s1
              else upd_effect e (\<lambda>x. x\<lparr>deps := (deps x)[n := src], depsLength := n + 1\<rparr>)
                     (cleanupDepEffect (deps x ! n) e s1))
           else upd_effect e (\<lambda>x. x\<lparr>deps := deps x @ [src], depsLength := n + 1\<rparr>) s1)"

definition trackRefValue :: "source \<Rightarrow> rstate \<Rightarrow> rstate" where
  "trackRefValue src s =
     (case activeEffect s of
        Some e \<Rightarrow> if shouldTrack s then trackEffect e src s else s
      | None \<Rightarrow> s)"

section \<open>Triggering\<close>

definition pauseScheduling :: "rstate \<Rightarrow> rstate" where
  "pauseScheduling s = s\<lparr>pauseScheduleStack := pauseScheduleStack s + 1\<rparr>"

text \<open>The scheduler of a watcher puts its job into the queue of jobs, here \<open>scheduled\<close>.\<close>

definition resetScheduling :: "rstate \<Rightarrow> rstate" where
  "resetScheduling s =
     (let s1 = s\<lparr>pauseScheduleStack := pauseScheduleStack s - 1\<rparr> in
      if pauseScheduleStack s1 = 0
      then s1\<lparr>scheduled := scheduled s1 @ queueEffectSchedulers s1, queueEffectSchedulers := []\<rparr>
      else s1)"

text \<open>
  One turn of the loop of \<open>triggerEffects\<close>; \<open>trig\<close> is \<open>triggerRefValue\<close>, which the trigger of a
  computed ref calls. Watchers are the effects with a scheduler.
\<close>

definition mark_effect :: "nat \<Rightarrow> eff \<Rightarrow> rstate \<Rightarrow> rstate" where
  "mark_effect lvl e =
     upd_effect e (\<lambda>x. x\<lparr>shouldSchedule := shouldSchedule x \<or> dirtyLevel x = 0, dirtyLevel := lvl\<rparr>)"

definition schedule_effect :: "eff \<Rightarrow> rstate \<Rightarrow> rstate" where
  "schedule_effect e s =
     (if (runnings (effects s e) = 0 \<or> eff_allowRecurse (effects s e)) \<and> level s e \<noteq> 2 then
        let s1 = upd_effect e (\<lambda>x. x\<lparr>shouldSchedule := False\<rparr>) s
        in case e of
             Watcher w \<Rightarrow> s1\<lparr>queueEffectSchedulers := queueEffectSchedulers s1 @ [w]\<rparr>
           | Computed _ \<Rightarrow> s1
      else s)"

definition trigger_effect ::
  "(source \<Rightarrow> nat \<Rightarrow> rstate \<Rightarrow> rstate option) \<Rightarrow> source \<Rightarrow> nat \<Rightarrow> eff \<Rightarrow> rstate \<Rightarrow> rstate option" where
  "trigger_effect trig src lvl e s =
     (let tracking = (map_of (dep s src) e = Some (trackId (effects s e)));
          s1 = (if level s e < lvl \<and> tracking then mark_effect lvl e s else s)
      in if shouldSchedule (effects s1 e) \<and> tracking then
           map_option (schedule_effect e)
             (case e of
                Computed c \<Rightarrow> trig (Comp c) (if level s1 e = 2 then 2 else 3) s1
              | Watcher _ \<Rightarrow> Some s1)
         else Some s1)"

fun for_each :: "('a \<Rightarrow> 's \<Rightarrow> 's option) \<Rightarrow> 'a list \<Rightarrow> 's \<Rightarrow> 's option" where
  "for_each f [] s = Some s"
| "for_each f (x # xs) s = Option.bind (f x s) (for_each f xs)"

primrec triggerEffects :: "nat \<Rightarrow> source \<Rightarrow> nat \<Rightarrow> rstate \<Rightarrow> rstate option" where
  "triggerEffects 0 src lvl s = None"
| "triggerEffects (Suc n) src lvl s =
     map_option resetScheduling
       (for_each (trigger_effect (triggerEffects n) src lvl) (map fst (dep s src)) (pauseScheduling s))"

section \<open>Running effects\<close>

text \<open>\<open>get\<close> reads the value of a computed ref.\<close>

definition read_source ::
  "(nat \<Rightarrow> rstate \<Rightarrow> (rvalue \<times> rstate) option) \<Rightarrow> source \<Rightarrow> rstate \<Rightarrow> (rvalue \<times> rstate) option" where
  "read_source get src s =
     (case src of
        Ref r \<Rightarrow> Some (ref_value s r, trackRefValue src s)
      | Comp c \<Rightarrow> get c s)"

primrec run_fn ::
  "(nat \<Rightarrow> rstate \<Rightarrow> (rvalue \<times> rstate) option) \<Rightarrow> getter \<Rightarrow> rstate \<Rightarrow> (rvalue \<times> rstate) option" where
  "run_fn get (Return v) s = Some (v, s)"
| "run_fn get (Read src k) s = Option.bind (read_source get src s) (\<lambda>(v, s1). run_fn get (k v) s1)"

definition effect_run ::
  "(nat \<Rightarrow> rstate \<Rightarrow> (rvalue \<times> rstate) option) \<Rightarrow> getter \<Rightarrow> eff \<Rightarrow> rstate \<Rightarrow> (rvalue \<times> rstate) option" where
  "effect_run get fn e s =
     (let s0 = set_level e 0 s in
      if \<not> eff_active (effects s0 e) then run_fn get fn s0
      else
        map_option
          (\<lambda>(v, s2). (v,
             (upd_effect e (\<lambda>x. x\<lparr>runnings := runnings x - 1\<rparr>) (postCleanupEffect e s2))
               \<lparr>activeEffect := activeEffect s, shouldTrack := shouldTrack s\<rparr>))
          (run_fn get fn
            (preCleanupEffect e
              (upd_effect e (\<lambda>x. x\<lparr>runnings := runnings x + 1\<rparr>) (s0\<lparr>shouldTrack := True, activeEffect := Some e\<rparr>)))))"

fun ask_deps ::
  "(nat \<Rightarrow> rstate \<Rightarrow> (rvalue \<times> rstate) option) \<Rightarrow> eff \<Rightarrow> source list \<Rightarrow> rstate \<Rightarrow> rstate option" where
  "ask_deps get e [] s = Some s"
| "ask_deps get e (Ref r # ds) s = ask_deps get e ds s"
| "ask_deps get e (Comp c # ds) s =
     Option.bind (get c s) (\<lambda>(_, s1). if level s1 e \<ge> 4 then Some s1 else ask_deps get e ds s1)"

definition effect_dirty ::
  "(nat \<Rightarrow> rstate \<Rightarrow> (rvalue \<times> rstate) option) \<Rightarrow> eff \<Rightarrow> rstate \<Rightarrow> (bool \<times> rstate) option" where
  "effect_dirty get e s =
     (if level s e = 2 \<or> level s e = 3 then
        map_option
          (\<lambda>s2. let s3 = resetTracking (if level s2 e = 1 then set_level e 0 s2 else s2) in (level s3 e \<ge> 4, s3))
          (ask_deps get e (take (depsLength (effects s e)) (deps (effects s e))) (pauseTracking (set_level e 1 s)))
      else Some (level s e \<ge> 4, s))"

definition effect_stop :: "eff \<Rightarrow> rstate \<Rightarrow> rstate" where
  "effect_stop e s =
     (if eff_active (effects s e)
      then upd_effect e (\<lambda>x. x\<lparr>eff_active := False\<rparr>) (postCleanupEffect e (preCleanupEffect e s))
      else s)"

section \<open>Refs, computed refs, watchers\<close>

definition ref_set :: "nat \<Rightarrow> nat \<Rightarrow> rvalue \<Rightarrow> rstate \<Rightarrow> rstate option" where
  "ref_set n r newVal s =
     (if newVal \<noteq> ref_value s r
      then triggerEffects n (Ref r) 4 (s\<lparr>ref_value := (ref_value s)(r := newVal)\<rparr>)
      else Some s)"

text \<open>
  The value of a computed ref: \<open>fns\<close> are the functions of all computed refs, \<open>n\<close> bounds how deep
  they ask each other, \<open>m\<close> how deep triggers go.
\<close>

primrec computed_value ::
  "(nat \<Rightarrow> getter) \<Rightarrow> nat \<Rightarrow> nat \<Rightarrow> nat \<Rightarrow> rstate \<Rightarrow> (rvalue \<times> rstate) option" where
  "computed_value fns m 0 c s = None"
| "computed_value fns m (Suc n) c s =
     Option.bind (effect_dirty (computed_value fns m n) (Computed c) s) (\<lambda>(dirty, s1).
     Option.bind
       (if dirty then
          Option.bind (effect_run (computed_value fns m n) (fns c) (Computed c) s1) (\<lambda>(v, s2).
            let s3 = s2\<lparr>comp_value := (comp_value s2)(c := v)\<rparr>
            in if v \<noteq> comp_value s1 c then triggerEffects m (Comp c) 4 s3 else Some s3)
        else Some s1) (\<lambda>s3.
     let s4 = trackRefValue (Comp c) s3 in
     Option.bind (if level s4 (Computed c) \<ge> 2 then triggerEffects m (Comp c) 2 s4 else Some s4) (\<lambda>s5.
     Some (comp_value s5 c, s5))))"

text \<open>The job of a watcher: run it if it is dirty.\<close>

definition watcher_job ::
  "(nat \<Rightarrow> getter) \<Rightarrow> (nat \<Rightarrow> getter) \<Rightarrow> nat \<Rightarrow> nat \<Rightarrow> rstate \<Rightarrow> rstate option" where
  "watcher_job fns watchers n w s =
     (let s0 = s\<lparr>scheduled := removeAll w (scheduled s)\<rparr> in
      Option.bind (effect_dirty (computed_value fns n n) (Watcher w) s0) (\<lambda>(dirty, s1).
      if dirty then
        map_option (\<lambda>(v, s2). s2\<lparr>watch_value := (watch_value s2)(w := v)\<rparr>)
          (effect_run (computed_value fns n n) (watchers w) (Watcher w) s1)
      else Some s1))"

section \<open>Computing afresh\<close>

text \<open>The value of a function over given values of the sources, and the sources it reads.\<close>

primrec eval_pure :: "(source \<Rightarrow> rvalue) \<Rightarrow> getter \<Rightarrow> rvalue" where
  "eval_pure val (Return v) = v"
| "eval_pure val (Read src k) = eval_pure val (k (val src))"

primrec trace :: "(source \<Rightarrow> rvalue) \<Rightarrow> getter \<Rightarrow> source list" where
  "trace val (Return v) = []"
| "trace val (Read src k) = src # trace val (k (val src))"

text \<open>A function reads computed refs below a number only.\<close>

primrec reads_below :: "nat \<Rightarrow> getter \<Rightarrow> bool" where
  "reads_below n (Return v) = True"
| "reads_below n (Read src k) = ((case src of Comp d \<Rightarrow> d < n | Ref _ \<Rightarrow> True) \<and> (\<forall>v. reads_below n (k v)))"

text \<open>The value of a computed ref, computed afresh from the values of the refs.\<close>

function afresh :: "(nat \<Rightarrow> getter) \<Rightarrow> (nat \<Rightarrow> rvalue) \<Rightarrow> nat \<Rightarrow> rvalue" where
  "afresh fns refs c =
     eval_pure (\<lambda>src. case src of Ref r \<Rightarrow> refs r | Comp d \<Rightarrow> if d < c then afresh fns refs d else VUndef) (fns c)"
  by pat_completeness auto
termination by (relation "measure (\<lambda>(fns, refs, c). c)") auto

declare afresh.simps [simp del]

definition source_afresh :: "(nat \<Rightarrow> getter) \<Rightarrow> (nat \<Rightarrow> rvalue) \<Rightarrow> source \<Rightarrow> rvalue" where
  "source_afresh fns refs src = (case src of Ref r \<Rightarrow> refs r | Comp d \<Rightarrow> afresh fns refs d)"

lemma eval_pure_cong:
  "\<forall>src \<in> set (trace f t). g src = f src \<Longrightarrow> eval_pure g t = eval_pure f t \<and> trace g t = trace f t"
  by (induction t) auto

lemma trace_below: "reads_below n t \<Longrightarrow> Comp d \<in> set (trace f t) \<Longrightarrow> d < n"
  by (induction t) (auto split: source.splits)

lemma eval_pure_below:
  assumes "reads_below n t" "\<And>d. d < n \<Longrightarrow> g (Comp d) = f (Comp d)" "\<And>r. g (Ref r) = f (Ref r)"
  shows "eval_pure g t = eval_pure f t"
proof -
  have "g src = f src" if "src \<in> set (trace f t)" for src
    using assms trace_below [OF assms(1), of _ f] that by (cases src) auto
  then show ?thesis using eval_pure_cong by blast
qed

lemma afresh_eval: "reads_below c (fns c) \<Longrightarrow> afresh fns refs c = eval_pure (source_afresh fns refs) (fns c)"
  by (subst afresh.simps) (rule eval_pure_below, auto simp: source_afresh_def)

section \<open>Well-formed states\<close>

text \<open>The program: the functions of the computed refs, of which there are \<open>N\<close>, and of the watchers.\<close>

definition acyclic_fns :: "(nat \<Rightarrow> getter) \<Rightarrow> (nat \<Rightarrow> getter) \<Rightarrow> nat \<Rightarrow> bool" where
  "acyclic_fns fns watchers N \<longleftrightarrow> (\<forall>c < N. reads_below c (fns c)) \<and> (\<forall>w. reads_below N (watchers w))"

definition fn_of :: "(nat \<Rightarrow> getter) \<Rightarrow> (nat \<Rightarrow> getter) \<Rightarrow> eff \<Rightarrow> getter" where
  "fn_of fns watchers e = (case e of Computed c \<Rightarrow> fns c | Watcher w \<Rightarrow> watchers w)"

definition rank :: "nat \<Rightarrow> eff \<Rightarrow> nat" where
  "rank N e = (case e of Computed c \<Rightarrow> c | Watcher w \<Rightarrow> N)"

definition result :: "rstate \<Rightarrow> eff \<Rightarrow> rvalue" where
  "result s e = (case e of Computed c \<Rightarrow> comp_value s c | Watcher w \<Rightarrow> watch_value s w)"

text \<open>The values the sources have now, computed refs as they are kept.\<close>

definition kept :: "rstate \<Rightarrow> source \<Rightarrow> rvalue" where
  "kept s src = (case src of Ref r \<Rightarrow> ref_value s r | Comp d \<Rightarrow> comp_value s d)"

definition entry :: "rstate \<Rightarrow> source \<Rightarrow> eff \<Rightarrow> nat option" where
  "entry s src e = map_of (dep s src) e"

definition tracked :: "rstate \<Rightarrow> source \<Rightarrow> eff \<Rightarrow> bool" where
  "tracked s src e \<longleftrightarrow> entry s src e = Some (trackId (effects s e))"

text \<open>The sources an effect has read so far in its run, or in its last run.\<close>

definition read_deps :: "rstate \<Rightarrow> eff \<Rightarrow> source list" where
  "read_deps s e = take (depsLength (effects s e)) (deps (effects s e))"

text \<open>
  The entries of an effect are those of the sources it read, in this run; while it runs there may be
  others of the last run, all of which are still in the rest of its list.
\<close>

definition running_ok :: "rstate \<Rightarrow> eff \<Rightarrow> bool" where
  "running_ok s e \<longleftrightarrow>
     depsLength (effects s e) \<le> length (deps (effects s e)) \<and> distinct (read_deps s e) \<and>
     (\<forall>src. tracked s src e \<longleftrightarrow> src \<in> set (read_deps s e)) \<and>
     (\<forall>src. entry s src e \<noteq> None \<and> \<not> tracked s src e \<longrightarrow>
        src \<in> set (drop (depsLength (effects s e)) (deps (effects s e))))"

definition settled :: "rstate \<Rightarrow> eff \<Rightarrow> bool" where
  "settled s e \<longleftrightarrow> running_ok s e \<and> depsLength (effects s e) = length (deps (effects s e))"

lemma settled_entry:
  "settled s e \<Longrightarrow> entry s src e = (if src \<in> set (deps (effects s e)) then Some (trackId (effects s e)) else None)"
  by (auto simp: settled_def running_ok_def read_deps_def tracked_def)

lemma effects_upd [simp]: "effects (upd_effect e f s) = (effects s)(e := f (effects s e))"
  by (simp add: upd_effect_def)

lemma upd_effect_fields [simp]:
  "ref_value (upd_effect e f s) = ref_value s" "comp_value (upd_effect e f s) = comp_value s"
  "watch_value (upd_effect e f s) = watch_value s" "dep (upd_effect e f s) = dep s"
  "activeEffect (upd_effect e f s) = activeEffect s" "shouldTrack (upd_effect e f s) = shouldTrack s"
  "trackStack (upd_effect e f s) = trackStack s" "pauseScheduleStack (upd_effect e f s) = pauseScheduleStack s"
  "queueEffectSchedulers (upd_effect e f s) = queueEffectSchedulers s" "scheduled (upd_effect e f s) = scheduled s"
  by (simp_all add: upd_effect_def)

lemma entry_upd [simp]: "entry (upd_effect e f s) = entry s"
  by (simp add: entry_def fun_eq_iff)

text \<open>Everything but the entries and the effects.\<close>

definition same_rest :: "rstate \<Rightarrow> rstate \<Rightarrow> bool" where
  "same_rest s s' \<longleftrightarrow> s' = s\<lparr>dep := dep s', effects := effects s'\<rparr>"

lemma same_rest_refl [simp]: "same_rest s s"
  by (simp add: same_rest_def)

lemma same_rest_trans: "same_rest s s' \<Longrightarrow> same_rest s' s'' \<Longrightarrow> same_rest s s''"
  unfolding same_rest_def by (cases s; cases s'; cases s'') simp

lemma same_rest_upd [simp]: "same_rest s (upd_effect e f s')  \<longleftrightarrow> same_rest s s'"
  unfolding same_rest_def upd_effect_def by (cases s; cases s') simp

lemma same_rest_dep [simp]: "same_rest s (s'\<lparr>dep := d\<rparr>) \<longleftrightarrow> same_rest s s'"
  unfolding same_rest_def by (cases s; cases s') simp

lemma cleanupDepEffect_entry:
  "entry (cleanupDepEffect src e s) src' e' =
     (if src' = src \<and> e' = e \<and> \<not> tracked s src e then None else entry s src' e')"
  "effects (cleanupDepEffect src e s) = effects s" "same_rest s' (cleanupDepEffect src e s) \<longleftrightarrow> same_rest s' s"
  by (auto simp: cleanupDepEffect_def entry_def tracked_def delete_conv' split: option.splits)

definition keys_distinct :: "rstate \<Rightarrow> bool" where
  "keys_distinct s \<longleftrightarrow> (\<forall>src. distinct (map fst (dep s src)))"

lemma cleanup_distinct: "keys_distinct s \<Longrightarrow> keys_distinct (cleanupDepEffect src e s)"
  by (auto simp: keys_distinct_def cleanupDepEffect_def distinct_delete split: option.split)

declare cleanupDepEffect_entry(2) [simp]

section \<open>Tracking keeps the entries in step with the list\<close>

text \<open>What a change for one effect leaves alone.\<close>

definition only_entries_of :: "eff \<Rightarrow> rstate \<Rightarrow> rstate \<Rightarrow> bool" where
  "only_entries_of e s s' \<longleftrightarrow>
     (\<forall>src' e'. e' \<noteq> e \<longrightarrow> entry s' src' e' = entry s src' e') \<and> (\<forall>e'. e' \<noteq> e \<longrightarrow> effects s' e' = effects s e') \<and>
     same_rest s s' \<and> (keys_distinct s \<longrightarrow> keys_distinct s')"

lemma only_entries_refl [simp]: "only_entries_of e s s"
  by (simp add: only_entries_of_def)

lemma only_entries_trans: "only_entries_of e s s' \<Longrightarrow> only_entries_of e s' s'' \<Longrightarrow> only_entries_of e s s''"
  by (auto simp: only_entries_of_def intro: same_rest_trans)

lemma only_entries_upd: "only_entries_of e s s' \<Longrightarrow> only_entries_of e s (upd_effect e f s')"
  by (auto simp: only_entries_of_def entry_def keys_distinct_def)

lemma only_entries_cleanup: "only_entries_of e s s' \<Longrightarrow> only_entries_of e s (cleanupDepEffect src e s')"
  by (auto simp: only_entries_of_def cleanupDepEffect_entry cleanup_distinct)

text \<open>The fields of an effect that tracking does not touch.\<close>

definition same_flags :: "effect_state \<Rightarrow> effect_state \<Rightarrow> bool" where
  "same_flags x y \<longleftrightarrow> y = x\<lparr>deps := deps y, depsLength := depsLength y\<rparr>"

lemma same_flags_refl [simp]: "same_flags x x"
  by (simp add: same_flags_def)

lemma same_flags_upd [simp]: "same_flags x (x\<lparr>deps := d, depsLength := n\<rparr>)" "same_flags x (x\<lparr>depsLength := n\<rparr>)"
  "same_flags x (x\<lparr>deps := d\<rparr>)"
  by (cases x; simp add: same_flags_def)+

lemma same_flags_trans: "same_flags x y \<Longrightarrow> same_flags y z \<Longrightarrow> same_flags x z"
  unfolding same_flags_def by (cases x; cases y; cases z) simp

lemma track_running:
  fixes src :: source
  assumes r: "running_ok s e"
  defines "s' \<equiv> trackEffect e src s"
  shows "running_ok s' e" "set (read_deps s' e) = insert src (set (read_deps s e))" "only_entries_of e s s'"
    "same_flags (effects s e) (effects s' e)" "set (deps (effects s' e)) \<subseteq> insert src (set (deps (effects s e)))"
proof -
  let ?x = "effects s e"
  let ?n = "depsLength ?x" and ?t = "trackId ?x" and ?ds = "deps ?x"
  let ?s1 = "s\<lparr>dep := (dep s)(src := AList.update e ?t (dep s src))\<rparr>"
  have n: "?n \<le> length ?ds" "distinct (take ?n ?ds)" and tr: "\<And>a. entry s a e = Some ?t \<longleftrightarrow> a \<in> set (take ?n ?ds)"
    and old: "\<And>a. entry s a e \<noteq> None \<Longrightarrow> entry s a e \<noteq> Some ?t \<Longrightarrow> a \<in> set (drop ?n ?ds)"
    using r by (auto simp: running_ok_def read_deps_def tracked_def)
  have e1: "entry ?s1 a e' = (if a = src \<and> e' = e then Some ?t else entry s a e')" for a e'
    by (auto simp: entry_def update_conv')
  have o1: "only_entries_of e s ?s1"
    by (auto simp: only_entries_of_def e1 keys_distinct_def distinct_update)
  have goal: "running_ok s' e \<and> set (read_deps s' e) = insert src (set (read_deps s e)) \<and> only_entries_of e s s' \<and>
    same_flags (effects s e) (effects s' e) \<and> set (deps (effects s' e)) \<subseteq> insert src (set (deps (effects s e)))"
  proof (cases "entry s src e = Some ?t")
    case True
    then have "s' = s" by (simp add: s'_def trackEffect_def entry_def Let_def)
    with r tr [of src] True show ?thesis by (auto simp: read_deps_def)
  next
    case new: False
    then have new': "map_of (dep s src) e \<noteq> Some ?t" by (simp add: entry_def)
    have fresh: "src \<notin> set (take ?n ?ds)" using tr new by blast
    show ?thesis
    proof (cases "?n < length ?ds")
      case False
      let ?s = "upd_effect e (\<lambda>x. x\<lparr>deps := deps x @ [src], depsLength := ?n + 1\<rparr>) ?s1"
      have s': "s' = ?s" unfolding s'_def trackEffect_def Let_def using False new' by simp
      have eq: "?n = length ?ds" using n False by simp
      have "entry s a e = None" if "a \<notin> set ?ds" for a 
      proof (rule ccontr)
        assume "entry s a e \<noteq> None"
        with old [of a] tr [of a] that eq show False by auto
      qed
      then have "running_ok ?s e" using n fresh eq tr
        by (auto simp: running_ok_def read_deps_def tracked_def e1)
      moreover have "set (read_deps ?s e) = insert src (set (read_deps s e))" using eq by (auto simp: read_deps_def)
      ultimately show ?thesis using s' only_entries_upd [OF o1] by simp
    next
      case len: True
      then have dr: "drop ?n ?ds = ?ds ! ?n # drop (Suc ?n) ?ds" by (simp add: Cons_nth_drop_Suc)
      have tk: "take (Suc ?n) ?ds = take ?n ?ds @ [?ds ! ?n]" using len by (simp add: take_Suc_conv_app_nth)
      show ?thesis
      proof (cases "?ds ! ?n = src")
        case True
        let ?s = "upd_effect e (\<lambda>x. x\<lparr>depsLength := ?n + 1\<rparr>) ?s1"
        have s': "s' = ?s" unfolding s'_def trackEffect_def Let_def using len True new' by simp
        have "running_ok ?s e" using n fresh len tr old True dr tk
          by (auto simp: running_ok_def read_deps_def tracked_def e1)
        moreover have "set (read_deps ?s e) = insert src (set (read_deps s e))" using tk True by (auto simp: read_deps_def)
        ultimately show ?thesis using s' only_entries_upd [OF o1] by auto
      next
        case False
        let ?o = "?ds ! ?n"
        let ?s2 = "cleanupDepEffect ?o e ?s1"
        let ?s = "upd_effect e (\<lambda>x. x\<lparr>deps := (deps x)[?n := src], depsLength := ?n + 1\<rparr>) ?s2"
        have s': "s' = ?s" unfolding s'_def trackEffect_def Let_def using len False new' by simp
        have en: "entry ?s2 a e' = (if e' = e \<and> a = src then Some ?t else
            if e' = e \<and> a = ?o \<and> entry s ?o e \<noteq> Some ?t then None else entry s a e')" for a e'
          using False by (auto simp: cleanupDepEffect_entry tracked_def e1)
        have tk': "take (Suc ?n) (?ds[?n := src]) = take ?n ?ds @ [src]" "drop (Suc ?n) (?ds[?n := src]) = drop (Suc ?n) ?ds"
          using len by (simp_all add: take_Suc_conv_app_nth)
        have ef: "effects ?s e = ?x\<lparr>deps := ?ds[?n := src], depsLength := ?n + 1\<rparr>" by (simp add: cleanupDepEffect_entry)
        have "running_ok ?s e" unfolding running_ok_def read_deps_def tracked_def ef
        proof (intro conjI allI impI)
          fix a
          have "entry ?s a e = Some ?t \<longleftrightarrow> a = src \<or> a \<in> set (take ?n ?ds)" using tr [of a] tr [of ?o] by (auto simp: en)
          then show "(entry ?s a e = Some (trackId (?x\<lparr>deps := ?ds[?n := src], depsLength := ?n + 1\<rparr>))) =
              (a \<in> set (take (depsLength (?x\<lparr>deps := ?ds[?n := src], depsLength := ?n + 1\<rparr>))
                (deps (?x\<lparr>deps := ?ds[?n := src], depsLength := ?n + 1\<rparr>))))"
            using tk'(1) by simp
        next
          fix a
          assume "entry ?s a e \<noteq> None \<and> entry ?s a e \<noteq> Some (trackId (?x\<lparr>deps := ?ds[?n := src], depsLength := ?n + 1\<rparr>))"
          then have "entry s a e \<noteq> None" "entry s a e \<noteq> Some ?t" "a \<noteq> ?o" by (auto simp: en split: if_splits)
          then show "a \<in> set (drop (depsLength (?x\<lparr>deps := ?ds[?n := src], depsLength := ?n + 1\<rparr>))
                (deps (?x\<lparr>deps := ?ds[?n := src], depsLength := ?n + 1\<rparr>)))"
            using old [of a] dr tk' by auto
        qed (use n fresh len tk' in auto)
        moreover have "set (read_deps ?s e) = insert src (set (read_deps s e))" using tk' by (auto simp: read_deps_def ef)
        moreover have "only_entries_of e s ?s" by (intro only_entries_upd only_entries_cleanup o1)
        moreover have "set (?ds[?n := src]) \<subseteq> insert src (set ?ds)" by (rule set_update_subset_insert)
        ultimately show ?thesis using s' by (simp add: ef)
      qed
    qed
  qed
  from goal show "running_ok s' e" "set (read_deps s' e) = insert src (set (read_deps s e))" "only_entries_of e s s'"
    "same_flags (effects s e) (effects s' e)" "set (deps (effects s' e)) \<subseteq> insert src (set (deps (effects s e)))"
    by blast+
qed

text \<open>Before a run all entries are of the last run; after it those that were not renewed are removed.\<close>

lemma pre_running:
  assumes "settled s e"
  shows "running_ok (preCleanupEffect e s) e" "read_deps (preCleanupEffect e s) e = []"
  using assms settled_entry [OF assms]
  by (auto simp: preCleanupEffect_def settled_def running_ok_def read_deps_def tracked_def entry_def)

lemma cleanup_fold:
  "entry (fold (\<lambda>src. cleanupDepEffect src e) xs s) a e' =
     (if a \<in> set xs \<and> e' = e \<and> \<not> tracked s a e then None else entry s a e') \<and>
   effects (fold (\<lambda>src. cleanupDepEffect src e) xs s) = effects s \<and>
   only_entries_of e s (fold (\<lambda>src. cleanupDepEffect src e) xs s)"
proof (induction xs arbitrary: s)
  case (Cons x xs)
  have "tracked (cleanupDepEffect x e s) a e \<longleftrightarrow> tracked s a e"
    by (auto simp: tracked_def cleanupDepEffect_entry)
  moreover have "only_entries_of e s (cleanupDepEffect x e s)" by (rule only_entries_cleanup) simp
  ultimately show ?case
    using Cons.IH [of "cleanupDepEffect x e s"] by (auto simp: cleanupDepEffect_entry intro: only_entries_trans)
qed simp

lemma post_settled:
  assumes r: "running_ok s e"
  defines "s' \<equiv> postCleanupEffect e s"
  shows "settled s' e" "deps (effects s' e) = read_deps s e" "only_entries_of e s s'" "same_flags (effects s e) (effects s' e)"
proof -
  let ?x = "effects s e"
  have goal: "settled s' e \<and> deps (effects s' e) = read_deps s e \<and> only_entries_of e s s' \<and> same_flags (effects s e) (effects s' e)"
  proof (cases "depsLength ?x < length (deps ?x)")
    case False
    then have "s' = s" "depsLength ?x = length (deps ?x)" using r by (simp_all add: s'_def postCleanupEffect_def Let_def running_ok_def)
    with r show ?thesis by (simp add: settled_def read_deps_def)
  next
    case True
    let ?f = "fold (\<lambda>src. cleanupDepEffect src e) (drop (depsLength ?x) (deps ?x)) s"
    have s': "s' = upd_effect e (\<lambda>x. x\<lparr>deps := take (depsLength x) (deps x)\<rparr>) ?f"
      using True by (simp add: s'_def postCleanupEffect_def Let_def)
    note f = cleanup_fold [of e "drop (depsLength ?x) (deps ?x)" s]
    have ef: "effects s' e = ?x\<lparr>deps := read_deps s e\<rparr>" using f by (simp add: s' read_deps_def)
    have en: "entry s' a e = (if tracked s a e then entry s a e else None)" for a
    proof -
      have "entry s' a e = entry ?f a e" by (simp add: s')
      then show ?thesis using f [of a e] r by (auto simp: running_ok_def)
    qed
    have "length (read_deps s e) = depsLength ?x" using r by (simp add: read_deps_def running_ok_def)
    then have "settled s' e" using r
      by (auto simp: settled_def running_ok_def read_deps_def [of s'] tracked_def [of s'] ef en)
        (auto simp: tracked_def)
    moreover have "only_entries_of e s s'" using f unfolding s' by (intro only_entries_upd) blast
    ultimately show ?thesis by (simp add: ef)
  qed
  then show "settled s' e" "deps (effects s' e) = read_deps s e" "only_entries_of e s s'" "same_flags (effects s e) (effects s' e)"
    by blast+
qed

section \<open>The invariant\<close>

text \<open>
  What an effect is doing: nothing, asking whether it is dirty, or running its function. The
  invariant, in parts: the entries fit the lists; nothing is waiting to be scheduled; the
  levels; lists hold smaller computed refs only; an effect that is not dirty has read only computed
  refs that are not dirty; running the function of an effect on the values kept now gives its
  kept value and reads the sources of its list, unless it is certainly dirty.
\<close>

datatype mode = Idle | Asking | Running

definition entries_ok :: "(eff \<Rightarrow> mode) \<Rightarrow> rstate \<Rightarrow> bool" where
  "entries_ok m s \<longleftrightarrow> keys_distinct s \<and> (\<forall>e. running_ok s e \<and> (m e \<noteq> Running \<longrightarrow> settled s e))"

definition flags_ok :: "(eff \<Rightarrow> mode) \<Rightarrow> rstate \<Rightarrow> bool" where
  "flags_ok m s \<longleftrightarrow> queueEffectSchedulers s = [] \<and>
     (\<forall>e. eff_active (effects s e) \<and> \<not> shouldSchedule (effects s e) \<and> (m e \<noteq> Running \<longrightarrow> runnings (effects s e) = 0))"

definition levels_ok :: "(eff \<Rightarrow> mode) \<Rightarrow> rstate \<Rightarrow> bool" where
  "levels_ok m s \<longleftrightarrow> (\<forall>e. level s e \<in> (case m e of Idle \<Rightarrow> {0, 3, 4} | Asking \<Rightarrow> {1, 4} | Running \<Rightarrow> {0}))"

definition deps_ranked :: "nat \<Rightarrow> rstate \<Rightarrow> bool" where
  "deps_ranked N s \<longleftrightarrow> (\<forall>e d. Comp d \<in> set (deps (effects s e)) \<longrightarrow> d < rank N e)"

definition clean_deps :: "(eff \<Rightarrow> mode) \<Rightarrow> rstate \<Rightarrow> bool" where
  "clean_deps m s \<longleftrightarrow>
     (\<forall>e d. level s e = 0 \<and> Comp d \<in> set (read_deps s e) \<longrightarrow> level s (Computed d) = 0 \<and> m (Computed d) = Idle)"

definition replays :: "getter \<Rightarrow> rstate \<Rightarrow> eff \<Rightarrow> bool" where
  "replays t s e \<longleftrightarrow> result s e = eval_pure (kept s) t \<and> set (deps (effects s e)) = set (trace (kept s) t)"

definition good :: "(eff \<Rightarrow> getter) \<Rightarrow> nat \<Rightarrow> (eff \<Rightarrow> mode) \<Rightarrow> rstate \<Rightarrow> bool" where
  "good F N m s \<longleftrightarrow> entries_ok m s \<and> flags_ok m s \<and> levels_ok m s \<and> deps_ranked N s \<and> clean_deps m s \<and>
     (\<forall>e. m e \<noteq> Running \<and> level s e \<noteq> 4 \<longrightarrow> replays (F e) s e)"

lemma goodD:
  assumes "good F N m s"
  shows "entries_ok m s" "flags_ok m s" "levels_ok m s" "deps_ranked N s" "clean_deps m s"
    "\<And>e. m e \<noteq> Running \<Longrightarrow> level s e \<noteq> 4 \<Longrightarrow> replays (F e) s e"
  using assms by (simp_all add: good_def)

lemma settled_read: "settled s e \<Longrightarrow> read_deps s e = deps (effects s e)"
  by (simp add: settled_def read_deps_def)

lemma good_tracked: "good F N m s \<Longrightarrow> tracked s src e \<longleftrightarrow> src \<in> set (read_deps s e)"
  by (simp add: good_def entries_ok_def running_ok_def)

lemma good_ranked: "good F N m s \<Longrightarrow> Comp d \<in> set (read_deps s e) \<Longrightarrow> d < rank N e"
  by (auto simp: good_def deps_ranked_def read_deps_def dest!: in_set_takeD)

text \<open>
  What reading computed refs below \<open>k\<close> leaves alone: the refs and the context; the values of larger
  computed refs and of those that are not dirty, which stay so; of larger effects, apart from
  those of a set, everything but that dirty ones may become certainly dirty.
\<close>

definition same_context :: "rstate \<Rightarrow> rstate \<Rightarrow> bool" where
  "same_context s s' \<longleftrightarrow> s' = s\<lparr>dep := dep s', effects := effects s', comp_value := comp_value s'\<rparr>"

definition frame :: "nat \<Rightarrow> nat \<Rightarrow> eff set \<Rightarrow> rstate \<Rightarrow> rstate \<Rightarrow> bool" where
  "frame N k X s s' \<longleftrightarrow> same_context s s' \<and>
     (\<forall>d. k \<le> d \<or> level s (Computed d) = 0 \<longrightarrow> comp_value s' d = comp_value s d) \<and>
     (\<forall>e. level s e = 0 \<longrightarrow> level s' e = 0) \<and>
     (\<forall>e. k \<le> rank N e \<and> e \<notin> X \<longrightarrow>
        (effects s' e = effects s e \<or> level s e \<noteq> 0 \<and> effects s' e = (effects s e)\<lparr>dirtyLevel := 4\<rparr>) \<and>
        (\<forall>src. entry s' src e = entry s src e))"

lemma same_context_fields:
  assumes "same_context s s'"
  shows "ref_value s' = ref_value s" "watch_value s' = watch_value s" "activeEffect s' = activeEffect s"
    "shouldTrack s' = shouldTrack s" "trackStack s' = trackStack s" "queueEffectSchedulers s' = queueEffectSchedulers s"
    "scheduled s' = scheduled s" "pauseScheduleStack s' = pauseScheduleStack s"
  using assms unfolding same_context_def by (cases s; cases s'; simp)+

lemma same_context_trans: "same_context s s' \<Longrightarrow> same_context s' s'' \<Longrightarrow> same_context s s''"
  unfolding same_context_def by (cases s; cases s'; cases s'') simp

lemma same_rest_context: "same_rest s s' \<Longrightarrow> same_context s s'"
  unfolding same_rest_def same_context_def by (cases s; cases s') simp

lemma frame_refl [simp]: "frame N k X s s"
  by (simp add: frame_def same_context_def)

lemma frame_trans:
  assumes "frame N k X s s'" "frame N k X s' s''"
  shows "frame N k X s s''"
proof -
  have "(effects s'' e = effects s e \<or> level s e \<noteq> 0 \<and> effects s'' e = (effects s e)\<lparr>dirtyLevel := 4\<rparr>) \<and>
      (\<forall>src. entry s'' src e = entry s src e)" if "k \<le> rank N e" "e \<notin> X" for e
  proof -
    have 1: "effects s' e = effects s e \<or> level s e \<noteq> 0 \<and> effects s' e = (effects s e)\<lparr>dirtyLevel := 4\<rparr>"
      "\<And>src. entry s' src e = entry s src e" using assms(1) that unfolding frame_def by blast+
    have 2: "effects s'' e = effects s' e \<or> level s' e \<noteq> 0 \<and> effects s'' e = (effects s' e)\<lparr>dirtyLevel := 4\<rparr>"
      "\<And>src. entry s'' src e = entry s' src e" using assms(2) that unfolding frame_def by blast+
    from 1 2 show ?thesis by (auto simp: level_def)
  qed
  moreover have "comp_value s'' d = comp_value s d" if "k \<le> d \<or> level s (Computed d) = 0" for d
    using assms that unfolding frame_def by metis
  ultimately show ?thesis using assms same_context_trans unfolding frame_def by blast
qed

lemma frame_mono: "frame N k X s s' \<Longrightarrow> k \<le> k' \<Longrightarrow> X \<subseteq> X' \<Longrightarrow> frame N k' X' s s'"
  unfolding frame_def by (meson order.trans subsetD)

lemma frame_level: "frame N k X s s' \<Longrightarrow> k \<le> rank N e \<Longrightarrow> e \<notin> X \<Longrightarrow> level s' e = level s e \<or> level s e \<noteq> 0 \<and> level s' e = 4"
  unfolding frame_def level_def by (metis effect_state.select_convs(1) effect_state.surjective effect_state.update_convs(1))

lemma frame_deps:
  assumes "frame N k X s s'" "k \<le> rank N e" "e \<notin> X"
  shows "deps (effects s' e) = deps (effects s e)" "read_deps s' e = read_deps s e"
    "runnings (effects s' e) = runnings (effects s e)"
proof -
  have "effects s' e = effects s e \<or> effects s' e = (effects s e)\<lparr>dirtyLevel := 4\<rparr>" using assms unfolding frame_def by blast
  then show "deps (effects s' e) = deps (effects s e)" "read_deps s' e = read_deps s e"
    "runnings (effects s' e) = runnings (effects s e)"
    by (auto simp: read_deps_def)
qed

section \<open>Marking the readers of a computed ref\<close>

definition mark_dirty :: "source \<Rightarrow> rstate \<Rightarrow> rstate" where
  "mark_dirty src s =
     s\<lparr>effects := (\<lambda>e. if tracked s src e then (effects s e)\<lparr>dirtyLevel := 4\<rparr> else effects s e)\<rparr>"

lemma mark_one:
  assumes "tracked s src e \<Longrightarrow> level s e \<noteq> 0" "level s e \<le> 4" "\<not> shouldSchedule (effects s e)"
  shows "trigger_effect trig src 4 e s =
    Some (if tracked s src e then upd_effect e (\<lambda>x. x\<lparr>dirtyLevel := 4\<rparr>) s else s)"
proof -
  have "upd_effect e (\<lambda>x. x\<lparr>dirtyLevel := 4\<rparr>) s = s" if "level s e = 4"
    using that unfolding upd_effect_def level_def by (cases s; cases "effects s e") auto
  moreover have "mark_effect 4 e s = upd_effect e (\<lambda>x. x\<lparr>dirtyLevel := 4\<rparr>) s" if "level s e \<noteq> 0"
    using that assms(3) unfolding mark_effect_def upd_effect_def level_def by (cases "effects s e") auto
  ultimately show ?thesis using assms
    unfolding trigger_effect_def Let_def tracked_def [symmetric, unfolded entry_def]
    by (cases "level s e = 4") auto
qed

lemma mark_all:
  assumes "\<And>e. tracked s src e \<Longrightarrow> level s e \<noteq> 0" "\<And>e. level s e \<le> 4" "\<And>e. \<not> shouldSchedule (effects s e)" "distinct es"
  shows "for_each (trigger_effect trig src 4) es s =
    Some (s\<lparr>effects := (\<lambda>e. if e \<in> set es \<and> tracked s src e then (effects s e)\<lparr>dirtyLevel := 4\<rparr> else effects s e)\<rparr>)"
  using assms
proof (induction es arbitrary: s)
  case (Cons e es)
  let ?s = "if tracked s src e then upd_effect e (\<lambda>x. x\<lparr>dirtyLevel := 4\<rparr>) s else s"
  have one: "trigger_effect trig src 4 e s = Some ?s" using Cons.prems by (intro mark_one) auto
  have tr: "tracked ?s src e' \<longleftrightarrow> tracked s src e'" for e' by (auto simp: tracked_def)
  have "for_each (trigger_effect trig src 4) es ?s =
    Some (?s\<lparr>effects := (\<lambda>e'. if e' \<in> set es \<and> tracked ?s src e' then (effects ?s e')\<lparr>dirtyLevel := 4\<rparr> else effects ?s e')\<rparr>)"
    using Cons.prems by (intro Cons.IH) (auto simp: tr level_def)
  moreover have "?s\<lparr>effects := (\<lambda>e'. if e' \<in> set es \<and> tracked ?s src e' then (effects ?s e')\<lparr>dirtyLevel := 4\<rparr> else effects ?s e')\<rparr> =
      s\<lparr>effects := (\<lambda>e'. if e' \<in> set (e # es) \<and> tracked s src e' then (effects s e')\<lparr>dirtyLevel := 4\<rparr> else effects s e')\<rparr>"
    unfolding tr using Cons.prems(4) by (cases s) (auto simp: upd_effect_def fun_eq_iff)
  ultimately show ?case using one by simp
qed simp

lemma trigger_marks:
  assumes "keys_distinct s" "queueEffectSchedulers s = []"
    and "\<And>e. tracked s src e \<Longrightarrow> level s e \<noteq> 0" "\<And>e. level s e \<le> 4" "\<And>e. \<not> shouldSchedule (effects s e)"
  shows "triggerEffects (Suc n) src 4 s = Some (mark_dirty src s)"
proof -
  let ?s = "pauseScheduling s"
  have ef: "effects ?s = effects s" by (simp add: pauseScheduling_def)
  have tr: "tracked ?s src e \<longleftrightarrow> tracked s src e" for e by (simp add: pauseScheduling_def tracked_def entry_def)
  have "for_each (trigger_effect (triggerEffects n) src 4) (map fst (dep s src)) ?s = Some (?s\<lparr>effects :=
      (\<lambda>e. if e \<in> set (map fst (dep s src)) \<and> tracked ?s src e then (effects ?s e)\<lparr>dirtyLevel := 4\<rparr> else effects ?s e)\<rparr>)"
    using assms by (intro mark_all) (auto simp: tr ef level_def keys_distinct_def)
  moreover have "e \<in> set (map fst (dep s src)) \<and> tracked ?s src e \<longleftrightarrow> tracked s src e" for e
    unfolding tr by (auto simp: tracked_def entry_def dest: map_of_SomeD intro: rev_image_eqI)
  ultimately have f: "for_each (trigger_effect (triggerEffects n) src 4) (map fst (dep s src)) ?s =
      Some (?s\<lparr>effects := (\<lambda>e. if tracked s src e then (effects s e)\<lparr>dirtyLevel := 4\<rparr> else effects s e)\<rparr>)"
    unfolding ef by simp
  have "resetScheduling (?s\<lparr>effects := g\<rparr>) = s\<lparr>effects := g\<rparr>" for g
    using assms(2) by (cases s) (simp add: resetScheduling_def pauseScheduling_def Let_def)
  then show ?thesis using f by (simp add: mark_dirty_def)
qed

section \<open>Reading keeps the invariant\<close>

lemma entries_cong:
  assumes "deps (effects s' e) = deps (effects s e)" "depsLength (effects s' e) = depsLength (effects s e)"
    and "trackId (effects s' e) = trackId (effects s e)" "\<And>src. entry s' src e = entry s src e"
  shows "running_ok s' e = running_ok s e" "settled s' e = settled s e" "read_deps s' e = read_deps s e"
    "tracked s' src e = tracked s src e"
  using assms by (simp_all add: settled_def running_ok_def read_deps_def tracked_def)

lemma kept_cong: "comp_value s' = comp_value s \<Longrightarrow> ref_value s' = ref_value s \<Longrightarrow> kept s' = kept s"
  by (simp add: kept_def fun_eq_iff split: source.split)

lemma replays_cong:
  assumes "replays t s e" "result s' e = result s e" "deps (effects s' e) = deps (effects s e)"
    and "\<forall>src \<in> set (deps (effects s e)). kept s' src = kept s src"
  shows "replays t s' e"
proof -
  have "\<forall>src \<in> set (trace (kept s) t). kept s' src = kept s src" using assms(1,4) by (simp add: replays_def)
  from eval_pure_cong [OF this] assms show ?thesis by (simp add: replays_def)
qed

lemma same_rest_fields:
  assumes "same_rest s s'"
  shows "comp_value s' = comp_value s" "ref_value s' = ref_value s" "watch_value s' = watch_value s"
    "activeEffect s' = activeEffect s" "shouldTrack s' = shouldTrack s" "queueEffectSchedulers s' = queueEffectSchedulers s"
    "result s' e = result s e"
  using assms unfolding same_rest_def result_def by (cases s; cases s'; simp split: eff.split)+

lemma same_flags_fields:
  assumes "same_flags x y"
  shows "dirtyLevel y = dirtyLevel x" "trackId y = trackId x" "runnings y = runnings x"
    "shouldSchedule y = shouldSchedule x" "eff_active y = eff_active x"
  using assms unfolding same_flags_def by (cases x; cases y; simp)+

lemma good_track:
  fixes src :: source
  assumes g: "good F N m s" and p: "m p = Running"
    and src: "case src of Ref _ \<Rightarrow> True | Comp d \<Rightarrow> d < rank N p \<and> level s (Computed d) = 0 \<and> m (Computed d) = Idle"
  defines "s' \<equiv> trackEffect p src s"
  shows "good F N m s'" "frame N k {p} s s'" "set (read_deps s' p) = insert src (set (read_deps s p))"
    "same_flags (effects s p) (effects s' p)" "kept s' = kept s" "same_rest s s'"
proof -
  note gd = goodD [OF g]
  have r: "running_ok s p" using gd(1) by (simp add: entries_ok_def)
  note t = track_running [OF r, of src, folded s'_def]
  have o: "\<And>a e. e \<noteq> p \<Longrightarrow> entry s' a e = entry s a e" "\<And>e. e \<noteq> p \<Longrightarrow> effects s' e = effects s e"
    "same_rest s s'" "keys_distinct s \<Longrightarrow> keys_distinct s'" using t(3) unfolding only_entries_of_def by blast+
  note f = same_flags_fields [OF t(4)] and sr = same_rest_fields [OF o(3)]
  have other: "running_ok s' e = running_ok s e" "settled s' e = settled s e" "read_deps s' e = read_deps s e" if "e \<noteq> p" for e
    by (rule entries_cong; simp add: o(1) [OF that] o(2) [OF that])+
  have lv: "level s' e = level s e" for e using o(2) f(1) by (cases "e = p") (auto simp: level_def)
  have fl: "shouldSchedule (effects s' e) = shouldSchedule (effects s e)" "eff_active (effects s' e) = eff_active (effects s e)"
    "runnings (effects s' e) = runnings (effects s e)" for e
    using o(2) f by (cases "e = p"; simp)+
  have kp: "kept s' = kept s" using sr by (intro kept_cong) simp_all
  have "entries_ok m s'" using gd(1) other t(1) o(4) p unfolding entries_ok_def by metis
  moreover have "flags_ok m s'" using gd(2) fl sr by (simp add: flags_ok_def)
  moreover have "levels_ok m s'" using gd(3) by (simp add: levels_ok_def lv)
  moreover have "deps_ranked N s'"
    unfolding deps_ranked_def
  proof (intro allI impI)
    fix e d assume d: "Comp d \<in> set (deps (effects s' e))"
    show "d < rank N e"
    proof (cases "e = p")
      case True
      with d t(5) src gd(4) show ?thesis by (auto simp: deps_ranked_def)
    next
      case False
      with d o(2) gd(4) show ?thesis by (auto simp: deps_ranked_def)
    qed
  qed
  moreover have "clean_deps m s'"
    unfolding clean_deps_def lv
  proof (intro allI impI)
    fix e d assume a: "level s e = 0 \<and> Comp d \<in> set (read_deps s' e)"
    show "level s (Computed d) = 0 \<and> m (Computed d) = Idle"
    proof (cases "e = p \<and> src = Comp d")
      case True
      with src show ?thesis by simp
    next
      case False
      with a other t(2) have "Comp d \<in> set (read_deps s e)" by (cases "e = p") auto
      with a gd(5) show ?thesis by (auto simp: clean_deps_def)
    qed
  qed
  moreover have "replays (F e) s' e" if "m e \<noteq> Running" "level s' e \<noteq> 4" for e
  proof -
    have "e \<noteq> p" using that p by auto
    then show ?thesis using that by (intro replays_cong [OF gd(6) [of e]]) (simp_all add: lv o(2) sr(7) kp)
  qed
  ultimately show "good F N m s'" by (simp add: good_def)
  show "frame N k {p} s s'" unfolding frame_def using same_rest_context [OF o(3)] sr lv o by auto
  show "set (read_deps s' p) = insert src (set (read_deps s p))" "same_flags (effects s p) (effects s' p)" "same_rest s s'"
    "kept s' = kept s" using t o(3) kp by simp_all
qed

text \<open>What reading the value of a computed ref promises.\<close>

definition asks_ok :: "(eff \<Rightarrow> getter) \<Rightarrow> nat \<Rightarrow> nat \<Rightarrow> (nat \<Rightarrow> rstate \<Rightarrow> (rvalue \<times> rstate) option) \<Rightarrow> bool" where
  "asks_ok F N k get \<longleftrightarrow>
     (\<forall>c m s. c < k \<and> c < N \<and> good F N m s \<and> m (Computed c) = Idle \<and> (\<forall>e. m e \<noteq> Idle \<longrightarrow> c < rank N e) \<longrightarrow>
        (\<exists>s'. get c s = Some (comp_value s' c, trackRefValue (Comp c) s') \<and> good F N m s' \<and>
           level s' (Computed c) = 0 \<and> frame N (Suc c) {} s s'))"

lemma asks_okD:
  assumes "asks_ok F N k get" "c < k" "c < N" "good F N m s" "m (Computed c) = Idle" "\<And>e. m e \<noteq> Idle \<Longrightarrow> c < rank N e"
  obtains s' where "get c s = Some (comp_value s' c, trackRefValue (Comp c) s')" "good F N m s'"
    "level s' (Computed c) = 0" "frame N (Suc c) {} s s'"
  using assms unfolding asks_ok_def by blast

lemma rank_le_N: "c < N \<Longrightarrow> rank N (Computed c) < N" "rank N (Watcher w) = N"
  by (simp_all add: rank_def)

lemma run_fn_ok:
  assumes a: "asks_ok F N k get" and p: "m p = Running" "rank N p \<le> k" "rank N p \<le> N"
    and top: "\<And>e. m e \<noteq> Idle \<Longrightarrow> rank N p \<le> rank N e"
  shows "good F N m s \<Longrightarrow> activeEffect s = Some p \<Longrightarrow> shouldTrack s \<Longrightarrow> reads_below (rank N p) t \<Longrightarrow>
    \<exists>v s'. run_fn get t s = Some (v, s') \<and> good F N m s' \<and> v = eval_pure (kept s') t \<and>
      set (read_deps s' p) = set (read_deps s p) \<union> set (trace (kept s') t) \<and> frame N (rank N p) {p} s s' \<and>
      same_flags (effects s p) (effects s' p)"
proof (induction t arbitrary: s)
  case (Return v)
  then show ?case by simp
next
  case (Read src h)
  have "\<exists>x s1. read_source get src s = Some (x, s1) \<and> good F N m s1 \<and> x = kept s1 src \<and>
      set (read_deps s1 p) = insert src (set (read_deps s p)) \<and> frame N (rank N p) {p} s s1 \<and>
      same_flags (effects s p) (effects s1 p) \<and> (\<forall>d. src = Comp d \<longrightarrow> level s1 (Computed d) = 0)"
  proof (cases src)
    case (Ref r)
    let ?s1 = "trackEffect p src s"
    have "trackRefValue src s = ?s1" using Read.prems by (simp add: trackRefValue_def)
    moreover have side: "case src of Ref _ \<Rightarrow> True | Comp d \<Rightarrow> d < rank N p \<and> level s (Computed d) = 0 \<and> m (Computed d) = Idle"
      using Ref by simp
    note t = good_track [OF Read.prems(1) p(1) side]
    ultimately show ?thesis using Ref t by (simp add: read_source_def) (simp add: kept_def)
  next
    case (Comp d)
    have d: "d < rank N p" using Read.prems(4) Comp by simp
    then have idle: "m (Computed d) = Idle" using top [of "Computed d"] by (auto simp: rank_def)
    obtain s0 where s0: "get d s = Some (comp_value s0 d, trackRefValue (Comp d) s0)" "good F N m s0"
      "level s0 (Computed d) = 0" "frame N (Suc d) {} s s0"
      using d p top idle Read.prems(1) by (elim asks_okD [OF a, of d m s, rotated -1]) (auto intro: less_le_trans)
    have ctx: "activeEffect s0 = Some p" "shouldTrack s0"
      using s0(4) Read.prems(2,3) same_context_fields(3,4) [of s s0] by (simp_all add: frame_def)
    let ?s1 = "trackEffect p (Comp d) s0"
    have tr: "trackRefValue (Comp d) s0 = ?s1" using ctx by (simp add: trackRefValue_def)
    have side: "case Comp d of Ref _ \<Rightarrow> True | Comp d \<Rightarrow> d < rank N p \<and> level s0 (Computed d) = 0 \<and> m (Computed d) = Idle"
      using d s0(3) idle by simp
    note t = good_track [OF s0(2) p(1) side]
    have f: "frame N (rank N p) {p} s s0" using frame_mono [OF s0(4), of "rank N p" "{p}"] d by simp
    have le: "Suc d \<le> rank N p" using d by simp
    have p0: "read_deps s0 p = read_deps s p" "effects s0 p = effects s p"
    proof -
      show "read_deps s0 p = read_deps s p" by (rule frame_deps(2) [OF s0(4) le]) simp
      have "level s p = 0" using goodD(3) [OF Read.prems(1)] p(1) by (auto simp: levels_ok_def split: mode.splits dest: spec [of _ p])
      then show "effects s0 p = effects s p" using s0(4) le unfolding frame_def by blast
    qed
    have "level ?s1 (Computed d) = 0" using t(2) [of "rank N p"] s0(3) unfolding frame_def by blast
    moreover have "comp_value s0 d = kept ?s1 (Comp d)" unfolding t(5) by (simp add: kept_def)
    ultimately show ?thesis
      using s0(1) tr t frame_trans [OF f t(2) [of "rank N p"]] p0 Comp by (simp add: read_source_def)
  qed
  then obtain x s1 where x: "read_source get src s = Some (x, s1)" "good F N m s1" "x = kept s1 src"
      "set (read_deps s1 p) = insert src (set (read_deps s p))" "frame N (rank N p) {p} s s1"
      "same_flags (effects s p) (effects s1 p)" "\<forall>d. src = Comp d \<longrightarrow> level s1 (Computed d) = 0" by blast
  have ctx: "activeEffect s1 = Some p" "shouldTrack s1"
    using x(5) Read.prems(2,3) same_context_fields(3,4) [of s s1] by (simp_all add: frame_def)
  have "reads_below (rank N p) (h x)" using Read.prems(4) by simp
  from Read.IH [OF rangeI x(2) ctx this] obtain v s' where v: "run_fn get (h x) s1 = Some (v, s')" "good F N m s'"
    "v = eval_pure (kept s') (h x)" "set (read_deps s' p) = set (read_deps s1 p) \<union> set (trace (kept s') (h x))"
    "frame N (rank N p) {p} s1 s'" "same_flags (effects s1 p) (effects s' p)" by blast
  have "kept s' src = x"
    using v(5) x(3,7) same_context_fields(1) [of s1 s'] by (cases src) (auto simp: kept_def frame_def)
  with v x show ?case using frame_trans [OF x(5) v(5)] same_flags_trans [OF x(6) v(6)] by auto
qed

section \<open>Asking\<close>

text \<open>Changes of the context alone, and of the level of one effect.\<close>

abbreviation with_context :: "bool \<Rightarrow> bool list \<Rightarrow> eff option \<Rightarrow> rstate \<Rightarrow> rstate" where
  "with_context b ts a s \<equiv> s\<lparr>shouldTrack := b, trackStack := ts, activeEffect := a\<rparr>"

lemma context_simps [simp]:
  "entry (with_context b ts a s) = entry s" "level (with_context b ts a s) = level s"
  "kept (with_context b ts a s) = kept s" "result (with_context b ts a s) = result s"
  "read_deps (with_context b ts a s) = read_deps s" "tracked (with_context b ts a s) = tracked s"
  by (simp_all add: entry_def level_def kept_def result_def read_deps_def tracked_def fun_eq_iff
      split: source.split eff.split)

lemma good_context [simp]: "good F N m (with_context b ts a s) = good F N m s"
  by (simp add: good_def entries_ok_def flags_ok_def levels_ok_def deps_ranked_def clean_deps_def replays_def
      settled_def running_ok_def keys_distinct_def)

lemma frame_context:
  assumes "frame N k X (with_context b ts a s) s'"
  shows "frame N k X s (with_context (shouldTrack s) (trackStack s) (activeEffect s) s')"
proof -
  have "same_context (with_context b ts a s) s'" using assms by (simp add: frame_def)
  then have "same_context s (with_context (shouldTrack s) (trackStack s) (activeEffect s) s')"
    unfolding same_context_def by (cases s; cases s') simp
  with assms show ?thesis by (simp add: frame_def)
qed

lemma level_set_level [simp]: "level (set_level e l s) e' = (if e' = e then l else level s e')"
  by (simp add: level_def set_level_def)

lemma set_level_simps [simp]:
  "entry (set_level e l s) = entry s" "kept (set_level e l s) = kept s" "result (set_level e l s) = result s"
  "read_deps (set_level e l s) = read_deps s" "tracked (set_level e l s) = tracked s"
  "deps (effects (set_level e l s) e') = deps (effects s e')"
  by (simp_all add: set_level_def entry_def kept_def result_def read_deps_def tracked_def fun_eq_iff
      split: source.split eff.split)

lemma frame_set_level: "level s e \<noteq> 0 \<Longrightarrow> e \<in> X \<Longrightarrow> frame N k X s (set_level e l s)"
  by (auto simp: frame_def same_context_def set_level_def upd_effect_def level_def entry_def)

lemma own_dep: "good F N m s \<Longrightarrow> Comp d \<in> set (deps (effects s e)) \<Longrightarrow> Computed d \<noteq> e"
  by (auto simp: good_def deps_ranked_def rank_def split: eff.splits)

lemma good_set_level:
  assumes g: "good F N m s" and e: "m e \<noteq> Running" "level s e \<noteq> 0" "l \<noteq> 4 \<Longrightarrow> level s e \<noteq> 4"
    and l: "l \<in> (case x of Idle \<Rightarrow> {0, 3, 4} | Asking \<Rightarrow> {1, 4} | Running \<Rightarrow> {})"
    and d: "l = 0 \<Longrightarrow> (\<And>d. Comp d \<in> set (deps (effects s e)) \<Longrightarrow> level s (Computed d) = 0 \<and> m (Computed d) = Idle)"
  shows "good F N (m(e := x)) (set_level e l s)"
proof -
  note gd = goodD [OF g]
  have x: "x \<noteq> Running" using l by (cases x) auto
  have st: "settled s e" "runnings (effects s e) = 0" using gd(1,2) e(1) by (simp_all add: entries_ok_def flags_ok_def)
  have same: "running_ok (set_level e l s) e' = running_ok s e'" "settled (set_level e l s) e' = settled s e'" for e'
    by (simp_all add: running_ok_def settled_def) (simp_all add: set_level_def)
  have "entries_ok (m(e := x)) (set_level e l s)"
    using gd(1) x st(1) unfolding entries_ok_def same by (simp add: keys_distinct_def set_level_def)
  moreover have "flags_ok (m(e := x)) (set_level e l s)"
    using gd(2) x st(2) unfolding flags_ok_def by (simp add: set_level_def)
  moreover have "levels_ok (m(e := x)) (set_level e l s)"
    using gd(3) l unfolding levels_ok_def by (auto split: mode.splits)
  moreover have "deps_ranked N (set_level e l s)" using gd(4) by (simp add: deps_ranked_def)
  moreover have "clean_deps (m(e := x)) (set_level e l s)" unfolding clean_deps_def
  proof (intro allI impI)
    fix e' d' assume a: "level (set_level e l s) e' = 0 \<and> Comp d' \<in> set (read_deps (set_level e l s) e')"
    have "level s (Computed d') = 0 \<and> m (Computed d') = Idle \<and> Computed d' \<noteq> e"
    proof (cases "e' = e")
      case True
      with a have "l = 0" "Comp d' \<in> set (deps (effects s e))" using settled_read [OF st(1)] by auto
      with d own_dep [OF g] show ?thesis by blast
    next
      case False
      with a gd(5) have "level s (Computed d') = 0 \<and> m (Computed d') = Idle" by (auto simp: clean_deps_def)
      with e(2) show ?thesis by auto
    qed
    then show "level (set_level e l s) (Computed d') = 0 \<and> (m(e := x)) (Computed d') = Idle" by simp
  qed
  moreover have "replays (F e') (set_level e l s) e'" if "(m(e := x)) e' \<noteq> Running" "level (set_level e l s) e' \<noteq> 4" for e'
    using gd(6) [of e'] that e by (cases "e' = e") (auto simp: replays_def)
  ultimately show ?thesis by (simp add: good_def)
qed

lemma ask_deps_ok:
  assumes a: "asks_ok F N k get" and e: "m e = Asking" "rank N e \<le> k" "rank N e \<le> N"
    and top: "\<And>e'. m e' \<noteq> Idle \<Longrightarrow> rank N e \<le> rank N e'"
  shows "good F N m s \<Longrightarrow> \<not> shouldTrack s \<Longrightarrow> level s e = 1 \<Longrightarrow> \<forall>d. Comp d \<in> set ds \<longrightarrow> d < rank N e \<Longrightarrow>
    \<exists>s'. ask_deps get e ds s = Some s' \<and> good F N m s' \<and> frame N (rank N e) {} s s' \<and>
      (level s' e = 4 \<or> level s' e = 1 \<and> (\<forall>d. Comp d \<in> set ds \<longrightarrow> level s' (Computed d) = 0))"
proof (induction ds arbitrary: s)
  case (Cons src ds)
  show ?case
  proof (cases src)
    case (Ref r)
    with Cons show ?thesis by fastforce
  next
    case (Comp d)
    have d: "d < rank N e" using Cons.prems(4) Comp by simp
    then have idle: "m (Computed d) = Idle" using top [of "Computed d"] by (auto simp: rank_def)
    obtain s0 where s0: "get d s = Some (comp_value s0 d, trackRefValue (Comp d) s0)" "good F N m s0"
      "level s0 (Computed d) = 0" "frame N (Suc d) {} s s0"
      using d e top idle Cons.prems(1) by (elim asks_okD [OF a, of d m s, rotated -1]) (auto intro: less_le_trans)
    have st: "\<not> shouldTrack s0" using s0(4) Cons.prems(2) same_context_fields(4) [of s s0] by (simp add: frame_def)
    then have tr: "trackRefValue (Comp d) s0 = s0" by (simp add: trackRefValue_def split: option.split)
    have f: "frame N (rank N e) {} s s0" using frame_mono [OF s0(4), of "rank N e" "{}"] d by simp
    have lv: "level s0 e = 1 \<or> level s0 e = 4" using frame_level [OF f, of e] Cons.prems(3) by auto
    show ?thesis
    proof (cases "level s0 e = 4")
      case True
      with s0 tr f Comp show ?thesis by auto
    next
      case False
      with lv have "level s0 e = 1" by simp
      from Cons.IH [OF s0(2) st this] Cons.prems(4) obtain s' where s': "ask_deps get e ds s0 = Some s'" "good F N m s'"
        "frame N (rank N e) {} s0 s'"
        "level s' e = 4 \<or> level s' e = 1 \<and> (\<forall>d. Comp d \<in> set ds \<longrightarrow> level s' (Computed d) = 0)" by auto
      have "level s' (Computed d) = 0" using s'(3) s0(3) unfolding frame_def by blast
      with s' s0(1) tr False frame_trans [OF f s'(3)] Comp \<open>level s0 e = 1\<close> show ?thesis by auto
    qed
  qed
qed simp

lemma effect_dirty_ok:
  assumes a: "asks_ok F N k get" and g: "good F N m s" and e: "m e = Idle" "rank N e \<le> k" "rank N e \<le> N"
    and top: "\<And>e'. m e' \<noteq> Idle \<Longrightarrow> rank N e \<le> rank N e'"
  shows "\<exists>b s1. effect_dirty get e s = Some (b, s1) \<and> good F N m s1 \<and> frame N (rank N e) {e} s s1 \<and>
    level s1 e = (if b then 4 else 0)"
proof (cases "level s e = 3")
  case False
  then have "level s e = 0 \<or> level s e = 4" using goodD(3) [OF g] e(1) by (auto simp: levels_ok_def split: mode.splits dest!: spec [of _ e])
  then have "effect_dirty get e s = Some (level s e \<ge> 4, s)" by (auto simp: effect_dirty_def)
  with \<open>level s e = 0 \<or> level s e = 4\<close> g show ?thesis by auto
next
  case True
  let ?m = "m(e := Asking)" and ?ds = "deps (effects s e)"
  let ?sa = "with_context False (shouldTrack s # trackStack s) (activeEffect s) (set_level e 1 s)"
  have st: "settled s e" using goodD(1) [OF g] e(1) by (simp add: entries_ok_def)
  have pa: "pauseTracking (set_level e 1 s) = ?sa"
    unfolding pauseTracking_def set_level_def upd_effect_def by (cases s) simp
  have g1: "good F N ?m (set_level e 1 s)" by (rule good_set_level [OF g]) (use True e(1) in auto)
  have "\<exists>s'. ask_deps get e ?ds ?sa = Some s' \<and> good F N ?m s' \<and> frame N (rank N e) {} ?sa s' \<and>
      (level s' e = 4 \<or> level s' e = 1 \<and> (\<forall>d. Comp d \<in> set ?ds \<longrightarrow> level s' (Computed d) = 0))"
  proof (rule ask_deps_ok [OF a])
    show "good F N ?m ?sa" using g1 by simp
    show "\<forall>d. Comp d \<in> set ?ds \<longrightarrow> d < rank N e" using goodD(4) [OF g] by (simp add: deps_ranked_def)
    show "rank N e \<le> rank N e'" if "?m e' \<noteq> Idle" for e' using that top [of e'] by (cases "e' = e") auto
  qed (use e in auto)
  then obtain s2 where s2: "ask_deps get e ?ds ?sa = Some s2" "good F N ?m s2" "frame N (rank N e) {} ?sa s2"
    "level s2 e = 4 \<or> level s2 e = 1 \<and> (\<forall>d. Comp d \<in> set ?ds \<longrightarrow> level s2 (Computed d) = 0)" by blast
  let ?l = "if level s2 e = 1 then 0 else 4 :: nat"
  let ?s2 = "if level s2 e = 1 then set_level e 0 s2 else s2"
  let ?s3 = "with_context (shouldTrack s) (trackStack s) (activeEffect s) ?s2"
  have ctx: "trackStack s2 = shouldTrack s # trackStack s" "activeEffect s2 = activeEffect s"
    using s2(3) same_context_fields(3,5) [of ?sa s2] by (simp_all add: frame_def)
  have re: "resetTracking ?s2 = ?s3" using ctx by (cases s2) (auto simp: resetTracking_def set_level_def upd_effect_def)
  have deps2: "deps (effects s2 e) = ?ds" using frame_deps(1) [OF s2(3), of e] by simp
  have g2: "good F N m ?s2"
  proof (cases "level s2 e = 1")
    case True
    have "m (Computed d) = Idle" if "Comp d \<in> set ?ds" for d
      using that top [of "Computed d"] goodD(4) [OF g] by (force simp: deps_ranked_def rank_def)
    then have "good F N (?m(e := Idle)) (set_level e 0 s2)"
      using True s2(4) own_dep [OF g, of _ e] by (intro good_set_level [OF s2(2)]) (auto simp: deps2)
    moreover have "?m(e := Idle) = m" using e(1) by (simp add: fun_eq_iff)
    ultimately show ?thesis using True by simp
  next
    case False
    then have l: "level s2 e = 4" using s2(4) by simp
    have "good F N (?m(e := Idle)) (set_level e 4 s2)" using l by (intro good_set_level [OF s2(2)]) auto
    moreover have "?m(e := Idle) = m" using e(1) by (simp add: fun_eq_iff)
    moreover have "set_level e 4 s2 = s2"
      using l unfolding set_level_def upd_effect_def level_def by (cases s2; cases "effects s2 e") auto
    ultimately show ?thesis using False by simp
  qed
  have f1: "frame N (rank N e) {e} s (set_level e 1 s)" using True by (intro frame_set_level) auto
  have f2: "frame N (rank N e) {e} (set_level e 1 s)
      (with_context (shouldTrack s) (trackStack s) (activeEffect s) s2)"
    using frame_context [OF frame_mono [OF s2(3), of "rank N e" "{e}"]] by (simp add: set_level_def)
  have f3: "frame N (rank N e) {e} (with_context (shouldTrack s) (trackStack s) (activeEffect s) s2) ?s3"
  proof (cases "level s2 e = 1")
    case True
    have "set_level e 0 (with_context (shouldTrack s) (trackStack s) (activeEffect s) s2) =
        with_context (shouldTrack s) (trackStack s) (activeEffect s) (set_level e 0 s2)"
      by (simp add: set_level_def upd_effect_def)
    with True frame_set_level [of "with_context (shouldTrack s) (trackStack s) (activeEffect s) s2" e "{e}" N "rank N e" 0]
    show ?thesis by simp
  qed simp
  have "effect_dirty get e s = Some (level ?s3 e \<ge> 4, ?s3)"
  proof -
    have "take (depsLength (effects s e)) ?ds = ?ds" using st by (simp add: settled_def)
    then have "effect_dirty get e s = map_option (\<lambda>s2. let s3 = resetTracking (if level s2 e = 1 then set_level e 0 s2 else s2)
        in (level s3 e \<ge> 4, s3)) (Some s2)"
      unfolding effect_dirty_def pa by (simp only: True s2(1) simp_thms if_True)
    then show ?thesis by (simp only: option.map Let_def re)
  qed
  moreover have "level ?s3 e = (if level ?s3 e \<ge> 4 then 4 else 0)" using s2(4) by auto
  moreover have "good F N m ?s3" using g2 by (simp only: good_context)
  ultimately show ?thesis using frame_trans [OF frame_trans [OF f1 f2] f3] by blast
qed

section \<open>Running\<close>

text \<open>The invariant, but for the value of one effect.\<close>

definition good_but :: "(eff \<Rightarrow> getter) \<Rightarrow> nat \<Rightarrow> eff \<Rightarrow> (eff \<Rightarrow> mode) \<Rightarrow> rstate \<Rightarrow> bool" where
  "good_but F N e0 m s \<longleftrightarrow> entries_ok m s \<and> flags_ok m s \<and> levels_ok m s \<and> deps_ranked N s \<and> clean_deps m s \<and>
     (\<forall>e. e \<noteq> e0 \<and> m e \<noteq> Running \<and> level s e \<noteq> 4 \<longrightarrow> replays (F e) s e)"

lemma good_but_context: "good_but F N e m (with_context b ts a s) = good_but F N e m s"
  by (simp add: good_but_def entries_ok_def flags_ok_def levels_ok_def deps_ranked_def clean_deps_def replays_def
      settled_def running_ok_def keys_distinct_def)

lemma start_run:
  assumes g: "good F N m s" and e: "m e = Idle" "level s e = 4"
  defines "s' \<equiv> preCleanupEffect e (upd_effect e (\<lambda>x. x\<lparr>runnings := runnings x + 1\<rparr>) (set_level e 0 s))"
  shows "good F N (m(e := Running)) s'" "read_deps s' e = []" "frame N k {e} s s'" "runnings (effects s' e) = 1"
proof -
  note gd = goodD [OF g]
  let ?s1 = "upd_effect e (\<lambda>x. x\<lparr>runnings := runnings x + 1\<rparr>) (set_level e 0 s)"
  have st: "settled s e" "runnings (effects s e) = 0" using gd(1,2) e(1) by (simp_all add: entries_ok_def flags_ok_def)
  have "settled ?s1 e = settled s e" by (rule entries_cong; simp add: set_level_def)
  then have st1: "settled ?s1 e" using st(1) by simp
  note p = pre_running [OF st1, folded s'_def]
  show "read_deps s' e = []" by (rule p(2))
  have ef: "effects s' e' = effects s e'" if "e' \<noteq> e" for e' using that by (simp add: s'_def preCleanupEffect_def set_level_def)
  have en: "entry s' = entry s" by (simp add: s'_def preCleanupEffect_def)
  have lv: "level s' e' = (if e' = e then 0 else level s e')" for e'
    by (simp add: s'_def preCleanupEffect_def level_def set_level_def)
  have same: "same_rest s s'" by (simp add: s'_def preCleanupEffect_def set_level_def)
  note sr = same_rest_fields [OF same]
  have other: "running_ok s' e' = running_ok s e'" "settled s' e' = settled s e'" "read_deps s' e' = read_deps s e'" if "e' \<noteq> e" for e'
    by (rule entries_cong; simp add: ef [OF that] en)+
  have kd: "keys_distinct s'" using gd(1) by (simp add: s'_def preCleanupEffect_def set_level_def entries_ok_def keys_distinct_def)
  have fl: "deps (effects s' e) = deps (effects s e)" "eff_active (effects s' e) = eff_active (effects s e)"
    "shouldSchedule (effects s' e) = shouldSchedule (effects s e)"
    by (simp_all add: s'_def preCleanupEffect_def set_level_def)
  show "runnings (effects s' e) = 1" using st(2) by (simp add: s'_def preCleanupEffect_def set_level_def)
  have kp: "kept s' = kept s" using sr by (intro kept_cong) simp_all
  have "entries_ok (m(e := Running)) s'"
    unfolding entries_ok_def using gd(1) other p(1) kd by (auto simp: entries_ok_def)
  moreover have "flags_ok (m(e := Running)) s'"
    unfolding flags_ok_def using gd(2) sr(6) ef fl by (auto simp: flags_ok_def)
  moreover have "levels_ok (m(e := Running)) s'" using gd(3) by (auto simp: levels_ok_def lv)
  moreover have "deps_ranked N s'"
  proof -
    have "deps (effects s' e') = deps (effects s e')" for e' using ef fl(1) by (cases "e' = e") auto
    then show ?thesis using gd(4) by (simp add: deps_ranked_def)
  qed
  moreover have "clean_deps (m(e := Running)) s'" unfolding clean_deps_def
  proof (intro allI impI)
    fix e' d assume a: "level s' e' = 0 \<and> Comp d \<in> set (read_deps s' e')"
    then have "e' \<noteq> e" using p(2) by auto
    with a lv other have "level s e' = 0" "Comp d \<in> set (read_deps s e')" by auto
    then have "level s (Computed d) = 0 \<and> m (Computed d) = Idle" using gd(5) by (simp add: clean_deps_def)
    with e(2) show "level s' (Computed d) = 0 \<and> (m(e := Running)) (Computed d) = Idle" by (auto simp: lv)
  qed
  moreover have "replays (F e') s' e'" if "(m(e := Running)) e' \<noteq> Running" "level s' e' \<noteq> 4" for e'
  proof -
    have "e' \<noteq> e" using that(1) by auto
    with that show ?thesis by (intro replays_cong [OF gd(6) [of e']]) (simp_all add: lv ef sr(7) kp)
  qed
  ultimately show "good F N (m(e := Running)) s'" by (simp add: good_def)
  show "frame N k {e} s s'" unfolding frame_def using same_rest_context [OF same] sr lv ef en e(2) by auto
qed

lemma finish_run:
  assumes g: "good F N (m(e := Running)) s" and e: "m e = Idle" "runnings (effects s e) = 1"
  defines "s' \<equiv> upd_effect e (\<lambda>x. x\<lparr>runnings := runnings x - 1\<rparr>) (postCleanupEffect e s)"
  shows "good_but F N e m s'" "set (deps (effects s' e)) = set (read_deps s e)" "frame N k {e} s s'" "kept s' = kept s"
    "level s' = level s" "\<And>e' c. e = Computed c \<Longrightarrow> level s' e' = 0 \<Longrightarrow> Comp c \<notin> set (read_deps s' e')"
proof -
  note gd = goodD [OF g]
  have r: "running_ok s e" using gd(1) by (simp add: entries_ok_def)
  let ?p = "postCleanupEffect e s"
  note p = post_settled [OF r]
  have o: "\<And>a e'. e' \<noteq> e \<Longrightarrow> entry ?p a e' = entry s a e'" "\<And>e'. e' \<noteq> e \<Longrightarrow> effects ?p e' = effects s e'"
    "same_rest s ?p" "keys_distinct s \<Longrightarrow> keys_distinct ?p" using p(3) unfolding only_entries_of_def by blast+
  note f = same_flags_fields [OF p(4)]
  have same: "same_rest s s'" using o(3) by (simp add: s'_def)
  note sr = same_rest_fields [OF same]
  have en: "entry s' a e' = entry s a e'" if "e' \<noteq> e" for a e' using o(1) that by (simp add: s'_def)
  have ef: "effects s' e' = effects s e'" if "e' \<noteq> e" for e' using o(2) that by (simp add: s'_def)
  have lv: "level s' e' = level s e'" for e' using ef f(1) by (cases "e' = e") (auto simp: level_def s'_def)
  then show "level s' = level s" by (simp add: fun_eq_iff)
  have other: "running_ok s' e' = running_ok s e'" "settled s' e' = settled s e'" "read_deps s' e' = read_deps s e'" if "e' \<noteq> e" for e'
    by (rule entries_cong; simp add: en [OF that] ef [OF that])+
  have "settled s' e = settled ?p e" by (rule entries_cong; simp add: s'_def)
  then have st: "settled s' e" using p(1) by simp
  have dp: "deps (effects s' e) = read_deps s e" using p(2) by (simp add: s'_def)
  then show "set (deps (effects s' e)) = set (read_deps s e)" by simp
  have rd: "read_deps s' e' = read_deps s e'" for e' using other dp settled_read [OF st] by (cases "e' = e") auto
  have fl: "eff_active (effects s' e') = eff_active (effects s e')" "shouldSchedule (effects s' e') = shouldSchedule (effects s e')" for e'
    using ef f by (cases "e' = e"; simp add: s'_def)+
  have run: "runnings (effects s' e) = 0" using e(2) f(3) by (simp add: s'_def)
  show kp: "kept s' = kept s" using sr by (intro kept_cong) simp_all
  have ro: "running_ok s' e'" for e' using other(1) [of e'] st gd(1) by (cases "e' = e") (auto simp: entries_ok_def settled_def)
  have "entries_ok m s'" unfolding entries_ok_def
  proof (intro conjI allI impI)
    show "keys_distinct s'" using o(4) gd(1) by (simp add: entries_ok_def s'_def keys_distinct_def)
    show "settled s' e'" if "m e' \<noteq> Running" for e'
      using other(2) [of e'] st gd(1) that by (cases "e' = e") (auto simp: entries_ok_def)
  qed (rule ro)
  moreover have "flags_ok m s'" unfolding flags_ok_def
  proof (intro conjI allI impI)
    show "runnings (effects s' e') = 0" if "m e' \<noteq> Running" for e'
      using run ef [of e'] gd(2) that by (cases "e' = e") (auto simp: flags_ok_def)
  qed (use gd(2) sr(6) fl in \<open>auto simp: flags_ok_def\<close>)
  moreover have "levels_ok m s'" unfolding levels_ok_def
  proof
    fix e'
    show "level s' e' \<in> (case m e' of Idle \<Rightarrow> {0, 3, 4} | Asking \<Rightarrow> {1, 4} | Running \<Rightarrow> {0})"
      using gd(3) [unfolded levels_ok_def, THEN spec, of e'] e(1) by (cases "e' = e") (auto simp: lv)
  qed
  moreover have "deps_ranked N s'" unfolding deps_ranked_def
  proof (intro allI impI)
    fix e' d assume "Comp d \<in> set (deps (effects s' e'))"
    then have "Comp d \<in> set (deps (effects s e'))"
      using ef dp by (cases "e' = e") (auto simp: read_deps_def dest: in_set_takeD)
    then show "d < rank N e'" using gd(4) by (simp add: deps_ranked_def)
  qed
  moreover have cl: "level s (Computed d) = 0 \<and> m (Computed d) = Idle \<and> Computed d \<noteq> e"
    if "level s' e' = 0" "Comp d \<in> set (read_deps s' e')" for e' d
  proof -
    have "level s (Computed d) = 0 \<and> (m(e := Running)) (Computed d) = Idle"
      using gd(5) that unfolding clean_deps_def lv rd by blast
    then show ?thesis by (auto split: if_splits)
  qed
  then have "clean_deps m s'" unfolding clean_deps_def lv by blast
  moreover have "replays (F e') s' e'" if "e' \<noteq> e" "m e' \<noteq> Running" "level s' e' \<noteq> 4" for e'
    using that by (intro replays_cong [OF gd(6) [of e']]) (simp_all add: lv ef sr(7) kp)
  ultimately show "good_but F N e m s'" by (simp add: good_but_def)
  show "frame N k {e} s s'" unfolding frame_def using same_rest_context [OF same] sr lv ef en by auto
  show "\<And>e' c. e = Computed c \<Longrightarrow> level s' e' = 0 \<Longrightarrow> Comp c \<notin> set (read_deps s' e')" using cl by blast
qed

lemma restore_context: "trackStack s = ts \<Longrightarrow> s\<lparr>activeEffect := a, shouldTrack := b\<rparr> = with_context b ts a s"
  by (cases s) simp

lemma effect_run_ok:
  assumes a: "asks_ok F N k get" and g: "good F N m s" and e: "m e = Idle" "level s e = 4" "rank N e \<le> k" "rank N e \<le> N"
    and top: "\<And>e'. m e' \<noteq> Idle \<Longrightarrow> rank N e \<le> rank N e'" and fn: "reads_below (rank N e) (F e)"
  shows "\<exists>v s'. effect_run get (F e) e s = Some (v, s') \<and> good_but F N e m s' \<and> level s' e = 0 \<and>
    v = eval_pure (kept s') (F e) \<and> set (deps (effects s' e)) = set (trace (kept s') (F e)) \<and>
    frame N (rank N e) {e} s s' \<and> (\<forall>e' c. e = Computed c \<and> level s' e' = 0 \<longrightarrow> Comp c \<notin> set (read_deps s' e'))"
proof -
  let ?m = "m(e := Running)"
  let ?s0 = "preCleanupEffect e (upd_effect e (\<lambda>x. x\<lparr>runnings := runnings x + 1\<rparr>) (set_level e 0 s))"
  let ?s1 = "with_context True (trackStack s) (Some e) ?s0"
  note st = start_run [OF g e(1,2)]
  have act: "eff_active (effects (set_level e 0 s) e)" using goodD(2) [OF g] by (simp add: flags_ok_def set_level_def)
  have s1: "preCleanupEffect e (upd_effect e (\<lambda>x. x\<lparr>runnings := runnings x + 1\<rparr>)
      ((set_level e 0 s)\<lparr>shouldTrack := True, activeEffect := Some e\<rparr>)) = ?s1"
    by (cases s) (simp add: preCleanupEffect_def upd_effect_def set_level_def)
  have "good F N ?m ?s1" using st(1) by (simp only: good_context)
  moreover have "rank N e \<le> rank N e'" if "?m e' \<noteq> Idle" for e' using that top [of e'] by (cases "e' = e") auto
  ultimately obtain v s2 where r: "run_fn get (F e) ?s1 = Some (v, s2)" "good F N ?m s2" "v = eval_pure (kept s2) (F e)"
    "set (read_deps s2 e) = set (read_deps ?s1 e) \<union> set (trace (kept s2) (F e))" "frame N (rank N e) {e} ?s1 s2"
    "same_flags (effects ?s1 e) (effects s2 e)"
    using run_fn_ok [OF a, of ?m e ?s1 "F e"] e fn by auto
  have run: "runnings (effects s2 e) = 1" using same_flags_fields(3) [OF r(6)] st(4) by simp
  let ?s3 = "upd_effect e (\<lambda>x. x\<lparr>runnings := runnings x - 1\<rparr>) (postCleanupEffect e s2)"
  let ?s4 = "with_context (shouldTrack s) (trackStack s) (activeEffect s) ?s3"
  note fi = finish_run [OF r(2) e(1) run]
  have f2: "frame N (rank N e) {e} ?s1 ?s3" by (rule frame_trans [OF r(5) fi(3)])
  have ts: "trackStack ?s3 = trackStack s" "shouldTrack ?s0 = shouldTrack s" "activeEffect ?s0 = activeEffect s" "trackStack ?s0 = trackStack s"
    using same_context_fields(5) [of ?s1 ?s3] f2 by (simp_all add: frame_def preCleanupEffect_def set_level_def)
  have f: "frame N (rank N e) {e} s ?s4"
    using frame_trans [OF st(3) frame_context [OF f2]] by (simp only: ts)
  have run_eq: "effect_run get (F e) e s = Some (v, ?s3\<lparr>activeEffect := activeEffect s, shouldTrack := shouldTrack s\<rparr>)"
    unfolding effect_run_def Let_def s1 using act r(1) by simp
  have "effect_run get (F e) e s = Some (v, ?s4)" unfolding run_eq restore_context [OF ts(1)] ..
  moreover have "good_but F N e m ?s4"
    using fi(1) by (simp only: good_but_context)
  moreover have "level ?s4 e = 0" using fi(5) goodD(3) [OF r(2)] by (auto simp: levels_ok_def dest!: spec [of _ e])
  moreover have "set (deps (effects ?s4 e)) = set (trace (kept ?s4) (F e))"
    using fi(2,4) r(4) st(2) by (simp only: context_simps) simp
  moreover have "v = eval_pure (kept ?s4) (F e)" using r(3) fi(4) by (simp only: context_simps)
  moreover have "\<forall>e' c. e = Computed c \<and> level ?s4 e' = 0 \<longrightarrow> Comp c \<notin> set (read_deps ?s4 e')"
    using fi(6) by (simp only: context_simps) blast
  ultimately show ?thesis using f by blast
qed

section \<open>The value of a computed ref\<close>

lemma cleanup_fields [simp]:
  "comp_value (cleanupDepEffect src e s) = comp_value s" "ref_value (cleanupDepEffect src e s) = ref_value s"
  by (simp_all add: cleanupDepEffect_def split: option.split)

lemma track_fields [simp]:
  "level (trackRefValue src s) e' = level s e'" "comp_value (trackRefValue src s) = comp_value s"
  by (simp_all add: trackRefValue_def trackEffect_def level_def Let_def split: option.split)

lemma frame_shrink:
  assumes "frame N c {Computed c} s s'"
  shows "frame N (Suc c) {} s s'"
proof -
  have "c \<le> rank N e \<and> e \<notin> {Computed c}" if "Suc c \<le> rank N e" for e using that by (auto simp: rank_def)
  moreover have "c \<le> d" if "Suc c \<le> d" for d using that by simp
  ultimately show ?thesis using assms unfolding frame_def by blast
qed

lemma new_value_ok:
  assumes g: "good_but F N (Computed c) m s" and c: "level s (Computed c) = 0"
    and v: "v = eval_pure (kept s) (F (Computed c))" "set (deps (effects s (Computed c))) = set (trace (kept s) (F (Computed c)))"
    and readers: "\<And>e. level s e = 0 \<Longrightarrow> Comp c \<notin> set (read_deps s e)"
    and f: "frame N c {Computed c} s1 s" "level s1 (Computed c) = 4"
  shows "\<exists>s'. (let s3 = s\<lparr>comp_value := (comp_value s)(c := v)\<rparr>
       in if v \<noteq> comp_value s c then triggerEffects (Suc M) (Comp c) 4 s3 else Some s3) = Some s' \<and>
    good F N m s' \<and> level s' (Computed c) = 0 \<and> frame N (Suc c) {} s1 s'"
proof -
  let ?ch = "v \<noteq> comp_value s c" and ?src = "Comp c" and ?s3 = "s\<lparr>comp_value := (comp_value s)(c := v)\<rparr>"
  define s' where "s' = (if ?ch then mark_dirty ?src ?s3 else ?s3)"
  have gd: "entries_ok m s" "flags_ok m s" "levels_ok m s" "deps_ranked N s" "clean_deps m s"
    "\<And>e. e \<noteq> Computed c \<Longrightarrow> m e \<noteq> Running \<Longrightarrow> level s e \<noteq> 4 \<Longrightarrow> replays (F e) s e"
    using g by (simp_all add: good_but_def)
  have tr: "tracked s ?src e \<longleftrightarrow> ?src \<in> set (read_deps s e)" for e using gd(1) by (simp add: entries_ok_def running_ok_def)
  have tr3: "tracked ?s3 = tracked s" by (simp add: tracked_def entry_def fun_eq_iff)
  have nz: "level s e \<noteq> 0" if "tracked s ?src e" for e using readers that tr by blast
  have lvl: "level s e \<le> 4" for e using gd(3) [unfolded levels_ok_def, THEN spec, of e] by (auto split: mode.splits)
  have "triggerEffects (Suc M) ?src 4 ?s3 = Some (mark_dirty ?src ?s3)"
    using gd(1,2) nz lvl unfolding tr3 [symmetric]
    by (intro trigger_marks) (auto simp: keys_distinct_def entries_ok_def flags_ok_def level_def)
  then have eq: "(let s3 = ?s3 in if ?ch then triggerEffects (Suc M) ?src 4 s3 else Some s3) = Some s'"
    by (simp add: s'_def)
  have ef: "effects s' e = (if ?ch \<and> tracked s ?src e then (effects s e)\<lparr>dirtyLevel := 4\<rparr> else effects s e)" for e
    by (simp add: s'_def mark_dirty_def tr3)
  have fields: "comp_value s' = (comp_value s)(c := v)" "ref_value s' = ref_value s" "dep s' = dep s"
    "queueEffectSchedulers s' = queueEffectSchedulers s" "watch_value s' = watch_value s"
    by (simp_all add: s'_def mark_dirty_def)
  have en: "entry s' = entry s" by (simp add: entry_def fields fun_eq_iff)
  have same: "running_ok s' e = running_ok s e" "settled s' e = settled s e" "read_deps s' e = read_deps s e" for e
    by (rule entries_cong; simp add: ef en)+
  have lv: "level s' e = (if ?ch \<and> tracked s ?src e then 4 else level s e)" for e by (simp add: level_def ef)
  have lv0: "level s' e = 0 \<longleftrightarrow> level s e = 0" for e using nz [of e] by (auto simp: lv)
  have kp: "kept s' a = kept s a" if "a \<noteq> ?src \<or> \<not> ?ch" for a using that by (auto simp: kept_def fields split: source.split)
  have "entries_ok m s'" using gd(1) by (simp add: entries_ok_def same keys_distinct_def fields)
  moreover have "flags_ok m s'" using gd(2) by (auto simp: flags_ok_def ef fields)
  moreover have "levels_ok m s'" unfolding levels_ok_def
  proof
    fix e
    show "level s' e \<in> (case m e of Idle \<Rightarrow> {0, 3, 4} | Asking \<Rightarrow> {1, 4} | Running \<Rightarrow> {0})"
      using gd(3) [unfolded levels_ok_def, THEN spec, of e] nz [of e] by (cases "m e") (auto simp: lv)
  qed
  moreover have "deps_ranked N s'" using gd(4) by (auto simp: deps_ranked_def ef)
  moreover have "clean_deps m s'" using gd(5) unfolding clean_deps_def same lv0 .
  moreover have "replays (F e) s' e" if e: "m e \<noteq> Running" "level s' e \<noteq> 4" for e
  proof (cases "e = Computed c")
    case True
    have "?src \<notin> set (deps (effects s (Computed c)))" using gd(4) [unfolded deps_ranked_def, THEN spec, THEN spec, of c "Computed c"] by (auto simp: rank_def)
    then have "\<forall>a \<in> set (trace (kept s) (F e)). kept s' a = kept s a" using v(2) True kp by metis
    from eval_pure_cong [OF this] v True show ?thesis by (auto simp: replays_def result_def fields ef)
  next
    case False
    have "?src \<notin> set (deps (effects s e))" if ?ch
      using e that tr [of e] gd(1) settled_read [of s e] by (auto simp: lv entries_ok_def)
    then have "\<forall>a \<in> set (deps (effects s e)). kept s' a = kept s a" using kp by metis
    moreover have "result s' e = result s e" using False by (auto simp: result_def fields split: eff.split)
    moreover have "level s e \<noteq> 4" using e(2) by (auto simp: lv split: if_splits)
    ultimately show ?thesis using False e(1) by (intro replays_cong [OF gd(6)]) (auto simp: ef)
  qed
  ultimately have "good F N m s'" by (simp add: good_def)
  moreover have "level s' (Computed c) = 0" using c lv0 by simp
  moreover have "frame N (Suc c) {} s1 s'" unfolding frame_def
  proof (intro conjI allI impI)
    have "same_context s1 s" using f(1) by (simp add: frame_def)
    moreover have "same_context s s'" unfolding same_context_def s'_def mark_dirty_def by (cases s) simp
    ultimately show "same_context s1 s'" by (rule same_context_trans)
    show "comp_value s' d = comp_value s1 d" if "Suc c \<le> d \<or> level s1 (Computed d) = 0" for d
    proof -
      have "d \<noteq> c" using that f(2) by auto
      moreover have "comp_value s d = comp_value s1 d" using f(1) that unfolding frame_def by (meson Suc_leD)
      ultimately show ?thesis by (simp add: fields)
    qed
    show "level s' e = 0" if "level s1 e = 0" for e using f(1) that unfolding frame_def lv0 by blast
    have keep0: "level s e = 0" if "level s1 e = 0" for e using f(1) that by (simp add: frame_def)
    fix e assume r: "Suc c \<le> rank N e \<and> e \<notin> {}"
    then have ne: "e \<noteq> Computed c" by (auto simp: rank_def)
    have fr: "effects s e = effects s1 e \<or> level s1 e \<noteq> 0 \<and> effects s e = (effects s1 e)\<lparr>dirtyLevel := 4\<rparr>"
      "\<And>a. entry s a e = entry s1 a e" using f(1) r ne unfolding frame_def by (simp_all add: Suc_leD)
    have z: "level s1 e \<noteq> 0" if "tracked s ?src e" using nz [OF that] keep0 [of e] by auto
    show "effects s' e = effects s1 e \<or> level s1 e \<noteq> 0 \<and> effects s' e = (effects s1 e)\<lparr>dirtyLevel := 4\<rparr>"
      using fr(1) z by (auto simp: ef)
    show "entry s' a e = entry s1 a e" for a using fr(2) by (simp add: en)
  qed
  ultimately show ?thesis using eq by blast
qed

lemma computed_value_ok:
  assumes F: "F = fn_of fns watchers" and ac: "acyclic_fns fns watchers N"
  shows "asks_ok F N n (computed_value fns (Suc M) n)"
proof (induction n)
  case 0
  then show ?case by (simp add: asks_ok_def)
next
  case (Suc n)
  let ?get = "computed_value fns (Suc M) n"
  show ?case unfolding asks_ok_def
  proof (intro allI impI, elim conjE)
    fix c m s
    assume c: "c < Suc n" "c < N" and g: "good F N m s" and i: "m (Computed c) = Idle"
      and top: "\<forall>e. m e \<noteq> Idle \<longrightarrow> c < rank N e"
    let ?e = "Computed c"
    have rk: "rank N ?e = c" by (simp add: rank_def)
    have Fc: "F ?e = fns c" "reads_below c (fns c)" using ac c(2) by (simp_all add: F fn_of_def acyclic_fns_def)
    have top': "\<And>e'. m e' \<noteq> Idle \<Longrightarrow> rank N ?e \<le> rank N e'" using top rk by (simp add: less_imp_le)
    have rN: "rank N ?e \<le> n" "rank N ?e \<le> N" using c rk by simp_all
    obtain b s1 where d: "effect_dirty ?get ?e s = Some (b, s1)" "good F N m s1" "frame N c {?e} s s1"
      "level s1 ?e = (if b then 4 else 0)"
      using effect_dirty_ok [OF Suc.IH g i rN top'] rk by auto
    have f1: "frame N (Suc c) {} s s1" using d(3) by (rule frame_shrink)
    have "\<exists>s3. (if b then
          Option.bind (effect_run ?get (fns c) ?e s1) (\<lambda>(v, s2).
            let s3 = s2\<lparr>comp_value := (comp_value s2)(c := v)\<rparr>
            in if v \<noteq> comp_value s1 c then triggerEffects (Suc M) (Comp c) 4 s3 else Some s3)
        else Some s1) = Some s3 \<and> good F N m s3 \<and> level s3 ?e = 0 \<and> frame N (Suc c) {} s s3"
    proof (cases b)
      case False
      with d f1 show ?thesis by auto
    next
      case True
      have "\<exists>v s'. effect_run ?get (F ?e) ?e s1 = Some (v, s') \<and> good_but F N ?e m s' \<and> level s' ?e = 0 \<and>
          v = eval_pure (kept s') (F ?e) \<and> set (deps (effects s' ?e)) = set (trace (kept s') (F ?e)) \<and>
          frame N (rank N ?e) {?e} s1 s' \<and> (\<forall>e' c'. ?e = Computed c' \<and> level s' e' = 0 \<longrightarrow> Comp c' \<notin> set (read_deps s' e'))"
        by (rule effect_run_ok [OF Suc.IH d(2) i _ rN top']) (use d(4) True Fc rk in simp_all)
      then obtain v s2 where r: "effect_run ?get (fns c) ?e s1 = Some (v, s2)" "good_but F N ?e m s2" "level s2 ?e = 0"
        "v = eval_pure (kept s2) (F ?e)" "set (deps (effects s2 ?e)) = set (trace (kept s2) (F ?e))"
        "frame N c {?e} s1 s2" "\<And>e'. level s2 e' = 0 \<Longrightarrow> Comp c \<notin> set (read_deps s2 e')"
        using Fc rk by auto
      have old: "comp_value s2 c = comp_value s1 c" using r(6) unfolding frame_def by blast
      have l1: "level s1 ?e = 4" using d(4) True by simp
      obtain s3 where s3: "(let s3 = s2\<lparr>comp_value := (comp_value s2)(c := v)\<rparr>
          in if v \<noteq> comp_value s2 c then triggerEffects (Suc M) (Comp c) 4 s3 else Some s3) = Some s3"
        "good F N m s3" "level s3 ?e = 0" "frame N (Suc c) {} s1 s3"
        using new_value_ok [OF r(2-5,7,6) l1] by blast
      then show ?thesis using True r(1) frame_trans [OF f1 s3(4)] by (simp add: old)
    qed
    then obtain s3 where s3: "(if b then
          Option.bind (effect_run ?get (fns c) ?e s1) (\<lambda>(v, s2).
            let s3 = s2\<lparr>comp_value := (comp_value s2)(c := v)\<rparr>
            in if v \<noteq> comp_value s1 c then triggerEffects (Suc M) (Comp c) 4 s3 else Some s3)
        else Some s1) = Some s3" "good F N m s3" "level s3 ?e = 0" "frame N (Suc c) {} s s3" by blast
    have "computed_value fns (Suc M) (Suc n) c s = Some (comp_value s3 c, trackRefValue (Comp c) s3)"
      unfolding computed_value.simps d(1) bind.bind_lunit prod.case s3(1) using s3(3) by (simp add: Let_def)
    with s3 show "\<exists>s'. computed_value fns (Suc M) (Suc n) c s = Some (comp_value s' c, trackRefValue (Comp c) s') \<and>
        good F N m s' \<and> level s' ?e = 0 \<and> frame N (Suc c) {} s s'" by blast
  qed
qed

text \<open>Kept values of effects that are not dirty are the ones computed afresh.\<close>

lemma clean_is_fresh:
  assumes F: "F = fn_of fns watchers" and ac: "acyclic_fns fns watchers N" and g: "good F N m s"
  shows "c < N \<Longrightarrow> level s (Computed c) = 0 \<Longrightarrow> m (Computed c) = Idle \<Longrightarrow> comp_value s c = afresh fns (ref_value s) c"
proof (induction c rule: less_induct)
  case (less c)
  have rp: "replays (fns c) s (Computed c)" using goodD(6) [OF g, of "Computed c"] less.prems by (simp add: F fn_of_def)
  have st: "settled s (Computed c)" using goodD(1) [OF g] less.prems(3) by (simp add: entries_ok_def)
  have "source_afresh fns (ref_value s) a = kept s a" if "a \<in> set (trace (kept s) (fns c))" for a
  proof (cases a)
    case (Comp d)
    have "Comp d \<in> set (deps (effects s (Computed c)))" using that rp Comp by (simp add: replays_def)
    then have "d < c" "level s (Computed d) = 0" "m (Computed d) = Idle"
      using goodD(4,5) [OF g] less.prems(2) settled_read [OF st]
      unfolding deps_ranked_def clean_deps_def by (force simp: rank_def)+
    with less Comp show ?thesis by (simp add: source_afresh_def kept_def)
  qed (simp add: source_afresh_def kept_def)
  then have "eval_pure (source_afresh fns (ref_value s)) (fns c) = eval_pure (kept s) (fns c)" using eval_pure_cong by blast
  moreover have "reads_below c (fns c)" using ac less.prems(1) by (simp add: acyclic_fns_def)
  ultimately show ?case using rp afresh_eval [of c fns "ref_value s"] by (simp add: replays_def result_def)
qed

section \<open>Writing a ref\<close>

text \<open>
  What triggering does: levels rise, nothing else of an effect changes, and whoever depends on an
  effect that was not dirty and is now learns of it, computed refs by a level of at least 3,
  watchers by being handed to the scheduler.
\<close>

definition pending :: "rstate \<Rightarrow> nat set" where
  "pending s = set (queueEffectSchedulers s) \<union> set (scheduled s)"

definition informed :: "rstate \<Rightarrow> eff \<Rightarrow> bool" where
  "informed s e \<longleftrightarrow>
     (case e of Computed c \<Rightarrow> \<forall>e'. tracked s (Comp c) e' \<longrightarrow> 3 \<le> level s e' | Watcher w \<Rightarrow> w \<in> pending s)"

definition raises :: "rstate \<Rightarrow> rstate \<Rightarrow> bool" where
  "raises s s' \<longleftrightarrow>
     s' = s\<lparr>effects := effects s', queueEffectSchedulers := queueEffectSchedulers s', scheduled := scheduled s'\<rparr> \<and>
     (\<forall>e. effects s' e = (effects s e)\<lparr>dirtyLevel := level s' e\<rparr>) \<and>
     (\<forall>e. level s' e = level s e \<or> level s e < level s' e \<and> level s' e \<in> {3, 4}) \<and>
     (\<forall>e. level s e = 0 \<and> level s' e \<noteq> 0 \<longrightarrow> informed s' e) \<and> pending s \<subseteq> pending s'"

lemma raises_fields:
  assumes "raises s s'"
  shows "dep s' = dep s" "pauseScheduleStack s' = pauseScheduleStack s" "ref_value s' = ref_value s"
    "comp_value s' = comp_value s" "watch_value s' = watch_value s" "activeEffect s' = activeEffect s"
    "entry s' src e = entry s src e" "tracked s' src e = tracked s src e" "level s e \<le> level s' e"
proof -
  have eq: "s' = s\<lparr>effects := effects s', queueEffectSchedulers := queueEffectSchedulers s', scheduled := scheduled s'\<rparr>"
    using assms by (simp add: raises_def)
  show f: "dep s' = dep s" "pauseScheduleStack s' = pauseScheduleStack s" "ref_value s' = ref_value s"
    "comp_value s' = comp_value s" "watch_value s' = watch_value s" "activeEffect s' = activeEffect s"
    by (subst eq, simp)+
  show "entry s' src e = entry s src e" by (simp add: entry_def f)
  then show "tracked s' src e = tracked s src e" using assms by (simp add: tracked_def raises_def)
  have "level s' e = level s e \<or> level s e < level s' e" using assms by (simp add: raises_def) blast
  then show "level s e \<le> level s' e" by auto
qed

lemma raises_flags:
  assumes "raises s s'"
  shows "effects s' e = (effects s e)\<lparr>dirtyLevel := level s' e\<rparr>"
  using assms by (simp add: raises_def)

lemma raises_refl [simp]: "raises s s"
  by (auto simp: raises_def level_def)

lemma informed_raises:
  assumes "raises s s'" "informed s e"
  shows "informed s' e"
proof -
  have "pending s \<subseteq> pending s'" using assms(1) by (simp add: raises_def)
  moreover have "3 \<le> level s' a" if "3 \<le> level s a" for a using raises_fields(9) [OF assms(1), of a] that by simp
  ultimately show ?thesis using assms(2) raises_fields(8) [OF assms(1)] by (auto simp: informed_def split: eff.splits)
qed

lemma raises_trans:
  assumes 1: "raises s s'" and 2: "raises s' s''"
  shows "raises s s''"
  unfolding raises_def
proof (intro conjI allI impI)
  show "s'' = s\<lparr>effects := effects s'', queueEffectSchedulers := queueEffectSchedulers s'', scheduled := scheduled s''\<rparr>"
    using assms unfolding raises_def by (cases s; cases s'; cases s'') simp
  fix e
  show "effects s'' e = (effects s e)\<lparr>dirtyLevel := level s'' e\<rparr>"
    using raises_flags [OF 1, of e] raises_flags [OF 2, of e] by simp
  have l: "level s' e = level s e \<or> level s e < level s' e \<and> level s' e \<in> {3, 4}"
    "level s'' e = level s' e \<or> level s' e < level s'' e \<and> level s'' e \<in> {3, 4}" using assms unfolding raises_def by blast+
  then show "level s'' e = level s e \<or> level s e < level s'' e \<and> level s'' e \<in> {3, 4}" by auto
  assume z: "level s e = 0 \<and> level s'' e \<noteq> 0"
  show "informed s'' e"
  proof (cases "level s' e = 0")
    case True
    then show ?thesis using 2 z unfolding raises_def by blast
  next
    case False
    then have "informed s' e" using 1 z unfolding raises_def by blast
    then show ?thesis by (rule informed_raises [OF 2])
  qed
next
  show "pending s \<subseteq> pending s''" using assms unfolding raises_def by blast
qed

text \<open>When triggering may begin: nothing of rank \<open>k\<close> or more waits to be scheduled.\<close>

definition ready :: "nat \<Rightarrow> nat \<Rightarrow> rstate \<Rightarrow> bool" where
  "ready N k s \<longleftrightarrow>
     (\<forall>d e. tracked s (Comp d) e \<longrightarrow> d < rank N e) \<and> (\<forall>src c. tracked s src (Computed c) \<longrightarrow> c < N) \<and>
     (\<forall>e. level s e \<in> {0, 3, 4}) \<and> (\<forall>e. runnings (effects s e) = 0) \<and>
     (\<forall>e. k \<le> rank N e \<longrightarrow> \<not> shouldSchedule (effects s e))"

lemma ready_raises:
  assumes "ready N k s" "raises s s'"
  shows "ready N k s'"
proof -
  have "level s' e \<in> {0, 3, 4}" for e
  proof -
    have "level s e \<in> {0, 3, 4}" using assms(1) by (simp add: ready_def)
    moreover have "level s' e = level s e \<or> level s' e \<in> {3, 4}" using assms(2) by (simp add: raises_def) blast
    ultimately show ?thesis by auto
  qed
  moreover have "runnings (effects s' e) = runnings (effects s e)" "shouldSchedule (effects s' e) = shouldSchedule (effects s e)" for e
    using raises_flags [OF assms(2), of e] by (metis effect_state.ext_inject effect_state.surjective effect_state.update_convs(1))+
  ultimately show ?thesis using assms(1) unfolding ready_def raises_fields(8) [OF assms(2)] by simp
qed

text \<open>What a trigger promises.\<close>

definition triggers_ok :: "nat \<Rightarrow> nat \<Rightarrow> source \<Rightarrow> nat \<Rightarrow> (rstate \<Rightarrow> rstate option) \<Rightarrow> bool" where
  "triggers_ok N k src lvl trig \<longleftrightarrow>
     (\<forall>s. ready N k s \<longrightarrow> (\<exists>s'. trig s = Some s' \<and> raises s s' \<and> (\<forall>e. tracked s src e \<longrightarrow> lvl \<le> level s' e)))"

lemma raises_mark:
  assumes "ready N k s" "level s e < lvl" "level s e \<noteq> 0" "\<not> shouldSchedule (effects s e)" "lvl \<in> {3, 4}"
  shows "raises s (mark_effect lvl e s)" "level (mark_effect lvl e s) e = lvl" "\<not> shouldSchedule (effects (mark_effect lvl e s) e)"
  using assms unfolding raises_def
  by (auto simp: mark_effect_def level_def pending_def upd_effect_def)

text \<open>An effect that was not dirty: marked, its readers triggered, then scheduled.\<close>

definition unmark :: "eff \<Rightarrow> rstate \<Rightarrow> rstate" where
  "unmark e = upd_effect e (\<lambda>x. x\<lparr>shouldSchedule := False\<rparr>)"

definition enqueue :: "eff \<Rightarrow> rstate \<Rightarrow> rstate" where
  "enqueue e s = (case e of Watcher w \<Rightarrow> s\<lparr>queueEffectSchedulers := queueEffectSchedulers s @ [w]\<rparr> | Computed _ \<Rightarrow> s)"

lemma raises_marked:
  assumes z: "level s e = 0" "\<not> shouldSchedule (effects s e)" and l: "lvl \<in> {3, 4}"
    and r: "raises (mark_effect lvl e s) s2"
    and inf: "\<And>c. e = Computed c \<Longrightarrow> informed s2 e"
  shows "raises s (enqueue e (unmark e s2))"
  unfolding raises_def
proof (intro conjI allI impI)
  let ?s1 = "mark_effect lvl e s" and ?s3 = "enqueue e (unmark e s2)"
  have lv: "level ?s3 = level s2" by (simp add: enqueue_def unmark_def level_def fun_eq_iff split: eff.split)
  have tr: "tracked ?s3 = tracked s2" by (simp add: enqueue_def unmark_def tracked_def entry_def fun_eq_iff split: eff.split)
  have l1: "level ?s1 a = (if a = e then lvl else level s a)" for a by (simp add: mark_effect_def level_def)
  have ef1: "effects ?s1 e = (effects s e)\<lparr>shouldSchedule := True, dirtyLevel := lvl\<rparr>" "\<And>a. a \<noteq> e \<Longrightarrow> effects ?s1 a = effects s a"
    using z by (simp_all add: mark_effect_def level_def)
  have p3: "pending s2 \<subseteq> pending ?s3" by (auto simp: pending_def enqueue_def unmark_def split: eff.split)
  have pe: "w \<in> pending ?s3" if "e = Watcher w" for w using that by (simp add: pending_def enqueue_def)
  have p1: "pending ?s1 = pending s" by (simp add: pending_def mark_effect_def)
  show "?s3 = s\<lparr>effects := effects ?s3, queueEffectSchedulers := queueEffectSchedulers ?s3, scheduled := scheduled ?s3\<rparr>"
    using r unfolding raises_def by (cases s; cases s2) (simp add: enqueue_def unmark_def mark_effect_def upd_effect_def split: eff.split)
  show "pending s \<subseteq> pending ?s3" using r p3 p1 by (auto simp: raises_def)
  fix a
  have e3: "effects ?s3 a = (if a = e then (effects s2 a)\<lparr>shouldSchedule := False\<rparr> else effects s2 a)"
    by (simp add: enqueue_def unmark_def split: eff.split)
  show "effects ?s3 a = (effects s a)\<lparr>dirtyLevel := level ?s3 a\<rparr>"
    using raises_flags [OF r, of a] ef1 z(2) unfolding e3 lv by (cases "effects s a") auto
  have r1: "level s2 a = level ?s1 a \<or> level ?s1 a < level s2 a \<and> level s2 a \<in> {3, 4}" using r unfolding raises_def by blast
  then show "level ?s3 a = level s a \<or> level s a < level ?s3 a \<and> level ?s3 a \<in> {3, 4}"
    unfolding lv using l z l1 [of a] by (auto split: if_splits)
  assume a: "level s a = 0 \<and> level ?s3 a \<noteq> 0"
  show "informed ?s3 a"
  proof (cases "a = e")
    case True
    then show ?thesis unfolding informed_def lv tr using inf pe by (auto simp: informed_def split: eff.split)
  next
    case False
    then have "level ?s1 a = 0" using a l1 by simp
    moreover have "level s2 a \<noteq> 0" using a lv by simp
    ultimately have "informed s2 a" using r unfolding raises_def by blast
    then show ?thesis unfolding informed_def lv tr using p3 by (auto split: eff.splits)
  qed
qed

lemma trigger_effect_ok:
  assumes trig: "\<And>c. k \<le> c \<Longrightarrow> c < N \<Longrightarrow> triggers_ok N (Suc c) (Comp c) 3 (trig (Comp c) 3)"
    and g: "ready N k s" and l: "lvl \<in> {3, 4}" and rk: "tracked s src e \<Longrightarrow> k \<le> rank N e"
  shows "\<exists>s'. trigger_effect trig src lvl e s = Some s' \<and> raises s s' \<and> (tracked s src e \<longrightarrow> lvl \<le> level s' e)"
proof (cases "tracked s src e")
  case False
  have "shouldSchedule (effects s e) \<and> map_of (dep s src) e = Some (trackId (effects s e)) \<longleftrightarrow> False"
    using False by (simp add: tracked_def entry_def)
  with False show ?thesis by (auto simp: trigger_effect_def tracked_def entry_def)
next
  case True
  have tr: "map_of (dep s src) e = Some (trackId (effects s e))" using True by (simp add: tracked_def entry_def)
  have sh: "\<not> shouldSchedule (effects s e)" and run: "runnings (effects s e) = 0" using g rk [OF True] by (auto simp: ready_def)
  consider "lvl \<le> level s e" | "level s e < lvl" "level s e \<noteq> 0" | "level s e = 0" by linarith
  then show ?thesis
  proof cases
    case 1
    then have "trigger_effect trig src lvl e s = Some s" using sh by (simp add: trigger_effect_def Let_def)
    with 1 show ?thesis by simp
  next
    case 2
    note m = raises_mark [OF g 2 sh l]
    then have "trigger_effect trig src lvl e s = Some (mark_effect lvl e s)" using 2 tr by (simp add: trigger_effect_def Let_def)
    with m show ?thesis by simp
  next
    case 3
    let ?s1 = "mark_effect lvl e s"
    have l1: "level ?s1 e = lvl" "shouldSchedule (effects ?s1 e)" using 3 by (simp_all add: mark_effect_def level_def)
    have tr1: "tracked ?s1 = tracked s" by (simp add: mark_effect_def tracked_def fun_eq_iff)
    have "\<exists>s2. (case e of Computed c \<Rightarrow> trig (Comp c) (if level ?s1 e = 2 then 2 else 3) ?s1 | Watcher _ \<Rightarrow> Some ?s1) = Some s2 \<and>
        raises ?s1 s2 \<and> (\<forall>c. e = Computed c \<longrightarrow> informed s2 e)"
    proof (cases e)
      case (Computed c)
      have c: "k \<le> c" "c < N" using rk [OF True] g True Computed by (auto simp: ready_def rank_def)
      have "ready N (Suc c) ?s1" using g l c(1) Computed unfolding ready_def tr1
        by (auto simp: mark_effect_def level_def rank_def)
      then obtain s2 where s2: "trig (Comp c) 3 ?s1 = Some s2" "raises ?s1 s2" "\<forall>e. tracked ?s1 (Comp c) e \<longrightarrow> 3 \<le> level s2 e"
        using trig [OF c] by (auto simp: triggers_ok_def)
      then have "informed s2 e" using Computed raises_fields(8) [OF s2(2)] by (simp add: informed_def)
      then show ?thesis using s2 l1 l Computed by auto
    qed simp
    then obtain s2 where s2: "(case e of Computed c \<Rightarrow> trig (Comp c) (if level ?s1 e = 2 then 2 else 3) ?s1 | Watcher _ \<Rightarrow> Some ?s1) = Some s2"
      "raises ?s1 s2" "\<And>c. e = Computed c \<Longrightarrow> informed s2 e" by blast
    have l2: "lvl \<le> level s2 e" using raises_fields(9) [OF s2(2), of e] l1 by simp
    have "runnings (effects s2 e) = 0" using raises_flags [OF s2(2), of e] run by (simp add: mark_effect_def)
    then have sch: "schedule_effect e s2 = enqueue e (unmark e s2)" using l2 l
      by (auto simp: schedule_effect_def enqueue_def unmark_def Let_def split: eff.split)
    have "trigger_effect trig src lvl e s = map_option (schedule_effect e)
        (case e of Computed c \<Rightarrow> trig (Comp c) (if level ?s1 e = 2 then 2 else 3) ?s1 | Watcher _ \<Rightarrow> Some ?s1)"
      using 3 tr l l1 by (auto simp: trigger_effect_def Let_def)
    then have "trigger_effect trig src lvl e s = Some (enqueue e (unmark e s2))" unfolding s2(1) using sch by simp
    moreover have "raises s (enqueue e (unmark e s2))" by (rule raises_marked [OF 3 sh l s2(2,3)])
    moreover have "level (enqueue e (unmark e s2)) e = level s2 e" by (simp add: enqueue_def unmark_def level_def split: eff.split)
    ultimately show ?thesis using l2 by auto
  qed
qed

lemma trigger_all_ok:
  assumes trig: "\<And>c. k \<le> c \<Longrightarrow> c < N \<Longrightarrow> triggers_ok N (Suc c) (Comp c) 3 (trig (Comp c) 3)"
    and l: "lvl \<in> {3, 4}" and "ready N k s" "\<And>e. tracked s src e \<Longrightarrow> k \<le> rank N e"
  shows "\<exists>s'. for_each (trigger_effect trig src lvl) es s = Some s' \<and> raises s s' \<and>
    (\<forall>e \<in> set es. tracked s src e \<longrightarrow> lvl \<le> level s' e)"
  using assms(3,4)
proof (induction es arbitrary: s)
  case (Cons e es)
  obtain s1 where s1: "trigger_effect trig src lvl e s = Some s1" "raises s s1" "tracked s src e \<Longrightarrow> lvl \<le> level s1 e"
    using trigger_effect_ok [where trig = trig, OF trig Cons.prems(1) l Cons.prems(2)] by blast
  have tr: "tracked s1 src a = tracked s src a" for a by (rule raises_fields(8) [OF s1(2)])
  obtain s2 where s2: "for_each (trigger_effect trig src lvl) es s1 = Some s2" "raises s1 s2"
    "\<forall>a \<in> set es. tracked s1 src a \<longrightarrow> lvl \<le> level s2 a"
    using Cons.IH [OF ready_raises [OF Cons.prems(1) s1(2)]] Cons.prems(2) tr by blast
  have "lvl \<le> level s2 e" if "tracked s src e"
    using s1(3) [OF that] raises_fields(9) [OF s2(2), of e] by simp
  then show ?case using s1(1) s2 raises_trans [OF s1(2) s2(2)] tr by auto
qed simp

lemma raises_paused:
  assumes "raises (pauseScheduling s) s'"
  shows "raises s (resetScheduling s')" "level (resetScheduling s') = level s'"
    "pauseScheduleStack s = 0 \<Longrightarrow> queueEffectSchedulers (resetScheduling s') = []"
proof -
  have p: "pauseScheduleStack s' = pauseScheduleStack s + 1" using raises_fields(2) [OF assms] by (simp add: pauseScheduling_def)
  show lv: "level (resetScheduling s') = level s'" by (simp add: resetScheduling_def level_def Let_def fun_eq_iff)
  show "queueEffectSchedulers (resetScheduling s') = []" if "pauseScheduleStack s = 0"
    using that p by (simp add: resetScheduling_def Let_def)
  have pe: "pending (resetScheduling s') = pending s'" "pending (pauseScheduling s) = pending s"
    by (auto simp: pending_def resetScheduling_def pauseScheduling_def Let_def)
  have tr: "tracked (resetScheduling s') = tracked s'"
    by (simp add: tracked_def entry_def resetScheduling_def Let_def fun_eq_iff)
  have inf: "informed (resetScheduling s') = informed s'" by (rule ext) (simp only: informed_def lv tr pe)
  have ef: "effects (resetScheduling s') = effects s'" by (simp add: resetScheduling_def Let_def)
  have lp: "level (pauseScheduling s) = level s" "effects (pauseScheduling s) = effects s"
    by (simp_all add: pauseScheduling_def level_def fun_eq_iff)
  have "resetScheduling s' = s\<lparr>effects := effects s', queueEffectSchedulers := queueEffectSchedulers (resetScheduling s'),
      scheduled := scheduled (resetScheduling s')\<rparr>"
    using assms p unfolding raises_def by (cases s; cases s') (simp add: resetScheduling_def pauseScheduling_def Let_def)
  then show "raises s (resetScheduling s')" using assms unfolding raises_def lv pe inf ef lp by blast
qed

text \<open>How deep triggers go: the readers of a computed ref are larger.\<close>

lemma triggerEffects_ok:
  "N < n + k \<Longrightarrow> k \<le> N \<Longrightarrow> lvl \<in> {3, 4} \<Longrightarrow> (\<And>c. src = Comp c \<Longrightarrow> k \<le> Suc c) \<Longrightarrow> (\<And>r. src = Ref r \<Longrightarrow> k = 0) \<Longrightarrow>
    triggers_ok N k src lvl (triggerEffects n src lvl)"
proof (induction n arbitrary: k src lvl)
  case (Suc n)
  have trig: "triggers_ok N (Suc c) (Comp c) 3 (triggerEffects n (Comp c) 3)" if "k \<le> c" "c < N" for c
    using that Suc.prems(1) by (intro Suc.IH) auto
  show ?case unfolding triggers_ok_def
  proof (intro allI impI)
    fix s assume g: "ready N k s"
    let ?s = "pauseScheduling s"
    have tp: "tracked ?s = tracked s" by (simp add: pauseScheduling_def tracked_def entry_def fun_eq_iff)
    have gp: "ready N k ?s" using g unfolding ready_def tp by (simp add: pauseScheduling_def level_def)
    have "k \<le> rank N e" if "tracked ?s src e" for e
    proof (cases src)
      case (Comp c)
      then have "c < rank N e" using gp that by (simp add: ready_def)
      then show ?thesis using Suc.prems(4) [OF Comp] by simp
    qed (use Suc.prems(5) in simp)
    then obtain s' where s': "for_each (trigger_effect (triggerEffects n) src lvl) (map fst (dep s src)) ?s = Some s'"
      "raises ?s s'" "\<forall>e \<in> set (map fst (dep s src)). tracked ?s src e \<longrightarrow> lvl \<le> level s' e"
      using trigger_all_ok [where trig = "triggerEffects n", OF trig Suc.prems(3) gp] by blast
    have "e \<in> set (map fst (dep s src))" if "tracked s src e" for e
      using that by (auto simp: tracked_def entry_def dest: map_of_SomeD intro: rev_image_eqI)
    then have "\<forall>e. tracked s src e \<longrightarrow> lvl \<le> level (resetScheduling s') e"
      using s'(3) unfolding raises_paused(2) [OF s'(2)] tp by blast
    then show "\<exists>s'. triggerEffects (Suc n) src lvl s = Some s' \<and> raises s s' \<and> (\<forall>e. tracked s src e \<longrightarrow> lvl \<le> level s' e)"
      using s'(1) raises_paused(1) [OF s'(2)] by simp
  qed
qed simp

lemma trigger_flushes:
  assumes "triggerEffects n src lvl s = Some s'" "raises s s'" "pauseScheduleStack s = 0"
  shows "queueEffectSchedulers s' = []"
proof (cases n)
  case (Suc k)
  then obtain s1 where s1: "s' = resetScheduling s1" using assms(1) by auto
  then have "pauseScheduleStack s1 - 1 = 0" using raises_fields(2) [OF assms(2)] assms(3)
    by (simp add: resetScheduling_def Let_def split: if_splits)
  then show ?thesis by (simp add: s1 resetScheduling_def Let_def)
qed (use assms in simp)

section \<open>What always holds between two operations\<close>

text \<open>
  Nothing runs; a computed ref that does not exist has read nothing; a watcher that has been
  started, those of a set \<open>W\<close>, and is dirty is scheduled.
\<close>

definition calm :: "(nat \<Rightarrow> getter) \<Rightarrow> (nat \<Rightarrow> getter) \<Rightarrow> nat \<Rightarrow> nat set \<Rightarrow> rstate \<Rightarrow> bool" where
  "calm fns watchers N W s \<longleftrightarrow>
     good (fn_of fns watchers) N (\<lambda>_. Idle) s \<and> (\<forall>c \<ge> N. deps (effects s (Computed c)) = []) \<and>
     pauseScheduleStack s = 0 \<and> activeEffect s = None \<and>
     (\<forall>w \<in> W. level s (Watcher w) = 0 \<or> w \<in> set (scheduled s))"

lemma calmD:
  assumes "calm fns watchers N W s"
  shows "good (fn_of fns watchers) N (\<lambda>_. Idle) s" "\<And>c. N \<le> c \<Longrightarrow> deps (effects s (Computed c)) = []"
    "pauseScheduleStack s = 0" "activeEffect s = None"
    "\<And>w. w \<in> W \<Longrightarrow> level s (Watcher w) = 0 \<or> w \<in> set (scheduled s)"
  using assms by (simp_all add: calm_def)

lemma calm_init: "calm fns watchers N {} (init_rstate vals)"
  by (simp add: calm_def good_def init_rstate_def new_effect_def entries_ok_def flags_ok_def levels_ok_def deps_ranked_def
      clean_deps_def keys_distinct_def running_ok_def settled_def read_deps_def tracked_def entry_def level_def)

lemma calm_tracked:
  assumes "calm fns watchers N W s"
  shows "tracked s src e \<longleftrightarrow> src \<in> set (deps (effects s e))"
  using good_tracked [OF calmD(1) [OF assms]] settled_read [of s e] goodD(1) [OF calmD(1) [OF assms]]
  by (simp add: entries_ok_def)

lemma calm_ready:
  assumes c: "calm fns watchers N W s"
  shows "ready N 0 s"
proof -
  note gd = goodD [OF calmD(1) [OF c]]
  have "level s e \<in> {0, 3, 4}" for e using gd(3) by (simp add: levels_ok_def)
  moreover have "c < N" if "tracked s src (Computed c)" for src c
    using that calm_tracked [OF c] calmD(2) [OF c] by (metis empty_iff list.set(1) not_less)
  ultimately show ?thesis using gd(2,4) calm_tracked [OF c] unfolding ready_def flags_ok_def deps_ranked_def by simp
qed

text \<open>
  Refs may change their values between two operations as long as whoever reads one that does is
  made certainly dirty.
\<close>

lemma raises_calm:
  assumes c: "calm fns watchers N W s" and s': "raises (s\<lparr>ref_value := vals\<rparr>) s'" "queueEffectSchedulers s' = []"
    and dirty: "\<And>r e. vals r \<noteq> ref_value s r \<Longrightarrow> tracked s (Ref r) e \<Longrightarrow> 4 \<le> level s' e"
  shows "calm fns watchers N W s'"
proof -
  let ?F = "fn_of fns watchers" and ?s0 = "s\<lparr>ref_value := vals\<rparr>"
  note gd = goodD [OF calmD(1) [OF c]]
  have tr0: "tracked ?s0 = tracked s" and lv0: "level ?s0 = level s"
    by (simp_all add: tracked_def entry_def level_def fun_eq_iff)
  note rf = raises_fields [OF s'(1)] and fl = raises_flags [OF s'(1)]
  have ef: "effects s' e = (effects s e)\<lparr>dirtyLevel := level s' e\<rparr>" for e using fl by simp
  have en: "entry s' a e = entry s a e" for a e using rf(7) by (simp add: entry_def)
  have same: "running_ok s' e = running_ok s e" "settled s' e = settled s e" "read_deps s' e = read_deps s e" for e
    by (rule entries_cong; simp add: ef [of e] en)+
  have ds: "deps (effects s' e) = deps (effects s e)" for e by (simp add: ef [of e])
  note q = s'(2)
  have lv: "level s' e = level s e \<or> level s e < level s' e \<and> level s' e \<in> {3, 4}" for e
    using s'(1) lv0 unfolding raises_def by metis
  have inf: "informed s' e" if "level s e = 0" "level s' e \<noteq> 0" for e using s'(1) that lv0 unfolding raises_def by metis
  have rd: "read_deps s e = deps (effects s e)" for e using gd(1) by (intro settled_read) (simp add: entries_ok_def)
  have "entries_ok (\<lambda>_. Idle) s'" using gd(1) rf(1) by (simp add: entries_ok_def same keys_distinct_def)
  moreover have "flags_ok (\<lambda>_. Idle) s'" unfolding flags_ok_def
  proof (intro conjI allI impI)
    fix e
    have "eff_active (effects s e) \<and> \<not> shouldSchedule (effects s e) \<and> runnings (effects s e) = 0" using gd(2) by (simp add: flags_ok_def)
    then show "eff_active (effects s' e)" "\<not> shouldSchedule (effects s' e)" "runnings (effects s' e) = 0" by (simp_all add: ef [of e])
  qed (rule q)
  moreover have "levels_ok (\<lambda>_. Idle) s'" unfolding levels_ok_def
  proof
    fix e
    show "level s' e \<in> (case Idle of Idle \<Rightarrow> {0, 3, 4} | Asking \<Rightarrow> {1, 4} | Running \<Rightarrow> {0})"
      using gd(3) [unfolded levels_ok_def, THEN spec, of e] lv [of e] by auto
  qed
  moreover have "deps_ranked N s'" using gd(4) by (simp add: deps_ranked_def ds)
  moreover have "clean_deps (\<lambda>_. Idle) s'" unfolding clean_deps_def same
  proof (intro allI impI conjI)
    fix e d assume a: "level s' e = 0 \<and> Comp d \<in> set (read_deps s e)"
    then have "level s e = 0" using lv [of e] by auto
    then have z: "level s (Computed d) = 0" using gd(5) a unfolding clean_deps_def by blast
    have "tracked s' (Comp d) e" using a calm_tracked [OF c] rf(8) tr0 by (simp add: rd)
    then have "\<not> informed s' (Computed d)" using a by (auto simp: informed_def)
    then show "level s' (Computed d) = 0" using inf [OF z] by blast
  qed simp
  moreover have "replays (?F e) s' e" if "level s' e \<noteq> 4" for e
  proof (rule replays_cong [OF gd(6)])
    show "level s e \<noteq> 4" using that lv [of e] by auto
    show "result s' e = result s e" using rf by (simp add: result_def split: eff.split)
    have "level s e \<in> {0, 3, 4}" using gd(3) by (simp add: levels_ok_def)
    then have "level s' e < 4" using that lv [of e] by auto
    then have "vals r = ref_value s r" if "Ref r \<in> set (deps (effects s e))" for r
      using dirty [of r e] calm_tracked [OF c, of "Ref r" e] that by auto
    then show "\<forall>src \<in> set (deps (effects s e)). kept s' src = kept s src" using rf by (auto simp: kept_def split: source.split)
  qed (simp_all add: ds)
  ultimately have "good ?F N (\<lambda>_. Idle) s'" by (simp add: good_def)
  moreover have "level s' (Watcher w) = 0 \<or> w \<in> set (scheduled s')" if "w \<in> W" for w
  proof -
    have p: "set (scheduled s) \<subseteq> set (scheduled s')" using s'(1) q unfolding raises_def pending_def by auto
    have "w \<in> set (scheduled s')" if "level s (Watcher w) = 0" "level s' (Watcher w) \<noteq> 0"
      using inf [OF that] q by (simp add: informed_def pending_def)
    then show ?thesis using calmD(5) [OF c \<open>w \<in> W\<close>] p by auto
  qed
  ultimately show "calm fns watchers N W s'" using rf calmD(2,3,4) [OF c] ds by (simp add: calm_def)
qed

lemma ref_set_ok:
  assumes c: "calm fns watchers N W s" and n: "N < n"
  shows "\<exists>s'. ref_set n r v s = Some s' \<and> calm fns watchers N W s' \<and> ref_value s' = (ref_value s)(r := v)"
proof (cases "v = ref_value s r")
  case True
  then show ?thesis using c by (auto simp: ref_set_def)
next
  case False
  let ?s0 = "s\<lparr>ref_value := (ref_value s)(r := v)\<rparr>"
  have tr0: "tracked ?s0 = tracked s" and lv0: "level ?s0 = level s"
    by (simp_all add: tracked_def entry_def level_def fun_eq_iff)
  have "ready N 0 ?s0" using calm_ready [OF c] unfolding ready_def tr0 lv0 by simp
  moreover have "triggers_ok N 0 (Ref r) 4 (triggerEffects n (Ref r) 4)" using n by (intro triggerEffects_ok) simp_all
  ultimately have "\<exists>s'. triggerEffects n (Ref r) 4 ?s0 = Some s' \<and> raises ?s0 s' \<and> (\<forall>e. tracked ?s0 (Ref r) e \<longrightarrow> 4 \<le> level s' e)"
    unfolding triggers_ok_def by blast
  then obtain s' where s': "triggerEffects n (Ref r) 4 ?s0 = Some s'" "raises ?s0 s'"
    "\<And>e. tracked s (Ref r) e \<Longrightarrow> 4 \<le> level s' e"
    unfolding tr0 by blast
  have q: "queueEffectSchedulers s' = []" using calmD(3) [OF c] by (intro trigger_flushes [OF s'(1,2)]) simp
  have "calm fns watchers N W s'" using s'(3) by (intro raises_calm [OF c s'(2) q]) (auto split: if_splits)
  then show ?thesis using s'(1) False raises_fields(3) [OF s'(2)] by (auto simp: ref_set_def)
qed

text \<open>What a frame that spares the watchers but one keeps.\<close>

lemma frame_calm:
  assumes c: "calm fns watchers N W s" and f: "frame N k X s s'" "k \<le> N" "X \<subseteq> {Watcher w}"
    and g: "good (fn_of fns watchers) N (\<lambda>_. Idle) s'" and w: "X = {} \<or> level s' (Watcher w) = 0"
  shows "calm fns watchers N W s'"
proof -
  have ctx: "scheduled s' = scheduled s" "pauseScheduleStack s' = pauseScheduleStack s" "activeEffect s' = activeEffect s"
    using same_context_fields [of s s'] f(1) by (simp_all add: frame_def)
  have "deps (effects s' (Computed d)) = []" if "N \<le> d" for d
    using frame_deps(1) [OF f(1), of "Computed d"] calmD(2) [OF c that] that f(2,3) by (auto simp: rank_def)
  moreover have "level s' (Watcher a) = 0 \<or> a \<in> set (scheduled s')" if "a \<in> W" for a
  proof (cases "Watcher a \<in> X")
    case True
    then show ?thesis using w f(3) by auto
  next
    case False
    have "effects s' (Watcher a) = effects s (Watcher a) \<or>
        level s (Watcher a) \<noteq> 0 \<and> effects s' (Watcher a) = (effects s (Watcher a))\<lparr>dirtyLevel := 4\<rparr>"
      using f(1,2) False unfolding frame_def by (simp add: rank_def)
    then show ?thesis using calmD(5) [OF c that] ctx(1) by (auto simp: level_def)
  qed
  ultimately show ?thesis using g calmD(3,4) [OF c] ctx by (simp add: calm_def)
qed

lemma computed_value_calm:
  assumes ac: "acyclic_fns fns watchers N" and c: "calm fns watchers N W s" and d: "d < N" "N < n"
  shows "\<exists>s'. computed_value fns n n d s = Some (afresh fns (ref_value s) d, s') \<and> calm fns watchers N W s' \<and>
    ref_value s' = ref_value s"
proof -
  obtain M where M: "n = Suc M" using d(2) by (cases n) auto
  have "asks_ok (fn_of fns watchers) N n (computed_value fns n n)" unfolding M by (rule computed_value_ok [OF refl ac])
  then obtain s' where s': "computed_value fns n n d s = Some (comp_value s' d, trackRefValue (Comp d) s')"
    "good (fn_of fns watchers) N (\<lambda>_. Idle) s'" "level s' (Computed d) = 0" "frame N (Suc d) {} s s'"
    using asks_okD [of _ N n _ d "\<lambda>_. Idle" s] calmD(1) [OF c] d by (metis less_trans)
  have ctx: "ref_value s' = ref_value s" "activeEffect s' = None"
    using same_context_fields(1,3) [of s s'] s'(4) calmD(4) [OF c] by (simp_all add: frame_def)
  have "calm fns watchers N W s'" using d by (intro frame_calm [OF c s'(4) _ _ s'(2), of 0]) auto
  moreover have "comp_value s' d = afresh fns (ref_value s) d" using clean_is_fresh [OF refl ac s'(2) d(1) s'(3)] ctx(1) by simp
  ultimately show ?thesis using s'(1) ctx by (simp add: trackRefValue_def)
qed

lemma watcher_fresh:
  assumes ac: "acyclic_fns fns watchers N" and c: "calm fns watchers N W s" and w: "level s (Watcher w) = 0"
  shows "watch_value s w = eval_pure (source_afresh fns (ref_value s)) (watchers w)"
proof -
  note g = calmD(1) [OF c]
  have rp: "replays (watchers w) s (Watcher w)" using goodD(6) [OF g, of "Watcher w"] w by (simp add: fn_of_def)
  have "source_afresh fns (ref_value s) a = kept s a" if "a \<in> set (trace (kept s) (watchers w))" for a
  proof (cases a)
    case (Comp d)
    have m: "Comp d \<in> set (read_deps s (Watcher w))" using that rp Comp goodD(1) [OF g] settled_read [of s "Watcher w"]
      by (simp add: replays_def entries_ok_def)
    then have "d < N" "level s (Computed d) = 0"
      using good_ranked [OF g m] goodD(5) [OF g] w unfolding clean_deps_def by (auto simp: rank_def)
    then show ?thesis using clean_is_fresh [OF refl ac g, of d] Comp by (simp add: source_afresh_def kept_def)
  qed (simp add: source_afresh_def kept_def)
  then have "eval_pure (source_afresh fns (ref_value s)) (watchers w) = eval_pure (kept s) (watchers w)"
    using eval_pure_cong by blast
  then show ?thesis using rp by (simp add: replays_def result_def)
qed

lemma scheduled_simps [simp]:
  "entry (s\<lparr>scheduled := x\<rparr>) = entry s" "level (s\<lparr>scheduled := x\<rparr>) = level s"
  "kept (s\<lparr>scheduled := x\<rparr>) = kept s" "result (s\<lparr>scheduled := x\<rparr>) = result s"
  "read_deps (s\<lparr>scheduled := x\<rparr>) = read_deps s" "tracked (s\<lparr>scheduled := x\<rparr>) = tracked s"
  by (simp_all add: entry_def level_def kept_def result_def read_deps_def tracked_def fun_eq_iff
      split: source.split eff.split)

lemma watch_simps [simp]:
  "kept (s\<lparr>watch_value := x\<rparr>) = kept s" "level (s\<lparr>watch_value := x\<rparr>) = level s"
  "entry (s\<lparr>watch_value := x\<rparr>) = entry s" "read_deps (s\<lparr>watch_value := x\<rparr>) = read_deps s"
  "tracked (s\<lparr>watch_value := x\<rparr>) = tracked s"
  by (simp_all add: kept_def level_def entry_def read_deps_def tracked_def fun_eq_iff split: source.split)

lemma watch_parts [simp]:
  "entries_ok m (s\<lparr>watch_value := x\<rparr>) = entries_ok m s" "flags_ok m (s\<lparr>watch_value := x\<rparr>) = flags_ok m s"
  "levels_ok m (s\<lparr>watch_value := x\<rparr>) = levels_ok m s" "deps_ranked N (s\<lparr>watch_value := x\<rparr>) = deps_ranked N s"
  "clean_deps m (s\<lparr>watch_value := x\<rparr>) = clean_deps m s"
  by (simp_all add: entries_ok_def flags_ok_def levels_ok_def deps_ranked_def clean_deps_def settled_def running_ok_def
      keys_distinct_def)

lemma good_scheduled [simp]: "good F N m (s\<lparr>scheduled := x\<rparr>) = good F N m s"
  by (simp add: good_def entries_ok_def flags_ok_def levels_ok_def deps_ranked_def clean_deps_def replays_def
      settled_def running_ok_def keys_distinct_def)

lemma watcher_job_calm:
  assumes ac: "acyclic_fns fns watchers N" and c: "calm fns watchers N W s" and n: "N < n"
  shows "\<exists>s'. watcher_job fns watchers n w s = Some s' \<and> calm fns watchers N (insert w W) s' \<and> ref_value s' = ref_value s \<and>
    scheduled s' = removeAll w (scheduled s) \<and> level s' (Watcher w) = 0"
proof -
  let ?F = "fn_of fns watchers" and ?I = "\<lambda>_ :: eff. Idle" and ?e = "Watcher w"
  let ?get = "computed_value fns n n" and ?s0 = "s\<lparr>scheduled := removeAll w (scheduled s)\<rparr>"
  obtain M where M: "n = Suc M" using n by (cases n) auto
  have a: "asks_ok ?F N n ?get" unfolding M by (rule computed_value_ok [OF refl ac])
  have g0: "good ?F N ?I ?s0" using calmD(1) [OF c] by simp
  have rk: "rank N ?e = N" by (simp add: rank_def)
  have le: "rank N ?e \<le> n" "rank N ?e \<le> N" using n rk by simp_all
  have top: "\<And>e'. ?I e' \<noteq> Idle \<Longrightarrow> rank N ?e \<le> rank N e'" by simp
  obtain b s1 where d: "effect_dirty ?get ?e ?s0 = Some (b, s1)" "good ?F N ?I s1" "frame N N {?e} ?s0 s1"
    "level s1 ?e = (if b then 4 else 0)"
    using effect_dirty_ok [OF a g0 refl le top] rk by auto
  have "\<exists>s'. (if b then map_option (\<lambda>(v, s2). s2\<lparr>watch_value := (watch_value s2)(w := v)\<rparr>) (effect_run ?get (watchers w) ?e s1)
       else Some s1) = Some s' \<and> good ?F N ?I s' \<and> level s' ?e = 0 \<and> (\<exists>s2 wv. s' = s2\<lparr>watch_value := wv\<rparr> \<and> frame N N {?e} ?s0 s2)"
  proof (cases b)
    case False
    have "\<exists>s2 wv. s1 = s2\<lparr>watch_value := wv\<rparr> \<and> frame N N {?e} ?s0 s2"
      using d(3) by (intro exI [of _ s1] exI [of _ "watch_value s1"]) simp
    then show ?thesis using d False by simp
  next
    case True
    have fe: "?F ?e = watchers w" "reads_below (rank N ?e) (watchers w)" using ac rk by (simp_all add: fn_of_def acyclic_fns_def)
    obtain v s2 where r: "effect_run ?get (?F ?e) ?e s1 = Some (v, s2)" "good_but ?F N ?e ?I s2" "level s2 ?e = 0"
      "v = eval_pure (kept s2) (?F ?e)" "set (deps (effects s2 ?e)) = set (trace (kept s2) (?F ?e))" "frame N (rank N ?e) {?e} s1 s2"
      using effect_run_ok [OF a d(2) refl _ le top] fe d(4) True by (metis (no_types, lifting))
    let ?s' = "s2\<lparr>watch_value := (watch_value s2)(w := v)\<rparr>"
    have "replays (?F e) ?s' e" if "level ?s' e \<noteq> 4" for e
    proof (cases "e = ?e")
      case True
      then show ?thesis using r(4,5) by (simp add: replays_def result_def)
    next
      case False
      then have "replays (?F e) s2 e" using r(2) that by (simp add: good_but_def)
      moreover have "result ?s' e = result s2 e" using False by (simp add: result_def split: eff.split)
      ultimately show ?thesis by (simp add: replays_def)
    qed
    then have "good ?F N ?I ?s'" using r(2)
      by (simp add: good_def good_but_def)
    moreover have "frame N N {?e} ?s0 s2" using frame_trans [OF d(3)] r(6) rk by simp
    ultimately show ?thesis using r(1,3) fe(1) True by auto
  qed
  then obtain s' s2 wv where s': "(if b then map_option (\<lambda>(v, s2). s2\<lparr>watch_value := (watch_value s2)(w := v)\<rparr>) (effect_run ?get (watchers w) ?e s1)
       else Some s1) = Some s'" "good ?F N ?I s'" "level s' ?e = 0" "s' = s2\<lparr>watch_value := wv\<rparr>" "frame N N {?e} ?s0 s2" by blast
  have job: "watcher_job fns watchers n w s = Some s'"
    unfolding watcher_job_def Let_def d(1) bind.bind_lunit prod.case s'(1) ..
  have ctx: "ref_value s' = ref_value s" "scheduled s' = removeAll w (scheduled s)" "pauseScheduleStack s' = pauseScheduleStack s"
    "activeEffect s' = activeEffect s"
    using same_context_fields [of ?s0 s2] s'(5) by (simp_all add: frame_def s'(4))
  have ef: "effects s' e = effects s e \<or> level s e \<noteq> 0 \<and> effects s' e = (effects s e)\<lparr>dirtyLevel := 4\<rparr>"
    if "N \<le> rank N e" "e \<noteq> ?e" for e
    using s'(5) that unfolding frame_def by (simp add: s'(4) level_def)
  have "deps (effects s' (Computed d)) = []" if "N \<le> d" for d
    using ef [of "Computed d"] calmD(2) [OF c that] that by (auto simp: rank_def)
  moreover have "level s' (Watcher w') = 0 \<or> w' \<in> set (scheduled s')" if "w' \<in> insert w W" for w'
    using that ef [of "Watcher w'"] calmD(5) [OF c, of w'] s'(3) ctx(2)
    by (cases "w' = w") (auto simp: rank_def level_def)
  ultimately have "calm fns watchers N (insert w W) s'" using s'(2) ctx calmD(3,4) [OF c] by (simp add: calm_def)
  then show ?thesis using job ctx s'(3) by blast
qed

section \<open>Programs\<close>

text \<open>The program reads and writes refs and the scheduler runs jobs, in any order.\<close>

datatype rop = Set_Ref nat rvalue | Get_Computed nat | Run_Job nat

primrec do_op :: "(nat \<Rightarrow> getter) \<Rightarrow> (nat \<Rightarrow> getter) \<Rightarrow> nat \<Rightarrow> rop \<Rightarrow> rstate \<Rightarrow> rstate option" where
  "do_op fns watchers n (Set_Ref r v) s = ref_set n r v s"
| "do_op fns watchers n (Get_Computed c) s = map_option snd (computed_value fns n n c s)"
| "do_op fns watchers n (Run_Job w) s = watcher_job fns watchers n w s"

definition op_ok :: "nat \<Rightarrow> rop \<Rightarrow> bool" where
  "op_ok N op \<longleftrightarrow> (case op of Get_Computed c \<Rightarrow> c < N | _ \<Rightarrow> True)"

primrec written :: "rop \<Rightarrow> (nat \<Rightarrow> rvalue) \<Rightarrow> nat \<Rightarrow> rvalue" where
  "written (Set_Ref r v) vals = vals(r := v)"
| "written (Get_Computed c) vals = vals"
| "written (Run_Job w) vals = vals"

primrec started :: "rop \<Rightarrow> nat set \<Rightarrow> nat set" where
  "started (Set_Ref r v) W = W"
| "started (Get_Computed c) W = W"
| "started (Run_Job w) W = insert w W"

lemma started_fold: "fold started ops W = W \<union> {w. Run_Job w \<in> set ops}"
proof (induction ops arbitrary: W)
  case (Cons op ops)
  then show ?case by (cases op) auto
qed simp

lemma op_calm:
  assumes "acyclic_fns fns watchers N" "calm fns watchers N W s" "N < n" "op_ok N op"
  shows "\<exists>s'. do_op fns watchers n op s = Some s' \<and> calm fns watchers N (started op W) s' \<and>
    ref_value s' = written op (ref_value s)"
proof (cases op)
  case (Set_Ref r v)
  then show ?thesis using ref_set_ok [OF assms(2,3), of r v] by auto
next
  case (Get_Computed c)
  then show ?thesis using computed_value_calm [OF assms(1,2) _ assms(3), of c] assms(4) by (auto simp: op_ok_def)
next
  case (Run_Job w)
  then show ?thesis using watcher_job_calm [OF assms(1,2,3), of w] by auto
qed

lemma ops_calm:
  assumes "acyclic_fns fns watchers N" "N < n" "list_all (op_ok N) ops" "calm fns watchers N W s"
  shows "\<exists>s'. for_each (do_op fns watchers n) ops s = Some s' \<and> calm fns watchers N (fold started ops W) s' \<and>
    ref_value s' = fold written ops (ref_value s)"
  using assms(3,4)
proof (induction ops arbitrary: s W)
  case (Cons op ops)
  then obtain s1 where s1: "do_op fns watchers n op s = Some s1" "calm fns watchers N (started op W) s1"
    "ref_value s1 = written op (ref_value s)"
    using op_calm [OF assms(1) Cons.prems(2) assms(2), of op] by auto
  then show ?case using Cons.IH [OF _ s1(2)] Cons.prems(1) by auto
qed simp

lemma program_calm:
  assumes "acyclic_fns fns watchers N" "N < n" "list_all (op_ok N) ops"
  obtains s where "for_each (do_op fns watchers n) ops (init_rstate vals) = Some s"
    "calm fns watchers N {w. Run_Job w \<in> set ops} s" "ref_value s = fold written ops vals"
proof -
  have "ref_value (init_rstate vals) = vals" by (simp add: init_rstate_def)
  then show thesis using that ops_calm [OF assms calm_init [of fns watchers N vals]] by (auto simp: started_fold)
qed

text \<open>Jobs leave no job behind.\<close>

lemma jobs_calm:
  assumes ac: "acyclic_fns fns watchers N" and n: "N < n" and "calm fns watchers N W s"
  shows "\<exists>s'. for_each (do_op fns watchers n) (map Run_Job ws) s = Some s' \<and> calm fns watchers N (set ws \<union> W) s' \<and>
    ref_value s' = ref_value s \<and> set (scheduled s') = set (scheduled s) - set ws"
  using assms(3)
proof (induction ws arbitrary: s W)
  case (Cons w ws)
  obtain s1 where s1: "watcher_job fns watchers n w s = Some s1" "calm fns watchers N (insert w W) s1"
    "ref_value s1 = ref_value s" "scheduled s1 = removeAll w (scheduled s)"
    using watcher_job_calm [OF ac Cons.prems n, of w] by blast
  obtain s2 where s2: "for_each (do_op fns watchers n) (map Run_Job ws) s1 = Some s2"
    "calm fns watchers N (set ws \<union> insert w W) s2" "ref_value s2 = ref_value s1" "set (scheduled s2) = set (scheduled s1) - set ws"
    using Cons.IH [OF s1(2)] by blast
  then show ?case using s1 by auto
qed simp

text \<open>An effect that has been stopped is not in the entries of any source, so no trigger reaches it.\<close>

lemma stopped_is_forgotten:
  assumes "settled s e" "eff_active (effects s e)"
  shows "entry (effect_stop e s) src e = None" "\<not> eff_active (effects (effect_stop e s) e)"
proof -
  note p = pre_running [OF assms(1)]
  note q = post_settled [OF p(1)]
  have "entry (postCleanupEffect e (preCleanupEffect e s)) src e = None" using settled_entry [OF q(1)] q(2) p(2) by simp
  then show "entry (effect_stop e s) src e = None" "\<not> eff_active (effects (effect_stop e s) e)"
    using assms(2) by (simp_all add: effect_stop_def)
qed

text \<open>
  C17. However refs have been written, computed refs read and jobs run, reading a computed
  ref returns, and returns the value that computing it, and all it depends on, anew from the
  values last written gives: the caching cannot be seen.
\<close>

theorem computed_never_stale:
  assumes "acyclic_fns fns watchers N" and "N < n" and "list_all (op_ok N) ops" and "c < N"
  shows "\<exists>s s'. for_each (do_op fns watchers n) ops (init_rstate vals) = Some s \<and>
    computed_value fns n n c s = Some (afresh fns (fold written ops vals) c, s')"
proof -
  obtain s where s: "for_each (do_op fns watchers n) ops (init_rstate vals) = Some s"
    "calm fns watchers N {w. Run_Job w \<in> set ops} s" "ref_value s = fold written ops vals"
    using program_calm [OF assms(1-3)] .
  then show ?thesis using computed_value_calm [OF assms(1) s(2) assms(4,2)] by auto
qed

text \<open>
  A watcher that has been run and is not with the scheduler shows what running it now would
  give: no change that matters to it is missed.
\<close>

theorem unscheduled_is_current:
  assumes "acyclic_fns fns watchers N" and "N < n" and "list_all (op_ok N) ops" and "Run_Job w \<in> set ops"
  shows "\<exists>s. for_each (do_op fns watchers n) ops (init_rstate vals) = Some s \<and>
    (w \<in> set (scheduled s) \<or> watch_value s w = eval_pure (source_afresh fns (fold written ops vals)) (watchers w))"
proof -
  obtain s where s: "for_each (do_op fns watchers n) ops (init_rstate vals) = Some s"
    "calm fns watchers N {w. Run_Job w \<in> set ops} s" "ref_value s = fold written ops vals"
    using program_calm [OF assms(1-3)] .
  then show ?thesis using calmD(5) [OF s(2), of w] watcher_fresh [OF assms(1) s(2), of w] assms(4) by auto
qed

text \<open>
  C18. Running every scheduled job once, in any order and however often, ends with no job left, and
  every watcher that has been run shows the values last written.
\<close>

theorem jobs_catch_up:
  assumes "acyclic_fns fns watchers N" and "N < n" and "list_all (op_ok N) ops"
  shows "\<exists>s. for_each (do_op fns watchers n) ops (init_rstate vals) = Some s \<and>
    (\<forall>ws. set ws = set (scheduled s) \<longrightarrow>
      (\<exists>s'. for_each (do_op fns watchers n) (map Run_Job ws) s = Some s' \<and> scheduled s' = [] \<and>
        (\<forall>w. Run_Job w \<in> set ops \<longrightarrow>
          watch_value s' w = eval_pure (source_afresh fns (fold written ops vals)) (watchers w))))"
proof -
  obtain s where s: "for_each (do_op fns watchers n) ops (init_rstate vals) = Some s"
    "calm fns watchers N {w. Run_Job w \<in> set ops} s" "ref_value s = fold written ops vals"
    using program_calm [OF assms(1-3)] .
  have "\<exists>s'. for_each (do_op fns watchers n) (map Run_Job ws) s = Some s' \<and> scheduled s' = [] \<and>
        (\<forall>w. Run_Job w \<in> set ops \<longrightarrow>
          watch_value s' w = eval_pure (source_afresh fns (fold written ops vals)) (watchers w))"
    if ws: "set ws = set (scheduled s)" for ws
  proof -
    obtain s' where s': "for_each (do_op fns watchers n) (map Run_Job ws) s = Some s'"
      "calm fns watchers N (set ws \<union> {w. Run_Job w \<in> set ops}) s'" "ref_value s' = ref_value s"
      "set (scheduled s') = set (scheduled s) - set ws"
      using jobs_calm [OF assms(1,2) s(2), of ws] by blast
    have none: "scheduled s' = []" using s'(4) ws by simp
    then show ?thesis
      using s' s(3) calmD(5) [OF s'(2)] watcher_fresh [OF assms(1) s'(2)] by auto
  qed
  with s(1) show ?thesis by blast
qed

text \<open>A program of two computed refs, the second over the first, and one watcher.\<close>

definition both_fns :: "nat \<Rightarrow> getter" where
  "both_fns c =
     (if c = 0 then Read (Ref 0) (\<lambda>v. if v = VNull then Return VNull else Read (Ref 1) Return)
      else Read (Comp 0) (\<lambda>v. Return (VBool (v = VNull))))"

definition both_watch :: "nat \<Rightarrow> getter" where
  "both_watch w = Read (Comp 1) Return"

lemma both_acyclic: "acyclic_fns both_fns both_watch 2"
  by (auto simp: acyclic_fns_def both_fns_def both_watch_def less_Suc_eq numeral_2_eq_2)

lemma both_afresh:
  "afresh both_fns refs (Suc 0) = VBool ((if refs 0 = VNull then VNull else refs (Suc 0)) = VNull)"
  by (simp add: afresh.simps both_fns_def)

theorem computed_never_stale_witness:
  "\<exists>s s'. for_each (do_op both_fns both_watch 3) [Set_Ref 1 (VNum 7), Get_Computed 1, Set_Ref 0 (VBool True)] (init_rstate (\<lambda>_. VNull)) = Some s \<and>
    computed_value both_fns 3 3 1 s = Some (VBool False, s')"
  using computed_never_stale [OF both_acyclic, of 3 "[Set_Ref 1 (VNum 7), Get_Computed 1, Set_Ref 0 (VBool True)]" 1 "\<lambda>_. VNull"]
  by (simp add: op_ok_def both_afresh)

theorem unscheduled_is_current_witness:
  "\<exists>s. for_each (do_op both_fns both_watch 3) [Run_Job 0, Set_Ref 1 (VBool True)] (init_rstate (\<lambda>_. VNull)) = Some s \<and>
    (0 \<in> set (scheduled s) \<or> watch_value s 0 = VBool True)"
  using unscheduled_is_current [OF both_acyclic, of 3 "[Run_Job 0, Set_Ref 1 (VBool True)]" 0 "\<lambda>_. VNull"]
  by (simp add: op_ok_def both_watch_def source_afresh_def both_afresh)

theorem jobs_catch_up_witness:
  "\<exists>s. for_each (do_op both_fns both_watch 3) [Run_Job 0, Set_Ref 0 (VBool True), Set_Ref 1 (VNum 7)] (init_rstate (\<lambda>_. VNull)) = Some s \<and>
    (\<exists>s'. for_each (do_op both_fns both_watch 3) (map Run_Job (scheduled s)) s = Some s' \<and> scheduled s' = [] \<and>
      watch_value s' 0 = VBool False)"
proof -
  have "eval_pure (source_afresh both_fns ((\<lambda>_. VNull)(0 := VBool True, 1 := VNum 7))) (both_watch 0) = VBool False"
    by (simp add: both_watch_def source_afresh_def both_afresh)
  then show ?thesis
    using jobs_catch_up [OF both_acyclic, of 3 "[Run_Job 0, Set_Ref 0 (VBool True), Set_Ref 1 (VNum 7)]" "\<lambda>_. VNull"]
    by (auto simp: op_ok_def)
qed

end
