(* ===== verification/VueProps.thy ===== *)
theory VueProps
  imports VueShared VueReactivity
begin

text \<open>
  The props, attributes and events of a component in Vue
  (\<^verbatim>\<open>src/v2/lens3/ui/assets/index.js\<close>): the options that a component declares
  (\<open>normalizePropsOptions\<close>), what it gets from the values its parent passes (\<open>initProps\<close>,
  \<open>setFullProps\<close>, \<open>resolvePropValue\<close>), the update when the parent renders again, in full or for
  the dynamic props only (\<open>updateProps\<close>), the test whether an update is needed at all
  (\<open>shouldUpdateComponent\<close>), and events (\<open>emit\<close>).

  An object is the list of its entries in order, a value is compared by identity. Constructors
  are known by their names. A default that is a function is its identity and what it returns for
  the props it is called with. Results of \<open>normalizePropsOptions\<close> are remembered by the code, which
  is left out; it matters only for a component that is another's mixin while the application
  has mixins with props of its own. Components that are functions without declared props, whose
  props are their attributes, are left out.

  Shown: whichever updates are made in full and whichever only for dynamic props, the component
  always has what it would get from the last passed values alone; an update that is skipped would
  have changed nothing, when the names passed stay the same; the handler of a declared event is
  called by its event and not given on as an attribute, and one for a single event is called
  once. Two cases in which the code keeps an old value are shown as examples.
\<close>

section \<open>Options\<close>

type_synonym vobj = "(string \<times> rvalue) list"

datatype prop_type = Any | One string | Many "string list"

datatype prop_default = Default_value rvalue | Default_fun nat "vobj \<Rightarrow> rvalue"

datatype raw_option = Type_only prop_type | Option_object prop_type "prop_default option" bool

datatype raw_props = No_props | Prop_names "string list" | Prop_options "(string \<times> raw_option) list"

text \<open>\<open>should_cast\<close> and \<open>true_if_empty\<close> are the entries 0 and 1 that normalizing adds.\<close>

record prop_option =
  prop_type :: prop_type
  prop_default :: "prop_default option"
  skipFactory :: bool
  should_cast :: bool
  true_if_empty :: bool

type_synonym props_options = "((string \<times> prop_option) list \<times> string list) option"

datatype component =
  Component (is_function: bool) (raw_of: raw_props) (extends_of: "component option") (mixins_of: "component list")

definition validatePropName :: "string \<Rightarrow> bool" where
  "validatePropName key \<longleftrightarrow> (key = [] \<or> hd key \<noteq> CHR ''$'') \<and> \<not> isReservedProp key"

definition find_index :: "('a \<Rightarrow> bool) \<Rightarrow> 'a list \<Rightarrow> int" where
  "find_index p xs = (let n = length (takeWhile (\<lambda>x. \<not> p x) xs) in if n < length xs then int n else - 1)"

definition getTypeIndex :: "string \<Rightarrow> prop_type \<Rightarrow> int" where
  "getTypeIndex type expectedTypes =
     (case expectedTypes of
        Many ts \<Rightarrow> find_index (\<lambda>t. t = type) ts
      | One t \<Rightarrow> if t = type then 0 else - 1
      | Any \<Rightarrow> - 1)"

definition empty_option :: prop_option where
  "empty_option = \<lparr>prop_type = Any, prop_default = None, skipFactory = False, should_cast = False, true_if_empty = False\<rparr>"

definition normalize_option :: "raw_option \<Rightarrow> prop_option" where
  "normalize_option opt =
     (let (t, d, sf) = (case opt of Type_only t \<Rightarrow> (t, None, False) | Option_object t d sf \<Rightarrow> (t, d, sf));
          booleanIndex = getTypeIndex ''Boolean'' t; stringIndex = getTypeIndex ''String'' t
      in \<lparr>prop_type = t, prop_default = d, skipFactory = sf, should_cast = booleanIndex > - 1,
          true_if_empty = (stringIndex < 0 \<or> booleanIndex < stringIndex)\<rparr>)"

fun normalize_names :: "string list \<Rightarrow> (string \<times> prop_option) list \<Rightarrow> (string \<times> prop_option) list" where
  "normalize_names [] normalized = normalized"
| "normalize_names (k # ks) normalized =
     normalize_names ks
       (if validatePropName (camelize k) then set_key normalized (camelize k) empty_option else normalized)"

fun normalize_options ::
  "(string \<times> raw_option) list \<Rightarrow> (string \<times> prop_option) list \<times> string list \<Rightarrow> (string \<times> prop_option) list \<times> string list" where
  "normalize_options [] acc = acc"
| "normalize_options ((key, opt) # raw) (normalized, needCastKeys) =
     (let normalizedKey = camelize key in
      if validatePropName normalizedKey then
        let p = normalize_option opt in
        normalize_options raw
          (set_key normalized normalizedKey p,
           if should_cast p \<or> prop_default p \<noteq> None then needCastKeys @ [normalizedKey] else needCastKeys)
      else normalize_options raw (normalized, needCastKeys))"

text \<open>What the mixins give, one after the other.\<close>

fun extend_props ::
  "props_options list \<Rightarrow> (string \<times> prop_option) list \<times> string list \<Rightarrow> (string \<times> prop_option) list \<times> string list" where
  "extend_props [] acc = acc"
| "extend_props (None # rs) acc = extend_props rs acc"
| "extend_props (Some (ps, keys) # rs) (normalized, needCastKeys) =
     extend_props rs (assign_all normalized ps, needCastKeys @ keys)"

function normalizePropsOptions :: "component list \<Rightarrow> bool \<Rightarrow> component \<Rightarrow> props_options" where
  "normalizePropsOptions appMixins asMixin (Component isFun raw ext mixins) =
     (let bases =
            (if isFun then []
             else (if asMixin then [] else map (\<lambda>c. normalizePropsOptions appMixins True c) appMixins) @
                  (case ext of None \<Rightarrow> [] | Some c \<Rightarrow> [normalizePropsOptions appMixins True c]) @
                  map (\<lambda>c. normalizePropsOptions appMixins True c) mixins);
          acc = extend_props bases ([], [])
      in case raw of
           No_props \<Rightarrow> if bases = [] then None else Some acc
         | Prop_names ks \<Rightarrow> Some (normalize_names ks (fst acc), snd acc)
         | Prop_options opts \<Rightarrow> Some (normalize_options opts acc))"
  by pat_completeness auto
termination
proof (relation "measures [\<lambda>(ms, asMixin, c). if asMixin then 0 else 1, \<lambda>(ms, asMixin, c). size c]", goal_cases)
  case (4 appMixins asMixin isFun raw ext mixins z)
  then have "size z < Suc (size_list size mixins)" by (induction mixins) auto
  then show ?case by auto
qed auto

section \<open>Values\<close>

record comp_instance =
  propsOptions :: props_options
  emitsOptions :: "string list option"
  inst_props :: vobj
  inst_attrs :: vobj
  propsDefaults :: vobj
  emitted :: "string list"
  isUnmounted :: bool

definition value_of :: "vobj \<Rightarrow> string \<Rightarrow> rvalue" where
  "value_of kvs k = (case map_of kvs k of None \<Rightarrow> VUndef | Some v \<Rightarrow> v)"

definition has_own :: "(string \<times> 'v) list \<Rightarrow> string \<Rightarrow> bool" where
  "has_own kvs k = (map_of kvs k \<noteq> None)"

definition strip_once :: "string \<Rightarrow> string" where
  "strip_once key = (if length key \<ge> 4 \<and> drop (length key - 4) key = ''Once'' then take (length key - 4) key else key)"

text \<open>
  For the name \<open>onOnce\<close> the code reads a character that is not there and raises; that name is not
  considered, the result here is \<open>False\<close>.
\<close>

definition isEmitListener :: "string list option \<Rightarrow> string \<Rightarrow> bool" where
  "isEmitListener options key =
     (case options of
        None \<Rightarrow> False
      | Some opts \<Rightarrow>
          isOn key \<and>
          (case strip_once (drop 2 key) of
             [] \<Rightarrow> False
           | c # cs \<Rightarrow> lower_char c # cs \<in> set opts \<or> hyphenate (c # cs) \<in> set opts \<or> c # cs \<in> set opts))"

definition resolvePropValue ::
  "(string \<times> prop_option) list \<Rightarrow> vobj \<Rightarrow> string \<Rightarrow> rvalue \<Rightarrow> bool \<Rightarrow> vobj \<Rightarrow> rvalue \<times> vobj" where
  "resolvePropValue options props key value isAbsent defaults =
     (case map_of options key of
        None \<Rightarrow> (value, defaults)
      | Some opt \<Rightarrow>
          let (value1, defaults1) =
                (case prop_default opt of
                   Some d \<Rightarrow>
                     if value = VUndef then
                       (case d of
                          Default_fun i f \<Rightarrow>
                            if prop_type opt \<noteq> One ''Function'' \<and> \<not> skipFactory opt then
                              (case map_of defaults key of
                                 Some v \<Rightarrow> (v, defaults)
                               | None \<Rightarrow> (f props, set_key defaults key (f props)))
                            else (VObj i, defaults)
                        | Default_value v \<Rightarrow> (v, defaults))
                     else (value, defaults)
                 | None \<Rightarrow> (value, defaults))
          in (if should_cast opt then
                (if isAbsent \<and> prop_default opt = None then VBool False
                 else if true_if_empty opt \<and> (value1 = VStr [] \<or> value1 = VStr (hyphenate key)) then VBool True
                 else value1)
              else value1, defaults1))"

text \<open>One entry of the passed values: into the props, the values to cast, or the attributes.\<close>

record filling =
  fill_props :: vobj
  fill_attrs :: vobj
  rawCastValues :: vobj
  hasAttrsChanged :: bool

definition set_raw :: "comp_instance \<Rightarrow> string \<times> rvalue \<Rightarrow> filling \<Rightarrow> filling" where
  "set_raw i kv f =
     (let (key, value) = kv; camelKey = camelize key in
      if isReservedProp key then f
      else
        case propsOptions i of
          Some (options, needCastKeys) \<Rightarrow>
            if has_own options camelKey then
              (if camelKey \<notin> set needCastKeys then f\<lparr>fill_props := set_key (fill_props f) camelKey value\<rparr>
               else f\<lparr>rawCastValues := set_key (rawCastValues f) camelKey value\<rparr>)
            else if \<not> isEmitListener (emitsOptions i) key \<and>
                    (\<not> has_own (fill_attrs f) key \<or> value \<noteq> value_of (fill_attrs f) key)
            then f\<lparr>fill_attrs := set_key (fill_attrs f) key value, hasAttrsChanged := True\<rparr>
            else f
        | None \<Rightarrow>
            if \<not> isEmitListener (emitsOptions i) key \<and>
               (\<not> has_own (fill_attrs f) key \<or> value \<noteq> value_of (fill_attrs f) key)
            then f\<lparr>fill_attrs := set_key (fill_attrs f) key value, hasAttrsChanged := True\<rparr>
            else f)"

fun cast_props ::
  "(string \<times> prop_option) list \<Rightarrow> vobj \<Rightarrow> string list \<Rightarrow> vobj \<times> vobj \<Rightarrow> vobj \<times> vobj" where
  "cast_props options castValues [] acc = acc"
| "cast_props options castValues (key # keys) (props, defaults) =
     (let (v, defaults1) =
            resolvePropValue options props key (value_of castValues key) (\<not> has_own castValues key) defaults
      in cast_props options castValues keys (set_key props key v, defaults1))"

definition setFullProps :: "vobj option \<Rightarrow> comp_instance \<Rightarrow> bool \<times> comp_instance" where
  "setFullProps rawProps i =
     (let f = fold (set_raw i) (case rawProps of None \<Rightarrow> [] | Some raw \<Rightarrow> raw)
                \<lparr>fill_props = inst_props i, fill_attrs = inst_attrs i, rawCastValues = [], hasAttrsChanged = False\<rparr>;
          (props, defaults) =
            (case propsOptions i of
               Some (options, needCastKeys) \<Rightarrow>
                 cast_props options (rawCastValues f) needCastKeys (fill_props f, propsDefaults i)
             | None \<Rightarrow> (fill_props f, propsDefaults i))
      in (hasAttrsChanged f, i\<lparr>inst_props := props, inst_attrs := fill_attrs f, propsDefaults := defaults\<rparr>))"

fun fill_missing :: "string list \<Rightarrow> vobj \<Rightarrow> vobj" where
  "fill_missing [] props = props"
| "fill_missing (k # ks) props = fill_missing ks (if has_own props k then props else set_key props k VUndef)"

definition initProps :: "vobj option \<Rightarrow> comp_instance \<Rightarrow> comp_instance" where
  "initProps rawProps i =
     (let i1 = snd (setFullProps rawProps (i\<lparr>inst_props := [], inst_attrs := [], propsDefaults := []\<rparr>))
      in case propsOptions i of
           Some (options, _) \<Rightarrow> i1\<lparr>inst_props := fill_missing (map fst options) (inst_props i1)\<rparr>
         | None \<Rightarrow> i1)"

section \<open>Updates\<close>

text \<open>The loop over the dynamic props.\<close>

definition set_attr :: "string \<Rightarrow> rvalue \<Rightarrow> bool \<times> comp_instance \<Rightarrow> bool \<times> comp_instance" where
  "set_attr key value bi =
     (let (changed, i) = bi in
      if value \<noteq> value_of (inst_attrs i) key then (True, i\<lparr>inst_attrs := set_key (inst_attrs i) key value\<rparr>)
      else (changed, i))"

definition update_dynamic :: "vobj \<Rightarrow> string \<Rightarrow> bool \<times> comp_instance \<Rightarrow> bool \<times> comp_instance" where
  "update_dynamic rawProps key bi =
     (let (changed, i) = bi; value = value_of rawProps key in
      if isEmitListener (emitsOptions i) key then bi
      else
        case propsOptions i of
          Some (options, _) \<Rightarrow>
            if has_own (inst_attrs i) key then set_attr key value bi
            else
              let camelizedKey = camelize key;
                  (v, defaults) = resolvePropValue options (inst_props i) camelizedKey value False (propsDefaults i)
              in (changed, i\<lparr>inst_props := set_key (inst_props i) camelizedKey v, propsDefaults := defaults\<rparr>)
        | None \<Rightarrow> set_attr key value bi)"

text \<open>
  The loop that resets props no longer passed. Where nothing is passed at all, the hyphenated name
  is not computed, and the code looks for a passed value of the name \<open>undefined\<close>.
\<close>

definition reset_prop :: "vobj option \<Rightarrow> vobj option \<Rightarrow> string \<Rightarrow> comp_instance \<Rightarrow> comp_instance" where
  "reset_prop rawProps rawPrevProps key i =
     (let kebabKey = (case rawProps of None \<Rightarrow> ''undefined'' | Some _ \<Rightarrow> hyphenate key) in
      if (case rawProps of
            None \<Rightarrow> True
          | Some raw \<Rightarrow> \<not> has_own raw key \<and> (kebabKey = key \<or> \<not> has_own raw kebabKey)) then
        (case propsOptions i of
           Some (options, _) \<Rightarrow>
             (case rawPrevProps of
                Some prev \<Rightarrow>
                  if value_of prev key \<noteq> VUndef \<or> value_of prev kebabKey \<noteq> VUndef then
                    let (v, defaults) = resolvePropValue options (inst_props i) key VUndef True (propsDefaults i)
                    in i\<lparr>inst_props := set_key (inst_props i) key v, propsDefaults := defaults\<rparr>
                  else i
              | None \<Rightarrow> i)
         | None \<Rightarrow> i\<lparr>inst_props := AList.delete key (inst_props i)\<rparr>)
      else i)"

definition gone_attrs :: "vobj option \<Rightarrow> vobj \<Rightarrow> string list" where
  "gone_attrs rawProps attrs =
     filter (\<lambda>key. case rawProps of None \<Rightarrow> True | Some raw \<Rightarrow> \<not> has_own raw key) (map fst attrs)"

definition full_update :: "vobj option \<Rightarrow> vobj option \<Rightarrow> comp_instance \<Rightarrow> bool \<times> comp_instance" where
  "full_update rawProps rawPrevProps i =
     (let (changed, i1) = setFullProps rawProps i;
          i2 = fold (reset_prop rawProps rawPrevProps) (map fst (inst_props i1)) i1;
          gone = gone_attrs rawProps (inst_attrs i2)
      in (changed \<or> gone \<noteq> [], i2\<lparr>inst_attrs := fold AList.delete gone (inst_attrs i2)\<rparr>))"

text \<open>
  The result tells, too, whether the readers of the attributes are triggered. \<open>patchFlag\<close> and
  \<open>dynamicProps\<close> are those of the component's node.
\<close>

definition updateProps ::
  "int \<Rightarrow> string list \<Rightarrow> vobj option \<Rightarrow> vobj option \<Rightarrow> bool \<Rightarrow> comp_instance \<Rightarrow> bool \<times> comp_instance" where
  "updateProps patchFlag dynamicProps rawProps rawPrevProps optimized i =
     (if (optimized \<or> patchFlag > 0) \<and> \<not> bit patchFlag 4 then
        (if bit patchFlag 3
         then fold (update_dynamic (case rawProps of None \<Rightarrow> [] | Some raw \<Rightarrow> raw)) dynamicProps (False, i)
         else (False, i))
      else full_update rawProps rawPrevProps i)"

section \<open>Is an update needed\<close>

definition hasPropsChanged :: "vobj \<Rightarrow> vobj \<Rightarrow> string list option \<Rightarrow> bool" where
  "hasPropsChanged prevProps nextProps emits =
     (length nextProps \<noteq> length prevProps \<or>
      list_ex (\<lambda>key. value_of nextProps key \<noteq> value_of prevProps key \<and> \<not> isEmitListener emits key) (map fst nextProps))"

text \<open>
  \<open>special\<close>: the node has directives or a transition; \<open>children\<close>: one of the nodes has children and
  those of the next are not marked stable; \<open>same\<close>: both have the same object of passed values.
  A node with dynamic props has passed values, so the two readings of nothing do not occur.
\<close>

definition shouldUpdateComponent ::
  "bool \<Rightarrow> bool \<Rightarrow> bool \<Rightarrow> int \<Rightarrow> string list \<Rightarrow> bool \<Rightarrow> string list option \<Rightarrow> vobj option \<Rightarrow> vobj option \<Rightarrow> bool" where
  "shouldUpdateComponent special children same patchFlag dynamicProps optimized emits prevProps nextProps =
     (if special then True
      else if optimized \<and> patchFlag \<ge> 0 then
        (if bit patchFlag 10 then True
         else if bit patchFlag 4 then
           (case prevProps of
              None \<Rightarrow> nextProps \<noteq> None
            | Some p \<Rightarrow> hasPropsChanged p (case nextProps of None \<Rightarrow> [] | Some n \<Rightarrow> n) emits)
         else if bit patchFlag 3 then
           list_ex (\<lambda>key. value_of (case nextProps of None \<Rightarrow> [] | Some n \<Rightarrow> n) key \<noteq>
                          value_of (case prevProps of None \<Rightarrow> [] | Some p \<Rightarrow> p) key \<and> \<not> isEmitListener emits key) dynamicProps
         else False)
      else if children then True
      else if same then False
      else
        (case (prevProps, nextProps) of
           (None, n) \<Rightarrow> n \<noteq> None
         | (Some p, None) \<Rightarrow> True
         | (Some p, Some n) \<Rightarrow> hasPropsChanged p n emits))"

section \<open>Events\<close>

definition vtruthy :: "rvalue \<Rightarrow> bool" where
  "vtruthy v = (case v of VUndef \<Rightarrow> False | VNull \<Rightarrow> False | VBool b \<Rightarrow> b | VNum n \<Rightarrow> n \<noteq> 0 | VStr s \<Rightarrow> s \<noteq> [] | VObj _ \<Rightarrow> True)"

definition trim_arg :: "rvalue \<Rightarrow> rvalue" where
  "trim_arg v = (case v of VStr s \<Rightarrow> VStr (trim s) | _ \<Rightarrow> v)"

text \<open>
  The arguments with the modifiers of \<open>v-model\<close>: \<open>flags\<close> reads \<open>number\<close> and \<open>trim\<close> of an object,
  \<open>looseToNumber\<close> rests on the language's \<open>parseFloat\<close>; both are arguments.
\<close>

definition event_args ::
  "(rvalue \<Rightarrow> bool \<times> bool) \<Rightarrow> (rvalue \<Rightarrow> rvalue) \<Rightarrow> vobj \<Rightarrow> string \<Rightarrow> rvalue list \<Rightarrow> rvalue list" where
  "event_args flags looseToNumber props event rawArgs =
     (let modelArg = drop 7 event in
      if take 7 event = ''update:'' \<and> modelArg \<noteq> [] \<and> has_own props modelArg then
        let modifiers = value_of props ((if modelArg = ''modelValue'' then ''model'' else modelArg) @ ''Modifiers'');
            (number, trim) = (if vtruthy modifiers then flags modifiers else (False, False))
        in if number then map looseToNumber rawArgs else if trim then map trim_arg rawArgs else rawArgs
      else rawArgs)"

definition handler_name :: "vobj \<Rightarrow> string \<Rightarrow> string" where
  "handler_name props event =
     (if vtruthy (value_of props (toHandlerKey event)) then toHandlerKey event
      else if vtruthy (value_of props (toHandlerKey (camelize event))) then toHandlerKey (camelize event)
      else if take 7 event = ''update:'' then toHandlerKey (hyphenate event)
      else toHandlerKey (camelize event))"

text \<open>A call of a handler: whether it is one for a single event, its name, the handler, the arguments.\<close>

type_synonym hcall = "bool \<times> string \<times> rvalue \<times> rvalue list"

definition emit ::
  "(rvalue \<Rightarrow> bool \<times> bool) \<Rightarrow> (rvalue \<Rightarrow> rvalue) \<Rightarrow> vobj \<Rightarrow> string \<Rightarrow> rvalue list \<Rightarrow> comp_instance \<Rightarrow>
   hcall list \<times> comp_instance" where
  "emit flags looseToNumber props event rawArgs i =
     (if isUnmounted i then ([], i)
      else
        let args = event_args flags looseToNumber props event rawArgs;
            handlerName = handler_name props event;
            handler = value_of props handlerName;
            calls = (if vtruthy handler then [(False, handlerName, handler, args)] else []);
            onceHandler = value_of props (handlerName @ ''Once'')
        in if vtruthy onceHandler \<and> handlerName \<notin> set (emitted i)
           then (calls @ [(True, handlerName, onceHandler, args)], i\<lparr>emitted := handlerName # emitted i\<rparr>)
           else (calls, i))"

section \<open>What a component should get\<close>

text \<open>
  The value passed for a prop: the last of the entries that, in whatever spelling, name it. What the
  prop is then, with the defaults that functions have returned so far.
\<close>

definition passed :: "vobj \<Rightarrow> string \<rightharpoonup> rvalue" where
  "passed raw = map_of (rev (map (\<lambda>(key, v). (camelize key, v)) (filter (\<lambda>(key, v). \<not> isReservedProp key) raw)))"

definition makes_default :: "prop_option \<Rightarrow> bool" where
  "makes_default opt \<longleftrightarrow>
     (\<exists>n f. prop_default opt = Some (Default_fun n f)) \<and> prop_type opt \<noteq> One ''Function'' \<and> \<not> skipFactory opt"

definition default_of :: "prop_option \<Rightarrow> string \<Rightarrow> vobj \<Rightarrow> rvalue" where
  "default_of opt key defaults =
     (case prop_default opt of
        None \<Rightarrow> VUndef
      | Some (Default_value v) \<Rightarrow> v
      | Some (Default_fun n f) \<Rightarrow> if makes_default opt then value_of defaults key else VObj n)"

definition prop_result :: "prop_option \<Rightarrow> string \<Rightarrow> rvalue option \<Rightarrow> vobj \<Rightarrow> rvalue" where
  "prop_result opt key given defaults =
     (let v = (if given = None \<or> given = Some VUndef then default_of opt key defaults else the given) in
      if \<not> should_cast opt then v
      else if given = None \<and> prop_default opt = None then VBool False
      else if true_if_empty opt \<and> (v = VStr [] \<or> v = VStr (hyphenate key)) then VBool True
      else v)"

definition declared :: "comp_instance \<Rightarrow> (string \<times> prop_option) list" where
  "declared i = (case propsOptions i of None \<Rightarrow> [] | Some (options, _) \<Rightarrow> options)"

definition is_attr :: "comp_instance \<Rightarrow> string \<Rightarrow> bool" where
  "is_attr i key \<longleftrightarrow> \<not> isReservedProp key \<and> \<not> has_own (declared i) (camelize key) \<and> \<not> isEmitListener (emitsOptions i) key"

text \<open>The component has what the passed values give.\<close>

definition prop_follows :: "vobj \<Rightarrow> comp_instance \<Rightarrow> string \<Rightarrow> prop_option \<Rightarrow> bool" where
  "prop_follows raw i key opt \<longleftrightarrow>
     map_of (inst_props i) key = Some (prop_result opt key (passed raw key) (propsDefaults i)) \<and>
     (makes_default opt \<and> (passed raw key = None \<or> passed raw key = Some VUndef) \<longrightarrow> has_own (propsDefaults i) key)"

definition follows :: "vobj \<Rightarrow> comp_instance \<Rightarrow> bool" where
  "follows raw i \<longleftrightarrow>
     (\<forall>key opt. map_of (declared i) key = Some opt \<longrightarrow> prop_follows raw i key opt) \<and>
     dom (map_of (inst_props i)) = dom (map_of (declared i)) \<and>
     map_of (inst_attrs i) = map_of (filter (\<lambda>(key, v). is_attr i key) raw)"

text \<open>Declared names are in camel case, can be told from their hyphenated form, and are not those of listeners.\<close>

definition options_ok :: "comp_instance \<Rightarrow> bool" where
  "options_ok i \<longleftrightarrow>
     (\<forall>options need. propsOptions i = Some (options, need) \<longrightarrow>
        set need \<subseteq> fst ` set options \<and>
        (\<forall>key opt. map_of options key = Some opt \<longrightarrow>
           (key \<in> set need \<longleftrightarrow> should_cast opt \<or> prop_default opt \<noteq> None) \<and>
           camelize key = key \<and> camelize (hyphenate key) = key \<and> \<not> isReservedProp key \<and> \<not> isReservedProp (hyphenate key)))"

text \<open>Passed values name a prop by its name or by its hyphenated name.\<close>

definition raw_ok :: "comp_instance \<Rightarrow> vobj \<Rightarrow> bool" where
  "raw_ok i raw \<longleftrightarrow> distinct (map fst raw) \<and>
     (\<forall>key \<in> fst ` set raw. has_own (declared i) (camelize key) \<longrightarrow>
        (key = camelize key \<or> key = hyphenate (camelize key)) \<and> \<not> isEmitListener (emitsOptions i) key)"

section \<open>Resolving one prop\<close>

lemma resolve_result:
  assumes o: "map_of options key = Some opt" and a: "absent \<Longrightarrow> v = VUndef"
    and r: "resolvePropValue options ps key v absent defaults = (x, defaults')"
  shows "x = prop_result opt key (if absent then None else Some v) defaults'"
    and "makes_default opt \<and> v = VUndef \<longrightarrow> has_own defaults' key"
    and "map_of defaults \<subseteq>\<^sub>m map_of defaults'"
proof -
  have goal: "x = prop_result opt key (if absent then None else Some v) defaults' \<and>
      (makes_default opt \<and> v = VUndef \<longrightarrow> has_own defaults' key) \<and> map_of defaults \<subseteq>\<^sub>m map_of defaults'"
  proof (cases "\<exists>n f. prop_default opt = Some (Default_fun n f) \<and> v = VUndef \<and> makes_default opt")
    case False
    then have "defaults' = defaults" "\<not> (makes_default opt \<and> v = VUndef)"
      using r o by (auto simp: resolvePropValue_def makes_default_def split: option.splits prop_default.splits if_splits)
    moreover have "x = prop_result opt key (if absent then None else Some v) defaults"
      using r o a False
      by (auto simp: resolvePropValue_def prop_result_def default_of_def makes_default_def Let_def
          split: option.splits prop_default.splits if_splits)
    ultimately show ?thesis by auto
  next
    case True
    then obtain n f where f: "prop_default opt = Some (Default_fun n f)" "v = VUndef"
      and mk: "prop_type opt \<noteq> One ''Function''" "\<not> skipFactory opt" "makes_default opt" by (auto simp: makes_default_def)
    show ?thesis
    proof (cases "map_of defaults key")
      case None
      then have d: "defaults' = set_key defaults key (f ps)" using r o f mk by (auto simp: resolvePropValue_def)
      have "value_of defaults' key = f ps" "has_own defaults' key" "map_of defaults \<subseteq>\<^sub>m map_of defaults'"
        using None by (auto simp: d value_of_def has_own_def map_le_def)
      then show ?thesis using r o f mk None
        by (auto simp: resolvePropValue_def prop_result_def default_of_def Let_def d)
    next
      case (Some y)
      then have d: "defaults' = defaults" "value_of defaults key = y" "has_own defaults key"
        using r o f mk by (auto simp: resolvePropValue_def value_of_def has_own_def)
      then show ?thesis using r o f mk Some
        by (auto simp: resolvePropValue_def prop_result_def default_of_def Let_def)
    qed
  qed
  then show "x = prop_result opt key (if absent then None else Some v) defaults'"
    and "makes_default opt \<and> v = VUndef \<longrightarrow> has_own defaults' key" and "map_of defaults \<subseteq>\<^sub>m map_of defaults'" by auto
qed

text \<open>More remembered defaults do not change a result.\<close>

lemma prop_result_mono:
  assumes "map_of defaults \<subseteq>\<^sub>m map_of defaults'"
    and "makes_default opt \<and> (given = None \<or> given = Some VUndef) \<longrightarrow> has_own defaults key"
  shows "prop_result opt key given defaults' = prop_result opt key given defaults"
proof -
  have "value_of defaults' key = value_of defaults key" if "has_own defaults key"
    using that assms(1) by (auto simp: value_of_def has_own_def map_le_def dom_def split: option.splits)
  then have "default_of opt key defaults' = default_of opt key defaults" if "given = None \<or> given = Some VUndef"
    using assms(2) that by (auto simp: default_of_def split: option.split prop_default.split)
  then show ?thesis by (auto simp: prop_result_def Let_def)
qed

lemma has_own_mono: "map_of d \<subseteq>\<^sub>m map_of d' \<Longrightarrow> has_own d key \<Longrightarrow> has_own d' key"
  by (auto simp: has_own_def map_le_def dom_def)

section \<open>Filling in the passed values\<close>

lemma passed_snoc:
  "passed (raw @ [(key, v)]) = (if isReservedProp key then passed raw else (passed raw)(camelize key \<mapsto> v))"
  by (auto simp: passed_def)

lemma passed_None: "passed raw k = None \<longleftrightarrow> (\<forall>key \<in> fst ` set raw. camelize key = k \<longrightarrow> isReservedProp key)"
  by (force simp: passed_def map_of_eq_None_iff)

lemma passed_Some:
  "passed raw k = Some v \<Longrightarrow> \<exists>key. (key, v) \<in> set raw \<and> camelize key = k \<and> \<not> isReservedProp key"
  by (auto simp: passed_def dest!: map_of_SomeD)

lemma set_attr_entry:
  "map_of (if \<not> has_own attrs key \<or> v \<noteq> value_of attrs key then set_key attrs key v else attrs) =
     (map_of attrs)(key \<mapsto> v)"
  by (auto simp: has_own_def value_of_def split: option.splits)

text \<open>The loop over the passed values.\<close>

lemma set_raw_cases:
  assumes "propsOptions i = Some (options, need)"
  shows "isReservedProp key \<Longrightarrow> set_raw i (key, v) f = f"
    and "\<not> isReservedProp key \<Longrightarrow> has_own options (camelize key) \<Longrightarrow> camelize key \<notin> set need \<Longrightarrow>
      set_raw i (key, v) f = f\<lparr>fill_props := set_key (fill_props f) (camelize key) v\<rparr>"
    and "\<not> isReservedProp key \<Longrightarrow> has_own options (camelize key) \<Longrightarrow> camelize key \<in> set need \<Longrightarrow>
      set_raw i (key, v) f = f\<lparr>rawCastValues := set_key (rawCastValues f) (camelize key) v\<rparr>"
    and "\<not> isReservedProp key \<Longrightarrow> \<not> has_own options (camelize key) \<Longrightarrow>
      fill_props (set_raw i (key, v) f) = fill_props f \<and> rawCastValues (set_raw i (key, v) f) = rawCastValues f \<and>
      map_of (fill_attrs (set_raw i (key, v) f)) =
        (if is_attr i key then (map_of (fill_attrs f))(key \<mapsto> v) else map_of (fill_attrs f))"
  using assms set_attr_entry [of "fill_attrs f" key v]
  by (auto simp: set_raw_def is_attr_def declared_def)

lemma fill_raw:
  fixes raw :: vobj and k :: string
  assumes opts: "propsOptions i = Some (options, need)"
    and f0: "f0 = \<lparr>fill_props = props, fill_attrs = attrs, rawCastValues = [], hasAttrsChanged = False\<rparr>"
  defines "f \<equiv> fold (set_raw i) raw f0"
  shows "map_of (fill_props f) k =
      (if has_own options k \<and> k \<notin> set need \<and> passed raw k \<noteq> None then passed raw k else map_of props k)"
    and "map_of (rawCastValues f) k = (if has_own options k \<and> k \<in> set need then passed raw k else None)"
    and "map_of (fill_attrs f) = map_of attrs ++ map_of (rev (filter (\<lambda>(key, v). is_attr i key) raw))"
proof -
  have "map_of (fill_props f) k =
      (if has_own options k \<and> k \<notin> set need \<and> passed raw k \<noteq> None then passed raw k else map_of props k) \<and>
    map_of (rawCastValues f) k = (if has_own options k \<and> k \<in> set need then passed raw k else None) \<and>
    map_of (fill_attrs f) = map_of attrs ++ map_of (rev (filter (\<lambda>(key, v). is_attr i key) raw))"
    unfolding f_def
  proof (induction raw rule: rev_induct)
    case Nil
    then show ?case by (simp add: f0 passed_def)
  next
    case (snoc kv raw)
    obtain key v where kv: "kv = (key, v)" by (cases kv)
    have d: "declared i = options" by (simp add: declared_def opts)
    define g where "g = fold (set_raw i) raw f0"
    note ih = snoc [folded g_def] and sr = set_raw_cases [OF opts, of key]
    have st: "fold (set_raw i) (raw @ [kv]) f0 = set_raw i (key, v) g" by (simp add: g_def kv)
    consider "isReservedProp key" | "\<not> isReservedProp key" "has_own options (camelize key)" "camelize key \<notin> set need"
      | "\<not> isReservedProp key" "has_own options (camelize key)" "camelize key \<in> set need"
      | "\<not> isReservedProp key" "\<not> has_own options (camelize key)" by blast
    then show ?case
    proof cases
      case 1
      have "\<not> is_attr i key" using 1 by (simp add: is_attr_def)
      then show ?thesis unfolding st using ih 1 by (auto simp: kv sr(1) passed_snoc)
    next
      case 2
      have "\<not> is_attr i key" using 2 by (simp add: is_attr_def d)
      then show ?thesis unfolding st using ih 2 by (auto simp: kv sr(2) passed_snoc)
    next
      case 3
      have "\<not> is_attr i key" using 3 by (simp add: is_attr_def d)
      then show ?thesis unfolding st using ih 3 by (auto simp: kv sr(3) passed_snoc)
    next
      case 4
      then show ?thesis unfolding st using ih sr(4) [of v g] by (auto simp: kv passed_snoc)
    qed
  qed
  then show "map_of (fill_props f) k =
      (if has_own options k \<and> k \<notin> set need \<and> passed raw k \<noteq> None then passed raw k else map_of props k)"
    and "map_of (rawCastValues f) k = (if has_own options k \<and> k \<in> set need then passed raw k else None)"
    and "map_of (fill_attrs f) = map_of attrs ++ map_of (rev (filter (\<lambda>(key, v). is_attr i key) raw))" by blast+
qed

text \<open>The loop over the props that are cast or have defaults.\<close>

lemma cast_all:
  assumes "set need \<subseteq> dom (map_of options)"
  shows "cast_props options cast need (props, defaults) = (props', defaults') \<Longrightarrow>
    map_of defaults \<subseteq>\<^sub>m map_of defaults' \<and>
    (\<forall>k. k \<notin> set need \<longrightarrow> map_of props' k = map_of props k) \<and>
    (\<forall>k \<in> set need. map_of props' k = Some (prop_result (the (map_of options k)) k (map_of cast k) defaults') \<and>
       (makes_default (the (map_of options k)) \<and> (map_of cast k = None \<or> map_of cast k = Some VUndef) \<longrightarrow> has_own defaults' k))"
  using assms
proof (induction need arbitrary: props defaults)
  case (Cons key need)
  obtain opt where opt: "map_of options key = Some opt" using Cons.prems(2) by auto
  obtain v d1 where r: "resolvePropValue options props key (value_of cast key) (\<not> has_own cast key) defaults = (v, d1)" by force
  have c: "cast_props options cast need (set_key props key v, d1) = (props', defaults')"
    using Cons.prems(1) r by simp
  have ih: "map_of d1 \<subseteq>\<^sub>m map_of defaults'" "\<And>k. k \<notin> set need \<Longrightarrow> map_of props' k = map_of (set_key props key v) k"
    "\<And>k. k \<in> set need \<Longrightarrow> map_of props' k = Some (prop_result (the (map_of options k)) k (map_of cast k) defaults') \<and>
       (makes_default (the (map_of options k)) \<and> (map_of cast k = None \<or> map_of cast k = Some VUndef) \<longrightarrow> has_own defaults' k)"
    using Cons.IH [OF c] Cons.prems(2) by auto
  have g: "(if \<not> has_own cast key then None else Some (value_of cast key)) = map_of cast key"
    and u: "value_of cast key = VUndef \<longleftrightarrow> map_of cast key = None \<or> map_of cast key = Some VUndef"
    and ab: "\<not> has_own cast key \<Longrightarrow> value_of cast key = VUndef"
    by (auto simp: has_own_def value_of_def split: option.splits)
  note res = resolve_result [OF opt ab r, unfolded g u]
  have pr: "prop_result opt key (map_of cast key) defaults' = v"
    using prop_result_mono [OF ih(1), of opt "map_of cast key" key] res by simp
  have cached: "makes_default opt \<and> (map_of cast key = None \<or> map_of cast key = Some VUndef) \<longrightarrow> has_own defaults' key"
    using res(2) has_own_mono [OF ih(1)] by blast
  have "map_of props' key = Some v"
    using ih(2,3) [of key] opt pr by (cases "key \<in> set need") auto
  moreover have "map_of defaults \<subseteq>\<^sub>m map_of defaults'" by (rule map_le_trans [OF res(3) ih(1)])
  moreover have "map_of props' k = map_of props k" if "k \<notin> set (key # need)" for k using ih(2) [of k] that by simp
  ultimately show ?case using ih(3) opt pr cached by simp
qed simp

lemma plain_result:
  assumes "\<not> should_cast opt" "prop_default opt = None"
  shows "prop_result opt key given defaults = (case given of None \<Rightarrow> VUndef | Some v \<Rightarrow> v)" "\<not> makes_default opt"
  using assms by (auto simp: prop_result_def default_of_def makes_default_def split: option.split)

text \<open>
  What \<open>setFullProps\<close> does: every prop that is passed, cast or has a default is what it should be,
  the others are as before.
\<close>

lemma setFull_some:
  assumes ok: "options_ok i" and opts: "propsOptions i = Some (options, need)"
    and s: "setFullProps (Some raw) i = (b, i')"
  shows "\<exists>ps as ds. i' = i\<lparr>inst_props := ps, inst_attrs := as, propsDefaults := ds\<rparr>"
    and "map_of (propsDefaults i) \<subseteq>\<^sub>m map_of (propsDefaults i')"
    and "map_of (inst_attrs i') = map_of (inst_attrs i) ++ map_of (rev (filter (\<lambda>(key, v). is_attr i key) raw))"
    and "\<And>k. map_of options k = None \<Longrightarrow> map_of (inst_props i') k = map_of (inst_props i) k"
    and "\<And>k opt. map_of options k = Some opt \<Longrightarrow> k \<notin> set need \<Longrightarrow>
      map_of (inst_props i') k = (case passed raw k of None \<Rightarrow> map_of (inst_props i) k | Some v \<Rightarrow> Some v)"
    and "\<And>k opt. map_of options k = Some opt \<Longrightarrow> k \<in> set need \<Longrightarrow> prop_follows raw i' k opt"
proof -
  let ?f0 = "\<lparr>fill_props = inst_props i, fill_attrs = inst_attrs i, rawCastValues = [], hasAttrsChanged = False\<rparr>"
  let ?f = "fold (set_raw i) raw ?f0"
  obtain ps ds where c: "cast_props options (rawCastValues ?f) need (fill_props ?f, propsDefaults i) = (ps, ds)" by force
  have i': "i' = i\<lparr>inst_props := ps, inst_attrs := fill_attrs ?f, propsDefaults := ds\<rparr>"
    using s c by (simp add: setFullProps_def opts Let_def)
  have sub: "set need \<subseteq> dom (map_of options)" using ok opts by (simp add: options_ok_def dom_map_of_conv_image_fst)
  have f: "\<And>k. map_of (fill_props ?f) k = (if has_own options k \<and> k \<notin> set need \<and> passed raw k \<noteq> None then passed raw k else map_of (inst_props i) k)"
    "\<And>k. map_of (rawCastValues ?f) k = (if has_own options k \<and> k \<in> set need then passed raw k else None)"
    "map_of (fill_attrs ?f) = map_of (inst_attrs i) ++ map_of (rev (filter (\<lambda>(key, v). is_attr i key) raw))"
    by (rule fill_raw [OF opts refl])+
  have ca: "map_of (propsDefaults i) \<subseteq>\<^sub>m map_of ds" "\<And>k. k \<notin> set need \<Longrightarrow> map_of ps k = map_of (fill_props ?f) k"
    "\<And>k. k \<in> set need \<Longrightarrow> map_of ps k = Some (prop_result (the (map_of options k)) k (map_of (rawCastValues ?f) k) ds) \<and>
       (makes_default (the (map_of options k)) \<and> (map_of (rawCastValues ?f) k = None \<or> map_of (rawCastValues ?f) k = Some VUndef) \<longrightarrow> has_own ds k)"
    using cast_all [OF sub c] by simp_all
  show "\<exists>ps as ds. i' = i\<lparr>inst_props := ps, inst_attrs := as, propsDefaults := ds\<rparr>" using i' by blast
  show "map_of (propsDefaults i) \<subseteq>\<^sub>m map_of (propsDefaults i')" using ca(1) i' by simp
  show "map_of (inst_attrs i') = map_of (inst_attrs i) ++ map_of (rev (filter (\<lambda>(key, v). is_attr i key) raw))"
    using f(3) i' by simp
  show "map_of (inst_props i') k = map_of (inst_props i) k" if "map_of options k = None" for k
  proof -
    have "k \<notin> set need" using sub that by auto
    then show ?thesis using ca(2) f(1) i' that by (simp add: has_own_def)
  qed
  show "map_of (inst_props i') k = (case passed raw k of None \<Rightarrow> map_of (inst_props i) k | Some v \<Rightarrow> Some v)"
    if "map_of options k = Some opt" "k \<notin> set need" for k opt
    using ca(2) [OF that(2)] f(1) [of k] that i' by (simp add: has_own_def split: option.split)
  show "prop_follows raw i' k opt" if "map_of options k = Some opt" "k \<in> set need" for k opt
    using ca(3) [OF that(2)] f(2) [of k] that i' by (simp add: prop_follows_def has_own_def)
qed

text \<open>A component without options is like one with no declared props.\<close>

definition needs :: "comp_instance \<Rightarrow> string list" where
  "needs i = (case propsOptions i of None \<Rightarrow> [] | Some (_, need) \<Rightarrow> need)"

lemma set_raw_none:
  "propsOptions i = None \<Longrightarrow> set_raw i = set_raw (i\<lparr>propsOptions := Some ([], [])\<rparr>)"
  by (auto simp: set_raw_def fun_eq_iff has_own_def Let_def)

lemma setFull_none:
  assumes "propsOptions i = None"
  shows "setFullProps raw (i\<lparr>propsOptions := Some ([], [])\<rparr>) = map_prod id (\<lambda>i'. i'\<lparr>propsOptions := Some ([], [])\<rparr>) (setFullProps raw i)"
  using assms by (cases i) (simp add: setFullProps_def set_raw_none Let_def split: prod.split)

lemma declared_none: "propsOptions i = None \<Longrightarrow> declared (i\<lparr>propsOptions := Some ([], [])\<rparr>) = declared i"
  by (simp add: declared_def)

lemma setFull:
  assumes ok: "options_ok i" and s: "setFullProps (Some raw) i = (b, i')"
  shows "\<exists>ps as ds. i' = i\<lparr>inst_props := ps, inst_attrs := as, propsDefaults := ds\<rparr>"
    and "map_of (propsDefaults i) \<subseteq>\<^sub>m map_of (propsDefaults i')"
    and "map_of (inst_attrs i') = map_of (inst_attrs i) ++ map_of (rev (filter (\<lambda>(key, v). is_attr i key) raw))"
    and "\<And>k. map_of (declared i) k = None \<Longrightarrow> map_of (inst_props i') k = map_of (inst_props i) k"
    and "\<And>k opt. map_of (declared i) k = Some opt \<Longrightarrow> k \<notin> set (needs i) \<Longrightarrow>
      map_of (inst_props i') k = (case passed raw k of None \<Rightarrow> map_of (inst_props i) k | Some v \<Rightarrow> Some v)"
    and "\<And>k opt. map_of (declared i) k = Some opt \<Longrightarrow> k \<in> set (needs i) \<Longrightarrow> prop_follows raw i' k opt"
proof -
  have goal: "(\<exists>ps as ds. i' = i\<lparr>inst_props := ps, inst_attrs := as, propsDefaults := ds\<rparr>) \<and>
    map_of (propsDefaults i) \<subseteq>\<^sub>m map_of (propsDefaults i') \<and>
    map_of (inst_attrs i') = map_of (inst_attrs i) ++ map_of (rev (filter (\<lambda>(key, v). is_attr i key) raw)) \<and>
    (\<forall>k. map_of (declared i) k = None \<longrightarrow> map_of (inst_props i') k = map_of (inst_props i) k) \<and>
    (\<forall>k opt. map_of (declared i) k = Some opt \<longrightarrow> k \<notin> set (needs i) \<longrightarrow>
      map_of (inst_props i') k = (case passed raw k of None \<Rightarrow> map_of (inst_props i) k | Some v \<Rightarrow> Some v)) \<and>
    (\<forall>k opt. map_of (declared i) k = Some opt \<longrightarrow> k \<in> set (needs i) \<longrightarrow> prop_follows raw i' k opt)"
  proof (cases "propsOptions i")
    case (Some on)
    obtain options need where on: "on = (options, need)" by (cases on)
    have d: "declared i = options" "needs i = need" using Some on by (simp_all add: declared_def needs_def)
    note sf = setFull_some [OF ok _ s, of options need, unfolded Some on, OF refl]
    show ?thesis unfolding d using sf by simp
  next
    case None
    let ?j = "i\<lparr>propsOptions := Some ([], [])\<rparr>"
    have ok': "options_ok ?j" by (simp add: options_ok_def)
    have "setFullProps (Some raw) ?j = (b, i'\<lparr>propsOptions := Some ([], [])\<rparr>)"
      using setFull_none [OF None, of "Some raw"] s by simp
    note sf = setFull_some [OF ok' _ this, of "[]" "[]"]
    have at: "is_attr ?j = is_attr i" by (simp add: is_attr_def declared_def None fun_eq_iff)
    have d: "declared i = []" using None by (simp add: declared_def)
    have pi: "propsOptions i' = None" using s None by (auto simp: setFullProps_def Let_def split: prod.splits)
    obtain ps as ds where "i'\<lparr>propsOptions := Some ([], [])\<rparr> = ?j\<lparr>inst_props := ps, inst_attrs := as, propsDefaults := ds\<rparr>"
      using sf(1) by auto
    then have "i' = i\<lparr>inst_props := ps, inst_attrs := as, propsDefaults := ds\<rparr>"
      using pi None by (cases i; cases i') simp
    then show ?thesis unfolding d using sf(2-4) at by auto
  qed
  then show "\<exists>ps as ds. i' = i\<lparr>inst_props := ps, inst_attrs := as, propsDefaults := ds\<rparr>"
    and "map_of (propsDefaults i) \<subseteq>\<^sub>m map_of (propsDefaults i')"
    and "map_of (inst_attrs i') = map_of (inst_attrs i) ++ map_of (rev (filter (\<lambda>(key, v). is_attr i key) raw))"
    and "\<And>k. map_of (declared i) k = None \<Longrightarrow> map_of (inst_props i') k = map_of (inst_props i) k"
    and "\<And>k opt. map_of (declared i) k = Some opt \<Longrightarrow> k \<notin> set (needs i) \<Longrightarrow>
      map_of (inst_props i') k = (case passed raw k of None \<Rightarrow> map_of (inst_props i) k | Some v \<Rightarrow> Some v)"
    and "\<And>k opt. map_of (declared i) k = Some opt \<Longrightarrow> k \<in> set (needs i) \<Longrightarrow> prop_follows raw i' k opt"
    by blast+
qed

text \<open>The same names, options and events.\<close>

definition same_kind :: "comp_instance \<Rightarrow> comp_instance \<Rightarrow> bool" where
  "same_kind i i' \<longleftrightarrow> propsOptions i' = propsOptions i \<and> emitsOptions i' = emitsOptions i"

lemma same_kindD:
  assumes "same_kind i i'"
  shows "declared i' = declared i" "needs i' = needs i" "is_attr i' = is_attr i" "options_ok i' = options_ok i"
    "raw_ok i' = raw_ok i"
  using assms by (simp_all add: same_kind_def declared_def needs_def is_attr_def options_ok_def raw_ok_def fun_eq_iff)

lemma needs_iff:
  assumes "options_ok i" "map_of (declared i) k = Some opt"
  shows "k \<in> set (needs i) \<longleftrightarrow> should_cast opt \<or> prop_default opt \<noteq> None"
    "camelize k = k" "camelize (hyphenate k) = k" "\<not> isReservedProp k" "\<not> isReservedProp (hyphenate k)"
  using assms by (auto simp: options_ok_def declared_def needs_def split: option.splits)

lemma map_of_fill_missing:
  "map_of (fill_missing ks props) k = (if k \<in> set ks \<and> map_of props k = None then Some VUndef else map_of props k)"
  by (induction ks arbitrary: props) (auto simp: has_own_def)

lemma map_of_rev_filter: "distinct (map fst xs) \<Longrightarrow> map_of (rev (filter P xs)) = map_of (filter P xs)"
proof (induction xs)
  case (Cons x xs)
  then have "map_of (filter P xs) (fst x) = None" by (auto simp: map_of_eq_None_iff)
  with Cons show ?case by (cases x) (auto simp: fun_eq_iff map_add_def split: option.split)
qed simp

lemma initProps_follows:
  assumes ok: "options_ok i" and raw: "raw_ok i raw"
  shows "follows raw (initProps (Some raw) i)" "same_kind i (initProps (Some raw) i)"
proof -
  let ?j = "i\<lparr>inst_props := [], inst_attrs := [], propsDefaults := []\<rparr>"
  have kj: "same_kind i ?j" by (simp add: same_kind_def)
  note k = same_kindD [OF kj]
  obtain b i1 where s: "setFullProps (Some raw) ?j = (b, i1)" by force
  have okj: "options_ok ?j" using ok k by simp
  note sf = setFull [OF okj s, unfolded k]
  obtain ps as ds where i1: "i1 = ?j\<lparr>inst_props := ps, inst_attrs := as, propsDefaults := ds\<rparr>" using sf(1) by blast
  let ?ps = "fill_missing (map fst (declared i)) ps"
  have i': "initProps (Some raw) i = i1\<lparr>inst_props := ?ps\<rparr>"
    using s i1 by (simp add: initProps_def declared_def split: option.split)
  show kind: "same_kind i (initProps (Some raw) i)" by (simp add: i' i1 same_kind_def)
  note k' = same_kindD [OF kind]
  have out: "map_of ps k = None" if "map_of (declared i) k = None" for k using sf(4) [OF that] by (simp add: i1)
  have fill: "map_of ?ps k = (if map_of (declared i) k \<noteq> None \<and> map_of ps k = None then Some VUndef else map_of ps k)" for k
    by (simp add: map_of_fill_missing map_of_eq_None_iff)
  have "prop_follows raw (initProps (Some raw) i) k opt" if o: "map_of (declared i) k = Some opt" for k opt
  proof (cases "k \<in> set (needs i)")
    case True
    then show ?thesis using sf(6) [OF o] o by (simp add: prop_follows_def i' i1 fill)
  next
    case False
    then have pl: "\<not> should_cast opt" "prop_default opt = None" using needs_iff(1) [OF ok o] by auto
    show ?thesis using sf(5) [OF o False] o plain_result [OF pl]
      by (simp add: prop_follows_def i' i1 fill split: option.splits)
  qed
  moreover have "dom (map_of (inst_props (initProps (Some raw) i))) = dom (map_of (declared i))"
    using out by (auto simp: i' i1 dom_def fill split: if_splits)
  moreover have "map_of (inst_attrs (initProps (Some raw) i)) = map_of (filter (\<lambda>(key, v). is_attr i key) raw)"
    using sf(3) map_of_rev_filter [of raw] raw by (simp add: i' i1 raw_ok_def)
  ultimately show "follows raw (initProps (Some raw) i)" unfolding follows_def k' by blast
qed

section \<open>Full updates\<close>

text \<open>The reset of one prop, in an update with some passed values.\<close>

lemma reset_one:
  fixes raw prev :: vobj
  assumes ok: "options_ok i" and rok: "raw_ok i raw" and o: "map_of (declared i) k = Some opt"
  defines "i' \<equiv> reset_prop (Some raw) (Some prev) k i"
  shows "same_kind i i'" "inst_attrs i' = inst_attrs i" "map_of (propsDefaults i) \<subseteq>\<^sub>m map_of (propsDefaults i')"
    "\<And>k'. k' \<noteq> k \<Longrightarrow> map_of (inst_props i') k' = map_of (inst_props i) k'"
    "i' = i \<or> passed raw k = None \<and> prop_follows raw i' k opt"
    "passed raw k = None \<Longrightarrow> value_of prev k \<noteq> VUndef \<or> value_of prev (hyphenate k) \<noteq> VUndef \<Longrightarrow> prop_follows raw i' k opt"
proof -
  obtain options need where po: "propsOptions i = Some (options, need)" "map_of options k = Some opt"
    using o by (auto simp: declared_def split: option.splits)
  note n = needs_iff [OF ok o]
  let ?gone = "\<not> has_own raw k \<and> (hyphenate k = k \<or> \<not> has_own raw (hyphenate k))"
  let ?old = "value_of prev k \<noteq> VUndef \<or> value_of prev (hyphenate k) \<noteq> VUndef"
  have gone: "passed raw k = None \<longleftrightarrow> ?gone"
  proof
    assume "passed raw k = None"
    then show ?gone using n by (auto simp: passed_None has_own_def map_of_eq_None_iff)
  next
    assume g: ?gone
    show "passed raw k = None" unfolding passed_None
    proof (intro ballI impI)
      fix key assume key: "key \<in> fst ` set raw" "camelize key = k"
      then have "key = k \<or> key = hyphenate k" using rok o by (auto simp: raw_ok_def has_own_def)
      moreover have "has_own raw key" using key(1) by (auto simp: has_own_def map_of_eq_None_iff)
      ultimately show "isReservedProp key" using g by metis
    qed
  qed
  obtain v ds where r: "resolvePropValue options (inst_props i) k VUndef True (propsDefaults i) = (v, ds)" by force
  have eq: "i' = (if ?gone \<and> ?old then i\<lparr>inst_props := set_key (inst_props i) k v, propsDefaults := ds\<rparr> else i)"
    using r by (simp add: i'_def reset_prop_def po Let_def)
  note res = resolve_result [OF po(2) _ r]
  show "same_kind i i'" "inst_attrs i' = inst_attrs i" by (simp_all add: eq same_kind_def)
  show "map_of (propsDefaults i) \<subseteq>\<^sub>m map_of (propsDefaults i')" using res(3) by (simp add: eq)
  show "map_of (inst_props i') k' = map_of (inst_props i) k'" if "k' \<noteq> k" for k' using that by (simp add: eq)
  have f: "prop_follows raw i' k opt" if "passed raw k = None" ?old
    using that gone res(1,2) by (simp add: eq prop_follows_def)
  then show "passed raw k = None \<Longrightarrow> ?old \<Longrightarrow> prop_follows raw i' k opt" .
  show "i' = i \<or> passed raw k = None \<and> prop_follows raw i' k opt" using f gone by (auto simp: eq)
qed

text \<open>The loop: what it has not come to is as before.\<close>

lemma reset_all:
  fixes raw prev :: vobj
  assumes "options_ok i" "raw_ok i raw" "set ks \<subseteq> dom (map_of (declared i))"
  shows "same_kind i (fold (reset_prop (Some raw) (Some prev)) ks i) \<and>
    inst_attrs (fold (reset_prop (Some raw) (Some prev)) ks i) = inst_attrs i \<and>
    map_of (propsDefaults i) \<subseteq>\<^sub>m map_of (propsDefaults (fold (reset_prop (Some raw) (Some prev)) ks i)) \<and>
    (\<forall>k. k \<notin> set ks \<longrightarrow> map_of (inst_props (fold (reset_prop (Some raw) (Some prev)) ks i)) k = map_of (inst_props i) k) \<and>
    (\<forall>k opt. map_of (declared i) k = Some opt \<longrightarrow>
       prop_follows raw i k opt \<or>
       k \<in> set ks \<and> passed raw k = None \<and> (value_of prev k \<noteq> VUndef \<or> value_of prev (hyphenate k) \<noteq> VUndef) \<longrightarrow>
       prop_follows raw (fold (reset_prop (Some raw) (Some prev)) ks i) k opt)"
  using assms
proof (induction ks arbitrary: i)
  case Nil
  then show ?case by (simp add: same_kind_def)
next
  case (Cons key ks)
  obtain opt0 where o0: "map_of (declared i) key = Some opt0" using Cons.prems(3) by auto
  let ?j = "reset_prop (Some raw) (Some prev) key i"
  let ?i' = "fold (reset_prop (Some raw) (Some prev)) ks ?j"
  note one = reset_one [OF Cons.prems(1,2) o0, where prev = prev]
  note kd = same_kindD [OF one(1)]
  have ih: "same_kind ?j ?i'" "inst_attrs ?i' = inst_attrs ?j" "map_of (propsDefaults ?j) \<subseteq>\<^sub>m map_of (propsDefaults ?i')"
    "\<And>k. k \<notin> set ks \<Longrightarrow> map_of (inst_props ?i') k = map_of (inst_props ?j) k"
    "\<And>k opt. map_of (declared i) k = Some opt \<Longrightarrow> prop_follows raw ?j k opt \<or>
       k \<in> set ks \<and> passed raw k = None \<and> (value_of prev k \<noteq> VUndef \<or> value_of prev (hyphenate k) \<noteq> VUndef) \<Longrightarrow>
       prop_follows raw ?i' k opt"
    using Cons.IH [of ?j] Cons.prems kd by auto
  have keep: "prop_follows raw ?j k opt" if "map_of (declared i) k = Some opt" "prop_follows raw i k opt" for k opt
  proof (cases "k = key")
    case True
    then show ?thesis using one(5) that o0 by auto
  next
    case False
    then show ?thesis using that(2) one(4) [OF False] prop_result_mono [OF one(3)] has_own_mono [OF one(3)]
      unfolding prop_follows_def by metis
  qed
  have "same_kind i ?i'" using one(1) ih(1) by (simp add: same_kind_def)
  moreover have "map_of (propsDefaults i) \<subseteq>\<^sub>m map_of (propsDefaults ?i')" by (rule map_le_trans [OF one(3) ih(3)])
  moreover have "map_of (inst_props ?i') k = map_of (inst_props i) k" if "k \<notin> set (key # ks)" for k
    using ih(4) one(4) that by simp
  moreover have "prop_follows raw ?i' k opt" if "map_of (declared i) k = Some opt"
    "prop_follows raw i k opt \<or>
       k \<in> set (key # ks) \<and> passed raw k = None \<and> (value_of prev k \<noteq> VUndef \<or> value_of prev (hyphenate k) \<noteq> VUndef)" for k opt
    using ih(5) [OF that(1)] keep [OF that(1)] one(6) that o0 by auto
  ultimately show ?case using ih(2) one(2) by (simp only: fold_Cons comp_apply) blast
qed

lemma map_of_delete_all: "map_of (fold AList.delete ks al) = map_of al |` (- set ks)"
proof (induction ks arbitrary: al)
  case (Cons k ks)
  then show ?case by (auto simp: delete_conv' restrict_map_def fun_eq_iff)
qed (simp add: fun_eq_iff)

lemma passed_prev:
  assumes "options_ok i" "raw_ok i prev" "map_of (declared i) k = Some opt" "passed prev k = Some v" "v \<noteq> VUndef"
  shows "value_of prev k \<noteq> VUndef \<or> value_of prev (hyphenate k) \<noteq> VUndef"
proof -
  obtain key where key: "(key, v) \<in> set prev" "camelize key = k" using passed_Some [OF assms(4)] by blast
  then have "key \<in> fst ` set prev" by force
  then have "key = k \<or> key = hyphenate k" using assms(2,3) key(2) by (auto simp: raw_ok_def has_own_def)
  moreover have "map_of prev key = Some v" using key(1) assms(2) by (simp add: raw_ok_def)
  ultimately show ?thesis using assms(5) by (auto simp: value_of_def)
qed

lemma full_update_follows:
  assumes ok: "options_ok i" and prev: "raw_ok i prev" "follows prev i" and raw: "raw_ok i raw"
  shows "follows raw (snd (full_update (Some raw) (Some prev) i))" "same_kind i (snd (full_update (Some raw) (Some prev) i))"
proof -
  obtain b i1 where s: "setFullProps (Some raw) i = (b, i1)" by force
  note sf = setFull [OF ok s]
  have k1: "same_kind i i1" using sf(1) by (auto simp: same_kind_def)
  note kd1 = same_kindD [OF k1]
  let ?i2 = "fold (reset_prop (Some raw) (Some prev)) (map fst (inst_props i1)) i1"
  let ?gone = "gone_attrs (Some raw) (inst_attrs ?i2)"
  let ?i3 = "?i2\<lparr>inst_attrs := fold AList.delete ?gone (inst_attrs ?i2)\<rparr>"
  have eq: "snd (full_update (Some raw) (Some prev) i) = ?i3" by (simp add: full_update_def s Let_def)
  have old: "\<And>k opt. map_of (declared i) k = Some opt \<Longrightarrow> prop_follows prev i k opt"
    "dom (map_of (inst_props i)) = dom (map_of (declared i))"
    "map_of (inst_attrs i) = map_of (filter (\<lambda>(key, v). is_attr i key) prev)"
    using prev(2) by (auto simp: follows_def)
  have dom1: "dom (map_of (inst_props i1)) = dom (map_of (declared i))"
  proof (rule set_eqI)
    fix k
    show "k \<in> dom (map_of (inst_props i1)) \<longleftrightarrow> k \<in> dom (map_of (declared i))"
    proof (cases "map_of (declared i) k")
      case None
      then show ?thesis using sf(4) [OF None] old(2) by (metis domIff)
    next
      case (Some opt)
      then have "map_of (inst_props i) k \<noteq> None" using old(2) by (metis domIff option.distinct(1))
      then have "map_of (inst_props i1) k \<noteq> None"
        using sf(5) [OF Some] sf(6) [OF Some] by (cases "k \<in> set (needs i)") (auto simp: prop_follows_def split: option.splits)
      then show ?thesis using Some by (auto simp: dom_def)
    qed
  qed
  have ks: "set (map fst (inst_props i1)) = dom (map_of (declared i))" using dom1 by (simp add: dom_map_of_conv_image_fst)
  have "options_ok i1" "raw_ok i1 raw" "set (map fst (inst_props i1)) \<subseteq> dom (map_of (declared i1))"
    using ok raw ks by (simp_all add: kd1)
  note ra = reset_all [OF this, where prev = prev]
  have r: "same_kind i1 ?i2" "inst_attrs ?i2 = inst_attrs i1"
    "\<And>k. k \<notin> dom (map_of (declared i)) \<Longrightarrow> map_of (inst_props ?i2) k = map_of (inst_props i1) k"
    "\<And>k opt. map_of (declared i) k = Some opt \<Longrightarrow> prop_follows raw i1 k opt \<or>
       passed raw k = None \<and> (value_of prev k \<noteq> VUndef \<or> value_of prev (hyphenate k) \<noteq> VUndef) \<Longrightarrow>
       prop_follows raw ?i2 k opt"
    using ra unfolding ks kd1 by blast+
  show k3: "same_kind i (snd (full_update (Some raw) (Some prev) i))" unfolding eq using k1 r(1) by (simp add: same_kind_def)
  have fol: "prop_follows raw ?i2 k opt" if o: "map_of (declared i) k = Some opt" for k opt
  proof (cases "k \<in> set (needs i)")
    case True
    then show ?thesis using sf(6) [OF o] r(4) [OF o] by blast
  next
    case False
    then have pl: "\<not> should_cast opt" "prop_default opt = None" using needs_iff(1) [OF ok o] by auto
    note pr = plain_result [OF pl]
    have was: "map_of (inst_props i) k = Some (case passed prev k of None \<Rightarrow> VUndef | Some v \<Rightarrow> v)"
      using old(1) [OF o] by (simp add: prop_follows_def pr)
    show ?thesis
    proof (cases "passed raw k = None \<and> (value_of prev k \<noteq> VUndef \<or> value_of prev (hyphenate k) \<noteq> VUndef)")
      case True
      then show ?thesis using r(4) [OF o] by blast
    next
      case no: False
      have "passed prev k = None \<or> passed prev k = Some VUndef" if "passed raw k = None"
        using passed_prev [OF ok prev(1) o] no that by (cases "passed prev k") auto
      then have "prop_follows raw i1 k opt"
        using sf(5) [OF o False] was pr by (auto simp: prop_follows_def split: option.splits)
      then show ?thesis using r(4) [OF o] by blast
    qed
  qed
  have "dom (map_of (inst_props ?i2)) = dom (map_of (declared i))"
  proof (rule set_eqI)
    fix k
    show "k \<in> dom (map_of (inst_props ?i2)) \<longleftrightarrow> k \<in> dom (map_of (declared i))"
    proof (cases "map_of (declared i) k")
      case None
      then have "k \<notin> dom (map_of (inst_props i1))" using dom1 by (simp add: domIff)
      then show ?thesis using r(3) [of k] None by (simp add: domIff)
    next
      case (Some opt)
      then show ?thesis using fol [OF Some] by (simp add: prop_follows_def domIff)
    qed
  qed
  moreover have "map_of (fold AList.delete ?gone (inst_attrs ?i2)) = map_of (filter (\<lambda>(key, v). is_attr i key) raw)"
  proof
    fix key
    have at: "map_of (inst_attrs i1) = map_of (filter (\<lambda>(key, v). is_attr i key) prev) ++ map_of (filter (\<lambda>(key, v). is_attr i key) raw)"
      using sf(3) old(3) map_of_rev_filter [of raw] raw by (simp add: raw_ok_def)
    have flt: "map_of (filter (\<lambda>(key, v). is_attr i key) xs) key = (if is_attr i key then map_of xs key else None)" for xs :: vobj
      by (induction xs) auto
    show "map_of (fold AList.delete ?gone (inst_attrs ?i2)) key = map_of (filter (\<lambda>(key, v). is_attr i key) raw) key"
    proof (cases "has_own raw key")
      case True
      then have "key \<notin> set ?gone" by (simp add: gone_attrs_def)
      then show ?thesis using True by (auto simp: map_of_delete_all r(2) at flt has_own_def map_add_def)
    next
      case False
      then have none: "map_of raw key = None" by (simp add: has_own_def)
      show ?thesis
      proof (cases "map_of (inst_attrs ?i2) key")
        case None
        then show ?thesis using none by (simp add: map_of_delete_all restrict_map_def flt)
      next
        case (Some v)
        then have "key \<in> set ?gone" using False by (force simp: gone_attrs_def dest: map_of_SomeD)
        then show ?thesis using none by (simp add: map_of_delete_all flt)
      qed
    qed
  qed
  ultimately show "follows raw (snd (full_update (Some raw) (Some prev) i))"
    unfolding follows_def same_kindD [OF k3] unfolding eq using fol by (simp add: prop_follows_def)
qed

section \<open>Updates of dynamic props\<close>

text \<open>
  What the compiler of templates promises for such an update: the same names in the same order,
  other values only under the listed names, no two spellings of the same prop.
\<close>

definition only_dynamic :: "string list \<Rightarrow> vobj \<Rightarrow> vobj \<Rightarrow> bool" where
  "only_dynamic dyn prev raw \<longleftrightarrow>
     map fst raw = map fst prev \<and> set dyn \<subseteq> fst ` set raw \<and> inj_on camelize (fst ` set raw) \<and>
     (\<forall>key \<in> set dyn. \<not> isReservedProp key) \<and>
     (\<forall>key \<in> fst ` set raw. key \<notin> set dyn \<longrightarrow> map_of raw key = map_of prev key)"

definition put :: "string \<Rightarrow> rvalue \<Rightarrow> vobj \<Rightarrow> vobj" where
  "put key v raw = map (\<lambda>(k, x). (k, if k = key then v else x)) raw"

lemma put_keys [simp]: "map fst (put key v raw) = map fst raw" "fst ` set (put key v raw) = fst ` set raw"
proof -
  show "map fst (put key v raw) = map fst raw" by (induction raw) (auto simp: put_def)
  then show "fst ` set (put key v raw) = fst ` set raw" by (metis list.set_map)
qed

lemma map_of_put: "key \<in> fst ` set raw \<Longrightarrow> map_of (put key v raw) = (map_of raw)(key \<mapsto> v)"
proof -
  have other: "map_of (put key v raw) k = map_of raw k" if "k \<noteq> key" for k
    using that by (induction raw) (auto simp: put_def)
  have "map_of (put key v raw) key = Some v" if "key \<in> fst ` set raw"
    using that by (induction raw) (auto simp: put_def)
  then show "key \<in> fst ` set raw \<Longrightarrow> map_of (put key v raw) = (map_of raw)(key \<mapsto> v)" using other by auto
qed

text \<open>Without two spellings of a prop, its passed value is the one of the only entry for it.\<close>

lemma passed_unique:
  assumes d: "distinct (map fst raw)" and inj: "inj_on camelize (fst ` set raw)" and key: "(key, v) \<in> set raw" "\<not> isReservedProp key"
  shows "passed raw (camelize key) = Some v"
proof -
  have "key \<in> fst ` set raw" using key(1) by force
  then have "passed raw (camelize key) \<noteq> None" unfolding passed_None using key(2) by blast
  then obtain x where x: "passed raw (camelize key) = Some x" by blast
  then obtain key' where k': "(key', x) \<in> set raw" "camelize key' = camelize key" using passed_Some by blast
  have "key' = key" using inj_onD [OF inj k'(2)] k'(1) key(1) by force
  then have "x = v" using d k'(1) key(1) by (metis eq_key_imp_eq_value)
  then show ?thesis using x by simp
qed

lemma passed_put:
  assumes d: "distinct (map fst raw)" and inj: "inj_on camelize (fst ` set raw)" and key: "key \<in> fst ` set raw" "\<not> isReservedProp key"
  shows "passed (put key v raw) = (passed raw)(camelize key \<mapsto> v)"
proof
  fix k
  have d': "distinct (map fst (put key v raw))" "inj_on camelize (fst ` set (put key v raw))" using d inj by simp_all
  show "passed (put key v raw) k = ((passed raw)(camelize key \<mapsto> v)) k"
  proof (cases "k = camelize key")
    case True
    have "map_of (put key v raw) key = Some v" using map_of_put [OF key(1)] by simp
    then show ?thesis using passed_unique [OF d' _ key(2)] True by (simp add: map_of_SomeD)
  next
    case False
    have none: "passed (put key v raw) k = None \<longleftrightarrow> passed raw k = None" by (simp add: passed_None del: image_iff)
    show ?thesis
    proof (cases "passed raw k")
      case None
      then show ?thesis using none False by simp
    next
      case (Some x)
      then obtain a where a: "(a, x) \<in> set raw" "camelize a = k" "\<not> isReservedProp a" using passed_Some by blast
      then have "a \<noteq> key" using False by auto
      then have "(a, x) \<in> set (put key v raw)" using a(1) by (force simp: put_def)
      from passed_unique [OF d' this a(3)] show ?thesis using Some a False by simp
    qed
  qed
qed

lemma filter_put:
  "map_of (filter (\<lambda>(k, x). P k) (put key v raw)) =
     (if P key \<and> key \<in> fst ` set raw then (map_of (filter (\<lambda>(k, x). P k) raw))(key \<mapsto> v) else map_of (filter (\<lambda>(k, x). P k) raw))"
proof -
  have flt: "map_of (filter (\<lambda>(k, x). P k) xs) k = (if P k then map_of xs k else None)" for xs :: vobj and k
    by (induction xs) auto
  have no: "put key v raw = raw" if "key \<notin> fst ` set raw"
    using that unfolding put_def by (intro map_idI) force
  show ?thesis
  proof (cases "key \<in> fst ` set raw")
    case True
    then show ?thesis using map_of_put [OF True, of v] by (auto simp: fun_eq_iff flt)
  next
    case False
    then show ?thesis using no by simp
  qed
qed

lemma update_one:
  assumes ok: "options_ok i" and mid: "raw_ok i mid" "follows mid i" "inj_on camelize (fst ` set mid)"
    and key: "key \<in> fst ` set mid" "\<not> isReservedProp key"
  shows "follows (put key (value_of raw key) mid) (snd (update_dynamic raw key (b, i)))"
    "same_kind i (snd (update_dynamic raw key (b, i)))"
proof -
  let ?v = "value_of raw key" and ?k = "camelize key"
  let ?i' = "snd (update_dynamic raw key (b, i))"
  have d: "distinct (map fst mid)" using mid(1) by (simp add: raw_ok_def)
  note pp = passed_put [OF d mid(3) key, of ?v] and fp = filter_put [of "is_attr i" key ?v mid]
  have old: "\<And>k opt. map_of (declared i) k = Some opt \<Longrightarrow> prop_follows mid i k opt"
    "dom (map_of (inst_props i)) = dom (map_of (declared i))"
    "map_of (inst_attrs i) = map_of (filter (\<lambda>(key, v). is_attr i key) mid)"
    using mid(2) by (auto simp: follows_def)
  have has: "has_own (inst_attrs i) key \<longleftrightarrow> is_attr i key"
  proof -
    have "map_of (filter (\<lambda>(k, v). is_attr i k) xs) key = (if is_attr i key then map_of xs key else None)" for xs :: vobj
      by (induction xs) auto
    moreover have "map_of mid key \<noteq> None" using key(1) by (simp add: map_of_eq_None_iff)
    ultimately show ?thesis by (simp add: has_own_def old(3))
  qed
  have goal: "follows (put key ?v mid) ?i' \<and> same_kind i ?i'"
  proof (cases "isEmitListener (emitsOptions i) key")
    case True
    then have i': "?i' = i" by (simp add: update_dynamic_def)
    have nd: "map_of (declared i) ?k = None" using mid(1) key True by (auto simp: raw_ok_def has_own_def)
    have "prop_follows (put key ?v mid) i k opt" if "map_of (declared i) k = Some opt" for k opt
    proof -
      have "k \<noteq> ?k" using that nd by auto
      then show ?thesis using old(1) [OF that] by (simp add: prop_follows_def pp)
    qed
    moreover have "\<not> is_attr i key" using True by (simp add: is_attr_def)
    ultimately show ?thesis unfolding i' follows_def using old(2,3) fp by (simp add: same_kind_def)
  next
    case nl: False
    show ?thesis
    proof (cases "is_attr i key")
      case True
      then have nd: "map_of (declared i) ?k = None" by (simp add: is_attr_def has_own_def)
      have i': "?i' = (if ?v \<noteq> value_of (inst_attrs i) key then i\<lparr>inst_attrs := set_key (inst_attrs i) key ?v\<rparr> else i)"
        using nl has True by (auto simp: update_dynamic_def set_attr_def Let_def split: option.split)
      have at: "map_of (inst_attrs ?i') = (map_of (inst_attrs i))(key \<mapsto> ?v)"
        using set_attr_entry [of "inst_attrs i" key ?v] has True by (auto simp: i' split: if_splits)
      have kd: "same_kind i ?i'" "inst_props ?i' = inst_props i" "propsDefaults ?i' = propsDefaults i" by (simp_all add: i' same_kind_def)
      have "prop_follows (put key ?v mid) ?i' k opt" if "map_of (declared i) k = Some opt" for k opt
      proof -
        have "k \<noteq> ?k" using that nd by auto
        then show ?thesis using old(1) [OF that] by (simp add: prop_follows_def pp kd)
      qed
      then show ?thesis unfolding follows_def same_kindD [OF kd(1)] using kd old(2,3) fp True key(1) at by simp
    next
      case False
      then obtain opt where opt: "map_of (declared i) ?k = Some opt" using nl key(2) by (auto simp: is_attr_def has_own_def)
      then obtain options need where po: "propsOptions i = Some (options, need)" "map_of options ?k = Some opt"
        by (auto simp: declared_def split: option.splits)
      obtain v ds where r: "resolvePropValue options (inst_props i) ?k ?v False (propsDefaults i) = (v, ds)" by force
      have i': "?i' = i\<lparr>inst_props := set_key (inst_props i) ?k v, propsDefaults := ds\<rparr>"
        using nl has False po r by (simp add: update_dynamic_def Let_def)
      have kd: "same_kind i ?i'" by (simp add: i' same_kind_def)
      note res = resolve_result [OF po(2) _ r, simplified]
      have "prop_follows (put key ?v mid) ?i' k o'" if o': "map_of (declared i) k = Some o'" for k o'
      proof (cases "k = ?k")
        case True
        then show ?thesis using res(1,2) o' opt by (simp add: prop_follows_def i' pp)
      next
        case False
        then show ?thesis using old(1) [OF o'] prop_result_mono [OF res(3), of o' "passed mid k" k] has_own_mono [OF res(3), of k]
          by (auto simp: prop_follows_def i' pp)
      qed
      moreover have "dom (map_of (inst_props ?i')) = dom (map_of (declared i))" using old(2) opt by (auto simp: i')
      ultimately show ?thesis unfolding follows_def same_kindD [OF kd] using kd old(3) fp False by (simp add: i')
    qed
  qed
  then show "follows (put key ?v mid) ?i'" "same_kind i ?i'" by blast+
qed

lemma update_many:
  assumes "options_ok i" "raw_ok i mid" "follows mid i" "inj_on camelize (fst ` set mid)"
    and "set ds \<subseteq> fst ` set mid" "\<forall>key \<in> set ds. \<not> isReservedProp key"
  shows "follows (fold (\<lambda>key. put key (value_of raw key)) ds mid) (snd (fold (update_dynamic raw) ds (b, i))) \<and>
    same_kind i (snd (fold (update_dynamic raw) ds (b, i)))"
  using assms
proof (induction ds arbitrary: i mid b)
  case Nil
  then show ?case by (simp add: same_kind_def)
next
  case (Cons key ds)
  obtain b' j where j: "update_dynamic raw key (b, i) = (b', j)" by force
  have key: "key \<in> fst ` set mid" "\<not> isReservedProp key" using Cons.prems(5,6) by auto
  note one = update_one [OF Cons.prems(1-4) key, of raw b, unfolded j snd_conv]
  let ?mid = "put key (value_of raw key) mid"
  have "follows (fold (\<lambda>key. put key (value_of raw key)) ds ?mid) (snd (fold (update_dynamic raw) ds (b', j))) \<and>
      same_kind j (snd (fold (update_dynamic raw) ds (b', j)))"
    using Cons.prems one same_kindD [OF one(2)]
    by (intro Cons.IH) (auto simp: raw_ok_def simp del: image_iff)
  then show ?case using one(2) j by (simp add: same_kind_def)
qed

lemma same_entries:
  "map fst xs = map fst ys \<Longrightarrow> distinct (map fst xs) \<Longrightarrow> \<forall>k \<in> fst ` set xs. map_of xs k = map_of ys k \<Longrightarrow> xs = ys"
proof (induction xs arbitrary: ys)
  case (Cons x xs)
  then obtain y ys' where ys: "ys = y # ys'" "fst x = fst y" "map fst xs = map fst ys'" by (cases ys) auto
  have "snd x = snd y" using Cons.prems(3) ys(1,2) by (cases x; cases y) auto
  moreover have "xs = ys'"
  proof (rule Cons.IH [OF ys(3)])
    show "\<forall>k \<in> fst ` set xs. map_of xs k = map_of ys' k"
    proof
      fix k assume k: "k \<in> fst ` set xs"
      have "fst x \<notin> fst ` set xs" using Cons.prems(2) by simp
      with k have "k \<noteq> fst x" by metis
      then show "map_of xs k = map_of ys' k" using Cons.prems(3) k ys(1,2) by (cases x; cases y) auto
    qed
  qed (use Cons.prems(2) in simp)
  ultimately show ?case using ys by (simp add: prod_eq_iff)
qed simp

lemma put_all:
  assumes "set ds \<subseteq> fst ` set mid"
  shows "map fst (fold (\<lambda>key. put key (f key)) ds mid) = map fst mid \<and>
    map_of (fold (\<lambda>key. put key (f key)) ds mid) k = (if k \<in> set ds then Some (f k) else map_of mid k)"
  using assms
proof (induction ds arbitrary: mid)
  case (Cons d ds)
  have "set ds \<subseteq> fst ` set (put d (f d) mid)" using Cons.prems by (simp del: image_iff)
  from Cons.IH [OF this] show ?case using map_of_put [of d mid "f d"] Cons.prems by (simp del: image_iff)
qed simp

lemma dynamic_update_follows:
  assumes ok: "options_ok i" and prev: "raw_ok i prev" "follows prev i" and dyn: "only_dynamic dyn prev raw"
  shows "follows raw (snd (fold (update_dynamic raw) dyn (b, i)))" "same_kind i (snd (fold (update_dynamic raw) dyn (b, i)))"
proof -
  have keys: "fst ` set raw = fst ` set prev" using dyn by (metis only_dynamic_def list.set_map)
  have sub: "set dyn \<subseteq> fst ` set prev" using dyn keys by (simp add: only_dynamic_def)
  have inj: "inj_on camelize (fst ` set prev)" using dyn keys by (simp add: only_dynamic_def)
  let ?mid = "fold (\<lambda>key. put key (value_of raw key)) dyn prev"
  note pa = put_all [OF sub, of "value_of raw"]
  have "?mid = raw"
  proof (rule same_entries)
    show "map fst ?mid = map fst raw" using pa dyn by (simp add: only_dynamic_def)
    show "distinct (map fst ?mid)" using pa prev(1) by (simp add: raw_ok_def)
    show "\<forall>k \<in> fst ` set ?mid. map_of ?mid k = map_of raw k"
    proof
      fix k assume "k \<in> fst ` set ?mid"
      then have k: "k \<in> fst ` set raw" using pa keys by (metis list.set_map)
      then have "map_of raw k \<noteq> None" by (simp add: map_of_eq_None_iff)
      then show "map_of ?mid k = map_of raw k" using pa [of k] dyn k by (auto simp: only_dynamic_def value_of_def)
    qed
  qed
  moreover have "\<forall>key \<in> set dyn. \<not> isReservedProp key" using dyn by (simp add: only_dynamic_def)
  ultimately show "follows raw (snd (fold (update_dynamic raw) dyn (b, i)))" "same_kind i (snd (fold (update_dynamic raw) dyn (b, i)))"
    using update_many [OF ok prev inj sub, of raw b] by auto
qed

section \<open>Renders one after the other\<close>

text \<open>A render: the flag of the node, its dynamic props, whether it is optimized, the passed values.\<close>

datatype render = Render (render_flag: int) (render_dynamic: "string list") (render_optimized: bool) (render_raw: vobj)

definition render_ok :: "comp_instance \<Rightarrow> vobj \<Rightarrow> render \<Rightarrow> bool" where
  "render_ok i prev r \<longleftrightarrow> raw_ok i (render_raw r) \<and>
     ((render_optimized r \<or> render_flag r > 0) \<and> \<not> bit (render_flag r) 4 \<longrightarrow>
        only_dynamic (if bit (render_flag r) 3 then render_dynamic r else []) prev (render_raw r))"

fun renders_ok :: "comp_instance \<Rightarrow> vobj \<Rightarrow> render list \<Rightarrow> bool" where
  "renders_ok i prev [] = True"
| "renders_ok i prev (r # rs) = (render_ok i prev r \<and> renders_ok i (render_raw r) rs)"

fun rerender :: "vobj \<Rightarrow> render list \<Rightarrow> comp_instance \<Rightarrow> comp_instance" where
  "rerender prev [] i = i"
| "rerender prev (r # rs) i =
     rerender (render_raw r) rs
       (snd (updateProps (render_flag r) (render_dynamic r) (Some (render_raw r)) (Some prev) (render_optimized r) i))"

lemma update_follows:
  assumes "options_ok i" "raw_ok i prev" "follows prev i" "render_ok i prev r"
  defines "i' \<equiv> snd (updateProps (render_flag r) (render_dynamic r) (Some (render_raw r)) (Some prev) (render_optimized r) i)"
  shows "follows (render_raw r) i' \<and> same_kind i i'"
proof (cases "(render_optimized r \<or> render_flag r > 0) \<and> \<not> bit (render_flag r) 4")
  case False
  then have "i' = snd (full_update (Some (render_raw r)) (Some prev) i)" by (auto simp: i'_def updateProps_def)
  then show ?thesis using full_update_follows [OF assms(1-3)] assms(4) by (simp add: render_ok_def)
next
  case True
  let ?dyn = "if bit (render_flag r) 3 then render_dynamic r else []"
  have "i' = snd (fold (update_dynamic (render_raw r)) ?dyn (False, i))" using True by (simp add: i'_def updateProps_def)
  then show ?thesis using dynamic_update_follows [OF assms(1-3), of ?dyn "render_raw r" False] assms(4) True
    by (simp add: render_ok_def)
qed

lemma rerender_follows:
  assumes "options_ok i" "raw_ok i prev" "follows prev i" "renders_ok i prev rs"
  shows "follows (last (prev # map render_raw rs)) (rerender prev rs i)"
  using assms
proof (induction rs arbitrary: prev i)
  case (Cons r rs)
  let ?i' = "snd (updateProps (render_flag r) (render_dynamic r) (Some (render_raw r)) (Some prev) (render_optimized r) i)"
  have r: "render_ok i prev r" "renders_ok i (render_raw r) rs" using Cons.prems(4) by simp_all
  have u: "follows (render_raw r) ?i'" "same_kind i ?i'" using update_follows [OF Cons.prems(1-3) r(1)] by blast+
  note kd = same_kindD [OF u(2)]
  have "render_ok ?i' = render_ok i" by (simp add: render_ok_def kd fun_eq_iff)
  then have rr: "renders_ok ?i' p xs = renders_ok i p xs" for p xs by (induction xs arbitrary: p) simp_all
  have "raw_ok i (render_raw r)" using r(1) by (simp add: render_ok_def)
  then have "follows (last (render_raw r # map render_raw rs)) (rerender (render_raw r) rs ?i')"
    using Cons.prems(1) u(1) r(2) kd rr by (intro Cons.IH) simp_all
  then show ?case by simp
qed simp

section \<open>Updates that are skipped\<close>

text \<open>Passed values that differ in listeners only.\<close>

definition same_but_listeners :: "string list option \<Rightarrow> vobj \<Rightarrow> vobj \<Rightarrow> bool" where
  "same_but_listeners emits = list_all2 (\<lambda>(a, x) (b, y). a = b \<and> (isEmitListener emits a \<or> x = y))"

lemma passed_Cons:
  "passed ((key, v) # raw) = (if isReservedProp key then passed raw else [camelize key \<mapsto> v] ++ passed raw)"
  by (auto simp: passed_def fun_eq_iff map_add_def split: option.split)

lemma listeners_passed:
  assumes "same_but_listeners emits xs ys" "\<forall>key \<in> fst ` set xs. camelize key = k \<longrightarrow> \<not> isEmitListener emits key"
  shows "passed xs k = passed ys k"
  using assms unfolding same_but_listeners_def
proof (induction rule: list_all2_induct)
  case (Cons x xs y ys)
  then show ?case by (cases x; cases y) (auto simp: passed_Cons map_add_def split: option.split)
qed simp

lemma listeners_attrs:
  assumes "same_but_listeners emits xs ys" "\<And>key. P key \<Longrightarrow> \<not> isEmitListener emits key"
  shows "filter (\<lambda>(key, v). P key) xs = filter (\<lambda>(key, v). P key) ys"
  using assms(1) unfolding same_but_listeners_def
proof (induction rule: list_all2_induct)
  case (Cons x xs y ys)
  then show ?case using assms(2) by (cases x; cases y) auto
qed simp

lemma follows_listeners:
  assumes s: "same_but_listeners (emitsOptions i) prev raw" and r: "raw_ok i prev" and f: "follows prev i"
  shows "follows raw i"
proof -
  have "passed prev k = passed raw k" if "map_of (declared i) k = Some opt" for k opt
    using r that by (intro listeners_passed [OF s]) (auto simp: raw_ok_def has_own_def)
  moreover have "filter (\<lambda>(key, v). is_attr i key) prev = filter (\<lambda>(key, v). is_attr i key) raw"
    by (rule listeners_attrs [OF s]) (simp add: is_attr_def)
  ultimately show ?thesis using f by (simp add: follows_def prop_follows_def)
qed

lemma same_values_listeners:
  assumes "map fst prev = map fst raw" "distinct (map fst raw)"
    and "\<forall>key \<in> fst ` set raw. value_of raw key = value_of prev key \<or> isEmitListener emits key"
  shows "same_but_listeners emits prev raw"
  unfolding same_but_listeners_def list_all2_conv_all_nth
proof (intro conjI allI impI)
  show len: "length prev = length raw" using assms(1) by (metis length_map)
  fix n assume n: "n < length prev"
  then have k: "fst (prev ! n) = fst (raw ! n)" using assms(1) len by (metis nth_map)
  have d: "distinct (map fst prev)" using assms(1,2) by simp
  have "map_of prev (fst (prev ! n)) = Some (snd (prev ! n))" "map_of raw (fst (raw ! n)) = Some (snd (raw ! n))"
    using n len d assms(2) by (simp_all add: map_of_eq_Some_iff)
  then have v: "value_of prev (fst (raw ! n)) = snd (prev ! n)" "value_of raw (fst (raw ! n)) = snd (raw ! n)"
    using k by (simp_all add: value_of_def)
  have "fst (raw ! n) \<in> fst ` set raw" using n len by simp
  then have "snd (prev ! n) = snd (raw ! n) \<or> isEmitListener emits (fst (raw ! n))" using assms(3) v by metis
  then show "(case prev ! n of (a, x) \<Rightarrow> \<lambda>(b, y). a = b \<and> (isEmitListener emits a \<or> x = y)) (raw ! n)"
    using k by (auto split: prod.splits)
qed

section \<open>Properties\<close>

text \<open>
  C21. After any sequence of renders of the parent, some of them updating only the
  dynamic props, every declared prop has the value that the values passed last give, cast and with
  its default, and the attributes are exactly those passed values that are neither props nor
  listeners of declared events nor reserved.
\<close>

theorem props_follow_passed_values:
  assumes "options_ok i" and "raw_ok i raw" and "renders_ok i raw rs"
  shows "follows (last (raw # map render_raw rs)) (rerender raw rs (initProps (Some raw) i))"
proof -
  note init = initProps_follows [OF assms(1,2)]
  let ?i = "initProps (Some raw) i"
  note kd = same_kindD [OF init(2)]
  have "render_ok ?i = render_ok i" by (simp add: render_ok_def kd fun_eq_iff)
  then have "renders_ok ?i p xs = renders_ok i p xs" for p xs by (induction xs arbitrary: p) simp_all
  then show ?thesis using assms init(1) kd by (intro rerender_follows) simp_all
qed

text \<open>
  C22. When \<open>shouldUpdateComponent\<close> says that a component need not be updated, and the same
  names are passed as before, its props and attributes already are what the new values give.
\<close>

theorem skipped_update_changes_nothing:
  assumes "raw_ok i prev" and "follows prev i" and "map fst next = map fst prev"
    and "\<not> shouldUpdateComponent special children same patchFlag dyn optimized (emitsOptions i) (Some prev) (Some next)"
    and "same \<Longrightarrow> next = prev"
    and "optimized \<and> patchFlag \<ge> 0 \<and> \<not> bit patchFlag 4 \<Longrightarrow> only_dynamic (if bit patchFlag 3 then dyn else []) prev next"
  shows "follows next i"
proof -
  have d: "distinct (map fst next)" using assms(1,3) by (simp add: raw_ok_def)
  have keys: "fst ` set next = fst ` set prev" using assms(3) by (metis list.set_map)
  have "next = prev \<or> (\<forall>key \<in> fst ` set next. value_of next key = value_of prev key \<or> isEmitListener (emitsOptions i) key)"
  proof (cases "optimized \<and> patchFlag \<ge> 0 \<and> \<not> bit patchFlag 4")
    case True
    note od = assms(6) [OF True]
    have eq: "value_of next key = value_of prev key" if "key \<in> fst ` set next" "\<not> (bit patchFlag 3 \<and> key \<in> set dyn)" for key
      using od that by (auto simp: only_dynamic_def value_of_def split: if_splits)
    have "value_of next key = value_of prev key \<or> isEmitListener (emitsOptions i) key" if "bit patchFlag 3" "key \<in> set dyn" for key
      using assms(4) True that by (auto simp: shouldUpdateComponent_def list_ex_iff split: if_splits)
    then show ?thesis using eq by blast
  next
    case False
    then have "same \<or> \<not> hasPropsChanged prev next (emitsOptions i)"
      using assms(4) by (auto simp: shouldUpdateComponent_def split: if_splits)
    then show ?thesis using assms(5) by (auto simp: hasPropsChanged_def list_ex_iff)
  qed
  then show ?thesis
    using follows_listeners [OF same_values_listeners [OF assms(3) [symmetric] d] assms(1,2)] assms(2) by blast
qed

text \<open>
  Two cases in which an old value stays. Where nothing at all is passed after a prop was passed under
  its hyphenated name, the prop keeps the old value. Where the names change, but not their number, and
  the new ones are passed as \<open>undefined\<close> or are listeners, the update is skipped.
\<close>

lemma nothing_passed_keeps_old_value:
  fixes i :: comp_instance
  assumes "propsOptions i = Some ([(''myProp'', empty_option)], [])" "emitsOptions i = None"
  defines "raw \<equiv> [(''my-prop'', VNum 1)]"
  shows "options_ok i" "raw_ok i raw"
    "map_of (inst_props (snd (updateProps 0 [] None (Some raw) False (initProps (Some raw) i)))) ''myProp'' = Some (VNum 1)"
proof -
  have c: "camelize ''my-prop'' = ''myProp''" "hyphenate ''myProp'' = ''my-prop''" "camelize ''myProp'' = ''myProp''"
    "\<not> isReservedProp ''my-prop''" "\<not> isReservedProp ''myProp''" by code_simp+
  show "options_ok i" using assms(1) c by (auto simp: options_ok_def empty_option_def)
  show "raw_ok i raw" using assms(1,2) c by (auto simp: raw_ok_def raw_def declared_def has_own_def isEmitListener_def)
  show "map_of (inst_props (snd (updateProps 0 [] None (Some raw) False (initProps (Some raw) i)))) ''myProp'' = Some (VNum 1)"
    using assms(1,2) c
    by (simp add: updateProps_def full_update_def initProps_def setFullProps_def set_raw_def raw_def has_own_def
        reset_prop_def value_of_def Let_def)
qed

lemma skipped_although_changed:
  "\<not> shouldUpdateComponent False False False 0 [] False None (Some [(''a'', VNum 1)]) (Some [(''b'', VUndef)])"
  by (simp add: shouldUpdateComponent_def hasPropsChanged_def value_of_def)

section \<open>Events reach their handlers\<close>

lemma lower_upper_char: "is_lower c \<Longrightarrow> lower_char (upper_char c) = c"
  by (auto simp: is_lower_def lower_char_def upper_char_def Let_def)

lemma is_lower_upper: "is_lower c \<Longrightarrow> is_upper (upper_char c)"
  by (auto simp: is_lower_def is_upper_def upper_char_def Let_def)

lemma upper_below: "is_upper c \<Longrightarrow> (of_char c :: nat) < 97"
  by (simp add: is_upper_def Let_def)

text \<open>
  The name of an event in camel case: it begins with a small letter, does not end with \<open>Once\<close>, and
  reads back from its hyphenated form.
\<close>

definition event_name_ok :: "string \<Rightarrow> bool" where
  "event_name_ok event \<longleftrightarrow> event \<noteq> [] \<and> is_lower (hd event) \<and> camelize (hyphenate event) = event \<and>
     strip_once (capitalize event) = capitalize event"

lemma declared_listener:
  assumes e: "event_name_ok event" and o: "event \<in> set opts \<or> hyphenate event \<in> set opts"
  shows "isEmitListener (Some opts) (toHandlerKey event)"
proof -
  obtain c cs where ev: "event = c # cs" "is_lower c" using e by (cases event) (auto simp: event_name_ok_def)
  have s: "strip_once (upper_char c # cs) = upper_char c # cs" using e ev by (simp add: event_name_ok_def)
  have u: "is_upper (upper_char c)" by (rule is_lower_upper [OF ev(2)])
  have on: "isOn (toHandlerKey event)" using upper_below [OF u] by (simp add: toHandlerKey_def ev isOn_def)
  have wc: "word_char c" "word_char (upper_char c)" using ev(2) u by (simp_all add: word_char_def)
  have "\<not> is_upper c" using ev(2) by (auto simp: is_lower_def is_upper_def Let_def)
  then have h: "hyphenate (upper_char c # cs) = hyphenate event"
    using wc lower_upper_char [OF ev(2)] lower_char_not_upper [of c] by (simp add: hyphenate_def ev)
  have "drop 2 (toHandlerKey event) = upper_char c # cs" by (simp add: toHandlerKey_def ev)
  then show ?thesis using on o s h lower_upper_char [OF ev(2)] by (auto simp: isEmitListener_def ev)
qed

text \<open>
  C23. The handler that a parent passes for a declared event, in camel case or
  hyphenated in the declaration, is not given on to the component's root element as an attribute,
  and the component's event, in either spelling, calls it.
\<close>

theorem declared_events_reach_handlers:
  assumes "options_ok i" and "raw_ok i raw" and "emitsOptions i = Some opts"
    and "event_name_ok event" and "event \<in> set opts \<or> hyphenate event \<in> set opts"
    and "vtruthy (value_of raw (toHandlerKey event))" and "\<not> isUnmounted i"
    and "spelling = event \<or> spelling = hyphenate event \<and> \<not> vtruthy (value_of raw (toHandlerKey (hyphenate event)))"
  shows "\<not> has_own (inst_attrs (initProps (Some raw) i)) (toHandlerKey event) \<and>
    (\<exists>rest. fst (emit flags looseToNumber raw spelling args i) =
      (False, toHandlerKey event, value_of raw (toHandlerKey event), event_args flags looseToNumber raw spelling args) # rest)"
proof -
  have na: "\<not> is_attr i (toHandlerKey event)"
    using declared_listener [OF assms(4,5)] assms(3) by (simp add: is_attr_def)
  note init = initProps_follows [OF assms(1,2)]
  have flt: "map_of (filter (\<lambda>(k, v). P k) xs) k = (if P k then map_of xs k else None)" for P and xs :: vobj and k
    by (induction xs) auto
  have "\<not> has_own (inst_attrs (initProps (Some raw) i)) (toHandlerKey event)"
    using init(1) na unfolding follows_def same_kindD [OF init(2)] by (simp add: has_own_def flt)
  moreover have "camelize (hyphenate event) = event" using assms(4) by (simp add: event_name_ok_def)
  then have "handler_name raw spelling = toHandlerKey event"
    using assms(6,8) by (auto simp: handler_name_def)
  then have "\<exists>rest. fst (emit flags looseToNumber raw spelling args i) =
      (False, toHandlerKey event, value_of raw (toHandlerKey event), event_args flags looseToNumber raw spelling args) # rest"
    using assms(6,7) by (simp add: emit_def Let_def)
  ultimately show ?thesis by blast
qed

text \<open>A handler for a single event is called at most once, whatever is emitted.\<close>

fun emit_all ::
  "(rvalue \<Rightarrow> bool \<times> bool) \<Rightarrow> (rvalue \<Rightarrow> rvalue) \<Rightarrow> vobj \<Rightarrow> (string \<times> rvalue list) list \<Rightarrow> comp_instance \<Rightarrow> hcall list" where
  "emit_all flags looseToNumber props [] i = []"
| "emit_all flags looseToNumber props ((event, args) # es) i =
     (let (calls, i') = emit flags looseToNumber props event args i in calls @ emit_all flags looseToNumber props es i')"

lemma once_handlers_called_once:
  "length (filter (\<lambda>(once, n, _). once \<and> n = name) (emit_all flags looseToNumber props es i)) \<le>
     (if name \<in> set (emitted i) then 0 else 1)"
proof (induction es arbitrary: i)
  case (Cons ea es)
  obtain event args where ea: "ea = (event, args)" by (cases ea)
  obtain calls i' where em: "emit flags looseToNumber props event args i = (calls, i')" by force
  have "length (filter (\<lambda>(once, n, _). once \<and> n = name) calls) + (if name \<in> set (emitted i') then 0 else 1) \<le>
      (if name \<in> set (emitted i) then 0 else 1)"
    using em by (auto simp: emit_def Let_def split: if_splits)
  then show ?case using Cons.IH [of i'] em by (simp add: ea)
qed simp

section \<open>Declared options\<close>

lemma camelize_word: "\<forall>c \<in> set s. word_char c \<Longrightarrow> camelize s = s"
  by (induction s rule: camelize.induct) auto

lemma hyphenate_from_plain:
  "\<forall>c \<in> set cs. word_char c \<Longrightarrow> CHR ''-'' \<notin> set (hyphenate_from True cs) \<Longrightarrow> hyphenate_from True cs = cs"
  by (induction cs) (auto simp: lower_char_not_upper split: if_splits)

lemma split_on_chars: "w \<in> set (split_on d s) \<Longrightarrow> set w \<subseteq> set s"
  by (induction s arbitrary: w) (auto split: if_splits list.splits, blast+)

lemma reserved_no_hyphen: "isReservedProp s \<Longrightarrow> CHR ''-'' \<notin> set s"
  unfolding isReservedProp_def makeMap_def by (drule split_on_chars) (auto simp: subset_iff)

text \<open>The names that components declare: of word characters, beginning with no capital.\<close>

definition prop_name_ok :: "string \<Rightarrow> bool" where
  "prop_name_ok k \<longleftrightarrow> k \<noteq> [] \<and> (\<forall>c \<in> set k. word_char c) \<and> \<not> is_upper (hd k)"

lemma prop_name:
  assumes "prop_name_ok k"
  shows "camelize k = k" "camelize (hyphenate k) = k" "\<not> isReservedProp k \<Longrightarrow> \<not> isReservedProp (hyphenate k)"
proof -
  show "camelize k = k" using assms by (intro camelize_word) (simp add: prop_name_ok_def)
  show "camelize (hyphenate k) = k" using assms by (intro camelize_hyphenate) (auto simp: prop_name_ok_def)
  obtain c cs where k: "k = c # cs" using assms by (cases k) (auto simp: prop_name_ok_def)
  have "hyphenate k = k" if "CHR ''-'' \<notin> set (hyphenate k)"
    using that assms hyphenate_from_plain [of cs] by (auto simp: hyphenate_def k prop_name_ok_def lower_char_not_upper)
  then show "\<not> isReservedProp (hyphenate k)" if "\<not> isReservedProp k" using that reserved_no_hyphen by metis
qed

lemma normalize_options_keep:
  assumes "list_all (\<lambda>(k, opt). prop_name_ok k) raw" "distinct (map fst raw)"
    and "\<forall>k \<in> fst ` set raw. k \<notin> set need \<and> map_of options k = None"
    and "set need \<subseteq> dom (map_of options)"
    and "\<forall>k opt. map_of options k = Some opt \<longrightarrow> prop_name_ok k \<and> \<not> isReservedProp k \<and> (k \<in> set need \<longleftrightarrow> should_cast opt \<or> prop_default opt \<noteq> None)"
    and "normalize_options raw (options, need) = (options', need')"
  shows "set need' \<subseteq> dom (map_of options') \<and>
    (\<forall>k opt. map_of options' k = Some opt \<longrightarrow> prop_name_ok k \<and> \<not> isReservedProp k \<and> (k \<in> set need' \<longleftrightarrow> should_cast opt \<or> prop_default opt \<noteq> None))"
  using assms
proof (induction raw arbitrary: options need)
  case (Cons ko raw)
  obtain key o0 where ko: "ko = (key, o0)" by (cases ko)
  have key: "prop_name_ok key" "key \<notin> set need" "map_of options key = None" "key \<notin> fst ` set raw"
    using Cons.prems(1-3) by (auto simp: ko)
  have ck: "camelize key = key" by (rule prop_name(1) [OF key(1)])
  have rest: "list_all (\<lambda>(k, opt). prop_name_ok k) raw" "distinct (map fst raw)" using Cons.prems(1,2) by auto
  show ?case
  proof (cases "validatePropName key")
    case False
    then have "normalize_options raw (options, need) = (options', need')" using Cons.prems(6) by (simp add: ko ck)
    with Cons.prems(3-5) show ?thesis by (intro Cons.IH [OF rest]) auto
  next
    case True
    let ?p = "normalize_option o0"
    let ?need = "if should_cast ?p \<or> prop_default ?p \<noteq> None then need @ [key] else need"
    have n: "normalize_options raw (set_key options key ?p, ?need) = (options', need')"
      using Cons.prems(6) True by (simp add: ko ck Let_def)
    have "\<not> isReservedProp key" using True by (simp add: validatePropName_def)
    then show ?thesis using Cons.prems(3-5) key by (intro Cons.IH [OF rest _ _ _ n]) (auto simp: ko)
  qed
qed simp

lemma normalized_options_ok:
  assumes "list_all (\<lambda>(k, opt). prop_name_ok k) raw" "distinct (map fst raw)"
    and "propsOptions i = normalizePropsOptions [] False (Component f (Prop_options raw) None [])"
  shows "options_ok i"
proof -
  obtain options need where n: "normalize_options raw ([], []) = (options, need)" by force
  have "set need \<subseteq> dom (map_of options) \<and>
    (\<forall>k opt. map_of options k = Some opt \<longrightarrow> prop_name_ok k \<and> \<not> isReservedProp k \<and> (k \<in> set need \<longleftrightarrow> should_cast opt \<or> prop_default opt \<noteq> None))"
    using assms(1,2) by (intro normalize_options_keep [OF _ _ _ _ _ n]) auto
  moreover have "propsOptions i = Some (options, need)" using assms(3) n by simp
  ultimately show ?thesis using prop_name by (auto simp: options_ok_def dom_map_of_conv_image_fst)
qed

section \<open>Examples\<close>

text \<open>A text field with some of its props, and what is passed to it.\<close>

definition field_props :: "(string \<times> raw_option) list" where
  "field_props =
     [(''modelValue'', Type_only Any), (''disabled'', Type_only (One ''Boolean'')),
      (''rules'', Option_object (One ''Array'') (Some (Default_fun 1 (\<lambda>_. VObj 2))) False)]"

definition field :: comp_instance where
  "field = \<lparr>propsOptions = normalizePropsOptions [] False (Component False (Prop_options field_props) None []),
     emitsOptions = Some [''update:modelValue''], inst_props = [], inst_attrs = [], propsDefaults = [], emitted = [], isUnmounted = False\<rparr>"

definition field_raw :: "rvalue \<Rightarrow> vobj" where
  "field_raw v = [(''model-value'', v), (''disabled'', VStr []), (''onUpdate:modelValue'', VObj 5), (''id'', VStr ''x'')]"

lemma field_ok: "options_ok field"
proof (rule normalized_options_ok)
  show "list_all (\<lambda>(k, opt). prop_name_ok k) field_props" by code_simp
  show "distinct (map fst field_props)" by code_simp
  show "propsOptions field = normalizePropsOptions [] False (Component False (Prop_options field_props) None [])"
    by (simp add: field_def)
qed

lemma field_keys: "map fst (field_raw v) = [''model-value'', ''disabled'', ''onUpdate:modelValue'', ''id'']"
  by (simp add: field_raw_def)

lemma field_raw_ok: "raw_ok field (field_raw v)"
proof -
  have "\<forall>key \<in> set [''model-value'', ''disabled'', ''onUpdate:modelValue'', ''id'']. has_own (declared field) (camelize key) \<longrightarrow>
      (key = camelize key \<or> key = hyphenate (camelize key)) \<and> \<not> isEmitListener (emitsOptions field) key"
    by code_simp
  moreover have "fst ` set (field_raw v) = set [''model-value'', ''disabled'', ''onUpdate:modelValue'', ''id'']"
    using field_keys [of v] by (metis list.set_map)
  ultimately show ?thesis unfolding raw_ok_def field_keys by simp
qed

lemma field_dynamic: "only_dynamic [''model-value''] (field_raw v) (field_raw w)"
proof -
  have keys: "fst ` set (field_raw w) = set [''model-value'', ''disabled'', ''onUpdate:modelValue'', ''id'']"
    using field_keys [of w] by (metis list.set_map)
  have "inj_on camelize (set [''model-value'', ''disabled'', ''onUpdate:modelValue'', ''id''])" by code_simp
  moreover have "\<not> isReservedProp ''model-value''" by code_simp
  moreover have "map_of (field_raw w) k = map_of (field_raw v) k" if "k \<noteq> ''model-value''" for k
    using that by (simp add: field_raw_def)
  ultimately show ?thesis unfolding only_dynamic_def keys field_keys by simp
qed

definition field_renders :: "render list" where
  "field_renders = [Render 8 [''model-value''] True (field_raw (VStr ''b'')), Render 16 [] False (field_raw (VStr ''c''))]"

lemma field_renders_ok: "renders_ok field (field_raw (VStr ''a'')) field_renders"
  using field_raw_ok field_dynamic by (simp add: field_renders_def render_ok_def)

theorem props_follow_passed_values_witness:
  "follows (field_raw (VStr ''c'')) (rerender (field_raw (VStr ''a'')) field_renders (initProps (Some (field_raw (VStr ''a''))) field))"
  using props_follow_passed_values [OF field_ok field_raw_ok field_renders_ok] by (simp add: field_renders_def)

theorem skipped_update_changes_nothing_witness:
  "follows (put ''onUpdate:modelValue'' (VObj 6) (field_raw (VStr ''a''))) (initProps (Some (field_raw (VStr ''a''))) field)"
proof (rule skipped_update_changes_nothing)
  let ?i = "initProps (Some (field_raw (VStr ''a''))) field"
  note init = initProps_follows [OF field_ok field_raw_ok [of "VStr ''a''"]]
  show "raw_ok ?i (field_raw (VStr ''a''))" using field_raw_ok same_kindD [OF init(2)] by simp
  show "follows (field_raw (VStr ''a'')) ?i" by (rule init(1))
  have "emitsOptions ?i = Some [''update:modelValue'']" using init(2) by (simp add: same_kind_def field_def)
  moreover have "\<not> shouldUpdateComponent False False False 16 [] False (Some [''update:modelValue'']) (Some (field_raw (VStr ''a'')))
      (Some (put ''onUpdate:modelValue'' (VObj 6) (field_raw (VStr ''a''))))" by code_simp
  ultimately show "\<not> shouldUpdateComponent False False False 16 [] False (emitsOptions ?i) (Some (field_raw (VStr ''a'')))
      (Some (put ''onUpdate:modelValue'' (VObj 6) (field_raw (VStr ''a''))))" by simp
qed simp_all

theorem declared_events_reach_handlers_witness:
  "\<not> has_own (inst_attrs (initProps (Some (field_raw VNull)) field)) ''onUpdate:modelValue'' \<and>
    (\<exists>rest. fst (emit (\<lambda>_. (False, False)) id (field_raw VNull) ''update:modelValue'' [VStr ''b''] field) =
      (False, ''onUpdate:modelValue'', VObj 5, [VStr ''b'']) # rest)"
proof -
  have h: "toHandlerKey ''update:modelValue'' = ''onUpdate:modelValue''" by code_simp
  have v: "value_of (field_raw VNull) ''onUpdate:modelValue'' = VObj 5" by (simp add: value_of_def field_raw_def)
  have a: "event_args (\<lambda>_. (False, False)) id (field_raw VNull) ''update:modelValue'' [VStr ''b''] = [VStr ''b'']" by code_simp
  have e: "event_name_ok ''update:modelValue''" by code_simp
  show ?thesis
    using declared_events_reach_handlers [OF field_ok field_raw_ok [of VNull], of "[''update:modelValue'']" "''update:modelValue''"
        "''update:modelValue''" "\<lambda>_. (False, False)" id "[VStr ''b'']"] e
    by (simp add: h v a vtruthy_def) (simp add: field_def)
qed

end
