(* ===== verification/VueProxy.thy ===== *)
theory VueProxy
  imports VueShared VueReactivity
begin

text \<open>
  Vue's reactive objects (\<^verbatim>\<open>src/v2/lens3/ui/assets/index.js\<close>, \<open>track\<close>, \<open>trigger\<close>,
  \<open>BaseReactiveHandler\<close>, \<open>MutableReactiveHandler\<close> and the methods of collections): objects,
  arrays, maps and sets whose reads are tracked by key and whose writes trigger the effects that
  read what may have changed. The data of the application (\<open>pool_data\<close>) is one of them.

  An object is a value by its identity, and its proxy is the same value; an address is the number
  of an object. Objects hold no refs and inherit nothing; arrays have no properties but their
  elements and their length. A key that is a canonical numeral is an index; other numerals are not
  used as keys of arrays. Reads are the traps \<open>get\<close>, \<open>has\<close> and \<open>ownKeys\<close>, the searching methods of
  arrays and the reading methods of collections; writes are the traps \<open>set\<close> and \<open>deleteProperty\<close> and
  the writing methods of collections. The deps of an object are the keys that have been tracked.

  Shown: a write that triggers nothing that an effect has tracked does not change what the effect
  reads; so after a write every watcher whose reads have changed is certainly dirty and with the
  scheduler. A write that changes nothing triggers nothing. The exceptions, arrays with holes and
  deleting elements of arrays, are shown as examples.
\<close>

section \<open>Objects\<close>

datatype dkey = Name string | Index nat | Entry rvalue | ITERATE_KEY | MAP_KEY_ITERATE_KEY

datatype target =
    Plain "(dkey \<times> rvalue) list"
  | Arr "rvalue option list"
  | MapObj "(rvalue \<times> rvalue) list"
  | SetObj "rvalue list"

datatype obj_read =
    Get dkey | Has dkey | OwnKeys
  | Includes rvalue | IndexOf rvalue | LastIndexOf rvalue
  | Size | Keys | Entries

datatype read_result =
    RVal rvalue | RBool bool | RNum int | RKeys "dkey list" | RVals "rvalue list" | REntries "(rvalue \<times> rvalue) list"

datatype obj_write = Put dkey rvalue | Delete dkey | Add rvalue | Clear

text \<open>The own keys of an object: indices in order, then names in the order they were added.\<close>

definition own_keys :: "dkey list \<Rightarrow> dkey list" where
  "own_keys ks =
     map Index (sort (concat (map (\<lambda>k. case k of Index i \<Rightarrow> [i] | _ \<Rightarrow> []) ks))) @
     filter (\<lambda>k. case k of Index _ \<Rightarrow> False | _ \<Rightarrow> True) ks"

definition elem_at :: "rvalue option list \<Rightarrow> nat \<Rightarrow> rvalue option" where
  "elem_at xs i = (if i < length xs then xs ! i else None)"

definition or_undef :: "rvalue option \<Rightarrow> rvalue" where
  "or_undef v = (case v of None \<Rightarrow> VUndef | Some x \<Rightarrow> x)"

fun first_index :: "'a \<Rightarrow> 'a list \<Rightarrow> int" where
  "first_index v [] = - 1"
| "first_index v (x # xs) = (if x = v then 0 else let i = first_index v xs in if i < 0 then - 1 else i + 1)"

definition last_index :: "'a \<Rightarrow> 'a list \<Rightarrow> int" where
  "last_index v xs = (let i = first_index v (rev xs) in if i < 0 then - 1 else int (length xs) - 1 - i)"

section \<open>Reads\<close>

definition isNonTrackableKeys :: "string \<Rightarrow> bool" where
  "isNonTrackableKeys = makeMap ''__proto__,__v_isRef,__isVue'' False"

text \<open>What a read returns.\<close>

fun read_target :: "target \<Rightarrow> obj_read \<Rightarrow> read_result" where
  "read_target (Plain kvs) (Get k) = RVal (or_undef (map_of kvs k))"
| "read_target (Plain kvs) (Has k) = RBool (map_of kvs k \<noteq> None)"
| "read_target (Plain kvs) OwnKeys = RKeys (own_keys (map fst kvs))"
| "read_target (Arr xs) (Get (Index i)) = RVal (or_undef (elem_at xs i))"
| "read_target (Arr xs) (Get (Name n)) = RVal (if n = ''length'' then VNum (int (length xs)) else VUndef)"
| "read_target (Arr xs) (Has (Index i)) = RBool (elem_at xs i \<noteq> None)"
| "read_target (Arr xs) (Has (Name n)) = RBool (n = ''length'')"
| "read_target (Arr xs) OwnKeys = RKeys (map Index (filter (\<lambda>i. xs ! i \<noteq> None) [0..<length xs]) @ [Name ''length''])"
| "read_target (Arr xs) (Includes v) = RBool (v \<in> set (map or_undef xs))"
| "read_target (Arr xs) (IndexOf v) = RNum (first_index (Some v) xs)"
| "read_target (Arr xs) (LastIndexOf v) = RNum (last_index (Some v) xs)"
| "read_target (MapObj kvs) (Get (Entry k)) = RVal (or_undef (map_of kvs k))"
| "read_target (MapObj kvs) (Has (Entry k)) = RBool (map_of kvs k \<noteq> None)"
| "read_target (MapObj kvs) Size = RNum (int (length kvs))"
| "read_target (MapObj kvs) Keys = RVals (map fst kvs)"
| "read_target (MapObj kvs) Entries = REntries kvs"
| "read_target (SetObj vs) (Has (Entry v)) = RBool (v \<in> set vs)"
| "read_target (SetObj vs) Size = RNum (int (length vs))"
| "read_target (SetObj vs) Keys = RVals vs"
| "read_target (SetObj vs) Entries = RVals vs"
| "read_target t r = RVal VUndef"

text \<open>
  The keys it tracks: the trap \<open>get\<close>, the trap \<open>ownKeys\<close>, the searching methods of arrays, the iterating
  methods of collections, and all together.
\<close>

definition get_tracks :: "dkey \<Rightarrow> dkey list" where
  "get_tracks k = (case k of Name n \<Rightarrow> if isNonTrackableKeys n then [] else [k] | _ \<Rightarrow> [k])"

definition ownKeys_tracks :: "bool \<Rightarrow> dkey list" where
  "ownKeys_tracks targetIsArray = [if targetIsArray then Name ''length'' else ITERATE_KEY]"

definition search_tracks :: "nat \<Rightarrow> dkey list" where
  "search_tracks l = Name ''length'' # map Index [0..<l]"

definition iterate_tracks :: "bool \<Rightarrow> bool \<Rightarrow> dkey list" where
  "iterate_tracks targetIsMap keysOnly = [if keysOnly \<and> targetIsMap then MAP_KEY_ITERATE_KEY else ITERATE_KEY]"

fun tracked_keys :: "target \<Rightarrow> obj_read \<Rightarrow> dkey list" where
  "tracked_keys (Plain kvs) (Get k) = get_tracks k"
| "tracked_keys (Plain kvs) (Has k) = [k]"
| "tracked_keys (Plain kvs) OwnKeys = ownKeys_tracks False"
| "tracked_keys (Arr xs) (Get k) = get_tracks k"
| "tracked_keys (Arr xs) (Has k) = [k]"
| "tracked_keys (Arr xs) OwnKeys = ownKeys_tracks True"
| "tracked_keys (Arr xs) (Includes v) = search_tracks (length xs)"
| "tracked_keys (Arr xs) (IndexOf v) = search_tracks (length xs)"
| "tracked_keys (Arr xs) (LastIndexOf v) = search_tracks (length xs)"
| "tracked_keys (MapObj kvs) (Get k) = [k]"
| "tracked_keys (MapObj kvs) (Has k) = [k]"
| "tracked_keys (MapObj kvs) Size = [ITERATE_KEY]"
| "tracked_keys (MapObj kvs) Keys = iterate_tracks True True"
| "tracked_keys (MapObj kvs) Entries = iterate_tracks True False"
| "tracked_keys (SetObj vs) (Has k) = [k]"
| "tracked_keys (SetObj vs) Size = [ITERATE_KEY]"
| "tracked_keys (SetObj vs) Keys = iterate_tracks False True"
| "tracked_keys (SetObj vs) Entries = iterate_tracks False False"
| "tracked_keys t r = []"

lemma not_nontrackable_length: "\<not> isNonTrackableKeys ''length''"
  by code_simp

lemma tracks_simps [simp]:
  "get_tracks (Index i) = [Index i]" "get_tracks (Name ''length'') = [Name ''length'']" "get_tracks (Entry v) = [Entry v]"
  "set (get_tracks k) \<subseteq> {k}"
  "ownKeys_tracks True = [Name ''length'']" "ownKeys_tracks False = [ITERATE_KEY]"
  "search_tracks l = Name ''length'' # map Index [0..<l]"
  "iterate_tracks True True = [MAP_KEY_ITERATE_KEY]" "iterate_tracks m False = [ITERATE_KEY]" "iterate_tracks False b = [ITERATE_KEY]"
  using not_nontrackable_length
  by (auto simp: get_tracks_def ownKeys_tracks_def search_tracks_def iterate_tracks_def split: dkey.split)

section \<open>Writes\<close>

datatype trigger_type = Set_type | Add_type | Delete_type | Clear_type

fun put_key :: "('k \<times> 'v) list \<Rightarrow> 'k \<Rightarrow> 'v \<Rightarrow> ('k \<times> 'v) list" where
  "put_key [] k v = [(k, v)]"
| "put_key ((k', v') # kvs) k v = (if k' = k then (k', v) # kvs else (k', v') # put_key kvs k v)"

definition put_elem :: "rvalue option list \<Rightarrow> nat \<Rightarrow> rvalue \<Rightarrow> rvalue option list" where
  "put_elem xs i v = (if i < length xs then xs[i := Some v] else xs @ replicate (i - length xs) None @ [Some v])"

definition put_length :: "rvalue option list \<Rightarrow> nat \<Rightarrow> rvalue option list" where
  "put_length xs n = take n xs @ replicate (n - length xs) None"

text \<open>The event that a write to a key gives: \<open>add\<close>, \<open>set\<close> or none.\<close>

definition set_event :: "bool \<Rightarrow> rvalue \<Rightarrow> dkey \<Rightarrow> rvalue \<Rightarrow> (trigger_type \<times> dkey option \<times> rvalue) option" where
  "set_event hadKey oldValue k v =
     (if \<not> hadKey then Some (Add_type, Some k, v) else if v \<noteq> oldValue then Some (Set_type, Some k, v) else None)"

text \<open>
  The trap \<open>set\<close> for an object, an element and the length of an array; the trap \<open>deleteProperty\<close>; the
  methods \<open>set\<close>, \<open>add\<close>, \<open>delete\<close> and \<open>clear\<close> of collections.
\<close>

type_synonym event = "(trigger_type \<times> dkey option \<times> rvalue) option"

definition set_property :: "(dkey \<times> rvalue) list \<Rightarrow> dkey \<Rightarrow> rvalue \<Rightarrow> target \<times> event" where
  "set_property kvs k v = (Plain (put_key kvs k v), set_event (map_of kvs k \<noteq> None) (or_undef (map_of kvs k)) k v)"

definition set_element :: "rvalue option list \<Rightarrow> nat \<Rightarrow> rvalue \<Rightarrow> target \<times> event" where
  "set_element xs i v = (Arr (put_elem xs i v), set_event (i < length xs) (or_undef (elem_at xs i)) (Index i) v)"

definition set_length :: "rvalue option list \<Rightarrow> nat \<Rightarrow> target \<times> event" where
  "set_length xs l =
     (Arr (put_length xs l), set_event True (VNum (int (length xs))) (Name ''length'') (VNum (int l)))"

definition delete_property :: "(dkey \<times> rvalue) list \<Rightarrow> dkey \<Rightarrow> target \<times> event" where
  "delete_property kvs k =
     (Plain (AList.delete k kvs), if map_of kvs k \<noteq> None then Some (Delete_type, Some k, VUndef) else None)"

definition delete_element :: "rvalue option list \<Rightarrow> nat \<Rightarrow> target \<times> event" where
  "delete_element xs i =
     (if elem_at xs i \<noteq> None then (Arr (xs[i := None]), Some (Delete_type, Some (Index i), VUndef)) else (Arr xs, None))"

definition map_set :: "(rvalue \<times> rvalue) list \<Rightarrow> rvalue \<Rightarrow> rvalue \<Rightarrow> target \<times> event" where
  "map_set kvs k v =
     (MapObj (put_key kvs k v), set_event (map_of kvs k \<noteq> None) (or_undef (map_of kvs k)) (Entry k) v)"

definition set_add :: "rvalue list \<Rightarrow> rvalue \<Rightarrow> target \<times> event" where
  "set_add vs v = (if v \<in> set vs then (SetObj vs, None) else (SetObj (vs @ [v]), Some (Add_type, Some (Entry v), v)))"

definition deleteEntry :: "target \<Rightarrow> rvalue \<Rightarrow> target \<times> event" where
  "deleteEntry t k =
     (case t of
        MapObj kvs \<Rightarrow>
          (MapObj (AList.delete k kvs), if map_of kvs k \<noteq> None then Some (Delete_type, Some (Entry k), VUndef) else None)
      | SetObj vs \<Rightarrow> (SetObj (removeAll k vs), if k \<in> set vs then Some (Delete_type, Some (Entry k), VUndef) else None)
      | _ \<Rightarrow> (t, None))"

definition clear_collection :: "target \<Rightarrow> target \<times> event" where
  "clear_collection t =
     (case t of
        MapObj kvs \<Rightarrow> (MapObj [], if kvs \<noteq> [] then Some (Clear_type, None, VUndef) else None)
      | SetObj vs \<Rightarrow> (SetObj [], if vs \<noteq> [] then Some (Clear_type, None, VUndef) else None)
      | _ \<Rightarrow> (t, None))"

fun write_target :: "obj_write \<Rightarrow> target \<Rightarrow> target \<times> event" where
  "write_target (Put k v) (Plain kvs) = set_property kvs k v"
| "write_target (Put (Index i) v) (Arr xs) = set_element xs i v"
| "write_target (Put (Name n) (VNum l)) (Arr xs) =
     (if n = ''length'' \<and> 0 \<le> l then set_length xs (nat l) else (Arr xs, None))"
| "write_target (Put (Entry k) v) (MapObj kvs) = map_set kvs k v"
| "write_target (Delete k) (Plain kvs) = delete_property kvs k"
| "write_target (Delete (Index i)) (Arr xs) = delete_element xs i"
| "write_target (Delete (Entry k)) (MapObj kvs) = deleteEntry (MapObj kvs) k"
| "write_target (Add v) (SetObj vs) = set_add vs v"
| "write_target (Delete (Entry v)) (SetObj vs) = deleteEntry (SetObj vs) v"
| "write_target Clear (MapObj kvs) = clear_collection (MapObj kvs)"
| "write_target Clear (SetObj vs) = clear_collection (SetObj vs)"
| "write_target w t = (t, None)"

lemmas write_defs = set_property_def set_element_def set_length_def delete_property_def delete_element_def map_set_def
  set_add_def deleteEntry_def clear_collection_def

section \<open>Triggers\<close>

definition is_array :: "target \<Rightarrow> bool" where
  "is_array t = (case t of Arr _ \<Rightarrow> True | _ \<Rightarrow> False)"

definition is_map :: "target \<Rightarrow> bool" where
  "is_map t = (case t of MapObj _ \<Rightarrow> True | _ \<Rightarrow> False)"

definition is_index :: "dkey \<Rightarrow> bool" where
  "is_index k = (case k of Index _ \<Rightarrow> True | _ \<Rightarrow> False)"

text \<open>Whether a tracked key of an array is cut off by a new length.\<close>

definition beyond :: "rvalue \<Rightarrow> dkey \<Rightarrow> bool" where
  "beyond newLength k = (case (k, newLength) of (Index i, VNum l) \<Rightarrow> l \<le> int i | _ \<Rightarrow> False)"

text \<open>The deps that \<open>trigger\<close> collects, of the keys \<open>depsMap\<close> that have been tracked.\<close>

definition collect_deps :: "target \<Rightarrow> trigger_type \<Rightarrow> dkey option \<Rightarrow> rvalue \<Rightarrow> dkey list \<Rightarrow> dkey list" where
  "collect_deps t type key newValue depsMap =
     (if type = Clear_type then depsMap
      else if key = Some (Name ''length'') \<and> is_array t then
        filter (\<lambda>k. k = Name ''length'' \<or> beyond newValue k) depsMap
      else
        filter (\<lambda>k. k \<in> set depsMap)
          ((case key of Some k \<Rightarrow> [k] | None \<Rightarrow> []) @
           (case type of
              Add_type \<Rightarrow>
                if \<not> is_array t then ITERATE_KEY # (if is_map t then [MAP_KEY_ITERATE_KEY] else [])
                else if (case key of Some k \<Rightarrow> is_index k | None \<Rightarrow> False) then [Name ''length'']
                else []
            | Delete_type \<Rightarrow>
                if \<not> is_array t then ITERATE_KEY # (if is_map t then [MAP_KEY_ITERATE_KEY] else []) else []
            | Set_type \<Rightarrow> if is_map t then [ITERATE_KEY] else []
            | Clear_type \<Rightarrow> [])))"

text \<open>
  \<open>trigger\<close>: the effects of the collected deps are triggered with level 4. A dep of an object is a
  source of its own; \<open>dep_of\<close> numbers them.
\<close>

definition trigger ::
  "nat \<Rightarrow> (nat \<times> dkey \<Rightarrow> nat) \<Rightarrow> nat \<Rightarrow> target \<Rightarrow> event \<Rightarrow> dkey list \<Rightarrow>
   rstate \<Rightarrow> rstate option" where
  "trigger n dep_of a t event depsMap s =
     (case event of
        None \<Rightarrow> Some s
      | Some (type, key, newValue) \<Rightarrow>
          map_option resetScheduling
            (for_each (\<lambda>k. triggerEffects n (Ref (dep_of (a, k))) 4) (collect_deps t type key newValue depsMap)
              (pauseScheduling s)))"

section \<open>Effects that read objects\<close>

text \<open>The function of an effect: it reads objects one by one and returns a value.\<close>

datatype reader = Finish rvalue | Ask nat obj_read "read_result \<Rightarrow> reader"

primrec run_reader :: "reader \<Rightarrow> (nat \<Rightarrow> target) \<Rightarrow> rvalue \<times> (nat \<times> dkey) list" where
  "run_reader (Finish v) heap = (v, [])"
| "run_reader (Ask a r k) heap =
     (let (v, ts) = run_reader (k (read_target (heap a) r)) heap
      in (v, map (Pair a) (tracked_keys (heap a) r) @ ts))"

section \<open>Writes reach the readers\<close>

text \<open>
  An object that nothing tracked has changed reads as before. \<open>quiet\<close>: the write triggers none of
  the given keys, which all have been tracked. \<open>write_ok\<close>: the kind of object has the write; of arrays, those
  without holes, and no deleting of elements.
\<close>

definition read_ok :: "obj_read \<Rightarrow> bool" where
  "read_ok r = (case r of Get (Name n) \<Rightarrow> \<not> isNonTrackableKeys n | _ \<Rightarrow> True)"

definition is_property :: "dkey \<Rightarrow> bool" where
  "is_property k = (case k of Name _ \<Rightarrow> True | Index _ \<Rightarrow> True | _ \<Rightarrow> False)"

definition write_ok :: "obj_write \<Rightarrow> target \<Rightarrow> bool" where
  "write_ok w t =
     (case (t, w) of
        (Plain _, Put k _) \<Rightarrow> is_property k
      | (Plain _, Delete k) \<Rightarrow> is_property k
      | (Arr xs, Put (Index _) _) \<Rightarrow> None \<notin> set xs
      | (Arr xs, Put (Name n) (VNum l)) \<Rightarrow> None \<notin> set xs \<and> n = ''length'' \<and> 0 \<le> l
      | (MapObj _, Put (Entry _) _) \<Rightarrow> True
      | (MapObj _, Delete (Entry _)) \<Rightarrow> True
      | (MapObj _, Clear) \<Rightarrow> True
      | (SetObj _, Add _) \<Rightarrow> True
      | (SetObj _, Delete (Entry _)) \<Rightarrow> True
      | (SetObj _, Clear) \<Rightarrow> True
      | _ \<Rightarrow> False)"

definition quiet :: "target \<Rightarrow> event \<Rightarrow> dkey list \<Rightarrow> dkey list \<Rightarrow> bool" where
  "quiet t event depsMap ks \<longleftrightarrow>
     (case event of None \<Rightarrow> True | Some (type, key, v) \<Rightarrow> \<forall>k \<in> set ks. k \<notin> set (collect_deps t type key v depsMap))"

definition reads_same :: "target \<Rightarrow> target \<Rightarrow> obj_read \<Rightarrow> bool" where
  "reads_same t t' r \<longleftrightarrow> read_target t' r = read_target t r \<and> tracked_keys t' r = tracked_keys t r"

lemma kinds [simp]:
  "\<not> is_array (Plain kvs)" "is_array (Arr xs)" "\<not> is_array (MapObj m)" "\<not> is_array (SetObj vs)"
  "\<not> is_map (Plain kvs)" "\<not> is_map (Arr xs)" "is_map (MapObj m)" "\<not> is_map (SetObj vs)" "is_index (Index i)"
  by (simp_all add: is_array_def is_map_def is_index_def)

lemma collect_deps_iff:
  "k \<in> set (collect_deps t type key v ds) \<longleftrightarrow> k \<in> set ds \<and>
     (type = Clear_type \<or>
      (if key = Some (Name ''length'') \<and> is_array t then k = Name ''length'' \<or> beyond v k
       else key = Some k \<or>
         (type = Add_type \<or> type = Delete_type) \<and> \<not> is_array t \<and> (k = ITERATE_KEY \<or> is_map t \<and> k = MAP_KEY_ITERATE_KEY) \<or>
         type = Add_type \<and> is_array t \<and> (\<exists>j. key = Some j \<and> is_index j) \<and> k = Name ''length'' \<or>
         type = Set_type \<and> is_map t \<and> k = ITERATE_KEY))"
  by (cases type; cases key) (auto simp: collect_deps_def)

lemma map_of_put_key [simp]: "map_of (put_key kvs k v) = (map_of kvs)(k \<mapsto> v)"
  by (induction kvs k v rule: put_key.induct) auto

lemma put_key_same: "map_of kvs k = Some v \<Longrightarrow> put_key kvs k v = kvs"
  by (induction kvs k v rule: put_key.induct) (auto split: if_splits)

lemma put_key_keys: "map_of kvs k \<noteq> None \<Longrightarrow> map fst (put_key kvs k v) = map fst kvs"
  by (induction kvs k v rule: put_key.induct) auto

lemma set_event_None: "set_event had old k v = None \<longleftrightarrow> had \<and> v = old"
  by (simp add: set_event_def)

lemma set_event_Some:
  "set_event had old k v = Some (type, key, nv) \<longleftrightarrow>
     key = Some k \<and> nv = v \<and> (\<not> had \<and> type = Add_type \<or> had \<and> v \<noteq> old \<and> type = Set_type)"
  by (auto simp: set_event_def)

lemma or_undef_Some: "v \<noteq> None \<Longrightarrow> or_undef v = x \<longleftrightarrow> v = Some x"
  by (auto simp: or_undef_def)

lemma covers_plain:
  assumes w: "write_target w (Plain kvs) = (t', ev)" and r: "read_ok r"
    and d: "set (tracked_keys (Plain kvs) r) \<subseteq> set ds" and q: "quiet t' ev ds (tracked_keys (Plain kvs) r)"
  shows "reads_same (Plain kvs) t' r"
proof (cases w)
  case (Put k v)
  let ?had = "map_of kvs k \<noteq> None"
  have t': "t' = Plain (put_key kvs k v)" and ev: "ev = set_event ?had (or_undef (map_of kvs k)) k v" using w Put by (auto simp: write_defs)
  show ?thesis
  proof (cases "ev = None")
    case True
    then have "put_key kvs k v = kvs" using or_undef_Some [of "map_of kvs k" v] by (intro put_key_same) (auto simp: ev set_event_None)
    then show ?thesis by (simp add: t' reads_same_def)
  next
    case False
    then obtain type where e: "ev = Some (type, Some k, v)" "type = (if ?had then Set_type else Add_type)"
      by (auto simp: ev set_event_def split: if_splits)
    have qq: "k' \<in> set (tracked_keys (Plain kvs) r) \<Longrightarrow> k' \<noteq> k \<and> (k' = ITERATE_KEY \<longrightarrow> ?had)" for k'
      using q d by (auto simp: quiet_def e t' collect_deps_iff split: if_splits)
    show ?thesis using qq put_key_keys [of kvs k v] r
      by (cases r) (auto simp: reads_same_def t' read_ok_def get_tracks_def split: dkey.splits if_splits)
  qed
next
  case (Delete k)
  then have t': "t' = Plain (AList.delete k kvs)" and ev: "ev = (if map_of kvs k \<noteq> None then Some (Delete_type, Some k, VUndef) else None)"
    using w by (auto simp: write_defs)
  show ?thesis
  proof (cases "map_of kvs k")
    case None
    then have "AList.delete k kvs = kvs" by (intro delete_id) (simp add: map_of_eq_None_iff)
    then show ?thesis by (simp add: t' reads_same_def)
  next
    case (Some x)
    have qq: "k' \<in> set (tracked_keys (Plain kvs) r) \<Longrightarrow> k' \<noteq> k \<and> k' \<noteq> ITERATE_KEY" for k'
      using q d by (auto simp: quiet_def ev Some t' collect_deps_iff)
    show ?thesis using qq r
      by (cases r) (auto simp: reads_same_def t' read_ok_def get_tracks_def delete_conv' split: dkey.splits if_splits)
  qed
qed (use w in \<open>auto simp: reads_same_def\<close>)

lemma covers_map:
  assumes w: "write_target w (MapObj kvs) = (t', ev)"
    and d: "set (tracked_keys (MapObj kvs) r) \<subseteq> set ds" and q: "quiet t' ev ds (tracked_keys (MapObj kvs) r)"
  shows "reads_same (MapObj kvs) t' r"
proof -
  consider (put) k v where "w = Put (Entry k) v" | (del) k where "w = Delete (Entry k)" | (clear) "w = Clear"
    | (none) "t' = MapObj kvs"
    using w by (cases "(w, MapObj kvs)" rule: write_target.cases) auto
  then show ?thesis
  proof cases
    case put
    let ?had = "map_of kvs k \<noteq> None"
    have t': "t' = MapObj (put_key kvs k v)" and ev: "ev = set_event ?had (or_undef (map_of kvs k)) (Entry k) v" using w put by (auto simp: write_defs)
    show ?thesis
    proof (cases "ev = None")
      case True
      then have "put_key kvs k v = kvs" using or_undef_Some [of "map_of kvs k" v] by (intro put_key_same) (auto simp: ev set_event_None)
      then show ?thesis by (simp add: t' reads_same_def)
    next
      case False
      then obtain type where e: "ev = Some (type, Some (Entry k), v)" "type = (if ?had then Set_type else Add_type)"
        by (auto simp: ev set_event_def split: if_splits)
      have qq: "k' \<in> set (tracked_keys (MapObj kvs) r) \<Longrightarrow> k' \<noteq> Entry k \<and> k' \<noteq> ITERATE_KEY \<and> (k' = MAP_KEY_ITERATE_KEY \<longrightarrow> ?had)" for k'
        using q d by (auto simp: quiet_def e t' collect_deps_iff split: if_splits)
      show ?thesis using qq put_key_keys [of kvs k v]
        by (cases "(MapObj kvs, r)" rule: read_target.cases) (auto simp: reads_same_def t')
    qed
  next
    case del
    then have t': "t' = MapObj (AList.delete k kvs)" and ev: "ev = (if map_of kvs k \<noteq> None then Some (Delete_type, Some (Entry k), VUndef) else None)"
      using w by (auto simp: write_defs)
    show ?thesis
    proof (cases "map_of kvs k")
      case None
      then have "AList.delete k kvs = kvs" by (intro delete_id) (simp add: map_of_eq_None_iff)
      then show ?thesis by (simp add: t' reads_same_def)
    next
      case (Some x)
      have qq: "k' \<in> set (tracked_keys (MapObj kvs) r) \<Longrightarrow> k' \<noteq> Entry k \<and> k' \<noteq> ITERATE_KEY \<and> k' \<noteq> MAP_KEY_ITERATE_KEY" for k'
        using q d by (auto simp: quiet_def ev Some t' collect_deps_iff)
      show ?thesis using qq
        by (cases "(MapObj kvs, r)" rule: read_target.cases) (auto simp: reads_same_def t' delete_conv')
    qed
  next
    case clear
    then have t': "t' = MapObj []" and ev: "ev = (if kvs \<noteq> [] then Some (Clear_type, None, VUndef) else None)" using w by (auto simp: write_defs)
    have qq: "kvs = [] \<or> tracked_keys (MapObj kvs) r = []"
      using q d by (cases "tracked_keys (MapObj kvs) r") (auto simp: quiet_def ev collect_deps_iff split: if_splits)
    then show ?thesis by (cases "(MapObj kvs, r)" rule: read_target.cases) (auto simp: reads_same_def t')
  qed (simp add: reads_same_def)
qed

lemma covers_set:
  assumes w: "write_target w (SetObj vs) = (t', ev)"
    and d: "set (tracked_keys (SetObj vs) r) \<subseteq> set ds" and q: "quiet t' ev ds (tracked_keys (SetObj vs) r)"
  shows "reads_same (SetObj vs) t' r"
proof (cases "ev")
  case None
  then have "t' = SetObj vs" using w by (cases "(w, SetObj vs)" rule: write_target.cases) (auto simp: write_defs split: if_splits)
  then show ?thesis by (simp add: reads_same_def)
next
  case (Some e)
  have "(\<forall>k' \<in> set (tracked_keys (SetObj vs) r). k' \<noteq> ITERATE_KEY) \<and>
      (\<forall>v. Entry v \<in> set (tracked_keys (SetObj vs) r) \<longrightarrow> (\<exists>vs'. t' = SetObj vs' \<and> (v \<in> set vs' \<longleftrightarrow> v \<in> set vs))) \<and> (\<exists>vs'. t' = SetObj vs')"
    using w q d Some
    by (cases "(w, SetObj vs)" rule: write_target.cases)
      (auto simp: write_defs quiet_def collect_deps_iff split: if_splits)
  then show ?thesis by (cases "(SetObj vs, r)" rule: read_target.cases) (auto simp: reads_same_def)
qed

text \<open>Arrays without holes: the length and the elements are tracked together by everything that reads all of it.\<close>

lemma elem_put: "elem_at (put_elem xs i v) j = (if j = i then Some v else elem_at xs j)"
  by (auto simp: elem_at_def put_elem_def nth_append nth_list_update)

lemma length_put_elem: "length (put_elem xs i v) = (if i < length xs then length xs else Suc i)"
  by (simp add: put_elem_def)

lemma elem_put_length: "elem_at (put_length xs n) j = (if j < n then elem_at xs j else None)"
  by (auto simp: elem_at_def put_length_def nth_append)

lemma length_put_length: "length (put_length xs n) = n"
  by (simp add: put_length_def)

lemma same_elems: "length xs = length ys \<Longrightarrow> (\<And>i. i < length xs \<Longrightarrow> elem_at xs i = elem_at ys i) \<Longrightarrow> xs = ys"
  by (rule nth_equalityI) (auto simp: elem_at_def)

lemma arr_reads_same:
  assumes len: "Name ''length'' \<in> set (tracked_keys (Arr xs) r) \<Longrightarrow> length ys = length xs"
    and el: "\<And>i. Index i \<in> set (tracked_keys (Arr xs) r) \<Longrightarrow> elem_at ys i = elem_at xs i"
    and keys: "r = OwnKeys \<Longrightarrow> None \<notin> set xs \<and> None \<notin> set ys"
  shows "reads_same (Arr xs) (Arr ys) r"
proof -
  have all: "ys = xs" if "set (map Index [0..<length xs]) \<subseteq> set (tracked_keys (Arr xs) r)" "Name ''length'' \<in> set (tracked_keys (Arr xs) r)"
  proof (rule same_elems)
    show "length ys = length xs" by (rule len [OF that(2)])
    show "elem_at ys i = elem_at xs i" if "i < length ys" for i
      using that \<open>length ys = length xs\<close> \<open>set (map Index [0..<length xs]) \<subseteq> set (tracked_keys (Arr xs) r)\<close>
      by (intro el) (auto simp: subset_iff)
  qed
  show ?thesis
  proof (cases r)
    case (Get k)
    then show ?thesis using len el by (cases k) (auto simp: reads_same_def)
  next
    case (Has k)
    then show ?thesis using el by (cases k) (auto simp: reads_same_def)
  next
    case OwnKeys
    then have l: "length ys = length xs" using len by simp
    have "\<forall>i < length xs. xs ! i \<noteq> None" "\<forall>i < length xs. ys ! i \<noteq> None" using keys [OF OwnKeys] l by (metis nth_mem)+
    then have "filter (\<lambda>i. ys ! i \<noteq> None) [0..<length ys] = filter (\<lambda>i. xs ! i \<noteq> None) [0..<length xs]"
      unfolding l by (intro filter_cong) auto
    then show ?thesis by (simp add: reads_same_def OwnKeys l)
  qed (use all in \<open>auto simp: reads_same_def\<close>)
qed

lemma covers_arr:
  assumes w: "write_target w (Arr xs) = (t', ev)" and ok: "write_ok w (Arr xs)"
    and d: "set (tracked_keys (Arr xs) r) \<subseteq> set ds" and q: "quiet t' ev ds (tracked_keys (Arr xs) r)"
  shows "reads_same (Arr xs) t' r"
proof -
  have dense: "None \<notin> set xs" and nd: "\<And>k. w \<noteq> Delete k" using ok by (auto simp: write_ok_def split: obj_write.splits dkey.splits rvalue.splits)
  consider (put) i v where "w = Put (Index i) v" | (len) l where "w = Put (Name ''length'') (VNum l)" "0 \<le> l" | (none) "t' = Arr xs"
    using w nd by (cases "(w, Arr xs)" rule: write_target.cases) (auto split: if_splits)
  then show ?thesis
  proof cases
    case put
    let ?had = "i < length xs" and ?ys = "put_elem xs i v"
    have t': "t' = Arr ?ys" and ev: "ev = set_event ?had (or_undef (elem_at xs i)) (Index i) v" using w put by (auto simp: write_defs)
    show ?thesis
    proof (cases "ev = None")
      case True
      then have h: "i < length xs" "or_undef (elem_at xs i) = v" by (auto simp: ev set_event_None)
      then have "elem_at xs i = Some v" using dense by (auto simp: elem_at_def or_undef_def split: option.splits) (metis nth_mem)
      then have "?ys = xs" using h(1) by (intro same_elems) (auto simp: elem_put length_put_elem)
      then show ?thesis by (simp add: t' reads_same_def)
    next
      case False
      then obtain type where e: "ev = Some (type, Some (Index i), v)" "type = (if ?had then Set_type else Add_type)"
        by (auto simp: ev set_event_def split: if_splits)
      have qq: "k' \<in> set (tracked_keys (Arr xs) r) \<Longrightarrow> k' \<noteq> Index i \<and> (k' = Name ''length'' \<longrightarrow> ?had)" for k'
        using q d by (auto simp: quiet_def e t' collect_deps_iff split: if_splits)
      have "None \<notin> set ?ys" if ?had using that dense set_update_subset_insert [of xs i "Some v"] by (auto simp: put_elem_def)
      then show ?thesis unfolding t' using qq dense
        by (intro arr_reads_same) (auto simp: elem_put length_put_elem)
    qed
  next
    case len
    let ?ys = "put_length xs (nat l)"
    have t': "t' = Arr ?ys" and ev: "ev = set_event True (VNum (int (length xs))) (Name ''length'') (VNum l)" using w len by (auto simp: write_defs)
    show ?thesis
    proof (cases "ev = None")
      case True
      then have "nat l = length xs" by (auto simp: ev set_event_None)
      then have "?ys = xs" by (simp add: put_length_def)
      then show ?thesis by (simp add: t' reads_same_def)
    next
      case False
      then have e: "ev = Some (Set_type, Some (Name ''length''), VNum l)" by (auto simp: ev set_event_def)
      have qq: "k' \<in> set (tracked_keys (Arr xs) r) \<Longrightarrow> k' \<noteq> Name ''length'' \<and> \<not> beyond (VNum l) k'" for k'
        using q d by (auto simp: quiet_def e t' collect_deps_iff)
      have "i < nat l" if "Index i \<in> set (tracked_keys (Arr xs) r)" for i using qq [OF that] by (simp add: beyond_def)
      then show ?thesis unfolding t' using qq
        by (intro arr_reads_same) (auto simp: elem_put_length)
    qed
  qed (simp add: reads_same_def)
qed

lemma write_covers:
  assumes "write_target w t = (t', ev)" "read_ok r" "write_ok w t"
    and "set (tracked_keys t r) \<subseteq> set ds" "quiet t' ev ds (tracked_keys t r)"
  shows "reads_same t t' r"
proof (cases t)
  case (Plain kvs)
  then show ?thesis using covers_plain assms by blast
next
  case (Arr xs)
  then show ?thesis using covers_arr assms by blast
next
  case (MapObj kvs)
  then show ?thesis using covers_map assms by blast
next
  case (SetObj vs)
  then show ?thesis using covers_set assms by blast
qed

text \<open>A write that changes nothing triggers nothing.\<close>

lemma unchanged_facts:
  "put_key kvs k v = kvs \<Longrightarrow> map_of kvs k = Some v" "AList.delete k kvs = kvs \<Longrightarrow> map_of kvs k = None"
  "put_elem xs i x = xs \<Longrightarrow> elem_at xs i = Some x \<and> i < length xs" "put_length xs n = xs \<Longrightarrow> n = length xs"
  "xs[i := None] = xs \<Longrightarrow> elem_at xs i = None" "removeAll y vs = vs \<Longrightarrow> y \<notin> set vs"
proof -
  show "map_of kvs k = Some v" if "put_key kvs k v = kvs" using map_of_put_key [of kvs k v] that by (metis fun_upd_same)
  show "map_of kvs k = None" if "AList.delete k kvs = kvs" using delete_conv' [of k kvs] that by (metis fun_upd_same)
  show "elem_at xs i = Some x \<and> i < length xs" if "put_elem xs i x = xs"
    using elem_put [of xs i x i] length_put_elem [of xs i x] that by (auto split: if_splits)
  show "n = length xs" if "put_length xs n = xs" using length_put_length [of xs n] that by simp
  show "elem_at xs i = None" if "xs[i := None] = xs" using that by (metis elem_at_def nth_list_update_eq)
  show "y \<notin> set vs" if "removeAll y vs = vs" using that by (metis DiffE insertI1 set_removeAll)
qed

lemma no_change_no_event:
  assumes "write_target w t = (t, event)"
  shows "event = None"
  using assms
  by (cases "(w, t)" rule: write_target.cases)
    (auto simp: write_defs set_event_def or_undef_def dest!: unchanged_facts split: if_splits)

section \<open>Whole effects\<close>

primrec reader_ok :: "reader \<Rightarrow> bool" where
  "reader_ok (Finish v) = True"
| "reader_ok (Ask a r k) = (read_ok r \<and> (\<forall>x. reader_ok (k x)))"

lemma reader_unaffected:
  assumes w: "write_target w (heap a) = (t', ev)" "write_ok w (heap a)"
  shows "reader_ok p \<Longrightarrow> (\<And>k. (a, k) \<in> set (snd (run_reader p heap)) \<Longrightarrow> k \<in> set ds \<and> quiet t' ev ds [k]) \<Longrightarrow>
    run_reader p (heap(a := t')) = run_reader p heap"
proof (induction p)
  case (Ask b r k)
  let ?rest = "run_reader (k (read_target (heap b) r)) heap"
  have sn: "snd (run_reader (Ask b r k) heap) = map (Pair b) (tracked_keys (heap b) r) @ snd ?rest"
    by (simp add: split_def Let_def)
  have same: "reads_same (heap b) ((heap(a := t')) b) r"
  proof (cases "b = a")
    case True
    have "\<And>k. k \<in> set (tracked_keys (heap a) r) \<Longrightarrow> k \<in> set ds \<and> quiet t' ev ds [k]"
      using Ask.prems(2) True unfolding sn by auto
    then have "set (tracked_keys (heap a) r) \<subseteq> set ds" "quiet t' ev ds (tracked_keys (heap a) r)"
      by (auto simp: quiet_def split: option.splits)
    then show ?thesis using write_covers [OF w(1) _ w(2)] Ask.prems(1) True by simp
  qed (simp add: reads_same_def)
  have "run_reader (k (read_target (heap b) r)) (heap(a := t')) = ?rest"
    using Ask.prems unfolding sn by (intro Ask.IH) auto
  then show ?case using same by (simp add: reads_same_def del: fun_upd_apply)
qed simp

section \<open>Writes reach the watchers\<close>

lemma trigger_list_ok:
  assumes "N < n" "ready N 0 s"
  shows "\<exists>s'. for_each (\<lambda>k. triggerEffects n (Ref (f k)) 4) ks s = Some s' \<and> raises s s' \<and>
    (\<forall>k \<in> set ks. \<forall>e. tracked s (Ref (f k)) e \<longrightarrow> 4 \<le> level s' e)"
  using assms(2)
proof (induction ks arbitrary: s)
  case (Cons k ks)
  have "triggers_ok N 0 (Ref (f k)) 4 (triggerEffects n (Ref (f k)) 4)" using assms(1) by (intro triggerEffects_ok) simp_all
  then obtain s1 where s1: "triggerEffects n (Ref (f k)) 4 s = Some s1" "raises s s1" "\<And>e. tracked s (Ref (f k)) e \<Longrightarrow> 4 \<le> level s1 e"
    using Cons.prems unfolding triggers_ok_def by blast
  have tr: "tracked s1 src e = tracked s src e" for src e by (rule raises_fields(8) [OF s1(2)])
  obtain s2 where s2: "for_each (\<lambda>k. triggerEffects n (Ref (f k)) 4) ks s1 = Some s2" "raises s1 s2"
    "\<forall>k \<in> set ks. \<forall>e. tracked s1 (Ref (f k)) e \<longrightarrow> 4 \<le> level s2 e"
    using Cons.IH [OF ready_raises [OF Cons.prems s1(2)]] by blast
  have "4 \<le> level s2 e" if "tracked s (Ref (f k)) e" for e
    using s1(3) [OF that] raises_fields(9) [OF s2(2), of e] by simp
  then show ?case using s1(1) s2 raises_trans [OF s1(2) s2(2)] tr by auto
qed simp

lemma trigger_ok:
  assumes "N < n" "calm fns watchers N W s"
  shows "\<exists>s'. trigger n dep_of a t event ds s = Some s' \<and> raises s s' \<and> queueEffectSchedulers s' = [] \<and>
    (\<forall>k e. tracked s (Ref (dep_of (a, k))) e \<and> \<not> quiet t event ds [k] \<longrightarrow> 4 \<le> level s' e)"
proof (cases event)
  case None
  then show ?thesis using goodD(2) [OF calmD(1) [OF assms(2)]] by (simp add: trigger_def quiet_def flags_ok_def)
next
  case (Some e)
  obtain type key v where e: "e = (type, key, v)" by (cases e)
  let ?ks = "collect_deps t type key v ds"
  have r: "ready N 0 (pauseScheduling s)"
    using calm_ready [OF assms(2)] by (simp add: ready_def pauseScheduling_def tracked_def entry_def level_def)
  obtain s1 where s1: "for_each (\<lambda>k. triggerEffects n (Ref (dep_of (a, k))) 4) ?ks (pauseScheduling s) = Some s1"
    "raises (pauseScheduling s) s1" "\<forall>k \<in> set ?ks. \<forall>e. tracked (pauseScheduling s) (Ref (dep_of (a, k))) e \<longrightarrow> 4 \<le> level s1 e"
    using trigger_list_ok [OF assms(1) r, of "\<lambda>k. dep_of (a, k)" ?ks] by blast
  have tp: "tracked (pauseScheduling s) = tracked s" by (simp add: pauseScheduling_def tracked_def entry_def fun_eq_iff)
  note rp = raises_paused [OF s1(2)]
  have "trigger n dep_of a t event ds s = Some (resetScheduling s1)" using s1(1) by (simp add: trigger_def Some e)
  moreover have "4 \<le> level (resetScheduling s1) x" if "tracked s (Ref (dep_of (a, k))) x" "\<not> quiet t event ds [k]" for k x
    using s1(3) that tp rp(2) by (simp add: quiet_def Some e)
  ultimately show ?thesis using rp(1) rp(3) [OF calmD(3) [OF assms(2)]] by blast
qed

text \<open>
  C19. After a write to a reactive object, map, set or array without holes, a watcher whose
  tracked reads would give another value now is certainly dirty and with the scheduler.
\<close>

theorem changed_reads_are_scheduled:
  assumes "N < n" and "calm fns watchers N W s" and "w \<in> W"
    and "write_target write (heap a) = (t', event)" and "write_ok write (heap a)" and "reader_ok p"
    and "\<forall>(b, k) \<in> set (snd (run_reader p heap)). tracked s (Ref (dep_of (b, k))) (Watcher w) \<and> (b = a \<longrightarrow> k \<in> set ds)"
  shows "\<exists>s'. trigger n dep_of a t' event ds s = Some s' \<and> calm fns watchers N W s' \<and>
    (run_reader p (heap(a := t')) = run_reader p heap \<or> 4 \<le> level s' (Watcher w) \<and> w \<in> set (scheduled s'))"
proof -
  obtain s' where s': "trigger n dep_of a t' event ds s = Some s'" "raises s s'" "queueEffectSchedulers s' = []"
    "\<And>k e. tracked s (Ref (dep_of (a, k))) e \<Longrightarrow> \<not> quiet t' event ds [k] \<Longrightarrow> 4 \<le> level s' e"
    using trigger_ok [OF assms(1,2), of dep_of a t' event ds] by blast
  have "raises (s\<lparr>ref_value := ref_value s\<rparr>) s'" using s'(2) by simp
  then have calm: "calm fns watchers N W s'" by (rule raises_calm [OF assms(2) _ s'(3)]) simp
  show ?thesis
  proof (cases "\<exists>k. (a, k) \<in> set (snd (run_reader p heap)) \<and> \<not> quiet t' event ds [k]")
    case False
    then have "run_reader p (heap(a := t')) = run_reader p heap"
      using assms(7) by (intro reader_unaffected [where heap = heap and a = a, OF assms(4,5,6)]) auto
    then show ?thesis using s'(1) calm by blast
  next
    case True
    then obtain k where k: "(a, k) \<in> set (snd (run_reader p heap))" "\<not> quiet t' event ds [k]" by blast
    have l: "4 \<le> level s' (Watcher w)" using assms(7) k by (intro s'(4) [OF _ k(2)]) auto
    have "w \<in> set (scheduled s')"
    proof (cases "level s (Watcher w) = 0")
      case True
      then have "informed s' (Watcher w)" using s'(2) l unfolding raises_def by force
      then show ?thesis using s'(3) by (simp add: informed_def pending_def)
    next
      case False
      then have "w \<in> pending s" using calmD(5) [OF assms(2,3)] by (simp add: pending_def)
      then show ?thesis using s'(2,3) by (auto simp: raises_def pending_def)
    qed
    then show ?thesis using s'(1) l calm by blast
  qed
qed

text \<open>
  The exceptions: deleting an element of an array, and filling a hole, are not seen by an effect that
  has read the keys of the array.
\<close>

lemma deleted_element_not_seen:
  "fst (write_target (Delete (Index 0)) (Arr [Some v])) = Arr [None]"
  "snd (write_target (Delete (Index 0)) (Arr [Some v])) = Some (Delete_type, Some (Index 0), VUndef)"
  "read_target (Arr [None]) OwnKeys \<noteq> read_target (Arr [Some v]) OwnKeys"
  "quiet (Arr [None]) (Some (Delete_type, Some (Index 0), VUndef)) ds (tracked_keys (Arr [Some v]) OwnKeys)"
  by (auto simp: write_defs elem_at_def quiet_def collect_deps_iff)

lemma filled_hole_not_seen:
  "write_target (Put (Index 0) VUndef) (Arr [None]) = (Arr [Some VUndef], None)"
  "read_target (Arr [Some VUndef]) (Has (Index 0)) \<noteq> read_target (Arr [None]) (Has (Index 0))"
  by (auto simp: write_defs put_elem_def set_event_def elem_at_def or_undef_def)

text \<open>A watcher that has read a property is scheduled when the property is written.\<close>

definition one_watch :: "nat \<Rightarrow> getter" where
  "one_watch w = Read (Ref 0) Return"

definition no_fns :: "nat \<Rightarrow> getter" where
  "no_fns c = Return VNull"

definition prop_reader :: reader where
  "prop_reader = Ask 7 (Get (Name ''user'')) (\<lambda>r. case r of RVal v \<Rightarrow> Finish v | _ \<Rightarrow> Finish VUndef)"

lemma prop_reader_ok: "reader_ok prop_reader"
  by (auto simp: prop_reader_def read_ok_def isNonTrackableKeys_def makeMap_def split: read_result.split)

theorem changed_reads_are_scheduled_witness:
  "\<exists>s s'. watcher_job no_fns one_watch 1 0 (init_rstate (\<lambda>_. VNull)) = Some s \<and>
    trigger 1 (\<lambda>_. 0) 7 (Plain [(Name ''user'', VNum 2)]) (Some (Set_type, Some (Name ''user''), VNum 2)) [Name ''user''] s = Some s' \<and>
    4 \<le> level s' (Watcher 0) \<and> 0 \<in> set (scheduled s')"
proof -
  let ?heap = "\<lambda>_ :: nat. Plain [(Name ''user'', VNum 1)]"
  have ac: "acyclic_fns no_fns one_watch 0" by (simp add: acyclic_fns_def one_watch_def)
  obtain s where s: "watcher_job no_fns one_watch 1 0 (init_rstate (\<lambda>_. VNull)) = Some s" "calm no_fns one_watch 0 {0} s"
    using watcher_job_calm [OF ac calm_init, of 1 0] by auto
  have "tracked (the (watcher_job no_fns one_watch 1 0 (init_rstate (\<lambda>_. VNull)))) (Ref 0) (Watcher 0)" by code_simp
  then have tr: "tracked s (Ref 0) (Watcher 0)" using s(1) by simp
  have w: "write_target (Put (Name ''user'') (VNum 2)) (?heap 7) =
      (Plain [(Name ''user'', VNum 2)], Some (Set_type, Some (Name ''user''), VNum 2))"
    by (simp add: write_defs set_event_def or_undef_def)
  have n: "\<not> isNonTrackableKeys ''user''" by code_simp
  have ks: "\<forall>(b, k) \<in> set (snd (run_reader prop_reader ?heap)). tracked s (Ref 0) (Watcher 0) \<and> (b = 7 \<longrightarrow> k \<in> set [Name ''user''])"
    using tr n by (simp add: prop_reader_def or_undef_def get_tracks_def)
  have ne: "run_reader prop_reader (?heap(7 := Plain [(Name ''user'', VNum 2)])) \<noteq> run_reader prop_reader ?heap"
    using n by (simp add: prop_reader_def or_undef_def get_tracks_def)
  have wo: "write_ok (Put (Name ''user'') (VNum 2)) (?heap 7)" by (simp add: write_ok_def is_property_def)
  show ?thesis
    using changed_reads_are_scheduled [where heap = ?heap and dep_of = "\<lambda>_. 0", OF _ s(2) _ w wo prop_reader_ok ks, of 1] s(1) ne by auto
qed

section \<open>Proxies\<close>

text \<open>
  Objects and their proxies, by number: \<open>handler\<close> gives the kind and the target of a proxy,
  \<open>proxy_map\<close> the proxies made so far, \<open>target_type\<close> of an object that is no proxy whether it can be
  observed (1, 2) or not (0).
\<close>

datatype proxy_kind = Reactive | ShallowReactive | Readonly

record proxies =
  handler :: "nat \<rightharpoonup> proxy_kind \<times> nat"
  proxy_map :: "proxy_kind \<Rightarrow> nat \<rightharpoonup> nat"
  target_type :: "nat \<Rightarrow> nat"
  next_object :: nat

text \<open>The reads \<open>__v_raw\<close>, \<open>__v_isReactive\<close>, \<open>__v_isReadonly\<close>.\<close>

definition v_raw :: "proxies \<Rightarrow> nat \<Rightarrow> nat option" where
  "v_raw ps x = map_option snd (handler ps x)"

definition v_isReactive :: "proxies \<Rightarrow> nat \<Rightarrow> bool" where
  "v_isReactive ps x = (case handler ps x of Some (k, _) \<Rightarrow> k \<noteq> Readonly | None \<Rightarrow> False)"

definition isReadonly :: "proxies \<Rightarrow> nat \<Rightarrow> bool" where
  "isReadonly ps x = (case handler ps x of Some (k, _) \<Rightarrow> k = Readonly | None \<Rightarrow> False)"

partial_function (option) isReactive :: "proxies \<Rightarrow> nat \<Rightarrow> bool option" where
  "isReactive ps x = (if isReadonly ps x then isReactive ps (the (v_raw ps x)) else Some (v_isReactive ps x))"

partial_function (option) toRaw :: "proxies \<Rightarrow> nat \<Rightarrow> nat option" where
  "toRaw ps x = (case v_raw ps x of Some raw \<Rightarrow> toRaw ps raw | None \<Rightarrow> Some x)"

text \<open>A proxy has the type of its target.\<close>

partial_function (option) getTargetType :: "proxies \<Rightarrow> nat \<Rightarrow> nat option" where
  "getTargetType ps x = (case v_raw ps x of Some raw \<Rightarrow> getTargetType ps raw | None \<Rightarrow> Some (target_type ps x))"

declare isReactive.simps [simp del] toRaw.simps [simp del] getTargetType.simps [simp del]

definition createReactiveObject :: "proxy_kind \<Rightarrow> nat \<Rightarrow> proxies \<Rightarrow> (nat \<times> proxies) option" where
  "createReactiveObject kind target ps =
     (if v_raw ps target \<noteq> None \<and> \<not> (kind = Readonly \<and> v_isReactive ps target) then Some (target, ps)
      else
        case proxy_map ps kind target of
          Some p \<Rightarrow> Some (p, ps)
        | None \<Rightarrow>
            Option.bind (getTargetType ps target) (\<lambda>targetType.
            if targetType = 0 then Some (target, ps)
            else
              let p = next_object ps in
              Some (p, ps\<lparr>handler := (handler ps)(p \<mapsto> (kind, target)),
                 proxy_map := (proxy_map ps)(kind := (proxy_map ps kind)(target \<mapsto> p)), next_object := Suc p\<rparr>)))"

definition reactive :: "nat \<Rightarrow> proxies \<Rightarrow> (nat \<times> proxies) option" where
  "reactive target ps = (if isReadonly ps target then Some (target, ps) else createReactiveObject Reactive target ps)"

definition shallowReactive :: "nat \<Rightarrow> proxies \<Rightarrow> (nat \<times> proxies) option" where
  "shallowReactive = createReactiveObject ShallowReactive"

definition readonly :: "nat \<Rightarrow> proxies \<Rightarrow> (nat \<times> proxies) option" where
  "readonly = createReactiveObject Readonly"

text \<open>Targets are older than their proxies, and the maps hold the proxies of their kind.\<close>

definition proxies_ok :: "proxies \<Rightarrow> bool" where
  "proxies_ok ps \<longleftrightarrow>
     (\<forall>p k t. handler ps p = Some (k, t) \<longrightarrow> t < p \<and> p < next_object ps \<and> proxy_map ps k t = Some p) \<and>
     (\<forall>k t p. proxy_map ps k t = Some p \<longrightarrow> handler ps p = Some (k, t) \<and> getTargetType ps t \<noteq> Some 0)"

lemma proxies_okD:
  assumes "proxies_ok ps"
  shows "handler ps p = Some (k, t) \<Longrightarrow> t < p" "handler ps p = Some (k, t) \<Longrightarrow> p < next_object ps"
    "handler ps p = Some (k, t) \<Longrightarrow> proxy_map ps k t = Some p" "proxy_map ps k t = Some p \<Longrightarrow> handler ps p = Some (k, t)"
    "proxy_map ps k t = Some p \<Longrightarrow> getTargetType ps t \<noteq> Some 0"
  using assms unfolding proxies_ok_def by blast+

lemma toRaw_ends: "proxies_ok ps \<Longrightarrow> \<exists>r. toRaw ps x = Some r \<and> v_raw ps r = None"
proof (induction x rule: less_induct)
  case (less x)
  show ?case
  proof (cases "handler ps x")
    case None
    then show ?thesis by (subst toRaw.simps) (simp add: v_raw_def)
  next
    case (Some kt)
    then have "snd kt < x" using proxies_okD(1) [OF less.prems] by (cases kt) simp
    then show ?thesis using less Some by (subst toRaw.simps) (simp add: v_raw_def)
  qed
qed

lemma getTargetType_ends: "proxies_ok ps \<Longrightarrow> \<exists>n. getTargetType ps x = Some n"
proof (induction x rule: less_induct)
  case (less x)
  show ?case
  proof (cases "handler ps x")
    case None
    then show ?thesis by (subst getTargetType.simps) (simp add: v_raw_def)
  next
    case (Some kt)
    then have "snd kt < x" using proxies_okD(1) [OF less.prems] by (cases kt) simp
    then show ?thesis using less Some by (subst getTargetType.simps) (simp add: v_raw_def)
  qed
qed

text \<open>More proxies: those there were stay.\<close>

definition more_proxies :: "proxies \<Rightarrow> proxies \<Rightarrow> bool" where
  "more_proxies ps ps' \<longleftrightarrow> handler ps \<subseteq>\<^sub>m handler ps' \<and> (\<forall>k. proxy_map ps k \<subseteq>\<^sub>m proxy_map ps' k) \<and>
     next_object ps \<le> next_object ps' \<and> target_type ps' = target_type ps \<and>
     (\<forall>x < next_object ps. handler ps' x = handler ps x)"

lemma more_refl [simp]: "more_proxies ps ps"
  by (simp add: more_proxies_def)

lemma more_trans: "more_proxies ps ps' \<Longrightarrow> more_proxies ps' ps'' \<Longrightarrow> more_proxies ps ps''"
  unfolding more_proxies_def by (auto intro: map_le_trans)

lemma toRaw_more:
  assumes "proxies_ok ps" "more_proxies ps ps'"
  shows "x < next_object ps \<Longrightarrow> toRaw ps' x = toRaw ps x"
proof (induction x rule: less_induct)
  case (less x)
  have h: "handler ps' x = handler ps x" using assms(2) less.prems by (simp add: more_proxies_def)
  show ?case
  proof (cases "handler ps x")
    case None
    then show ?thesis using h by (subst (1 2) toRaw.simps) (simp add: v_raw_def)
  next
    case (Some kt)
    then have "snd kt < x" using proxies_okD(1) [OF assms(1)] by (cases kt) simp
    then show ?thesis using less Some h by (subst (1 2) toRaw.simps) (simp add: v_raw_def)
  qed
qed

lemma getTargetType_more:
  assumes "proxies_ok ps" "more_proxies ps ps'"
  shows "x < next_object ps \<Longrightarrow> getTargetType ps' x = getTargetType ps x"
proof (induction x rule: less_induct)
  case (less x)
  have h: "handler ps' x = handler ps x" "target_type ps' = target_type ps" using assms(2) less.prems by (simp_all add: more_proxies_def)
  show ?case
  proof (cases "handler ps x")
    case None
    then show ?thesis using h by (subst (1 2) getTargetType.simps) (simp add: v_raw_def)
  next
    case (Some kt)
    then have "snd kt < x" using proxies_okD(1) [OF assms(1)] by (cases kt) simp
    then show ?thesis using less Some h by (subst (1 2) getTargetType.simps) (simp add: v_raw_def)
  qed
qed

text \<open>A new proxy.\<close>

definition add_proxy :: "proxy_kind \<Rightarrow> nat \<Rightarrow> proxies \<Rightarrow> proxies" where
  "add_proxy kind x ps =
     ps\<lparr>handler := (handler ps)(next_object ps \<mapsto> (kind, x)),
        proxy_map := (proxy_map ps)(kind := (proxy_map ps kind)(x \<mapsto> next_object ps)), next_object := Suc (next_object ps)\<rparr>"

lemma no_handler_yet:
  assumes "proxies_ok ps"
  shows "handler ps (next_object ps) = None"
proof (cases "handler ps (next_object ps)")
  case (Some kt)
  then show ?thesis using proxies_okD(2) [OF assms, of "next_object ps"] by (cases kt) auto
qed simp

lemma add_proxy_more: "proxies_ok ps \<Longrightarrow> proxy_map ps kind x = None \<Longrightarrow> more_proxies ps (add_proxy kind x ps)"
  using no_handler_yet by (auto simp: more_proxies_def map_le_def add_proxy_def)

lemma add_proxy_ok:
  assumes ok: "proxies_ok ps" and x: "x < next_object ps" and None: "proxy_map ps kind x = None" and n: "getTargetType ps x \<noteq> Some 0"
  shows "proxies_ok (add_proxy kind x ps)"
  unfolding proxies_ok_def
proof (intro conjI allI impI)
  let ?ps = "add_proxy kind x ps"
  note mo = add_proxy_more [OF ok None] and fresh = no_handler_yet [OF ok]
  fix p k t assume h: "handler ?ps p = Some (k, t)"
  show "t < p" "p < next_object ?ps" "proxy_map ?ps k t = Some p"
    using h proxies_okD(1-3) [OF ok, of p k t] x None by (auto simp: add_proxy_def split: if_splits)
next
  let ?ps = "add_proxy kind x ps"
  note mo = add_proxy_more [OF ok None] and fresh = no_handler_yet [OF ok]
  fix k t p assume m: "proxy_map ?ps k t = Some p"
  show "handler ?ps p = Some (k, t)"
    using m proxies_okD(4) [OF ok, of k t p] fresh by (auto simp: add_proxy_def split: if_splits)
  show "getTargetType ?ps t \<noteq> Some 0"
  proof (cases "t = x")
    case True
    then show ?thesis using getTargetType_more [OF ok mo x] n by simp
  next
    case ne: False
    then have m': "proxy_map ps k t = Some p" using m by (auto simp: add_proxy_def split: if_splits)
    note h = proxies_okD(4) [OF ok m']
    have "t < next_object ps" using proxies_okD(1,2) [OF ok h] by simp
    then show ?thesis using getTargetType_more [OF ok mo, of t] proxies_okD(5) [OF ok m'] by simp
  qed
qed

lemma create_ok:
  assumes ok: "proxies_ok ps" and x: "x < next_object ps"
  shows "\<exists>p ps'. createReactiveObject kind x ps = Some (p, ps') \<and> proxies_ok ps' \<and> more_proxies ps ps' \<and> p < next_object ps' \<and>
    toRaw ps' p = toRaw ps x \<and> createReactiveObject kind x ps' = Some (p, ps')"
proof (cases "v_raw ps x \<noteq> None \<and> \<not> (kind = Readonly \<and> v_isReactive ps x)")
  case True
  then show ?thesis using ok x by (simp add: createReactiveObject_def)
next
  case no: False
  show ?thesis
  proof (cases "proxy_map ps kind x")
    case (Some p)
    have h: "handler ps p = Some (kind, x)" by (rule proxies_okD(4) [OF ok Some])
    then have "p < next_object ps" by (rule proxies_okD(2) [OF ok])
    moreover have "toRaw ps p = toRaw ps x" using h by (subst toRaw.simps) (simp add: v_raw_def)
    moreover have "createReactiveObject kind x ps = Some (p, ps)" using no Some by (auto simp: createReactiveObject_def)
    ultimately show ?thesis using ok by simp
  next
    case None
    obtain n where n: "getTargetType ps x = Some n" using getTargetType_ends [OF ok] by blast
    show ?thesis
    proof (cases "n = 0")
      case True
      then have "createReactiveObject kind x ps = Some (x, ps)" using no None n by (auto simp: createReactiveObject_def)
      then show ?thesis using ok x by simp
    next
      case False
      let ?p = "next_object ps" and ?ps = "add_proxy kind x ps"
      have c: "createReactiveObject kind x ps = Some (?p, ?ps)"
        using no None n False by (auto simp: createReactiveObject_def add_proxy_def Let_def)
      note mo = add_proxy_more [OF ok None]
      have "toRaw ?ps ?p = toRaw ?ps x" by (subst toRaw.simps) (simp add: v_raw_def add_proxy_def)
      then have "toRaw ?ps ?p = toRaw ps x" using toRaw_more [OF ok mo x] by simp
      moreover have "createReactiveObject kind x ?ps = Some (?p, ?ps)"
        using no x by (auto simp: createReactiveObject_def v_raw_def v_isReactive_def add_proxy_def)
      moreover have "?p < next_object ?ps" by (simp add: add_proxy_def)
      ultimately show ?thesis using c add_proxy_ok [OF ok x None] n False mo by auto
    qed
  qed
qed

lemma create_result: "createReactiveObject kind x ps = Some (p, ps') \<Longrightarrow> proxies_ok ps \<Longrightarrow> p = x \<or> handler ps' p = Some (kind, x)"
  by (auto simp: createReactiveObject_def Let_def proxies_okD(4) split: if_splits option.splits bind_splits)

lemma create_stable:
  assumes ok: "proxies_ok ps" "proxies_ok ps'" and m: "more_proxies ps ps'" and x: "x < next_object ps"
    and c: "createReactiveObject kind x ps = Some (p, ps)"
  shows "createReactiveObject kind x ps' = Some (p, ps')"
proof -
  have h: "handler ps' x = handler ps x" "v_raw ps' x = v_raw ps x" "v_isReactive ps' x = v_isReactive ps x"
    using m x by (simp_all add: more_proxies_def v_raw_def v_isReactive_def)
  note ty = getTargetType_more [OF ok(1) m x]
  show ?thesis
  proof (cases "v_raw ps x \<noteq> None \<and> \<not> (kind = Readonly \<and> v_isReactive ps x)")
    case True
    then show ?thesis using c h by (simp add: createReactiveObject_def)
  next
    case no: False
    show ?thesis
    proof (cases "proxy_map ps kind x")
      case (Some q)
      then have "proxy_map ps' kind x = Some q" using m by (auto simp: more_proxies_def map_le_def dom_def)
      then show ?thesis using c h no Some by (auto simp: createReactiveObject_def)
    next
      case None
      have "next_object ps \<noteq> Suc (next_object ps)" by simp
      then have t: "getTargetType ps x = Some 0" "p = x"
        using c no None unfolding createReactiveObject_def Let_def
        by (auto split: if_splits bind_splits dest: arg_cong [where f = next_object])
      have "proxy_map ps' kind x = None"
        using proxies_okD(5) [OF ok(2), of kind x] ty t(1) by (cases "proxy_map ps' kind x") auto
      then show ?thesis using h no ty t by (auto simp: createReactiveObject_def)
    qed
  qed
qed

text \<open>Any further objects are wrapped.\<close>

definition wrap :: "proxy_kind \<Rightarrow> nat \<Rightarrow> proxies \<Rightarrow> (nat \<times> proxies) option" where
  "wrap kind = (case kind of Reactive \<Rightarrow> reactive | ShallowReactive \<Rightarrow> shallowReactive | Readonly \<Rightarrow> readonly)"

inductive wrapped :: "proxies \<Rightarrow> proxies \<Rightarrow> bool" where
  wrapped_refl: "wrapped ps ps"
| wrapped_step: "wrapped ps ps' \<Longrightarrow> y < next_object ps' \<Longrightarrow> wrap kind y ps' = Some (p, ps'') \<Longrightarrow> wrapped ps ps''"

lemma wrap_ok:
  assumes "proxies_ok ps" "x < next_object ps" "wrap kind x ps = Some (p, ps')"
  shows "proxies_ok ps' \<and> more_proxies ps ps'"
  using assms create_ok [OF assms(1,2), of kind]
  by (auto simp: wrap_def reactive_def shallowReactive_def readonly_def split: proxy_kind.splits if_splits)

lemma wrapped_ok: "wrapped ps ps' \<Longrightarrow> proxies_ok ps \<Longrightarrow> proxies_ok ps' \<and> more_proxies ps ps'"
proof (induction rule: wrapped.induct)
  case (wrapped_step ps ps' y kind p ps'')
  then show ?case using wrap_ok more_trans by blast
qed simp

text \<open>
  C20. Wrapping an object returns, and however many objects are wrapped afterwards, the same
  object gives the same proxy again, the proxy gives itself, and below the proxy lies what lay
  below the object.
\<close>

theorem same_object_same_proxy:
  assumes "proxies_ok ps" and "x < next_object ps"
  shows "\<exists>p ps1. reactive x ps = Some (p, ps1) \<and>
    (\<forall>ps2. wrapped ps1 ps2 \<longrightarrow> reactive x ps2 = Some (p, ps2) \<and> reactive p ps2 = Some (p, ps2) \<and> toRaw ps2 p = toRaw ps x)"
proof (cases "isReadonly ps x")
  case True
  have "reactive x ps2 = Some (x, ps2) \<and> toRaw ps2 x = toRaw ps x" if "wrapped ps ps2" for ps2
  proof -
    have m: "more_proxies ps ps2" using wrapped_ok [OF that assms(1)] by blast
    then have "isReadonly ps2 x" using True assms(2) by (simp add: more_proxies_def isReadonly_def)
    then show ?thesis using toRaw_more [OF assms(1) m assms(2)] by (simp add: reactive_def)
  qed
  then show ?thesis using True by (auto simp: reactive_def)
next
  case False
  obtain p ps1 where c: "createReactiveObject Reactive x ps = Some (p, ps1)" "proxies_ok ps1" "more_proxies ps ps1"
    "p < next_object ps1" "toRaw ps1 p = toRaw ps x" "createReactiveObject Reactive x ps1 = Some (p, ps1)"
    using create_ok [OF assms, of Reactive] by blast
  have x1: "x < next_object ps1" "handler ps1 x = handler ps x" using c(3) assms(2) by (simp_all add: more_proxies_def)
  have "reactive x ps2 = Some (p, ps2) \<and> reactive p ps2 = Some (p, ps2) \<and> toRaw ps2 p = toRaw ps x" if "wrapped ps1 ps2" for ps2
  proof -
    have ok2: "proxies_ok ps2" "more_proxies ps1 ps2" using wrapped_ok [OF that c(2)] by blast+
    have "handler ps2 x = handler ps x" using ok2(2) x1 by (simp add: more_proxies_def)
    then have "\<not> isReadonly ps2 x" using False by (simp add: isReadonly_def)
    then have rx: "reactive x ps2 = Some (p, ps2)"
      using create_stable [OF c(2) ok2(1,2) x1(1) c(6)] by (simp add: reactive_def)
    moreover have "reactive p ps2 = Some (p, ps2)"
    proof (cases "p = x")
      case False
      then have "handler ps1 p = Some (Reactive, x)" using create_result [OF c(1) assms(1)] by simp
      then have "handler ps2 p = Some (Reactive, x)" using ok2(2) c(4) by (simp add: more_proxies_def)
      then show ?thesis by (simp add: reactive_def isReadonly_def createReactiveObject_def v_raw_def)
    qed (use rx in simp)
    moreover have "toRaw ps2 p = toRaw ps x" using toRaw_more [OF c(2) ok2(2) c(4)] c(5) by simp
    ultimately show ?thesis by blast
  qed
  then show ?thesis using c(1) False by (auto simp: reactive_def)
qed

definition two_objects :: proxies where
  "two_objects = \<lparr>handler = Map.empty, proxy_map = (\<lambda>_. Map.empty), target_type = (\<lambda>_. 1), next_object = 2\<rparr>"

theorem same_object_same_proxy_witness:
  "\<exists>p ps1. reactive 0 two_objects = Some (p, ps1) \<and> reactive 0 ps1 = Some (p, ps1) \<and> toRaw ps1 p = Some 0"
proof -
  have "toRaw two_objects 0 = Some 0" by (subst toRaw.simps) (simp add: v_raw_def two_objects_def)
  then show ?thesis
    using same_object_same_proxy [of two_objects 0] wrapped_refl by (fastforce simp: proxies_ok_def two_objects_def)
qed

end
