(* ===== verification/VuetifyLayout.thy ===== *)
theory VuetifyLayout
  imports VuetifyHelpers "HOL-Library.AList"
begin

text \<open>
  Vuetify's layout (\<^verbatim>\<open>src/v2/lens3/ui/assets/index.js\<close>, \<open>createLayout\<close>, \<open>useLayoutItem\<close>,
  \<open>generateLayers\<close>): the bars and drawers at the edges of the application register themselves with
  the layout, which gives each of them its place between those before it, and leaves the rest of
  the window to the main content. The page of the application (\<open>VApp\<close> with an app bar, \<open>VMain\<close> and
  a footer) is laid out by it.

  The maps of the layout hold refs of the items; the model keeps the values they have, and
  \<open>change_options\<close> writes those of one item. Sizes are whole numbers of pixels, on which the
  \<open>parseInt\<close> of \<open>generateLayers\<close> is the identity (sizes that are fractions or strings with a unit,
  of which it takes the leading digits, are outside the model); positions are one of the four
  edges. Where the component of an item stands among the registered ones (\<open>findChildrenWithProvide\<close>)
  is the argument \<open>index\<close> of \<open>register\<close>. The list \<open>items\<close> is a computed ref whose objects the styles of an
  item may write; it is passed to \<open>layoutItemStyles\<close> and returned.

  Shown: in every layout that registering, unregistering and changing items can make, every point of
  the window belongs to exactly one active item or to the main content, as long as the items fit
  into it; items that come first lie above those that come later. Overlaps are added again each
  time the styles are computed.
\<close>

section \<open>Layers\<close>

datatype side = Top | Left | Right | Bottom

record layer =
  l_top :: int
  l_left :: int
  l_right :: int
  l_bottom :: int

definition empty_layer :: layer where
  "empty_layer = \<lparr>l_top = 0, l_left = 0, l_right = 0, l_bottom = 0\<rparr>"

definition add_side :: "side \<Rightarrow> int \<Rightarrow> layer \<Rightarrow> layer" where
  "add_side p n r =
     (case p of
        Top \<Rightarrow> r\<lparr>l_top := l_top r + n\<rparr>
      | Left \<Rightarrow> r\<lparr>l_left := l_left r + n\<rparr>
      | Right \<Rightarrow> r\<lparr>l_right := l_right r + n\<rparr>
      | Bottom \<Rightarrow> r\<lparr>l_bottom := l_bottom r + n\<rparr>)"

text \<open>The amount of an active item is \<open>parseInt(layoutSize, 10)\<close>, of a whole number itself.\<close>

fun add_layers ::
  "(string \<times> side) list \<Rightarrow> (string \<times> int) list \<Rightarrow> (string \<times> bool) list \<Rightarrow> layer \<Rightarrow> string list \<Rightarrow> (string \<times> layer) list" where
  "add_layers positions layoutSizes activeItems previousLayer [] = []"
| "add_layers positions layoutSizes activeItems previousLayer (i # layout) =
     (case (map_of positions i, map_of layoutSizes i, map_of activeItems i) of
        (Some position, Some amount, Some active) \<Rightarrow>
          let layer = add_side position (if active then amount else 0) previousLayer
          in (i, layer) # add_layers positions layoutSizes activeItems layer layout
      | _ \<Rightarrow> add_layers positions layoutSizes activeItems previousLayer layout)"

definition generateLayers ::
  "string list \<Rightarrow> (string \<times> side) list \<Rightarrow> (string \<times> int) list \<Rightarrow> (string \<times> bool) list \<Rightarrow> (string \<times> layer) list" where
  "generateLayers layout positions layoutSizes activeItems =
     ([], empty_layer) # add_layers positions layoutSizes activeItems empty_layer layout"

section \<open>The layout\<close>

record item_options =
  order :: int
  position :: side
  layoutSize :: int
  elementSize :: "int option"
  active :: bool
  disableTransitions :: "bool option"
  absolute :: bool

record layout =
  overlaps :: "string list"
  fullHeight :: bool
  parentZIndex :: "int option"
  isMounted :: bool
  registered :: "string list"
  priorities :: "(string \<times> int) list"
  positions :: "(string \<times> side) list"
  layoutSizes :: "(string \<times> int) list"
  activeItems :: "(string \<times> bool) list"
  disabledTransitions :: "(string \<times> bool) list"

record layout_entry =
  entry_id :: string
  entry_layer :: layer
  entry_size :: int
  entry_position :: side

definition createLayout :: "string list \<Rightarrow> bool \<Rightarrow> int option \<Rightarrow> layout" where
  "createLayout os full parent =
     \<lparr>overlaps = os, fullHeight = full, parentZIndex = parent, isMounted = False, registered = [],
      priorities = [], positions = [], layoutSizes = [], activeItems = [], disabledTransitions = []\<rparr>"

definition ROOT_ZINDEX :: int where
  "ROOT_ZINDEX = 1000"

definition rootZIndex :: "layout \<Rightarrow> int" where
  "rootZIndex l = (case parentZIndex l of Some z \<Rightarrow> z - 100 | None \<Rightarrow> ROOT_ZINDEX)"

text \<open>The items in the order of their priorities; those of one priority as they are registered.\<close>

definition layout_order :: "layout \<Rightarrow> string list" where
  "layout_order l =
     (let uniquePriorities = sort (remdups (map snd (priorities l)))
      in concat (map (\<lambda>p. filter (\<lambda>i. map_of (priorities l) i = Some p) (registered l)) uniquePriorities))"

definition layers :: "layout \<Rightarrow> (string \<times> layer) list" where
  "layers l = generateLayers (layout_order l) (positions l) (layoutSizes l) (activeItems l)"

definition transitionsEnabled :: "layout \<Rightarrow> bool" where
  "transitionsEnabled l = (\<not> list_ex snd (disabledTransitions l))"

definition mainRect :: "layout \<Rightarrow> layer" where
  "mainRect l = snd (last (layers l))"

text \<open>Each item is placed in the layer before its own.\<close>

definition layout_items :: "layout \<Rightarrow> layout_entry list" where
  "layout_items l =
     map (\<lambda>((_, layer), (i, _)).
       \<lparr>entry_id = i, entry_layer = layer, entry_size = the (map_of (layoutSizes l) i),
        entry_position = the (map_of (positions l) i)\<rparr>) (zip (layers l) (tl (layers l)))"

definition getLayoutItem :: "layout \<Rightarrow> string \<Rightarrow> layout_entry option" where
  "getLayoutItem l i = find (\<lambda>it. entry_id it = i) (layout_items l)"

text \<open>An overlap is written \<open>top:bottom\<close>.\<close>

definition add_overlap :: "layout \<Rightarrow> string \<Rightarrow> (string \<times> side \<times> int) list \<Rightarrow> (string \<times> side \<times> int) list" where
  "add_overlap l overlap m =
     (case split_on CHR '':'' overlap of
        topId # bottomId # _ \<Rightarrow>
          if topId \<notin> set (registered l) \<or> bottomId \<notin> set (registered l) then m
          else
            (case (map_of (positions l) topId, map_of (positions l) bottomId, map_of (layoutSizes l) topId, map_of (layoutSizes l) bottomId) of
               (Some topPosition, Some bottomPosition, Some topAmount, Some bottomAmount) \<Rightarrow>
                 AList.update topId (bottomPosition, - bottomAmount) (AList.update bottomId (topPosition, topAmount) m)
             | _ \<Rightarrow> m)
      | _ \<Rightarrow> m)"

definition computedOverlaps :: "layout \<Rightarrow> (string \<times> side \<times> int) list" where
  "computedOverlaps l = fold (add_overlap l) (filter (\<lambda>item. CHR '':'' \<in> set item) (overlaps l)) []"

definition register :: "int \<Rightarrow> string \<Rightarrow> item_options \<Rightarrow> layout \<Rightarrow> layout" where
  "register index i opts l =
     l\<lparr>priorities := AList.update i (order opts) (priorities l),
       positions := AList.update i (position opts) (positions l),
       layoutSizes := AList.update i (layoutSize opts) (layoutSizes l),
       activeItems := AList.update i (active opts) (activeItems l),
       disabledTransitions :=
         (case disableTransitions opts of Some d \<Rightarrow> AList.update i d (disabledTransitions l) | None \<Rightarrow> disabledTransitions l),
       registered :=
         (if - 1 < index then take (nat index) (registered l) @ [i] @ drop (nat index) (registered l)
          else registered l @ [i])\<rparr>"

definition unregister :: "string \<Rightarrow> layout \<Rightarrow> layout" where
  "unregister i l =
     l\<lparr>priorities := AList.delete i (priorities l), positions := AList.delete i (positions l),
       layoutSizes := AList.delete i (layoutSizes l), activeItems := AList.delete i (activeItems l),
       disabledTransitions := AList.delete i (disabledTransitions l),
       registered := filter (\<lambda>v. v \<noteq> i) (registered l)\<rparr>"

text \<open>The refs of a registered item get other values; the maps hold the refs.\<close>

definition change_options :: "string \<Rightarrow> item_options \<Rightarrow> layout \<Rightarrow> layout" where
  "change_options i opts l =
     l\<lparr>priorities := AList.update i (order opts) (priorities l),
       positions := AList.update i (position opts) (positions l),
       layoutSizes := AList.update i (layoutSize opts) (layoutSizes l),
       activeItems := AList.update i (active opts) (activeItems l),
       disabledTransitions :=
         (case (disableTransitions opts, map_of (disabledTransitions l) i) of
            (Some d, Some _) \<Rightarrow> AList.update i d (disabledTransitions l) | _ \<Rightarrow> disabledTransitions l)\<rparr>"

text \<open>\<open>useLayoutItem\<close>: the name of an item without one, and its activity while its page is kept alive.\<close>

definition item_id_of :: "string option \<Rightarrow> nat \<Rightarrow> string" where
  "item_id_of given uid = (case given of Some i \<Rightarrow> i | None \<Rightarrow> ''layout-item-'' @ dec_nat uid)"

definition item_active :: "bool \<Rightarrow> bool \<Rightarrow> bool" where
  "item_active isKeptAlive act = (if isKeptAlive then False else act)"

section \<open>Styles\<close>

text \<open>A length in a style sheet: none, pixels, or what is left of the whole.\<close>

datatype css_length = Unset | Px int | Full_minus int int

fun css_text :: "css_length \<Rightarrow> jsval" where
  "css_text Unset = JUndef"
| "css_text (Px n) = JStr (dec_int n @ ''px'')"
| "css_text (Full_minus a b) = JStr (''calc(100% - '' @ dec_int a @ ''px - '' @ dec_int b @ ''px)'')"

definition convertToUnit :: "jsval \<Rightarrow> string \<Rightarrow> jsval" where
  "convertToUnit str units =
     (if nullish str \<or> str = JStr [] then JUndef
      else case to_number str of None \<Rightarrow> JStr (to_string str) | Some n \<Rightarrow> JStr (dec_int n @ units))"

record item_styles =
  st_zIndex :: int
  st_transform :: string
  st_position :: string
  st_transition :: "string option"
  st_top :: css_length
  st_left :: css_length
  st_right :: css_length
  st_bottom :: css_length
  st_height :: css_length
  st_width :: css_length

fun find_index_of :: "string \<Rightarrow> layout_entry list \<Rightarrow> int" where
  "find_index_of i [] = - 1"
| "find_index_of i (it # its) =
     (if entry_id it = i then 0 else let k = find_index_of i its in if k < 0 then - 1 else k + 1)"

definition zIndex :: "layout \<Rightarrow> string \<Rightarrow> layout_entry list \<Rightarrow> int" where
  "zIndex l i its = rootZIndex l + int (length (layers l)) * 2 - find_index_of i its * 2"

definition scrim_zIndex :: "layout \<Rightarrow> string \<Rightarrow> layout_entry list \<Rightarrow> int" where
  "scrim_zIndex l i its = zIndex l i its - 1"

definition base_styles :: "layout \<Rightarrow> string \<Rightarrow> item_options \<Rightarrow> layout_entry list \<Rightarrow> item_styles" where
  "base_styles l i opts its =
     (let isHorizontal = position opts = Left \<or> position opts = Right;
          percent = (if active opts then 0 else - 110) * (if position opts = Right \<or> position opts = Bottom then - 1 else 1);
          edge = (\<lambda>p. if position opts = p then Px 0 else Unset)
      in \<lparr>st_zIndex = zIndex l i its,
          st_transform = ''translate'' @ (if isHorizontal then ''X'' else ''Y'') @ ''('' @ dec_int percent @ ''%)'',
          st_position = (if absolute opts \<or> rootZIndex l \<noteq> ROOT_ZINDEX then ''absolute'' else ''fixed''),
          st_transition = (if transitionsEnabled l then None else Some ''none''),
          st_top = edge Top, st_left = edge Left, st_right = edge Right, st_bottom = edge Bottom,
          st_height = Unset, st_width = Unset\<rparr>)"

definition own_size :: "item_options \<Rightarrow> css_length" where
  "own_size opts = (case elementSize opts of None \<Rightarrow> Unset | Some n \<Rightarrow> if n = 0 then Unset else Px n)"

text \<open>
  The styles of an item, with the list of items as it is afterwards. An item that is not in the list
  raises; an overlap is added to the object in the list.
\<close>

definition layoutItemStyles ::
  "layout \<Rightarrow> string \<Rightarrow> item_options \<Rightarrow> layout_entry list \<Rightarrow> js_error + item_styles \<times> layout_entry list" where
  "layoutItemStyles l i opts its =
     (let styles = base_styles l i opts its; k = find_index_of i its in
      if \<not> isMounted l then Inr (styles, its)
      else if k < 0 then Inl (Thrown (''[Vuetify] Could not find layout item \"'' @ i @ ''\"''))
      else
        let isHorizontal = position opts = Left \<or> position opts = Right;
            item = its ! nat k;
            item' = (case map_of (computedOverlaps l) i of
                       Some (p, amount) \<Rightarrow> item\<lparr>entry_layer := add_side p amount (entry_layer item)\<rparr>
                     | None \<Rightarrow> item);
            r = entry_layer item'
        in Inr (styles\<lparr>
              st_height := (if isHorizontal then Full_minus (l_top r) (l_bottom r) else own_size opts),
              st_left := (if position opts = Right then Unset else Px (l_left r)),
              st_right := (if position opts = Right then Px (l_right r) else Unset),
              st_top := (if position opts \<noteq> Bottom then Px (l_top r) else Unset),
              st_bottom := (if position opts \<noteq> Top then Px (l_bottom r) else Unset),
              st_width := (if \<not> isHorizontal then Full_minus (l_left r) (l_right r) else own_size opts)\<rparr>,
            its[nat k := item']))"

definition mainStyles :: "layout \<Rightarrow> (string \<times> jsval) list" where
  "mainStyles l =
     [(''--v-layout-left'', convertToUnit (JNum (l_left (mainRect l))) ''px''),
      (''--v-layout-right'', convertToUnit (JNum (l_right (mainRect l))) ''px''),
      (''--v-layout-top'', convertToUnit (JNum (l_top (mainRect l))) ''px''),
      (''--v-layout-bottom'', convertToUnit (JNum (l_bottom (mainRect l))) ''px'')] @
     (if transitionsEnabled l then [] else [(''transition'', JStr ''none'')])"

definition layoutStyles :: "layout \<Rightarrow> (string \<times> jsval) list" where
  "layoutStyles l =
     [(''zIndex'', if parentZIndex l \<noteq> None then JNum (rootZIndex l) else JUndef),
      (''position'', if parentZIndex l \<noteq> None then JStr ''relative'' else JUndef),
      (''overflow'', if parentZIndex l \<noteq> None then JStr ''hidden'' else JUndef)]"

definition layoutClasses :: "layout \<Rightarrow> jsval" where
  "layoutClasses l = JArr [JStr ''v-layout'', JObj [(''v-layout--full-height'', JBool (fullHeight l))]]"

section \<open>Layouts that can be reached\<close>

text \<open>
  The items of a layout with their options: an item registers under a name that is free, its options
  change while it is registered.
\<close>

inductive layout_reach :: "layout \<Rightarrow> (string \<rightharpoonup> item_options) \<Rightarrow> bool" where
  reach_create: "layout_reach (createLayout os full parent) Map.empty"
| reach_register: "layout_reach l opts \<Longrightarrow> i \<notin> set (registered l) \<Longrightarrow> layout_reach (register index i new l) (opts(i \<mapsto> new))"
| reach_change: "layout_reach l opts \<Longrightarrow> i \<in> set (registered l) \<Longrightarrow> layout_reach (change_options i new l) (opts(i \<mapsto> new))"
| reach_unregister: "layout_reach l opts \<Longrightarrow> layout_reach (unregister i l) (opts(i := None))"
| reach_mount: "layout_reach l opts \<Longrightarrow> layout_reach (l\<lparr>isMounted := True\<rparr>) opts"

definition layout_inv :: "layout \<Rightarrow> (string \<rightharpoonup> item_options) \<Rightarrow> bool" where
  "layout_inv l opts \<longleftrightarrow>
     distinct (registered l) \<and> set (registered l) = dom opts \<and>
     (\<forall>i. map_of (priorities l) i = map_option order (opts i)) \<and> (\<forall>i. map_of (positions l) i = map_option position (opts i)) \<and>
     (\<forall>i. map_of (layoutSizes l) i = map_option layoutSize (opts i)) \<and> (\<forall>i. map_of (activeItems l) i = map_option active (opts i))"

lemma layout_invD:
  assumes "layout_inv l opts"
  shows "distinct (registered l)" "set (registered l) = dom opts"
    "map_of (priorities l) i = map_option order (opts i)" "map_of (positions l) i = map_option position (opts i)"
    "map_of (layoutSizes l) i = map_option layoutSize (opts i)" "map_of (activeItems l) i = map_option active (opts i)"
  using assms by (simp_all add: layout_inv_def)

lemma layout_reach_inv: "layout_reach l opts \<Longrightarrow> layout_inv l opts"
proof (induction rule: layout_reach.induct)
  case (reach_create os full parent)
  then show ?case by (simp add: layout_inv_def createLayout_def)
next
  case (reach_register l opts i index new)
  have d: "distinct (take n xs @ i # drop n xs) \<and> set (take n xs @ i # drop n xs) = insert i (set xs)"
    if "distinct xs" "i \<notin> set xs" for n and xs :: "string list"
  proof -
    have "set (take n xs) \<inter> set (drop n xs) = {}" by (rule set_take_disj_set_drop_if_distinct [OF that(1)]) simp
    moreover have "set (take n xs) \<union> set (drop n xs) = set xs" by (metis append_take_drop_id set_append)
    ultimately show ?thesis using that by auto
  qed
  show ?case
    using reach_register d [of "registered l" "nat index"] by (auto simp: layout_inv_def register_def update_conv')
next
  case (reach_change l opts i new)
  then show ?case by (auto simp: layout_inv_def change_options_def update_conv' split: if_splits)
next
  case (reach_unregister l opts i)
  then show ?case by (auto simp: layout_inv_def unregister_def delete_conv' split: if_splits)
next
  case (reach_mount l opts)
  then show ?case by (simp add: layout_inv_def)
qed

text \<open>The order of the layers is a permutation of the registered items.\<close>

lemma distinct_concat_filter:
  "distinct ps \<Longrightarrow> distinct xs \<Longrightarrow> distinct (concat (map (\<lambda>p. filter (\<lambda>x. f x = Some p) xs) ps))"
  by (induction ps) auto

lemma layout_order_perm:
  assumes "layout_inv l opts"
  shows "distinct (layout_order l)" "set (layout_order l) = set (registered l)"
proof -
  show "distinct (layout_order l)"
    unfolding layout_order_def Let_def by (rule distinct_concat_filter) (simp_all add: layout_invD(1) [OF assms])
  have "\<exists>p \<in> snd ` set (priorities l). map_of (priorities l) i = Some p" if reg: "i \<in> set (registered l)" for i
  proof -
    obtain o' where o': "opts i = Some o'" using reg layout_invD(2) [OF assms] by auto
    then have "map_of (priorities l) i = Some (order o')" by (simp add: layout_invD(3) [OF assms])
    then show ?thesis by (force dest: map_of_SomeD)
  qed
  then show "set (layout_order l) = set (registered l)" by (auto simp: layout_order_def Let_def)
qed

section \<open>Places\<close>

text \<open>What is left of the window in a layer, and the place of an item in it.\<close>

definition in_rest :: "int \<Rightarrow> int \<Rightarrow> layer \<Rightarrow> int \<times> int \<Rightarrow> bool" where
  "in_rest W H r pt =
     (l_left r \<le> fst pt \<and> fst pt < W - l_right r \<and> l_top r \<le> snd pt \<and> snd pt < H - l_bottom r)"

definition fits :: "int \<Rightarrow> int \<Rightarrow> layer \<Rightarrow> bool" where
  "fits W H r = (l_left r + l_right r \<le> W \<and> l_top r + l_bottom r \<le> H)"

text \<open>
  The box that the styles give an element in a window of the given width and height; \<open>own\<close> is the
  size of its content where no length is set.
\<close>

definition css_extent :: "int \<Rightarrow> int \<Rightarrow> css_length \<Rightarrow> int" where
  "css_extent whole own c = (case c of Unset \<Rightarrow> own | Px n \<Rightarrow> n | Full_minus a b \<Rightarrow> whole - a - b)"

definition css_start :: "int \<Rightarrow> int \<Rightarrow> css_length \<Rightarrow> css_length \<Rightarrow> int" where
  "css_start whole extent near far =
     (case near of Px a \<Rightarrow> a | _ \<Rightarrow> (case far of Px b \<Rightarrow> whole - b - extent | _ \<Rightarrow> 0))"

definition in_box :: "int \<Rightarrow> int \<Rightarrow> int \<Rightarrow> item_styles \<Rightarrow> int \<times> int \<Rightarrow> bool" where
  "in_box W H own st pt =
     (let w = css_extent W own (st_width st); h = css_extent H own (st_height st);
          x = css_start W w (st_left st) (st_right st); y = css_start H h (st_top st) (st_bottom st)
      in x \<le> fst pt \<and> fst pt < x + w \<and> y \<le> snd pt \<and> snd pt < y + h)"

text \<open>Whether an item is shown at a point.\<close>

definition shown_at :: "int \<Rightarrow> int \<Rightarrow> layout \<Rightarrow> (string \<rightharpoonup> item_options) \<Rightarrow> string \<Rightarrow> int \<times> int \<Rightarrow> bool" where
  "shown_at W H l opts i pt =
     (case opts i of
        None \<Rightarrow> False
      | Some o' \<Rightarrow>
          active o' \<and>
          (case layoutItemStyles l i o' (layout_items l) of
             Inl e \<Rightarrow> False | Inr (st, _) \<Rightarrow> in_box W H (layoutSize o') st pt))"

definition in_place :: "int \<Rightarrow> int \<Rightarrow> item_options \<Rightarrow> layer \<Rightarrow> int \<times> int \<Rightarrow> bool" where
  "in_place W H o' r pt =
     (case position o' of
        Top \<Rightarrow> l_left r \<le> fst pt \<and> fst pt < W - l_right r \<and> l_top r \<le> snd pt \<and> snd pt < l_top r + layoutSize o'
      | Bottom \<Rightarrow> l_left r \<le> fst pt \<and> fst pt < W - l_right r \<and> H - l_bottom r - layoutSize o' \<le> snd pt \<and> snd pt < H - l_bottom r
      | Left \<Rightarrow> l_left r \<le> fst pt \<and> fst pt < l_left r + layoutSize o' \<and> l_top r \<le> snd pt \<and> snd pt < H - l_bottom r
      | Right \<Rightarrow> W - l_right r - layoutSize o' \<le> fst pt \<and> fst pt < W - l_right r \<and> l_top r \<le> snd pt \<and> snd pt < H - l_bottom r)"

definition next_layer :: "item_options \<Rightarrow> layer \<Rightarrow> layer" where
  "next_layer o' r = add_side (position o') (if active o' then layoutSize o' else 0) r"

text \<open>An active item takes its place from what was left; an inactive one takes nothing.\<close>

lemma add_side_simps [simp]: "add_side p 0 r = r"
  by (cases p) (simp_all add: add_side_def)

lemma next_layer_splits:
  assumes "0 \<le> layoutSize o'" "fits W H (next_layer o' r)"
  shows "(if active o' \<and> in_place W H o' r pt then 1 else 0) + (if in_rest W H (next_layer o' r) pt then 1 else (0 :: nat)) =
    (if in_rest W H r pt then 1 else 0)"
  using assms
  by (cases "position o'"; cases "active o'")
    (auto simp: next_layer_def add_side_def in_place_def in_rest_def fits_def)

lemma next_layer_fits: "0 \<le> layoutSize o' \<Longrightarrow> fits W H (next_layer o' r) \<Longrightarrow> fits W H r"
  by (cases "position o'") (auto simp: next_layer_def add_side_def fits_def split: if_splits)

section \<open>Every point has one owner\<close>

lemma add_layers_options:
  assumes "layout_inv l opts" "set is \<subseteq> dom opts"
  shows "add_layers (positions l) (layoutSizes l) (activeItems l) r is =
    (case is of [] \<Rightarrow> [] | i # is' \<Rightarrow>
       (let r' = next_layer (the (opts i)) r in (i, r') # add_layers (positions l) (layoutSizes l) (activeItems l) r' is'))"
  using assms by (cases "is") (auto simp: layout_invD(4-6) [OF assms(1)] next_layer_def Let_def)

lemma add_layers_ids:
  "layout_inv l opts \<Longrightarrow> set is \<subseteq> dom opts \<Longrightarrow> map fst (add_layers (positions l) (layoutSizes l) (activeItems l) r is) = is"
proof (induction "is" arbitrary: r)
  case (Cons i "is")
  then show ?case by (subst add_layers_options) (auto simp: Let_def)
qed simp

lemma layers_own_points:
  assumes inv: "layout_inv l opts" and size: "\<And>i o'. opts i = Some o' \<Longrightarrow> 0 \<le> layoutSize o'"
  shows "set is \<subseteq> dom opts \<Longrightarrow>
    es = add_layers (positions l) (layoutSizes l) (activeItems l) r is \<Longrightarrow> fits W H (snd (last ((j, r) # es))) \<Longrightarrow>
    fits W H r \<and>
    length (filter (\<lambda>((_, layer), (i, _)). active (the (opts i)) \<and> in_place W H (the (opts i)) layer pt) (zip ((j, r) # es) es)) +
    (if in_rest W H (snd (last ((j, r) # es))) pt then 1 else 0) = (if in_rest W H r pt then 1 else 0)"
proof (induction "is" arbitrary: r es j)
  case (Cons i "is")
  obtain o' where o': "opts i = Some o'" using Cons.prems(1) by auto
  let ?r' = "next_layer o' r" and ?es = "add_layers (positions l) (layoutSizes l) (activeItems l) (next_layer o' r) is"
  have es: "es = (i, ?r') # ?es" using Cons.prems(1,2) o' by (subst (asm) add_layers_options [OF inv]) (auto simp: Let_def)
  note IH = Cons.IH [of ?es ?r' i, OF _ refl]
  have fit: "fits W H ?r'" and rest: "length (filter (\<lambda>((_, layer), (i, _)). active (the (opts i)) \<and> in_place W H (the (opts i)) layer pt) (zip ((i, ?r') # ?es) ?es)) +
    (if in_rest W H (snd (last ((i, ?r') # ?es))) pt then 1 else 0) = (if in_rest W H ?r' pt then 1 else 0)"
    using IH Cons.prems(1,3) by (auto simp: es)
  have "fits W H r" by (rule next_layer_fits [OF size [OF o'] fit])
  moreover have last: "snd (last ((j, r) # es)) = snd (last ((i, ?r') # ?es))" by (simp add: es)
  moreover have "length (filter (\<lambda>((_, layer), (i, _)). active (the (opts i)) \<and> in_place W H (the (opts i)) layer pt) (zip ((j, r) # es) es)) =
      (if active o' \<and> in_place W H o' r pt then 1 else 0) +
      length (filter (\<lambda>((_, layer), (i, _)). active (the (opts i)) \<and> in_place W H (the (opts i)) layer pt) (zip ((i, ?r') # ?es) ?es))"
    using o' by (simp add: es)
  ultimately show ?case using rest next_layer_splits [OF size [OF o'] fit, of pt] by (simp only: simp_thms)
qed simp

text \<open>Each item of the list finds itself in it, and its box is its place in the layer before its own.\<close>

lemma find_index_at: "distinct (map entry_id its) \<Longrightarrow> k < length its \<Longrightarrow> find_index_of (entry_id (its ! k)) its = int k"
proof (induction its arbitrary: k)
  case (Cons it its)
  then show ?case by (cases k) (auto simp: Let_def)
qed simp

lemma box_is_place:
  assumes "isMounted l" "overlaps l = []" "find_index_of i its = int k" "k < length its"
    and "elementSize o' = None \<or> elementSize o' = Some (layoutSize o')"
  shows "\<exists>st. layoutItemStyles l i o' its = Inr (st, its) \<and> in_box W H (layoutSize o') st pt = in_place W H o' (entry_layer (its ! k)) pt"
proof -
  have o': "own_size o' = Unset \<or> own_size o' = Px (layoutSize o')" using assms(5) by (auto simp: own_size_def split: if_splits)
  have no: "computedOverlaps l = []" by (simp add: computedOverlaps_def assms(2))
  show ?thesis using o' unfolding layoutItemStyles_def Let_def
    by (cases "position o'")
      (auto simp: assms(1,3) no in_box_def in_place_def css_extent_def css_start_def Let_def)
qed

lemma layout_items_facts:
  assumes "layout_inv l opts"
  defines "es \<equiv> add_layers (positions l) (layoutSizes l) (activeItems l) empty_layer (layout_order l)"
  shows "layers l = ([], empty_layer) # es" "map fst es = layout_order l" "map entry_id (layout_items l) = layout_order l"
    "k < length es \<Longrightarrow> entry_layer (layout_items l ! k) = snd (layers l ! k)" "length (layout_items l) = length es"
proof -
  show ls: "layers l = ([], empty_layer) # es" by (simp add: layers_def generateLayers_def es_def)
  show f: "map fst es = layout_order l"
    unfolding es_def using layout_order_perm(2) [OF assms(1)] layout_invD(2) [OF assms(1)] by (intro add_layers_ids [OF assms(1)]) simp
  show len: "length (layout_items l) = length es" by (simp add: layout_items_def ls)
  have "entry_id (layout_items l ! n) = fst (es ! n)" if "n < length es" for n
    using that by (simp add: layout_items_def ls split_def)
  then have "map entry_id (layout_items l) = map fst es" by (intro nth_equalityI) (simp_all add: len)
  then show "map entry_id (layout_items l) = layout_order l" by (simp add: f)
  show "entry_layer (layout_items l ! k) = snd (layers l ! k)" if "k < length es"
    using that by (simp add: layout_items_def ls split_def)
qed

lemma shown_in_place:
  assumes inv: "layout_inv l opts" and "isMounted l" "overlaps l = []" and k: "k < length (layout_items l)"
    and o': "opts (layout_order l ! k) = Some o'" "elementSize o' = None \<or> elementSize o' = Some (layoutSize o')"
  shows "shown_at W H l opts (layout_order l ! k) pt \<longleftrightarrow> active o' \<and> in_place W H o' (snd (layers l ! k)) pt"
proof -
  note facts = layout_items_facts [OF inv]
  have i: "layout_order l ! k = entry_id (layout_items l ! k)" using k by (simp flip: facts(3))
  have "find_index_of (layout_order l ! k) (layout_items l) = int k"
    unfolding i by (rule find_index_at [OF _ k]) (simp add: facts(3) layout_order_perm(1) [OF inv])
  then obtain st where st: "layoutItemStyles l (layout_order l ! k) o' (layout_items l) = Inr (st, layout_items l)"
    "in_box W H (layoutSize o') st pt = in_place W H o' (entry_layer (layout_items l ! k)) pt"
    using box_is_place [OF assms(2,3) _ k o'(2)] by blast
  have "entry_layer (layout_items l ! k) = snd (layers l ! k)" using k facts(4,5) by simp
  then show ?thesis by (simp add: shown_at_def o'(1) st)
qed

text \<open>
  C30. In a layout without overlaps that is mounted, whatever items were registered, changed and removed
  and in whatever order: as long as their sizes fit into the window and an item with an element size of its own
  has that size in the layout too, every point of the window belongs to exactly one active item, by its
  styles, or to the main content.
\<close>

theorem every_point_has_one_owner:
  assumes "layout_reach l opts" and "isMounted l" and "overlaps l = []"
    and "\<forall>i o'. opts i = Some o' \<longrightarrow>
      0 \<le> layoutSize o' \<and> (elementSize o' = None \<or> elementSize o' = Some (layoutSize o'))"
    and "fits W H (mainRect l)" and "0 \<le> x" "x < W" "0 \<le> y" "y < H"
  shows "length (filter (\<lambda>i. shown_at W H l opts i (x, y)) (registered l)) +
    (if in_rest W H (mainRect l) (x, y) then 1 else 0) = 1"
proof -
  have inv: "layout_inv l opts" by (rule layout_reach_inv [OF assms(1)])
  let ?es = "add_layers (positions l) (layoutSizes l) (activeItems l) empty_layer (layout_order l)"
  let ?P = "\<lambda>i. shown_at W H l opts i (x, y)"
  let ?Q = "\<lambda>((_, layer), (i, _)). active (the (opts i)) \<and> in_place W H (the (opts i)) layer (x, y)"
  note facts = layout_items_facts [OF inv]
  have dom: "set (layout_order l) \<subseteq> dom opts" using layout_order_perm(2) [OF inv] layout_invD(2) [OF inv] by simp
  have "?P (fst (?es ! k)) = ?Q (zip (layers l) ?es ! k)" if k: "k < length ?es" for k
  proof -
    have i: "fst (?es ! k) = layout_order l ! k" using k arg_cong [OF facts(2), of "\<lambda>xs. xs ! k"] by simp
    have "k < length (layout_order l)" using k arg_cong [OF facts(2), of length] by simp
    then obtain o' where o': "opts (layout_order l ! k) = Some o'" using dom nth_mem [of k "layout_order l"] by blast
    have "k < length (layout_items l)" using k by (simp add: facts(5))
    then show ?thesis
      using shown_in_place [OF inv assms(2,3) _ o', of W H "(x, y)"] assms(4) o' k by (simp add: i facts(1) split_def)
  qed
  then have "map ?P (map fst ?es) = map ?Q (zip (layers l) ?es)" by (intro nth_equalityI) (simp_all add: facts(1))
  then have "length (filter id (map ?P (layout_order l))) = length (filter id (map ?Q (zip (layers l) ?es)))" by (simp only: facts(2))
  then have "length (filter ?P (layout_order l)) = length (filter ?Q (zip (([], empty_layer) # ?es) ?es))"
    by (simp add: filter_map comp_def split_def facts(1))
  moreover have "length (filter ?P (registered l)) = length (filter ?P (layout_order l))"
    using layout_order_perm [OF inv] layout_invD(1) [OF inv] by (metis distinct_card distinct_filter set_filter)
  moreover have "in_rest W H empty_layer (x, y)" using assms(6-9) by (simp add: in_rest_def empty_layer_def)
  ultimately show ?thesis
    using layers_own_points [OF inv _ dom refl, of W H "[]" empty_layer "(x, y)"] assms(4,5)
    by (simp add: mainRect_def facts(1))
qed

text \<open>A page with an app bar and a footer, registered in this order.\<close>

definition app_bar_options :: item_options where
  "app_bar_options = \<lparr>order = 0, position = Top, layoutSize = 64, elementSize = None, active = True,
     disableTransitions = None, absolute = False\<rparr>"

definition footer_options :: item_options where
  "footer_options = \<lparr>order = 0, position = Bottom, layoutSize = 32, elementSize = Some 32, active = True,
     disableTransitions = None, absolute = False\<rparr>"

definition page_layout :: layout where
  "page_layout = (register (- 1) ''footer'' footer_options (register (- 1) ''bar'' app_bar_options (createLayout [] True None)))\<lparr>isMounted := True\<rparr>"

lemmas page_defs = page_layout_def app_bar_options_def footer_options_def createLayout_def register_def

lemma page_reach: "layout_reach page_layout [''bar'' \<mapsto> app_bar_options, ''footer'' \<mapsto> footer_options]"
  unfolding page_layout_def
  by (intro reach_mount reach_register reach_create) (simp_all add: createLayout_def register_def)

lemma page_main: "mainRect page_layout = \<lparr>l_top = 64, l_left = 0, l_right = 0, l_bottom = 32\<rparr>"
  by (simp add: mainRect_def layers_def generateLayers_def layout_order_def page_defs empty_layer_def add_side_def Let_def)

theorem every_point_has_one_owner_witness:
  "length (filter (\<lambda>i. shown_at 800 600 page_layout [''bar'' \<mapsto> app_bar_options, ''footer'' \<mapsto> footer_options] i (10, 590))
     (registered page_layout)) = 1"
  using every_point_has_one_owner [OF page_reach, of 800 600 10 590]
  by (simp add: page_main fits_def in_rest_def) (simp add: page_defs)

section \<open>Order of depth\<close>

text \<open>
  An item lies above those after it, and so does what its scrim covers: the scrim lies below the item
  and above the next. All lie above the root of the layout.
\<close>

lemma zIndex_at:
  assumes "layout_inv l opts" "k < length (layout_order l)"
  shows "zIndex l (layout_order l ! k) (layout_items l) = rootZIndex l + 2 * (int (length (layout_order l)) + 1 - int k)"
proof -
  note facts = layout_items_facts [OF assms(1)]
  have len: "length (layout_items l) = length (layout_order l)" using arg_cong [OF facts(3), of length] by simp
  have i: "layout_order l ! k = entry_id (layout_items l ! k)"
    using arg_cong [OF facts(3), of "\<lambda>xs. xs ! k"] assms(2) len by simp
  have "find_index_of (layout_order l ! k) (layout_items l) = int k"
    unfolding i using assms(2) layout_order_perm(1) [OF assms(1)] by (intro find_index_at) (simp_all add: facts(3) len)
  then show ?thesis using facts(1,5) len by (simp add: zIndex_def)
qed

lemma earlier_items_above:
  assumes "layout_reach l opts" "j < k" "k < length (layout_order l)"
  shows "zIndex l (layout_order l ! k) (layout_items l) < scrim_zIndex l (layout_order l ! j) (layout_items l)"
    "rootZIndex l < scrim_zIndex l (layout_order l ! k) (layout_items l)"
  using assms(2,3) by (simp_all add: scrim_zIndex_def zIndex_at [OF layout_reach_inv [OF assms(1)]])

section \<open>Overlaps\<close>

text \<open>
  Computing the styles of an item with an overlap again, with the same list of items, moves the item
  once more. The list stays the same when only the size of the element, whether it is absolute or the
  transitions have changed.
\<close>

lemma overlap_added_again:
  assumes "isMounted l" "find_index_of i its = int k" "k < length its"
    and "map_of (computedOverlaps l) i = Some (p, amount)"
    and "layoutItemStyles l i o' its = Inr (st, its')" "layoutItemStyles l i o' its' = Inr (st', its'')"
  shows "entry_layer (its' ! k) = add_side p amount (entry_layer (its ! k))"
    "entry_layer (its'' ! k) = add_side p amount (add_side p amount (entry_layer (its ! k)))"
proof -
  have its': "its' = its[k := (its ! k)\<lparr>entry_layer := add_side p amount (entry_layer (its ! k))\<rparr>]"
    using assms(5) by (auto simp: layoutItemStyles_def Let_def assms(1,2,4))
  have same: "find_index_of j (its[m := (its ! m)\<lparr>entry_layer := r\<rparr>]) = find_index_of j its" if "m < length its" for j m r its
    using that
  proof (induction its arbitrary: m)
    case (Cons it its)
    then show ?case by (cases m) (simp_all add: Let_def)
  qed simp
  have "find_index_of i its' = int k" unfolding its' using same [OF assms(3)] assms(2) by simp
  then have its'': "its'' = its'[k := (its' ! k)\<lparr>entry_layer := add_side p amount (entry_layer (its' ! k))\<rparr>]"
    using assms(6) by (auto simp: layoutItemStyles_def Let_def assms(1,4))
  show "entry_layer (its' ! k) = add_side p amount (entry_layer (its ! k))" using assms(3) by (simp add: its')
  then show "entry_layer (its'' ! k) = add_side p amount (add_side p amount (entry_layer (its ! k)))"
    using assms(3) by (simp add: its'' its')
qed

text \<open>Registering under a name that is taken counts the item twice.\<close>

lemma taken_name_counts_twice:
  "mainRect (register (- 1) ''bar'' app_bar_options (register (- 1) ''bar'' app_bar_options (createLayout [] True None))) =
     \<lparr>l_top = 128, l_left = 0, l_right = 0, l_bottom = 0\<rparr>"
  by (simp add: mainRect_def layers_def generateLayers_def layout_order_def page_defs empty_layer_def add_side_def Let_def)

text \<open>The space that the main content leaves at the edges, as the style sheet has it.\<close>

lemma main_styles_text:
  "mainStyles l =
     [(''--v-layout-left'', css_text (Px (l_left (mainRect l)))), (''--v-layout-right'', css_text (Px (l_right (mainRect l)))),
      (''--v-layout-top'', css_text (Px (l_top (mainRect l)))), (''--v-layout-bottom'', css_text (Px (l_bottom (mainRect l))))] @
     (if transitionsEnabled l then [] else [(''transition'', JStr ''none'')])"
  by (simp add: mainStyles_def convertToUnit_def nullish_def)

end
