(* ===== verification/VuetifyOverlay.thy ===== *)
theory VuetifyOverlay
  imports VuetifyHelpers Complex_Main
begin

text \<open>
  Vuetify's overlays (\<^verbatim>\<open>src/v2/lens3/ui/assets/index.js\<close>, \<open>connectedLocationStrategy\<close>, \<open>parseAnchor\<close>,
  \<open>anchorToPoint\<close>, \<open>useStack\<close>): where the content of a menu or of the list of a select is placed, next to
  its activator and inside the window, and which overlay lies on top.

  What is measured (the boxes of the activator, of the content and of the scrolling parents, the
  pixel ratio) is an argument; lengths are rational numbers, an infinite length is \<open>None\<close>. A name of
  a side that is not in the tables of \<open>flipSide\<close> and \<open>flipAlign\<close> is \<open>undefined\<close>; where the code would
  calculate with such a name the model has no result.

  Shown: the loop that flips the placement ends after at most two flips, long before its limit; the
  content ends with its start inside the window, and wholly inside when it fits; a content that is too large is inside
  after three rounds, each of which limits its size by what was available in the round before, if the activator, whose width a
  menu below or above it has at least, is not wider than the room; where the preferred placement fits it is taken. In the stack of overlays the one opened last lies on top.
\<close>

section \<open>Anchors\<close>

record anchor =
  side :: string
  align :: string

definition block :: "string list" where
  "block = [''top'', ''bottom'']"

definition inline :: "string list" where
  "inline = [''start'', ''end'', ''left'', ''right'']"

definition toPhysical :: "string \<Rightarrow> bool \<Rightarrow> string" where
  "toPhysical str isRtl =
     (if str = ''start'' then if isRtl then ''right'' else ''left''
      else if str = ''end'' then if isRtl then ''left'' else ''right''
      else str)"

definition parseAnchor :: "string \<Rightarrow> bool \<Rightarrow> anchor" where
  "parseAnchor s isRtl =
     (let parts = split_on CHR '' '' s;
          side = hd parts;
          align = (case tl parts of [] \<Rightarrow> [] | a # _ \<Rightarrow> a);
          align = (if align = [] then
                     if side \<in> set block then ''start'' else if side \<in> set inline then ''top'' else ''center''
                   else align)
      in \<lparr>side = toPhysical side isRtl, align = toPhysical align isRtl\<rparr>)"

definition opposite :: "string \<Rightarrow> string" where
  "opposite s =
     (case map_of [(''center'', ''center''), (''top'', ''bottom''), (''bottom'', ''top''), (''left'', ''right''), (''right'', ''left'')] s of
        Some t \<Rightarrow> t | None \<Rightarrow> ''undefined'')"

definition flipSide :: "anchor \<Rightarrow> anchor" where
  "flipSide a = \<lparr>side = opposite (side a), align = align a\<rparr>"

definition flipAlign :: "anchor \<Rightarrow> anchor" where
  "flipAlign a = \<lparr>side = side a, align = opposite (align a)\<rparr>"

definition flipCorner :: "anchor \<Rightarrow> anchor" where
  "flipCorner a = \<lparr>side = align a, align = side a\<rparr>"

datatype axis = X | Y

definition getAxis :: "anchor \<Rightarrow> axis" where
  "getAxis a = (if side a \<in> set block then Y else X)"

text \<open>The preferred anchor and origin, from the props \<open>location\<close> and \<open>origin\<close>.\<close>

definition preferred :: "string \<Rightarrow> string \<Rightarrow> bool \<Rightarrow> anchor \<times> anchor" where
  "preferred location origin isRtl =
     (let parsedAnchor = parseAnchor location isRtl;
          parsedOrigin = (if origin = ''overlap'' then parsedAnchor
                          else if origin = ''auto'' then flipSide parsedAnchor
                          else parseAnchor origin isRtl)
      in if side parsedAnchor = side parsedOrigin \<and> align parsedAnchor = align (flipAlign parsedOrigin)
         then (flipCorner parsedAnchor, flipCorner parsedOrigin)
         else (parsedAnchor, parsedOrigin))"

section \<open>Boxes\<close>

record box =
  bx :: rat
  bY :: rat
  bw :: rat
  bh :: rat

definition b_right :: "box \<Rightarrow> rat" where
  "b_right b = bx b + bw b"

definition b_bottom :: "box \<Rightarrow> rat" where
  "b_bottom b = bY b + bh b"

type_synonym overflows = "axis \<Rightarrow> rat \<times> rat"

definition getOverflow :: "box \<Rightarrow> box \<Rightarrow> overflows" where
  "getOverflow a b key =
     (case key of
        X \<Rightarrow> (max 0 (bx b - bx a), max 0 (b_right a - b_right b))
      | Y \<Rightarrow> (max 0 (bY b - bY a), max 0 (b_bottom a - b_bottom b)))"

definition elementToViewport :: "rat \<times> rat \<Rightarrow> box \<Rightarrow> rat \<times> rat" where
  "elementToViewport p b = (fst p + bx b, snd p + bY b)"

definition getOffset :: "rat \<times> rat \<Rightarrow> rat \<times> rat \<Rightarrow> rat \<times> rat" where
  "getOffset a b = (fst a - fst b, snd a - snd b)"

text \<open>The place along an edge, of the length of the edge; no number for another name.\<close>

definition along :: "string \<Rightarrow> string \<Rightarrow> string \<Rightarrow> rat \<Rightarrow> rat option" where
  "along near far name len =
     (if name = near then Some 0 else if name = ''center'' then Some (len / 2) else if name = far then Some len else None)"

definition anchorToPoint :: "anchor \<Rightarrow> box \<Rightarrow> (rat \<times> rat) option" where
  "anchorToPoint a b =
     (if side a = ''top'' \<or> side a = ''bottom'' then
        map_option (\<lambda>x. elementToViewport (x, if side a = ''top'' then 0 else bh b) b) (along ''left'' ''right'' (align a) (bw b))
      else if side a = ''left'' \<or> side a = ''right'' then
        map_option (\<lambda>y. elementToViewport (if side a = ''left'' then 0 else bw b, y) b) (along ''top'' ''bottom'' (align a) (bh b))
      else Some (elementToViewport (bw b / 2, bh b / 2) b))"

text \<open>The part of the window that all scrolling parents show, less a margin.\<close>

definition meet :: "box \<Rightarrow> box \<Rightarrow> box" where
  "meet b s =
     \<lparr>bx = max (bx b) (bx s), bY = max (bY b) (bY s),
      bw = min (b_right b) (b_right s) - max (bx b) (bx s), bh = min (b_bottom b) (b_bottom s) - max (bY b) (bY s)\<rparr>"

definition viewportMargin :: rat where
  "viewportMargin = 12"

definition viewport_of :: "box \<Rightarrow> box list \<Rightarrow> box" where
  "viewport_of scrollParent scrollParents =
     (let v = foldl meet scrollParent scrollParents
      in \<lparr>bx = bx v + viewportMargin, bY = bY v + viewportMargin, bw = bw v - viewportMargin * 2, bh = bh v - viewportMargin * 2\<rparr>)"

section \<open>Placing the content\<close>

record loc_env =
  targetBox :: box
  viewport :: box
  offset :: "rat \<times> rat"
  minWidth :: "rat option"
  minHeight :: "rat option"
  maxWidth :: "rat option"
  maxHeight :: "rat option"
  isRtl :: bool

definition min_limit :: "rat \<Rightarrow> rat option \<Rightarrow> rat" where
  "min_limit v limit = (case limit of None \<Rightarrow> v | Some m \<Rightarrow> min v m)"

text \<open>The shift by the offset in the direction of a side.\<close>

definition shift :: "string \<Rightarrow> rat \<Rightarrow> rat \<times> rat \<Rightarrow> rat \<times> rat" where
  "shift s n p =
     (if s = ''top'' then (fst p, snd p - n) else if s = ''bottom'' then (fst p, snd p + n)
      else if s = ''left'' then (fst p - n, snd p) else if s = ''right'' then (fst p + n, snd p) else p)"

definition checkOverflow :: "loc_env \<Rightarrow> box \<Rightarrow> anchor \<times> anchor \<Rightarrow> (overflows \<times> rat \<times> rat) option" where
  "checkOverflow env contentBox pl =
     Option.bind (anchorToPoint (fst pl) (targetBox env)) (\<lambda>targetPoint.
     Option.bind (anchorToPoint (snd pl) contentBox) (\<lambda>contentPoint.
       let (x2, y2) =
             shift (align (fst pl)) (snd (offset env)) (shift (side (fst pl)) (fst (offset env)) (getOffset targetPoint contentPoint));
           b = contentBox\<lparr>bx := bx contentBox + x2, bY := bY contentBox + y2,
                 bw := min_limit (bw contentBox) (maxWidth env), bh := min_limit (bh contentBox) (maxHeight env)\<rparr>
       in Some (getOverflow b (viewport env), x2, y2)))"

record loc_state =
  placement :: "anchor \<times> anchor"
  loc_x :: rat
  loc_y :: rat
  contentBox :: box
  available :: "rat \<times> rat"
  flipped :: "axis \<Rightarrow> bool"
  resets :: int

definition move_by :: "rat \<Rightarrow> rat \<Rightarrow> loc_state \<Rightarrow> loc_state" where
  "move_by dx dy s =
     s\<lparr>loc_x := loc_x s + dx, loc_y := loc_y s + dy,
       contentBox := (contentBox s)\<lparr>bx := bx (contentBox s) + dx, bY := bY (contentBox s) + dy\<rparr>\<rparr>"

definition try_flip :: "loc_env \<Rightarrow> axis \<Rightarrow> overflows \<Rightarrow> axis \<Rightarrow> loc_state \<times> bool \<Rightarrow> (loc_state \<times> bool) option" where
  "try_flip env axis2 overflows key sr =
     (let s = fst sr; before = fst (overflows key); after = snd (overflows key) in
      if (before \<noteq> 0 \<or> after \<noteq> 0) \<and> \<not> flipped s key then
        let flip = (if key = X then if axis2 = Y then flipAlign else flipSide
                    else if axis2 = Y then flipSide else flipAlign);
            newPlacement = (flip (fst (placement s)), flip (snd (placement s)))
        in Option.bind (checkOverflow env (contentBox s) newPlacement) (\<lambda>(newOverflows, _, _).
             let newBefore = fst (newOverflows key); newAfter = snd (newOverflows key) in
             if newBefore \<le> before \<and> newAfter \<le> after \<or> newBefore + newAfter < (before + after) / 2
             then Some (s\<lparr>placement := newPlacement, flipped := (flipped s)(key := True)\<rparr>, True)
             else Some sr)
      else Some sr)"

text \<open>The end of the loop: the content is moved into the viewport, and what is left there is noted.\<close>

definition settle :: "loc_env \<Rightarrow> overflows \<Rightarrow> loc_state \<Rightarrow> loc_state" where
  "settle env overflows s =
     (let s1 = move_by (fst (overflows X) - snd (overflows X)) (fst (overflows Y) - snd (overflows Y)) s;
          overflows2 = getOverflow (contentBox s1) (viewport env)
      in move_by (fst (overflows2 X)) (fst (overflows2 Y))
           (s1\<lparr>available := (bw (viewport env) - fst (overflows2 X) - snd (overflows2 X),
                            bh (viewport env) - fst (overflows2 Y) - snd (overflows2 Y))\<rparr>))"

lemma try_flip_resets: "try_flip env a ov key sr = Some sr' \<Longrightarrow> resets (fst sr') = resets (fst sr)"
  by (auto simp: try_flip_def Let_def split_def split: if_splits bind_splits)

lemma move_by_resets [simp]: "resets (move_by dx dy s) = resets s"
  by (simp add: move_by_def)

function place_loop :: "loc_env \<Rightarrow> loc_state \<Rightarrow> loc_state option" where
  "place_loop env s =
     (if resets s > 10 then Some (s\<lparr>resets := resets s + 1\<rparr>)
      else
        Option.bind (checkOverflow env (contentBox s) (placement s)) (\<lambda>(overflows, x2, y2).
        let s1 = move_by x2 y2 (s\<lparr>resets := resets s + 1\<rparr>); axis2 = getAxis (fst (placement s1)) in
        Option.bind (Option.bind (try_flip env axis2 overflows X (s1, False)) (try_flip env axis2 overflows Y)) (\<lambda>(s2, reset).
        if reset then place_loop env s2 else Some (settle env overflows s2))))"
  by pat_completeness auto
termination
  by (relation "measure (\<lambda>(_, s). nat (11 - resets s))") (auto dest!: try_flip_resets split: bind_splits)

definition init_state :: "anchor \<times> anchor \<Rightarrow> box \<Rightarrow> loc_state" where
  "init_state pl b =
     \<lparr>placement = pl, loc_x = 0, loc_y = 0, contentBox = b, available = (0, 0), flipped = (\<lambda>_. False), resets = - 1\<rparr>"

section \<open>Styles of the content\<close>

definition pixelRound :: "rat \<Rightarrow> rat \<Rightarrow> rat" where
  "pixelRound devicePixelRatio val = of_int \<lfloor>val * devicePixelRatio + 1 / 2\<rfloor> / devicePixelRatio"

definition pixelCeil :: "rat \<Rightarrow> rat \<Rightarrow> rat" where
  "pixelCeil devicePixelRatio val = of_int \<lceil>val * devicePixelRatio\<rceil> / devicePixelRatio"

definition clamp_limit :: "rat \<Rightarrow> rat option \<Rightarrow> rat option \<Rightarrow> rat" where
  "clamp_limit v lower upper = max (case lower of None \<Rightarrow> 0 | Some m \<Rightarrow> m) (min_limit v upper)"

record content_styles =
  anchorOrigin :: string
  transformOrigin :: string
  css_top :: rat
  css_left :: "rat option"
  css_right :: "rat option"
  css_minWidth :: "rat option"
  css_maxWidth :: rat
  css_maxHeight :: rat

definition location_styles :: "rat \<Rightarrow> loc_env \<Rightarrow> loc_state \<Rightarrow> content_styles" where
  "location_styles dpr env s =
     (let (a, og) = placement s in
      \<lparr>anchorOrigin = side a @ '' '' @ align a, transformOrigin = side og @ '' '' @ align og,
       css_top = pixelRound dpr (loc_y s),
       css_left = (if isRtl env then None else Some (pixelRound dpr (loc_x s))),
       css_right = (if isRtl env then Some (pixelRound dpr (- loc_x s)) else None),
       css_minWidth = (if getAxis a = Y then Some (min_limit (bw (targetBox env)) (minWidth env)) else minWidth env),
       css_maxWidth = pixelCeil dpr (clamp_limit (fst (available s)) (minWidth env) (maxWidth env)),
       css_maxHeight = pixelCeil dpr (clamp_limit (snd (available s)) (minHeight env) (maxHeight env))\<rparr>)"

text \<open>\<open>updateLocation\<close>: the styles it assigns, and the available space and content box it returns.\<close>

definition updateLocation :: "rat \<Rightarrow> loc_env \<Rightarrow> anchor \<times> anchor \<Rightarrow> box \<Rightarrow> (content_styles \<times> loc_state) option" where
  "updateLocation dpr env pl b =
     map_option (\<lambda>s. (location_styles dpr env s, s)) (place_loop env (init_state pl b))"

section \<open>Anchors that name places\<close>

definition anchor_ok :: "anchor \<Rightarrow> bool" where
  "anchor_ok a =
     (if side a \<in> set block then align a \<in> {''left'', ''center'', ''right''}
      else if side a \<in> {''left'', ''right''} then align a \<in> {''top'', ''center'', ''bottom''}
      else side a = ''center'')"

lemma opposite_simps [simp]:
  "opposite ''center'' = ''center''" "opposite ''top'' = ''bottom''" "opposite ''bottom'' = ''top''"
  "opposite ''left'' = ''right''" "opposite ''right'' = ''left''"
  by (simp_all add: opposite_def)

lemma flips_ok:
  assumes "anchor_ok a"
  shows "anchor_ok (flipSide a)" "anchor_ok (flipAlign a)"
  using assms by (auto simp: anchor_ok_def flipSide_def flipAlign_def block_def split: if_splits)

lemma anchor_point:
  assumes "anchor_ok a"
  shows "anchorToPoint a b \<noteq> None"
  using assms by (auto simp: anchor_ok_def anchorToPoint_def along_def block_def simp del: not_None_eq split: if_splits)

text \<open>A point of a box moves with the box.\<close>

lemma anchor_point_moves:
  "anchorToPoint a (b\<lparr>bx := bx b + dx, bY := bY b + dy\<rparr>) = map_option (\<lambda>p. (fst p + dx, snd p + dy)) (anchorToPoint a b)"
  by (auto simp: anchorToPoint_def elementToViewport_def option.map_comp comp_def along_def)

section \<open>The loop\<close>

definition limited :: "loc_env \<Rightarrow> box \<Rightarrow> box" where
  "limited env b = b\<lparr>bw := min_limit (bw b) (maxWidth env), bh := min_limit (bh b) (maxHeight env)\<rparr>"

lemma check_ok:
  assumes "anchor_ok (fst pl)" "anchor_ok (snd pl)"
  obtains x2 y2 where "checkOverflow env b pl =
    Some (getOverflow (limited env (b\<lparr>bx := bx b + x2, bY := bY b + y2\<rparr>)) (viewport env), x2, y2)"
proof -
  obtain p q where "anchorToPoint (fst pl) (targetBox env) = Some p" "anchorToPoint (snd pl) b = Some q"
    using anchor_point assms by fastforce
  moreover obtain x2 y2 where
    "shift (align (fst pl)) (snd (offset env)) (shift (side (fst pl)) (fst (offset env)) (getOffset p q)) = (x2, y2)"
    by fastforce
  ultimately show ?thesis using that [of y2 x2] by (simp add: checkOverflow_def limited_def)
qed

text \<open>The number of axes that can still be flipped, and what a pass of the loop keeps.\<close>

definition unflipped :: "loc_state \<Rightarrow> nat" where
  "unflipped s = (if flipped s X then 0 else 1) + (if flipped s Y then 0 else 1)"

definition ok_placement :: "loc_state \<Rightarrow> bool" where
  "ok_placement s = (anchor_ok (fst (placement s)) \<and> anchor_ok (snd (placement s)))"

definition same_box :: "loc_state \<Rightarrow> loc_state \<Rightarrow> bool" where
  "same_box s s' =
     (bw (contentBox s') = bw (contentBox s) \<and> bh (contentBox s') = bh (contentBox s) \<and>
      bx (contentBox s') - loc_x s' = bx (contentBox s) - loc_x s \<and> bY (contentBox s') - loc_y s' = bY (contentBox s) - loc_y s)"

lemma same_box_refl [simp]: "same_box s s"
  by (simp add: same_box_def)

lemma same_box_trans: "same_box s s' \<Longrightarrow> same_box s' s'' \<Longrightarrow> same_box s s''"
  by (simp add: same_box_def)

lemma move_by_same [simp]: "same_box s (move_by dx dy s)" "placement (move_by dx dy s) = placement s" "flipped (move_by dx dy s) = flipped s"
  by (simp_all add: same_box_def move_by_def)

lemma try_flip_ok:
  assumes "ok_placement (fst sr)"
  obtains s' r' where "try_flip env a ov key sr = Some (s', r')" "ok_placement s'" "contentBox s' = contentBox (fst sr)"
    "loc_x s' = loc_x (fst sr)" "loc_y s' = loc_y (fst sr)" "resets s' = resets (fst sr)"
    "(s', r') = sr \<or> r' \<and> unflipped s' < unflipped (fst sr)"
proof (cases "(fst (ov key) \<noteq> 0 \<or> snd (ov key) \<noteq> 0) \<and> \<not> flipped (fst sr) key")
  case False
  then have "try_flip env a ov key sr = Some sr" by (auto simp: try_flip_def Let_def)
  then show ?thesis using that [of "fst sr" "snd sr"] assms by simp
next
  case True
  define flip where "flip = (if key = X then if a = Y then flipAlign else flipSide else if a = Y then flipSide else flipAlign)"
  let ?pl = "(flip (fst (placement (fst sr))), flip (snd (placement (fst sr))))"
  have pl: "anchor_ok (fst ?pl)" "anchor_ok (snd ?pl)" using assms flips_ok by (auto simp: ok_placement_def flip_def)
  obtain x2 y2 where c: "checkOverflow env (contentBox (fst sr)) ?pl =
      Some (getOverflow (limited env ((contentBox (fst sr))\<lparr>bx := bx (contentBox (fst sr)) + x2, bY := bY (contentBox (fst sr)) + y2\<rparr>)) (viewport env), x2, y2)"
    using check_ok [OF pl] by blast
  let ?s = "(fst sr)\<lparr>placement := ?pl, flipped := (flipped (fst sr))(key := True)\<rparr>"
  have less: "unflipped ?s < unflipped (fst sr)" using True by (cases key) (auto simp: unflipped_def)
  have "try_flip env a ov key sr = Some (?s, True) \<or> try_flip env a ov key sr = Some sr"
    using True c unfolding try_flip_def Let_def flip_def [symmetric] by simp
  then show ?thesis
  proof
    assume "try_flip env a ov key sr = Some (?s, True)"
    then show ?thesis using that [of ?s True] pl less by (simp add: ok_placement_def)
  next
    assume "try_flip env a ov key sr = Some sr"
    then show ?thesis using that [of "fst sr" "snd sr"] assms by simp
  qed
qed

text \<open>The loop ends with the content placed as its placement says, then settled.\<close>

definition placed :: "loc_env \<Rightarrow> loc_state \<Rightarrow> bool" where
  "placed env s = (\<exists>ov. checkOverflow env (contentBox s) (placement s) = Some (ov, 0, 0))"

lemma shift_moves: "shift s n (fst p - x, snd p - y) = (fst (shift s n p) - x, snd (shift s n p) - y)"
  by (simp add: shift_def)

lemma check_moved:
  assumes "checkOverflow env b pl = Some (ov, x2, y2)"
  shows "checkOverflow env (b\<lparr>bx := bx b + x2, bY := bY b + y2\<rparr>) pl = Some (ov, 0, 0)"
proof -
  obtain p q where pq: "anchorToPoint (fst pl) (targetBox env) = Some p" "anchorToPoint (snd pl) b = Some q"
    using assms by (auto simp: checkOverflow_def bind_eq_Some_conv)
  let ?sh = "\<lambda>d. shift (align (fst pl)) (snd (offset env)) (shift (side (fst pl)) (fst (offset env)) d)"
  have xy: "?sh (getOffset p q) = (x2, y2)" and
    ov: "ov = getOverflow (b\<lparr>bx := bx b + x2, bY := bY b + y2, bw := min_limit (bw b) (maxWidth env), bh := min_limit (bh b) (maxHeight env)\<rparr>) (viewport env)"
    using assms by (auto simp: checkOverflow_def pq Let_def split: prod.splits)
  have "?sh (getOffset p (fst q + x2, snd q + y2)) = ?sh (fst (getOffset p q) - x2, snd (getOffset p q) - y2)"
    by (simp add: getOffset_def algebra_simps)
  also have "\<dots> = (0, 0)" unfolding shift_moves using xy by simp
  finally have "?sh (getOffset p (fst q + x2, snd q + y2)) = (0, 0)" .
  then show ?thesis by (simp add: checkOverflow_def anchor_point_moves pq ov)
qed

lemma place_loop_settles:
  assumes "ok_placement s" "resets s + int (unflipped s) \<le> 9"
  obtains s0 ov where "place_loop env s = Some (settle env ov s0)" "same_box s s0" "ok_placement s0" "placed env s0"
    "ov = getOverflow (limited env (contentBox s0)) (viewport env)" "resets s0 \<le> resets s + int (unflipped s) + 1"
  using assms
proof (induction "unflipped s" arbitrary: s thesis rule: less_induct)
  case less
  have pl: "anchor_ok (fst (placement s))" "anchor_ok (snd (placement s))" using less.prems(2) by (simp_all add: ok_placement_def)
  obtain x2 y2 where c: "checkOverflow env (contentBox s) (placement s) =
      Some (getOverflow (limited env ((contentBox s)\<lparr>bx := bx (contentBox s) + x2, bY := bY (contentBox s) + y2\<rparr>)) (viewport env), x2, y2)"
    using check_ok [OF pl] by blast
  let ?s1 = "move_by x2 y2 (s\<lparr>resets := resets s + 1\<rparr>)"
  let ?ov = "getOverflow (limited env (contentBox ?s1)) (viewport env)" and ?a = "getAxis (fst (placement s))"
  have c1: "checkOverflow env (contentBox s) (placement s) = Some (?ov, x2, y2)" using c by (simp add: move_by_def)
  have box: "same_box s ?s1" by (simp add: same_box_def move_by_def)
  have u1: "unflipped ?s1 = unflipped s" by (simp add: unflipped_def)
  have "ok_placement (fst (?s1, False))" using less.prems(2) by (simp add: ok_placement_def)
  then obtain s2 r2 where s2: "try_flip env ?a ?ov X (?s1, False) = Some (s2, r2)" "ok_placement s2" "contentBox s2 = contentBox ?s1"
    "loc_x s2 = loc_x ?s1" "loc_y s2 = loc_y ?s1" "resets s2 = resets s + 1" "s2 = ?s1 \<and> \<not> r2 \<or> r2 \<and> unflipped s2 < unflipped s"
    by (rule try_flip_ok [where env = env and a = ?a and ov = ?ov and key = X]) (use u1 in auto)
  have "ok_placement (fst (s2, r2))" using s2(2) by simp
  then obtain s3 r3 where s3: "try_flip env ?a ?ov Y (s2, r2) = Some (s3, r3)" "ok_placement s3" "contentBox s3 = contentBox ?s1"
    "loc_x s3 = loc_x ?s1" "loc_y s3 = loc_y ?s1" "resets s3 = resets s + 1" "s3 = s2 \<and> r3 = r2 \<or> r3 \<and> unflipped s3 < unflipped s2"
    by (rule try_flip_ok [where env = env and a = ?a and ov = ?ov and key = Y]) (use s2 in auto)
  have run: "place_loop env s = (if r3 then place_loop env s3 else Some (settle env ?ov s3))"
    using less.prems(3) by (subst place_loop.simps) (simp add: c1 s2(1) s3(1))
  have box3: "same_box s s3" using box s3(3-5) by (simp add: same_box_def)
  show ?case
  proof (cases r3)
    case True
    then have less3: "unflipped s3 < unflipped s" using s2(7) s3(7) u1 by auto
    obtain s0 ov where "place_loop env s3 = Some (settle env ov s0)" "same_box s3 s0" "ok_placement s0" "placed env s0"
      "ov = getOverflow (limited env (contentBox s0)) (viewport env)" "resets s0 \<le> resets s3 + int (unflipped s3) + 1"
      using less.hyps [OF less3 _ s3(2)] less.prems(3) less3 s3(6) by force
    then show ?thesis using less.prems(1) [of ov s0] run True box3 same_box_trans less3 s3(6) by auto
  next
    case False
    then have "s3 = ?s1" using s2(7) s3(7) by auto
    moreover have "placed env ?s1" using check_moved [OF c1] by (auto simp: placed_def move_by_def)
    ultimately have "placed env s3" by simp
    moreover have "?ov = getOverflow (limited env (contentBox s3)) (viewport env)" by (simp only: s3(3))
    moreover have "place_loop env s = Some (settle env ?ov s3)" by (simp only: run False if_False)
    ultimately show ?thesis using less.prems(1) box3 s3(2,6) by (metis add.commute add_increasing2 add_mono of_nat_0_le_iff order_refl)
  qed
qed

lemma settle_resets [simp]: "resets (settle env ov s) = resets s"
  by (simp add: settle_def Let_def)

lemma settle_placement [simp]: "placement (settle env ov s) = placement s"
  by (simp add: settle_def Let_def move_by_def)

lemma settle_same_box: "same_box s (settle env ov s)"
  by (simp add: settle_def Let_def same_box_def move_by_def)

text \<open>The flips keep the axis of the placement.\<close>

lemma flips_axis: "anchor_ok a \<Longrightarrow> getAxis (flipSide a) = getAxis a" "getAxis (flipAlign a) = getAxis a"
  by (auto simp: anchor_ok_def flipSide_def flipAlign_def getAxis_def block_def split: if_splits)

lemma try_flip_axis:
  assumes "ok_placement (fst sr)" "try_flip env a ov key sr = Some sr'"
  shows "ok_placement (fst sr') \<and> getAxis (fst (placement (fst sr'))) = getAxis (fst (placement (fst sr)))"
proof (cases "sr' = sr")
  case False
  define flip where "flip = (if key = X then if a = Y then flipAlign else flipSide else if a = Y then flipSide else flipAlign)"
  have "placement (fst sr') = (flip (fst (placement (fst sr))), flip (snd (placement (fst sr))))"
    using assms(2) False unfolding try_flip_def Let_def flip_def [symmetric]
    by (auto simp: split_def split: if_splits bind_splits)
  then show ?thesis using assms(1) flips_ok flips_axis by (auto simp: ok_placement_def flip_def)
qed (use assms in auto)

lemma place_loop_axis:
  "ok_placement s \<Longrightarrow> place_loop env s = Some s' \<Longrightarrow> getAxis (fst (placement s')) = getAxis (fst (placement s))"
proof (induction env s rule: place_loop.induct)
  case (1 env s)
  show ?case
  proof (cases "resets s > 10")
    case True
    then show ?thesis using 1(3) unfolding place_loop.simps [of env s] by auto
  next
    case False
    obtain ov x2 y2 where c: "checkOverflow env (contentBox s) (placement s) = Some (ov, x2, y2)"
      using 1(3) False unfolding place_loop.simps [of env s] Let_def by (auto simp: bind_eq_Some_conv simp del: place_loop.simps)
    let ?s1 = "move_by x2 y2 (s\<lparr>resets := resets s + 1\<rparr>)"
    let ?a = "getAxis (fst (placement ?s1))"
    obtain sr2 s3 r3 where f: "try_flip env ?a ov X (?s1, False) = Some sr2" "try_flip env ?a ov Y sr2 = Some (s3, r3)"
      and run: "(if r3 then place_loop env s3 else Some (settle env ov s3)) = Some s'"
      using 1(3) False c unfolding place_loop.simps [of env s] Let_def by (auto simp: bind_eq_Some_conv simp del: place_loop.simps)
    have "ok_placement (fst (?s1, False))" using 1(2) by (simp add: ok_placement_def)
    from try_flip_axis [OF this f(1)] have 2: "ok_placement (fst sr2)" "getAxis (fst (placement (fst sr2))) = getAxis (fst (placement s))"
      by simp_all
    from try_flip_axis [OF 2(1) f(2)] have 3: "ok_placement s3" "getAxis (fst (placement s3)) = getAxis (fst (placement s))"
      using 2(2) by simp_all
    show ?thesis
    proof (cases r3)
      case True
      have "getAxis (fst (placement s')) = getAxis (fst (placement s3))"
        by (rule 1(1) [OF False c refl refl refl refl _ refl True 3(1)]) (use f run True in \<open>auto simp del: place_loop.simps\<close>)
      then show ?thesis using 3(2) by simp
    next
      case False
      then show ?thesis using run 3(2) by auto
    qed
  qed
qed

text \<open>A content that is settled starts inside the viewport, and lies in it on each axis on which it fits.\<close>

definition fits_in :: "rat \<Rightarrow> rat option \<Rightarrow> rat \<Rightarrow> bool" where
  "fits_in len limit whole = (len \<le> whole \<and> (case limit of None \<Rightarrow> True | Some m \<Rightarrow> len \<le> m))"

lemma fits_in_limit: "fits_in len limit whole \<Longrightarrow> min_limit len limit = len"
  by (auto simp: fits_in_def min_limit_def split: option.splits)

lemma settle_inside:
  fixes env s
  defines "s' \<equiv> settle env (getOverflow (limited env (contentBox s)) (viewport env)) s"
  shows "bx (viewport env) \<le> bx (contentBox s')" "bY (viewport env) \<le> bY (contentBox s')"
    "fst (available s') \<le> bw (viewport env)" "snd (available s') \<le> bh (viewport env)"
    "fits_in (bw (contentBox s)) (maxWidth env) (bw (viewport env)) \<Longrightarrow>
       b_right (contentBox s') \<le> b_right (viewport env) \<and> fst (available s') = bw (viewport env)"
    "fits_in (bh (contentBox s)) (maxHeight env) (bh (viewport env)) \<Longrightarrow>
       b_bottom (contentBox s') \<le> b_bottom (viewport env) \<and> snd (available s') = bh (viewport env)"
proof -
  note defs = s'_def settle_def Let_def move_by_def getOverflow_def limited_def b_right_def b_bottom_def
  show "bx (viewport env) \<le> bx (contentBox s')" "bY (viewport env) \<le> bY (contentBox s')"
    "fst (available s') \<le> bw (viewport env)" "snd (available s') \<le> bh (viewport env)"
    by (auto simp: defs max_def)
  show "b_right (contentBox s') \<le> b_right (viewport env) \<and> fst (available s') = bw (viewport env)"
    if "fits_in (bw (contentBox s)) (maxWidth env) (bw (viewport env))"
    using that fits_in_limit [OF that] by (auto simp: defs max_def fits_in_def)
  show "b_bottom (contentBox s') \<le> b_bottom (viewport env) \<and> snd (available s') = bh (viewport env)"
    if "fits_in (bh (contentBox s)) (maxHeight env) (bh (viewport env))"
    using that fits_in_limit [OF that] by (auto simp: defs max_def fits_in_def)
qed

section \<open>Where the content ends up\<close>

definition inside :: "box \<Rightarrow> box \<Rightarrow> bool" where
  "inside b v = (bx v \<le> bx b \<and> bY v \<le> bY b \<and> b_right b \<le> b_right v \<and> b_bottom b \<le> b_bottom v)"

lemma update_facts:
  assumes "anchor_ok (fst pl)" "anchor_ok (snd pl)"
  obtains s where "updateLocation dpr env pl b = Some (location_styles dpr env s, s)" "resets s \<le> 2"
    "bx (viewport env) \<le> bx (contentBox s)" "bY (viewport env) \<le> bY (contentBox s)"
    "fst (available s) \<le> bw (viewport env)" "snd (available s) \<le> bh (viewport env)"
    "bw (contentBox s) = bw b" "bh (contentBox s) = bh b" "bx (contentBox s) = bx b + loc_x s" "bY (contentBox s) = bY b + loc_y s"
    "fits_in (bw b) (maxWidth env) (bw (viewport env)) \<Longrightarrow>
       b_right (contentBox s) \<le> b_right (viewport env) \<and> fst (available s) = bw (viewport env)"
    "fits_in (bh b) (maxHeight env) (bh (viewport env)) \<Longrightarrow>
       b_bottom (contentBox s) \<le> b_bottom (viewport env) \<and> snd (available s) = bh (viewport env)"
proof -
  have ok: "ok_placement (init_state pl b)" using assms by (simp add: ok_placement_def init_state_def)
  have u: "unflipped (init_state pl b) = 2" "resets (init_state pl b) = - 1" by (simp_all add: unflipped_def init_state_def)
  obtain s0 ov where s0: "place_loop env (init_state pl b) = Some (settle env ov s0)" "same_box (init_state pl b) s0"
    "ov = getOverflow (limited env (contentBox s0)) (viewport env)" "resets s0 \<le> 2"
    by (rule place_loop_settles [OF ok]) (auto simp: u)
  let ?s = "settle env ov s0"
  have "same_box (init_state pl b) ?s" by (rule same_box_trans [OF s0(2) settle_same_box])
  then have box: "bw (contentBox ?s) = bw b" "bh (contentBox ?s) = bh b" "bx (contentBox ?s) = bx b + loc_x ?s" "bY (contentBox ?s) = bY b + loc_y ?s"
    by (simp_all add: same_box_def init_state_def)
  have "bw (contentBox s0) = bw b" "bh (contentBox s0) = bh b" using s0(2) by (simp_all add: same_box_def init_state_def)
  note ins = settle_inside [where env = env and s = s0, folded s0(3), unfolded this]
  show ?thesis by (rule that [OF _ _ ins(1-4) box ins(5,6)]) (use s0(1,4) in \<open>simp_all add: updateLocation_def\<close>)
qed

text \<open>
  C31. Placing the content of an overlay ends after at most two flips of the placement, for every pair of anchors that
  name places: the content starts inside the viewport, lies wholly inside it if it is not larger
  than the viewport and its own limits, and the styles move it to exactly that place.
\<close>

theorem overlay_content_inside:
  assumes "anchor_ok (fst pl)" and "anchor_ok (snd pl)"
  shows "\<exists>st s. updateLocation dpr env pl b = Some (st, s) \<and> resets s \<le> 2 \<and>
    bx (viewport env) \<le> bx (contentBox s) \<and> bY (viewport env) \<le> bY (contentBox s) \<and>
    (fits_in (bw b) (maxWidth env) (bw (viewport env)) \<and> fits_in (bh b) (maxHeight env) (bh (viewport env)) \<longrightarrow>
       inside (contentBox s) (viewport env)) \<and>
    css_top st = pixelRound dpr (bY (contentBox s) - bY b) \<and>
    (if isRtl env then css_right st = Some (pixelRound dpr (bx b - bx (contentBox s)))
     else css_left st = Some (pixelRound dpr (bx (contentBox s) - bx b)))"
proof -
  obtain s where s: "updateLocation dpr env pl b = Some (location_styles dpr env s, s)" "resets s \<le> 2"
    "bx (viewport env) \<le> bx (contentBox s)" "bY (viewport env) \<le> bY (contentBox s)"
    "bx (contentBox s) = bx b + loc_x s" "bY (contentBox s) = bY b + loc_y s"
    "fits_in (bw b) (maxWidth env) (bw (viewport env)) \<Longrightarrow> b_right (contentBox s) \<le> b_right (viewport env)"
    "fits_in (bh b) (maxHeight env) (bh (viewport env)) \<Longrightarrow> b_bottom (contentBox s) \<le> b_bottom (viewport env)"
    by (rule update_facts [OF assms, of dpr env b]) blast
  have "css_top (location_styles dpr env s) = pixelRound dpr (bY (contentBox s) - bY b)"
    "if isRtl env then css_right (location_styles dpr env s) = Some (pixelRound dpr (bx b - bx (contentBox s)))
     else css_left (location_styles dpr env s) = Some (pixelRound dpr (bx (contentBox s) - bx b))"
    by (simp_all add: location_styles_def s(5,6) split: prod.split)
  then show ?thesis using s(1-4,7,8) unfolding inside_def by blast
qed

text \<open>
  The rounds that follow: the code runs two more in the next frames when the content is higher than
  what is available, and one whenever the size of the activator or of the content changes. In each the
  content has its natural width, as far as the styles of the round before allow, and the height its
  parts need at that width (\<open>flow\<close>), cut by the maximal height. As in CSS, the minimal width prevails
  over the maximal one.
\<close>

definition at_least :: "rat option \<Rightarrow> rat \<Rightarrow> rat" where
  "at_least m v = (case m of None \<Rightarrow> v | Some l \<Rightarrow> max l v)"

definition rendered :: "(rat \<Rightarrow> rat) \<Rightarrow> box \<Rightarrow> content_styles \<Rightarrow> box" where
  "rendered flow b st =
     (let w = at_least (css_minWidth st) (min (bw b) (css_maxWidth st))
      in b\<lparr>bw := w, bh := min (flow w) (css_maxHeight st)\<rparr>)"

definition whole_pixels :: "rat \<Rightarrow> rat \<Rightarrow> bool" where
  "whole_pixels dpr v = (pixelCeil dpr v = v)"

text \<open>The largest size the content can have.\<close>

definition room :: "rat \<Rightarrow> rat option \<Rightarrow> rat" where
  "room whole limit = min_limit whole limit"

definition limit_ok :: "rat \<Rightarrow> rat option \<Rightarrow> bool" where
  "limit_ok dpr limit = (case limit of None \<Rightarrow> True | Some m \<Rightarrow> 0 \<le> m \<and> whole_pixels dpr m)"

lemma room_facts:
  assumes "0 \<le> whole" "whole_pixels dpr whole" "limit_ok dpr limit"
  shows "0 \<le> room whole limit" "whole_pixels dpr (room whole limit)" "room whole limit \<le> whole"
    "len \<le> room whole limit \<Longrightarrow> fits_in len limit whole"
  using assms by (auto simp: room_def min_limit_def limit_ok_def fits_in_def min_def split: option.splits if_splits)

lemma pixelCeil_mono: "0 < dpr \<Longrightarrow> v \<le> w \<Longrightarrow> pixelCeil dpr v \<le> pixelCeil dpr w"
  by (simp add: pixelCeil_def divide_right_mono ceiling_mono mult_right_mono)

lemma max_style:
  assumes "0 < dpr" "0 \<le> whole" "whole_pixels dpr whole" "limit_ok dpr limit" "avail \<le> whole"
  shows "pixelCeil dpr (clamp_limit avail None limit) \<le> room whole limit"
    "avail = whole \<Longrightarrow> pixelCeil dpr (clamp_limit avail None limit) = room whole limit"
proof -
  note r = room_facts [OF assms(2-4)]
  have "clamp_limit avail None limit \<le> room whole limit"
    using assms(5) r(1) by (auto simp: clamp_limit_def room_def min_limit_def split: option.splits)
  then show "pixelCeil dpr (clamp_limit avail None limit) \<le> room whole limit"
    using pixelCeil_mono [OF assms(1)] r(2) by (simp add: whole_pixels_def) (metis)
  show "pixelCeil dpr (clamp_limit avail None limit) = room whole limit" if "avail = whole"
    using r(1,2) that by (auto simp: clamp_limit_def room_def whole_pixels_def)
qed

definition screen_ok :: "rat \<Rightarrow> loc_env \<Rightarrow> bool" where
  "screen_ok dpr env =
     (0 < dpr \<and> 0 \<le> bw (viewport env) \<and> 0 \<le> bh (viewport env) \<and> whole_pixels dpr (bw (viewport env)) \<and> whole_pixels dpr (bh (viewport env)) \<and>
      limit_ok dpr (maxWidth env) \<and> limit_ok dpr (maxHeight env) \<and> minWidth env = None \<and> minHeight env = None)"

text \<open>The width a content has at least: that of its activator, below or above it.\<close>

definition least_width :: "loc_env \<Rightarrow> anchor \<Rightarrow> rat option" where
  "least_width env a = (if getAxis a = Y then Some (bw (targetBox env)) else None)"

lemma round_facts:
  assumes "anchor_ok (fst pl)" "anchor_ok (snd pl)" "screen_ok dpr env"
  obtains st s where "updateLocation dpr env pl b = Some (st, s)" "css_minWidth st = least_width env (fst pl)"
    "bw (contentBox s) = bw b" "bh (contentBox s) = bh b"
    "css_maxWidth st \<le> room (bw (viewport env)) (maxWidth env)" "css_maxHeight st \<le> room (bh (viewport env)) (maxHeight env)"
    "bw b \<le> room (bw (viewport env)) (maxWidth env) \<Longrightarrow> bh b \<le> room (bh (viewport env)) (maxHeight env) \<Longrightarrow>
       inside (contentBox s) (viewport env) \<and> css_maxWidth st = room (bw (viewport env)) (maxWidth env) \<and>
       css_maxHeight st = room (bh (viewport env)) (maxHeight env)"
proof -
  obtain s where s: "updateLocation dpr env pl b = Some (location_styles dpr env s, s)"
    "bx (viewport env) \<le> bx (contentBox s)" "bY (viewport env) \<le> bY (contentBox s)"
    "fst (available s) \<le> bw (viewport env)" "snd (available s) \<le> bh (viewport env)"
    "bw (contentBox s) = bw b" "bh (contentBox s) = bh b"
    "fits_in (bw b) (maxWidth env) (bw (viewport env)) \<Longrightarrow>
       b_right (contentBox s) \<le> b_right (viewport env) \<and> fst (available s) = bw (viewport env)"
    "fits_in (bh b) (maxHeight env) (bh (viewport env)) \<Longrightarrow>
       b_bottom (contentBox s) \<le> b_bottom (viewport env) \<and> snd (available s) = bh (viewport env)"
    by (rule update_facts [OF assms(1,2), of dpr env b]) blast
  have ok: "0 < dpr" "0 \<le> bw (viewport env)" "0 \<le> bh (viewport env)" "whole_pixels dpr (bw (viewport env))" "whole_pixels dpr (bh (viewport env))"
    "limit_ok dpr (maxWidth env)" "limit_ok dpr (maxHeight env)" "minWidth env = None" "minHeight env = None"
    using assms(3) by (simp_all add: screen_ok_def)
  have st: "css_maxWidth (location_styles dpr env s) = pixelCeil dpr (clamp_limit (fst (available s)) None (maxWidth env))"
    "css_maxHeight (location_styles dpr env s) = pixelCeil dpr (clamp_limit (snd (available s)) None (maxHeight env))"
    by (simp_all add: location_styles_def ok(8,9) split: prod.split)
  have "place_loop env (init_state pl b) = Some s" using s(1) by (auto simp: updateLocation_def)
  then have "getAxis (fst (placement s)) = getAxis (fst pl)"
    using place_loop_axis [of "init_state pl b" env s] assms(1,2) by (simp add: init_state_def ok_placement_def)
  then have m: "css_minWidth (location_styles dpr env s) = least_width env (fst pl)"
    by (simp add: location_styles_def least_width_def ok(8) min_limit_def split_def Let_def)
  note w = max_style [OF ok(1,2,4,6) s(4)] and h = max_style [OF ok(1,3,5,7) s(5)]
  note fw = room_facts(4) [OF ok(2,4,6)] and fh = room_facts(4) [OF ok(3,5,7)]
  show ?thesis
  proof (rule that [OF s(1) m s(6,7)])
    show "css_maxWidth (location_styles dpr env s) \<le> room (bw (viewport env)) (maxWidth env)"
      "css_maxHeight (location_styles dpr env s) \<le> room (bh (viewport env)) (maxHeight env)"
      using w(1) h(1) by (simp_all only: st)
  next
    assume a: "bw b \<le> room (bw (viewport env)) (maxWidth env)" "bh b \<le> room (bh (viewport env)) (maxHeight env)"
    show "inside (contentBox s) (viewport env) \<and> css_maxWidth (location_styles dpr env s) = room (bw (viewport env)) (maxWidth env) \<and>
       css_maxHeight (location_styles dpr env s) = room (bh (viewport env)) (maxHeight env)"
      using s(2,3) s(8) [OF fw [OF a(1)]] s(9) [OF fh [OF a(2)]] w(2) h(2) by (simp add: inside_def st)
  qed
qed

lemma least_width_fits:
  "getAxis a = Y \<longrightarrow> bw (targetBox env) \<le> r \<Longrightarrow> w \<le> r \<Longrightarrow> at_least (least_width env a) (min v w) \<le> r"
  by (auto simp: at_least_def least_width_def min_le_iff_disj)

text \<open>
  C32. A content of any natural size, however its height depends on its width, is inside the viewport after three
  rounds, as large as the viewport and its limits allow and at least as wide as an activator it is
  below or above, and a further round changes its size no more: on a screen whose viewport and limits
  are whole pixels, for a content with no minimal size of its own, and an activator that is not wider
  than the room in the viewport if the content is placed below or above it.
\<close>

theorem large_content_inside_after_three_rounds:
  assumes "anchor_ok (fst pl)" and "anchor_ok (snd pl)" and "screen_ok dpr env"
    and "getAxis (fst pl) = Y \<longrightarrow> bw (targetBox env) \<le> room (bw (viewport env)) (maxWidth env)"
  shows "\<exists>st1 s1 st2 s2 st3 s3.
    updateLocation dpr env pl b = Some (st1, s1) \<and> updateLocation dpr env pl (rendered flow b st1) = Some (st2, s2) \<and>
    updateLocation dpr env pl (rendered flow b st2) = Some (st3, s3) \<and> inside (contentBox s3) (viewport env) \<and>
    bw (contentBox s3) = at_least (least_width env (fst pl)) (min (bw b) (room (bw (viewport env)) (maxWidth env))) \<and>
    bh (contentBox s3) = min (flow (bw (contentBox s3))) (room (bh (viewport env)) (maxHeight env)) \<and>
    rendered flow b st3 = rendered flow b st2"
proof -
  let ?w = "room (bw (viewport env)) (maxWidth env)" and ?h = "room (bh (viewport env)) (maxHeight env)"
    and ?m = "least_width env (fst pl)"
  obtain st1 s1 where r1: "updateLocation dpr env pl b = Some (st1, s1)" "css_minWidth st1 = ?m"
    "css_maxWidth st1 \<le> ?w" "css_maxHeight st1 \<le> ?h"
    by (rule round_facts [OF assms(1-3), of b]) blast
  have b1: "bw (rendered flow b st1) \<le> ?w" "bh (rendered flow b st1) \<le> ?h"
    using least_width_fits [OF assms(4) r1(3)] r1(4) by (simp_all add: rendered_def Let_def r1(2) min_le_iff_disj)
  obtain st2 s2 where r2: "updateLocation dpr env pl (rendered flow b st1) = Some (st2, s2)" "css_minWidth st2 = ?m"
    "css_maxWidth st2 = ?w" "css_maxHeight st2 = ?h"
    by (rule round_facts [OF assms(1-3), of "rendered flow b st1"]) (use b1 in blast)
  have b2: "bw (rendered flow b st2) \<le> ?w" "bh (rendered flow b st2) \<le> ?h"
    using least_width_fits [OF assms(4), of ?w] by (simp_all add: rendered_def Let_def r2(2-4))
  obtain st3 s3 where r3: "updateLocation dpr env pl (rendered flow b st2) = Some (st3, s3)" "css_minWidth st3 = ?m"
    "bw (contentBox s3) = bw (rendered flow b st2)" "bh (contentBox s3) = bh (rendered flow b st2)"
    "inside (contentBox s3) (viewport env)" "css_maxWidth st3 = ?w" "css_maxHeight st3 = ?h"
    by (rule round_facts [OF assms(1-3), of "rendered flow b st2"]) (use b2 in blast)
  have "rendered flow b st3 = rendered flow b st2" by (simp add: rendered_def r2(2-4) r3(2,6,7))
  moreover have "bw (rendered flow b st2) = at_least ?m (min (bw b) ?w)"
    "bh (rendered flow b st2) = min (flow (at_least ?m (min (bw b) ?w))) ?h" by (simp_all add: rendered_def Let_def r2(2-4))
  ultimately show ?thesis using r1(1) r2(1) r3(1,3-5) by metis
qed

text \<open>Where the content fits at its preferred place, it is put there.\<close>

lemma preferred_place_kept:
  assumes "checkOverflow env b pl = Some (ov, x2, y2)" and "ov X = (0, 0)" "ov Y = (0, 0)"
    and "fits_in (bw b) (maxWidth env) (bw (viewport env))" "fits_in (bh b) (maxHeight env) (bh (viewport env))"
  shows "\<exists>s. place_loop env (init_state pl b) = Some s \<and> placement s = pl \<and> loc_x s = x2 \<and> loc_y s = y2"
proof -
  let ?s1 = "move_by x2 y2 (init_state pl b\<lparr>resets := 0\<rparr>)"
  have "place_loop env (init_state pl b) = Some (settle env ov ?s1)"
    by (subst place_loop.simps) (simp add: init_state_def assms(1-3) try_flip_def)
  moreover have "getOverflow (contentBox ?s1) (viewport env) = ov"
    using assms(1) fits_in_limit [OF assms(4)] fits_in_limit [OF assms(5)]
    by (auto simp: checkOverflow_def bind_eq_Some_conv split_def Let_def move_by_def init_state_def)
  then have "loc_x (settle env ov ?s1) = x2" "loc_y (settle env ov ?s1) = y2" "placement (settle env ov ?s1) = pl"
    using assms(2,3) by (simp_all add: settle_def Let_def move_by_def init_state_def)
  ultimately show ?thesis by blast
qed

text \<open>A menu below a button near the lower edge of a small window, and a list that is higher than the window.\<close>

definition menu_env :: loc_env where
  "menu_env =
     \<lparr>targetBox = \<lparr>bx = 20, bY = 350, bw = 80, bh = 30\<rparr>,
      viewport = viewport_of \<lparr>bx = 0, bY = 0, bw = 600, bh = 400\<rparr> [], offset = (0, 0), minWidth = None, minHeight = None,
      maxWidth = None, maxHeight = Some 310, isRtl = False\<rparr>"

definition menu_box :: "rat \<Rightarrow> box" where
  "menu_box h = \<lparr>bx = 0, bY = 0, bw = 120, bh = h\<rparr>"

lemma menu_anchors: "anchor_ok (fst (preferred ''bottom'' ''auto'' False))" "anchor_ok (snd (preferred ''bottom'' ''auto'' False))"
  by code_simp+

lemma menu_viewport: "viewport menu_env = \<lparr>bx = 12, bY = 12, bw = 576, bh = 376\<rparr>"
  by (simp add: menu_env_def viewport_of_def viewportMargin_def)

theorem overlay_content_inside_witness:
  "\<exists>st s. updateLocation 1 menu_env (preferred ''bottom'' ''auto'' False) (menu_box 200) = Some (st, s) \<and> resets s \<le> 2 \<and>
    inside (contentBox s) (viewport menu_env)"
proof -
  have "fits_in (bw (menu_box 200)) (maxWidth menu_env) (bw (viewport menu_env))"
    "fits_in (bh (menu_box 200)) (maxHeight menu_env) (bh (viewport menu_env))"
    by (simp_all add: fits_in_def menu_viewport) (simp_all add: menu_box_def menu_env_def)
  then show ?thesis using overlay_content_inside [OF menu_anchors, of 1 menu_env "menu_box 200"] by blast
qed

theorem large_content_inside_after_three_rounds_witness:
  "\<exists>st1 s1 st2 s2 st3 s3.
    updateLocation 1 menu_env (preferred ''bottom'' ''auto'' False) (menu_box 900) = Some (st1, s1) \<and>
    updateLocation 1 menu_env (preferred ''bottom'' ''auto'' False) (rendered (\<lambda>w. 108000 / w) (menu_box 900) st1) = Some (st2, s2) \<and>
    updateLocation 1 menu_env (preferred ''bottom'' ''auto'' False) (rendered (\<lambda>w. 108000 / w) (menu_box 900) st2) = Some (st3, s3) \<and>
    inside (contentBox s3) (viewport menu_env) \<and> bw (contentBox s3) = 120 \<and> bh (contentBox s3) = 310"
proof -
  have ok: "screen_ok 1 menu_env"
    by (simp add: screen_ok_def menu_viewport whole_pixels_def pixelCeil_def limit_ok_def) (simp add: menu_env_def whole_pixels_def pixelCeil_def)
  have w: "bw (targetBox menu_env) \<le> room (bw (viewport menu_env)) (maxWidth menu_env)"
    by (simp add: menu_viewport room_def min_limit_def) (simp add: menu_env_def)
  have "at_least (least_width menu_env (fst (preferred ''bottom'' ''auto'' False)))
      (min (bw (menu_box 900)) (room (bw (viewport menu_env)) (maxWidth menu_env))) = 120"
    "min (108000 / 120) (room (bh (viewport menu_env)) (maxHeight menu_env)) = 310"
    by (simp_all add: menu_viewport room_def min_limit_def)
      (simp_all add: menu_env_def menu_box_def at_least_def least_width_def)
  then show ?thesis
    using large_content_inside_after_three_rounds [OF menu_anchors ok impI, OF w, of "menu_box 900" "\<lambda>w. 108000 / w"]
    by metis
qed

text \<open>
  The condition on the activator is needed: below an activator that is wider than the viewport the
  content gets the width of the activator, in every round, and leaves the viewport at the right.
\<close>

definition wide_env :: loc_env where
  "wide_env = menu_env\<lparr>targetBox := \<lparr>bx = 0, bY = 350, bw = 600, bh = 30\<rparr>\<rparr>"

definition wide_round :: "content_styles \<Rightarrow> content_styles \<times> box" where
  "wide_round st =
     (case updateLocation 1 wide_env (preferred ''bottom'' ''auto'' False) (rendered (\<lambda>_. 200) (menu_box 200) st) of
        Some (st', s) \<Rightarrow> (st', contentBox s) | None \<Rightarrow> (st, menu_box 0))"

lemma wide_activator_content_outside:
  "\<exists>st. map_option fst (updateLocation 1 wide_env (preferred ''bottom'' ''auto'' False) (menu_box 200)) = Some st \<and>
    bw (snd (wide_round st)) = 600 \<and> \<not> inside (snd (wide_round st)) (viewport wide_env) \<and>
    fst (wide_round (fst (wide_round st))) = fst (wide_round st) \<and>
    \<not> inside (snd (wide_round (fst (wide_round st)))) (viewport wide_env)"
proof -
  let ?st = "fst (the (updateLocation 1 wide_env (preferred ''bottom'' ''auto'' False) (menu_box 200)))"
  have "map_option fst (updateLocation 1 wide_env (preferred ''bottom'' ''auto'' False) (menu_box 200)) = Some ?st \<and>
    bw (snd (wide_round ?st)) = 600 \<and> \<not> inside (snd (wide_round ?st)) (viewport wide_env) \<and>
    fst (wide_round (fst (wide_round ?st))) = fst (wide_round ?st) \<and>
    \<not> inside (snd (wide_round (fst (wide_round ?st)))) (viewport wide_env)"
    by code_simp
  then show ?thesis by blast
qed

section \<open>The stack of overlays\<close>

text \<open>
  \<open>useStack\<close>: an overlay that becomes active goes on top of the global stack and leaves it when it is no
  longer active; \<open>splice\<close> with the index \<open>- 1\<close> takes the last entry.
\<close>

type_synonym stack = "(nat \<times> int) list"

definition stack_zIndex :: "int \<Rightarrow> stack \<Rightarrow> int" where
  "stack_zIndex z globalStack =
     (if globalStack \<noteq> [] \<and> snd (last globalStack) \<noteq> 0 then snd (last globalStack) + 10 else z)"

definition stack_activate :: "bool \<Rightarrow> nat \<Rightarrow> int \<Rightarrow> stack \<Rightarrow> stack" where
  "stack_activate createStackEntry uid z globalStack =
     (if createStackEntry then globalStack @ [(uid, stack_zIndex z globalStack)] else globalStack)"

fun stack_index :: "nat \<Rightarrow> stack \<Rightarrow> nat option" where
  "stack_index uid [] = None"
| "stack_index uid (e # es) = (if fst e = uid then Some 0 else map_option Suc (stack_index uid es))"

definition stack_dispose :: "bool \<Rightarrow> nat \<Rightarrow> stack \<Rightarrow> stack" where
  "stack_dispose createStackEntry uid globalStack =
     (if createStackEntry then
        case stack_index uid globalStack of
          Some i \<Rightarrow> take i globalStack @ drop (Suc i) globalStack
        | None \<Rightarrow> butlast globalStack
      else globalStack)"

definition globalTop :: "nat \<Rightarrow> stack \<Rightarrow> bool" where
  "globalTop uid globalStack = (globalStack \<noteq> [] \<and> fst (last globalStack) = uid)"

inductive stack_reach :: "stack \<Rightarrow> bool" where
  stack_empty: "stack_reach []"
| stack_open: "stack_reach st \<Longrightarrow> uid \<notin> fst ` set st \<Longrightarrow> 0 < z \<Longrightarrow> stack_reach (stack_activate True uid z st)"
| stack_other: "stack_reach st \<Longrightarrow> stack_reach (stack_activate False uid z st)"
| stack_close: "stack_reach st \<Longrightarrow> uid \<in> fst ` set st \<Longrightarrow> stack_reach (stack_dispose True uid st)"

lemma stack_index_found: "uid \<in> fst ` set st \<Longrightarrow> \<exists>i. stack_index uid st = Some i \<and> i < length st \<and> fst (st ! i) = uid"
  by (induction uid st rule: stack_index.induct) force+

definition stack_ok :: "stack \<Rightarrow> bool" where
  "stack_ok st = (distinct (map fst st) \<and> sorted_wrt (\<lambda>a b. snd a + 10 \<le> snd b) st \<and> (\<forall>e \<in> set st. 0 < snd e))"

lemma stack_drop_one:
  assumes "stack_ok st" "i < length st"
  shows "stack_ok (take i st @ drop (Suc i) st)"
proof -
  have "stack_ok (take i st @ st ! i # drop (Suc i) st)" using assms id_take_nth_drop [OF assms(2)] by metis
  then show ?thesis by (auto simp: stack_ok_def sorted_wrt_append)
qed

lemma stack_reach_ok: "stack_reach st \<Longrightarrow> stack_ok st"
proof (induction rule: stack_reach.induct)
  case (stack_open st uid z)
  have z: "0 < stack_zIndex z st" "\<And>e. e \<in> set st \<Longrightarrow> snd e + 10 \<le> stack_zIndex z st"
  proof -
    show "0 < stack_zIndex z st" "\<And>e. e \<in> set st \<Longrightarrow> snd e + 10 \<le> stack_zIndex z st"
      using stack_open by (cases st rule: rev_cases; force simp: stack_zIndex_def stack_ok_def sorted_wrt_append)+
  qed
  then show ?case using stack_open by (auto simp: stack_activate_def stack_ok_def sorted_wrt_append)
next
  case (stack_close st uid)
  then obtain i where "stack_index uid st = Some i" "i < length st" using stack_index_found by blast
  then show ?case using stack_drop_one [OF stack_close.IH] by (simp add: stack_dispose_def)
qed (simp_all add: stack_ok_def stack_activate_def)

text \<open>The overlay that has been opened last and not closed lies above all others.\<close>

lemma top_overlay_above:
  assumes "stack_reach st" "e \<in> set st" "e \<noteq> last st"
  shows "snd e < snd (last st) \<and> globalTop (fst (last st)) st \<and> \<not> globalTop (fst e) st"
proof -
  have ok: "stack_ok st" by (rule stack_reach_ok [OF assms(1)])
  show ?thesis
    using ok assms(2,3) by (cases st rule: rev_cases) (force simp: stack_ok_def sorted_wrt_append globalTop_def)+
qed

end
