(* ===== verification/VuetifyVirtual.thy ===== *)
theory VuetifyVirtual
  imports VuetifyHelpers Complex_Main
begin

text \<open>
  Vuetify's virtual scrolling (\<^verbatim>\<open>src/v2/lens3/ui/assets/index.js\<close>, \<open>useVirtual\<close>, \<open>binaryClosest\<close>),
  with which the lists of selects are shown: only the items near the visible part of the list are
  rendered, between two paddings of the height of the others.

  Heights and scroll positions are rational numbers; a slot of an array that is not set is \<open>None\<close>. What
  is measured (the scroll position, the time, the heights of items) is an argument. The frame that
  \<open>calculateVisibleItems\<close> requests is \<open>frame\<close>; several scroll events before a frame run it once. The container
  and the marker are there.

  Shown: the search finds the slot of a position in sorted offsets; when every scroll event has its frame, every
  visible item is rendered, and after the end of scrolling it is so whatever happened before. Two events before a frame in opposite
  directions can leave visible items unrendered until then, and the padding below the list misses the last item.
\<close>

section \<open>Search\<close>

definition slot :: "'a option list \<Rightarrow> int \<Rightarrow> 'a option" where
  "slot xs i = (if 0 \<le> i \<and> nat i < length xs then xs ! nat i else None)"

function closest :: "rat option list \<Rightarrow> rat \<Rightarrow> int \<Rightarrow> int \<Rightarrow> int \<Rightarrow> int" where
  "closest arr val low high target =
     (if low \<le> high then
        let mid = (low + high) div 2 in
        case slot arr mid of
          None \<Rightarrow> low
        | Some item \<Rightarrow>
            if item > val then closest arr val low (mid - 1) target
            else if item < val then closest arr val (mid + 1) high mid
            else mid
      else target)"
  by pat_completeness auto
termination by (relation "measure (\<lambda>(_, _, low, high, _). nat (high + 1 - low))") auto

declare closest.simps [simp del]

definition binaryClosest :: "rat option list \<Rightarrow> rat \<Rightarrow> int" where
  "binaryClosest arr val =
     (let high = int (length arr) - 1
      in if (case slot arr high of None \<Rightarrow> False | Some x \<Rightarrow> x < val) then high else closest arr val 0 high (- 1))"

section \<open>State\<close>

record virtual =
  items :: nat
  itemHeight :: rat
  first :: int
  last_item :: int
  paddingTop :: rat
  paddingBottom :: rat
  markerOffset :: rat
  sizes :: "rat option list"
  offsets :: "rat option list"
  targetScrollIndex :: int
  viewportHeight :: rat
  lastScrollTop :: rat
  scrollVelocity :: rat
  lastScrollTime :: rat

definition BUFFER_PX :: rat where
  "BUFFER_PX = 100"

definition or_zero :: "rat option \<Rightarrow> rat" where
  "or_zero x = (case x of None \<Rightarrow> 0 | Some v \<Rightarrow> v)"

definition put :: "'a option list \<Rightarrow> nat \<Rightarrow> 'a \<Rightarrow> 'a option list" where
  "put xs i v = (if i < length xs then xs[i := Some v] else xs @ replicate (i - length xs) None @ [Some v])"

definition getSize :: "virtual \<Rightarrow> nat \<Rightarrow> rat" where
  "getSize v i = (let s = or_zero (slot (sizes v) (int i)) in if s \<noteq> 0 then s else itemHeight v)"

definition updateOffsets :: "virtual \<Rightarrow> virtual" where
  "updateOffsets v =
     v\<lparr>offsets := fold (\<lambda>i offs. put offs i (or_zero (slot offs (int i - 1)) + getSize v (i - 1))) [1..<items v] (put (offsets v) 0 0)\<rparr>"

definition handleItemResize :: "nat \<Rightarrow> rat \<Rightarrow> virtual \<Rightarrow> virtual \<times> bool" where
  "handleItemResize index height v =
     (let prevHeight = slot (sizes v) (int index);
          prevMinHeight = itemHeight v;
          h = (if prevMinHeight \<noteq> 0 then min (itemHeight v) height else height);
          v' = v\<lparr>itemHeight := h\<rparr>
      in if prevHeight \<noteq> Some height \<or> prevMinHeight \<noteq> h then (v'\<lparr>sizes := put (sizes v) index height\<rparr>, True) else (v', False))"

definition calculateOffset :: "virtual \<Rightarrow> int \<Rightarrow> rat" where
  "calculateOffset v index = or_zero (slot (offsets v) (clamp index 0 (int (items v) - 1)))"

definition calculateIndex :: "virtual \<Rightarrow> rat \<Rightarrow> int" where
  "calculateIndex v scrollTop = binaryClosest (offsets v) scrollTop"

definition handleScroll :: "rat \<Rightarrow> rat \<Rightarrow> rat \<Rightarrow> virtual \<Rightarrow> virtual" where
  "handleScroll scrollTop scrollTime offsetTop v =
     (let scrollDeltaT = scrollTime - lastScrollTime v;
          v' = (if scrollDeltaT > 500
                then v\<lparr>scrollVelocity := sgn (scrollTop - lastScrollTop v), markerOffset := offsetTop\<rparr>
                else v\<lparr>scrollVelocity := scrollTop - lastScrollTop v\<rparr>)
      in v'\<lparr>lastScrollTop := scrollTop, lastScrollTime := scrollTime\<rparr>)"

definition handleScrollend :: "virtual \<Rightarrow> virtual" where
  "handleScrollend v = v\<lparr>scrollVelocity := 0, lastScrollTime := 0\<rparr>"

text \<open>\<open>_calculateVisibleItems\<close>, in a frame.\<close>

definition frame :: "virtual \<Rightarrow> virtual" where
  "frame v =
     (if viewportHeight v = 0 then v
      else
        let n = int (items v);
            scrollTop = lastScrollTop v - markerOffset v;
            direction = sgn (scrollVelocity v);
            startPx = max 0 (scrollTop - BUFFER_PX);
            start = clamp (calculateIndex v startPx) 0 n;
            endPx = scrollTop + viewportHeight v + BUFFER_PX;
            stop = clamp (calculateIndex v endPx + 1) (start + 1) n;
            v' = (if (direction \<noteq> - 1 \<or> start < first v) \<and> (direction \<noteq> 1 \<or> stop > last_item v) then
                    let topOverflow = calculateOffset v (first v) - calculateOffset v start;
                        bottomOverflow = calculateOffset v stop - calculateOffset v (last_item v);
                        bufferOverflow = max topOverflow bottomOverflow
                    in if bufferOverflow > BUFFER_PX then v\<lparr>first := start, last_item := stop\<rparr>
                       else v\<lparr>first := (if start \<le> 0 then start else first v), last_item := (if stop \<ge> n then stop else last_item v)\<rparr>
                  else v)
        in v'\<lparr>paddingTop := calculateOffset v (first v'), paddingBottom := calculateOffset v n - calculateOffset v (last_item v')\<rparr>)"

definition scrollToIndex :: "int \<Rightarrow> virtual \<Rightarrow> virtual \<times> rat option" where
  "scrollToIndex index v =
     (let offset = calculateOffset v index
      in if index \<noteq> 0 \<and> offset = 0 then (v\<lparr>targetScrollIndex := index\<rparr>, None) else (v, Some offset))"

text \<open>Other items: sizes and offsets start anew.\<close>

definition items_changed :: "nat \<Rightarrow> virtual \<Rightarrow> virtual" where
  "items_changed n v = updateOffsets (v\<lparr>items := n, sizes := replicate n None, offsets := replicate n None\<rparr>)"

definition computedItems :: "virtual \<Rightarrow> int list" where
  "computedItems v = filter (\<lambda>i. first v \<le> i \<and> i < last_item v) (map int [0..<items v])"

definition initial_last :: "rat \<Rightarrow> rat \<Rightarrow> int" where
  "initial_last height h = (let k = \<lceil>height / (if h \<noteq> 0 then h else 16)\<rceil> in if k \<noteq> 0 then k else 1)"

section \<open>The search finds the slot\<close>

definition sorted_slots :: "rat option list \<Rightarrow> (nat \<Rightarrow> rat) \<Rightarrow> bool" where
  "sorted_slots arr f = ((\<forall>i < length arr. arr ! i = Some (f i)) \<and> (\<forall>i j. i \<le> j \<longrightarrow> j < length arr \<longrightarrow> f i \<le> f j))"

definition slot_found :: "nat \<Rightarrow> (nat \<Rightarrow> rat) \<Rightarrow> rat \<Rightarrow> int \<Rightarrow> bool" where
  "slot_found n f val r =
     (- 1 \<le> r \<and> r < int n \<and> (0 \<le> r \<longrightarrow> f (nat r) \<le> val) \<and> (nat (r + 1) < n \<longrightarrow> val \<le> f (nat (r + 1))))"

lemma closest_found:
  "sorted_slots arr f \<Longrightarrow> 0 \<le> low \<Longrightarrow> high < int (length arr) \<Longrightarrow> low \<le> high + 1 \<Longrightarrow> target = low - 1 \<Longrightarrow>
    (\<And>i. int i < low \<Longrightarrow> f i \<le> val) \<Longrightarrow> (\<And>i. high < int i \<Longrightarrow> i < length arr \<Longrightarrow> val \<le> f i) \<Longrightarrow>
    slot_found (length arr) f val (closest arr val low high target)"
proof (induction arr val low high target rule: closest.induct)
  case (1 arr val low high target)
  have all: "\<And>i. i < length arr \<Longrightarrow> arr ! i = Some (f i)" and mono: "\<And>i j. i \<le> j \<Longrightarrow> j < length arr \<Longrightarrow> f i \<le> f j"
    using "1.prems"(1) by (auto simp: sorted_slots_def)
  show ?case
  proof (cases "low \<le> high")
    case False
    then show ?thesis
      using "1.prems"(2-5) "1.prems"(6) [of "nat (low - 1)"] "1.prems"(7) [of "nat low"]
      by (subst closest.simps) (auto simp: slot_found_def)
  next
    case True
    let ?mid = "(low + high) div 2"
    have m: "low \<le> ?mid" "?mid \<le> high" "0 \<le> ?mid" "nat ?mid < length arr" using True "1.prems"(2,3) by auto
    then have sl: "slot arr ?mid = Some (f (nat ?mid))" by (simp add: slot_def all)
    consider (gt) "f (nat ?mid) > val" | (lt) "f (nat ?mid) < val" | (eq) "f (nat ?mid) = val" by linarith
    then show ?thesis
    proof cases
      case gt
      have "val \<le> f i" if "?mid - 1 < int i" "i < length arr" for i
      proof -
        have "nat ?mid \<le> i" using that(1) by linarith
        then show ?thesis using mono [OF _ that(2)] gt by fastforce
      qed
      then have "slot_found (length arr) f val (closest arr val low (?mid - 1) target)"
        using "1.prems" m sl gt True by (intro "1.IH"(1)) auto
      then show ?thesis using True sl gt by (subst closest.simps) simp
    next
      case lt
      have "f i \<le> val" if "int i < ?mid + 1" for i
      proof -
        have "i \<le> nat ?mid" using that by linarith
        then show ?thesis using mono [OF _ m(4)] lt by fastforce
      qed
      then have "slot_found (length arr) f val (closest arr val (?mid + 1) high ?mid)"
        using "1.prems" m sl lt True by (intro "1.IH"(2)) auto
      then show ?thesis using True sl lt by (subst closest.simps) (simp add: Let_def)
    next
      case eq
      have "val \<le> f (nat (?mid + 1))" if "nat (?mid + 1) < length arr" using mono [OF _ that, of "nat ?mid"] eq m(3) by simp
      then show ?thesis using True sl eq m by (subst closest.simps) (auto simp: slot_found_def)
    qed
  qed
qed

lemma binaryClosest_found:
  assumes "sorted_slots arr f" "arr \<noteq> []"
  shows "slot_found (length arr) f val (binaryClosest arr val)"
proof -
  let ?high = "int (length arr) - 1"
  have "nat ?high = length arr - 1" "0 \<le> ?high" using assms(2) by (simp, cases arr) auto
  then have "slot arr ?high = Some (f (length arr - 1))" using assms by (auto simp: slot_def sorted_slots_def)
  moreover have "slot_found (length arr) f val (closest arr val 0 ?high (- 1))" using assms(1) by (intro closest_found) auto
  moreover have "nat ?high = length arr - 1" by simp
  ultimately show ?thesis using assms(2) by (auto simp: binaryClosest_def Let_def slot_found_def)
qed

section \<open>Offsets\<close>

text \<open>The offset of an item is the sum of the sizes before it.\<close>

definition prefix_size :: "virtual \<Rightarrow> nat \<Rightarrow> rat" where
  "prefix_size v i = sum_list (map (getSize v) [0..<i])"

lemma prefix_size_simps [simp]: "prefix_size v 0 = 0" "prefix_size v (Suc i) = prefix_size v i + getSize v i"
  by (simp_all add: prefix_size_def)

definition offsets_ok :: "virtual \<Rightarrow> bool" where
  "offsets_ok v \<longleftrightarrow> 0 < items v \<and> offsets v = map (\<lambda>i. Some (prefix_size v i)) [0..<items v] \<and> (\<forall>i < items v. 0 < getSize v i)"

lemma put_upto:
  assumes "i < length xs"
  shows "take (Suc i) (put xs i x) = take i xs @ [Some x]" "length (put xs i x) = length xs"
  using assms by (simp_all add: put_def take_Suc_conv_app_nth)

lemma updateOffsets_prefix:
  assumes "length (offsets v) = items v" "0 < items v"
  shows "offsets (updateOffsets v) = map (\<lambda>i. Some (prefix_size v i)) [0..<items v]"
proof -
  let ?step = "\<lambda>i offs. put offs i (or_zero (slot offs (int i - 1)) + getSize v (i - 1))"
  have "k \<le> items v \<Longrightarrow> 0 < k \<Longrightarrow> length (fold ?step [1..<k] (put (offsets v) 0 0)) = items v \<and>
      take k (fold ?step [1..<k] (put (offsets v) 0 0)) = map (\<lambda>i. Some (prefix_size v i)) [0..<k]" for k
  proof (induction k)
    case (Suc k)
    show ?case
    proof (cases "k = 0")
      case True
      then show ?thesis using assms put_upto [of 0 "offsets v" 0] by simp
    next
      case False
      let ?xs = "fold ?step [1..<k] (put (offsets v) 0 0)"
      have IH: "length ?xs = items v" "take k ?xs = map (\<lambda>i. Some (prefix_size v i)) [0..<k]" using Suc False by simp_all
      obtain j where j: "k = Suc j" using False by (cases k) simp
      have "?xs ! j = take k ?xs ! j" using j by simp
      then have "?xs ! j = Some (prefix_size v j)" by (simp only: IH(2)) (simp add: j del: upt_Suc)
      then have "slot ?xs (int k - 1) = Some (prefix_size v j)" using IH(1) Suc.prems(1) j by (simp add: slot_def)
      then have "?step k ?xs = put ?xs k (prefix_size v k)" by (simp add: or_zero_def j)
      then have st: "fold ?step [1..<Suc k] (put (offsets v) 0 0) = put ?xs k (prefix_size v k)" using False by simp
      show ?thesis unfolding st using put_upto [of k ?xs "prefix_size v k"] IH Suc.prems(1) by simp
    qed
  qed simp
  from this [of "items v"] have "take (items v) (offsets (updateOffsets v)) = map (\<lambda>i. Some (prefix_size v i)) [0..<items v]"
    "length (offsets (updateOffsets v)) = items v" using assms(2) by (simp_all add: updateOffsets_def)
  then show ?thesis by simp
qed

lemma prefix_mono: "(\<And>i. i < n \<Longrightarrow> 0 < getSize v i) \<Longrightarrow> i \<le> j \<Longrightarrow> j \<le> n \<Longrightarrow> prefix_size v i \<le> prefix_size v j"
proof (induction j)
  case (Suc j)
  show ?case
  proof (cases "i = Suc j")
    case False
    then have "prefix_size v i \<le> prefix_size v j" "0 < getSize v j" using Suc by auto
    then show ?thesis by simp
  qed simp
qed simp

lemma offsets_sorted:
  assumes "offsets_ok v"
  shows "sorted_slots (offsets v) (prefix_size v)" "length (offsets v) = items v"
  using assms prefix_mono [of "items v" v] by (auto simp: sorted_slots_def offsets_ok_def simp del: prefix_size_simps)

lemma calculateOffset_ok:
  assumes "offsets_ok v" "0 \<le> i"
  shows "calculateOffset v i = prefix_size v (min (nat i) (items v - 1))"
proof -
  have "nat (clamp i 0 (int (items v) - 1)) = min (nat i) (items v - 1)" "0 \<le> clamp i 0 (int (items v) - 1)" "0 < items v"
    using assms by (auto simp: offsets_ok_def clamp_def)
  then show ?thesis using assms(1) by (simp add: calculateOffset_def slot_def offsets_ok_def or_zero_def)
qed

lemma calculateIndex_found: "offsets_ok v \<Longrightarrow> slot_found (items v) (prefix_size v) px (calculateIndex v px)"
  using binaryClosest_found [OF offsets_sorted(1), of v px] offsets_sorted(2) [of v]
  by (auto simp: calculateIndex_def offsets_ok_def)

section \<open>Visible items are rendered\<close>

definition view_top :: "virtual \<Rightarrow> rat" where
  "view_top v = lastScrollTop v - markerOffset v"

definition visible :: "virtual \<Rightarrow> nat \<Rightarrow> bool" where
  "visible v i = (i < items v \<and> view_top v < prefix_size v (Suc i) \<and> prefix_size v i < view_top v + viewportHeight v)"

text \<open>The range is within the list; it starts above and ends below what is visible.\<close>

definition range_in :: "virtual \<Rightarrow> bool" where
  "range_in v = (0 \<le> first v \<and> first v < int (items v) \<and> 0 \<le> last_item v)"

definition top_ok :: "virtual \<Rightarrow> bool" where
  "top_ok v = (prefix_size v (nat (first v)) \<le> max 0 (view_top v))"

definition bottom_ok :: "virtual \<Rightarrow> bool" where
  "bottom_ok v = (int (items v) \<le> last_item v \<or> view_top v + viewportHeight v \<le> prefix_size v (nat (last_item v)))"

definition range_ok :: "virtual \<Rightarrow> bool" where
  "range_ok v = (range_in v \<and> top_ok v \<and> bottom_ok v)"

lemma prefix_le: "offsets_ok v \<Longrightarrow> i \<le> j \<Longrightarrow> j \<le> items v \<Longrightarrow> prefix_size v i \<le> prefix_size v j"
  using prefix_mono [of "items v" v i j] by (simp add: offsets_ok_def)

lemma prefix_pos: "offsets_ok v \<Longrightarrow> 0 < i \<Longrightarrow> i \<le> items v \<Longrightarrow> 0 < prefix_size v i"
proof -
  assume a: "offsets_ok v" "0 < i" "i \<le> items v"
  then have "prefix_size v 1 \<le> prefix_size v i" by (intro prefix_le) simp_all
  moreover have "0 < getSize v 0" using a by (simp add: offsets_ok_def)
  ultimately show ?thesis by simp
qed

lemma range_ok_renders:
  assumes "offsets_ok v" "range_ok v" "visible v i"
  shows "int i \<in> set (computedItems v)"
proof -
  have i: "i < items v" "view_top v < prefix_size v (Suc i)" "prefix_size v i < view_top v + viewportHeight v"
    using assms(3) by (simp_all only: visible_def)
  have f: "0 \<le> first v" "first v < int (items v)" "prefix_size v (nat (first v)) \<le> max 0 (view_top v)"
    using assms(2) by (simp_all add: range_ok_def range_in_def top_ok_def)
  have "first v \<le> int i"
  proof (rule ccontr)
    assume "\<not> first v \<le> int i"
    then have "prefix_size v (Suc i) \<le> prefix_size v (nat (first v))" using f(2) by (intro prefix_le [OF assms(1)]) linarith+
    moreover have "0 < prefix_size v (Suc i)" using i(1) by (intro prefix_pos [OF assms(1)]) simp_all
    ultimately show False using f(3) i(2) by linarith
  qed
  moreover have "int i < last_item v"
  proof (rule ccontr)
    assume n: "\<not> int i < last_item v"
    then have "prefix_size v (nat (last_item v)) \<le> prefix_size v i" using i(1) by (intro prefix_le [OF assms(1)]) linarith+
    then show False using n i(1,3) assms(2) by (auto simp: range_ok_def bottom_ok_def)
  qed
  ultimately show ?thesis using i(1) by (simp add: computedItems_def)
qed

text \<open>The bounds that a frame computes.\<close>

definition frame_start :: "virtual \<Rightarrow> int" where
  "frame_start v = clamp (calculateIndex v (max 0 (view_top v - BUFFER_PX))) 0 (int (items v))"

definition frame_stop :: "virtual \<Rightarrow> int" where
  "frame_stop v = clamp (calculateIndex v (view_top v + viewportHeight v + BUFFER_PX) + 1) (frame_start v + 1) (int (items v))"

lemma frame_start_ok:
  assumes "offsets_ok v"
  shows "0 \<le> frame_start v" "frame_start v < int (items v)"
    "prefix_size v (nat (frame_start v)) \<le> max 0 (view_top v - BUFFER_PX)"
proof -
  let ?r = "calculateIndex v (max 0 (view_top v - BUFFER_PX))"
  have n: "0 < items v" using assms by (simp add: offsets_ok_def)
  have r: "- 1 \<le> ?r" "?r < int (items v)" "0 \<le> ?r \<Longrightarrow> prefix_size v (nat ?r) \<le> max 0 (view_top v - BUFFER_PX)"
    using calculateIndex_found [OF assms, of "max 0 (view_top v - BUFFER_PX)"] by (simp_all only: slot_found_def)
  have s: "frame_start v = max 0 ?r" using r(2) by (simp add: frame_start_def clamp_def)
  show "0 \<le> frame_start v" "frame_start v < int (items v)" using s r(2) n by simp_all
  show "prefix_size v (nat (frame_start v)) \<le> max 0 (view_top v - BUFFER_PX)"
    using r(3) by (cases "0 \<le> ?r") (simp_all add: s)
qed

lemma frame_stop_ok:
  assumes "offsets_ok v"
  shows "frame_start v < frame_stop v" "frame_stop v \<le> int (items v)"
    "frame_stop v < int (items v) \<Longrightarrow> view_top v + viewportHeight v + BUFFER_PX \<le> prefix_size v (nat (frame_stop v))"
proof -
  let ?px = "view_top v + viewportHeight v + BUFFER_PX"
  let ?r = "calculateIndex v ?px"
  have r: "- 1 \<le> ?r" "nat (?r + 1) < items v \<Longrightarrow> ?px \<le> prefix_size v (nat (?r + 1))"
    using calculateIndex_found [OF assms, of ?px] by (simp_all only: slot_found_def)
  note st = frame_start_ok(1,2) [OF assms]
  show "frame_start v < frame_stop v" "frame_stop v \<le> int (items v)" using st by (simp_all add: frame_stop_def clamp_def)
  assume lt: "frame_stop v < int (items v)"
  then have le: "nat (?r + 1) \<le> nat (frame_stop v)" "nat (?r + 1) < items v" using r(1) by (auto simp: frame_stop_def clamp_def)
  have "prefix_size v (nat (?r + 1)) \<le> prefix_size v (nat (frame_stop v))" using le lt by (intro prefix_le [OF assms]) simp_all
  then show "?px \<le> prefix_size v (nat (frame_stop v))" using r(2) le(2) by simp
qed

text \<open>The fields that a frame leaves alone.\<close>

lemma frame_fields [simp]:
  "items (frame v) = items v" "sizes (frame v) = sizes v" "itemHeight (frame v) = itemHeight v" "offsets (frame v) = offsets v"
  "viewportHeight (frame v) = viewportHeight v" "lastScrollTop (frame v) = lastScrollTop v" "markerOffset (frame v) = markerOffset v"
  by (simp_all add: frame_def Let_def)

lemma prefix_size_cong: "getSize v' = getSize v \<Longrightarrow> prefix_size v' i = prefix_size v i"
  by (simp add: prefix_size_def del: prefix_size_simps)

lemma offsets_ok_cong:
  "getSize v' = getSize v \<Longrightarrow> items v' = items v \<Longrightarrow> offsets v' = offsets v \<Longrightarrow> offsets_ok v' = offsets_ok v"
  using prefix_size_cong [of v' v] by (simp add: offsets_ok_def del: prefix_size_simps)

lemma getSize_cong: "sizes v' = sizes v \<Longrightarrow> itemHeight v' = itemHeight v \<Longrightarrow> getSize v' = getSize v"
  by (simp add: getSize_def fun_eq_iff Let_def)

lemma frame_derived [simp]:
  "prefix_size (frame v) i = prefix_size v i" "offsets_ok (frame v) = offsets_ok v" "view_top (frame v) = view_top v"
  by (rule prefix_size_cong, rule getSize_cong, simp_all) (rule offsets_ok_cong, rule getSize_cong, simp_all add: view_top_def)

lemma frame_range:
  assumes "viewportHeight v \<noteq> 0"
  defines "guard \<equiv> (sgn (scrollVelocity v) \<noteq> - 1 \<or> frame_start v < first v) \<and> (sgn (scrollVelocity v) \<noteq> 1 \<or> frame_stop v > last_item v)"
    and "over \<equiv> max (calculateOffset v (first v) - calculateOffset v (frame_start v)) (calculateOffset v (frame_stop v) - calculateOffset v (last_item v))"
  shows "first (frame v) = (if guard then if over > BUFFER_PX \<or> frame_start v \<le> 0 then frame_start v else first v else first v)"
    "last_item (frame v) = (if guard then if over > BUFFER_PX \<or> int (items v) \<le> frame_stop v then frame_stop v else last_item v else last_item v)"
  using assms(1) by (simp_all add: frame_def Let_def guard_def over_def frame_start_def frame_stop_def view_top_def)

text \<open>A frame whose guard lets it look makes the range right, from any range within the list.\<close>

lemma frame_makes_ok:
  assumes ok: "offsets_ok v" and h: "0 < viewportHeight v" and inn: "range_in v"
    and g: "(sgn (scrollVelocity v) \<noteq> - 1 \<or> frame_start v < first v) \<and> (sgn (scrollVelocity v) \<noteq> 1 \<or> frame_stop v > last_item v)"
  shows "range_ok (frame v)"
proof -
  let ?over = "max (calculateOffset v (first v) - calculateOffset v (frame_start v)) (calculateOffset v (frame_stop v) - calculateOffset v (last_item v))"
  note st = frame_start_ok [OF ok] and sp = frame_stop_ok [OF ok]
  have i: "0 \<le> first v" "first v < int (items v)" "0 \<le> last_item v" using inn by (simp_all add: range_in_def)
  have n: "0 < items v" using ok by (simp add: offsets_ok_def)
  have fr: "first (frame v) = (if ?over > BUFFER_PX \<or> frame_start v \<le> 0 then frame_start v else first v)"
    "last_item (frame v) = (if ?over > BUFFER_PX \<or> int (items v) \<le> frame_stop v then frame_stop v else last_item v)"
    using frame_range [of v] h g by simp_all
  have off: "calculateOffset v (first v) = prefix_size v (nat (first v))" "calculateOffset v (frame_start v) = prefix_size v (nat (frame_start v))"
    using i st(1,2) by (auto simp: calculateOffset_ok [OF ok] min_def nat_less_iff)
  have top: "prefix_size v (nat (first (frame v))) \<le> max 0 (view_top v)"
  proof (cases "?over > BUFFER_PX \<or> frame_start v \<le> 0")
    case True
    then show ?thesis using st(3) by (simp add: fr(1) BUFFER_PX_def)
  next
    case False
    then have "prefix_size v (nat (first v)) \<le> prefix_size v (nat (frame_start v)) + BUFFER_PX" using off by (simp add: less_max_iff_disj)
    moreover have "0 < prefix_size v (nat (frame_start v))" using False st(2) by (intro prefix_pos [OF ok]) simp_all
    ultimately show ?thesis using st(3) False by (simp add: fr(1))
  qed
  have bottom: "int (items v) \<le> last_item (frame v) \<or> view_top v + viewportHeight v \<le> prefix_size v (nat (last_item (frame v)))"
  proof (cases "?over > BUFFER_PX \<or> int (items v) \<le> frame_stop v")
    case True
    then have "last_item (frame v) = frame_stop v" by (simp only: fr(2) if_True)
    then show ?thesis using sp(3) by (cases "frame_stop v < int (items v)") (simp_all add: BUFFER_PX_def)
  next
    case False
    then have lt: "frame_stop v < int (items v)" by simp
    have "calculateOffset v (frame_stop v) = prefix_size v (nat (frame_stop v))"
      using lt sp(1) st(1) by (auto simp: calculateOffset_ok [OF ok] min_def nat_less_iff)
    moreover have "calculateOffset v (last_item v) = prefix_size v (nat (last_item v))" if "last_item v < int (items v)"
      using i(3) that by (auto simp: calculateOffset_ok [OF ok] min_def nat_less_iff)
    moreover have "calculateOffset v (frame_stop v) - calculateOffset v (last_item v) \<le> BUFFER_PX" using False by (simp add: less_max_iff_disj)
    moreover have "last_item (frame v) = last_item v" using False by (simp only: fr(2) if_False)
    ultimately show ?thesis using sp(3) [OF lt] by (cases "last_item v < int (items v)") simp_all
  qed
  have "range_in (frame v)" using i st(1,2) sp(1) by (auto simp: range_in_def fr)
  then show ?thesis using top bottom by (simp add: range_ok_def top_ok_def bottom_ok_def)
qed

text \<open>A frame that does not look keeps a range that the scrolling has moved into.\<close>

lemma frame_keeps_ok:
  assumes ok: "offsets_ok v" and h: "0 < viewportHeight v" and inn: "range_in v"
    and down: "sgn (scrollVelocity v) = 1 \<Longrightarrow> top_ok v" and up: "sgn (scrollVelocity v) = - 1 \<Longrightarrow> bottom_ok v"
  shows "range_ok (frame v)"
proof (cases "(sgn (scrollVelocity v) \<noteq> - 1 \<or> frame_start v < first v) \<and> (sgn (scrollVelocity v) \<noteq> 1 \<or> frame_stop v > last_item v)")
  case True
  then show ?thesis by (rule frame_makes_ok [OF ok h inn])
next
  case False
  note st = frame_start_ok [OF ok] and sp = frame_stop_ok [OF ok]
  have same: "first (frame v) = first v" "last_item (frame v) = last_item v" using frame_range [of v] h False by auto
  have "top_ok v"
  proof (cases "sgn (scrollVelocity v) = 1")
    case no: False
    then have "first v \<le> frame_start v" using False by simp
    then have "prefix_size v (nat (first v)) \<le> prefix_size v (nat (frame_start v))"
      using st(2) by (intro prefix_le [OF ok]) linarith+
    then show ?thesis using st(3) by (simp add: top_ok_def BUFFER_PX_def)
  qed (rule down)
  moreover have "bottom_ok v"
  proof (cases "sgn (scrollVelocity v) = - 1")
    case no: False
    then have le: "frame_stop v \<le> last_item v" using False by simp
    show ?thesis
    proof (cases "last_item v < int (items v)")
      case True
      then have "prefix_size v (nat (frame_stop v)) \<le> prefix_size v (nat (last_item v))" using le by (intro prefix_le [OF ok]) linarith+
      then show ?thesis using sp(3) le True by (simp add: bottom_ok_def BUFFER_PX_def)
    qed (simp add: bottom_ok_def)
  qed (rule up)
  ultimately show ?thesis using inn by (simp add: range_ok_def range_in_def top_ok_def bottom_ok_def same)
qed

section \<open>Runs\<close>

text \<open>A scroll event or the end of scrolling, each with its frame; the marker stays where it is.\<close>

datatype tick = Scroll rat rat | Scroll_end

fun run_tick :: "tick \<Rightarrow> virtual \<Rightarrow> virtual" where
  "run_tick (Scroll scrollTop scrollTime) v = frame (handleScroll scrollTop scrollTime (markerOffset v) v)"
| "run_tick Scroll_end v = frame (handleScrollend v)"

lemma handler_fields [simp]:
  "items (handleScroll s t m v) = items v" "sizes (handleScroll s t m v) = sizes v" "itemHeight (handleScroll s t m v) = itemHeight v"
  "offsets (handleScroll s t m v) = offsets v" "viewportHeight (handleScroll s t m v) = viewportHeight v"
  "first (handleScroll s t m v) = first v" "last_item (handleScroll s t m v) = last_item v" "lastScrollTop (handleScroll s t m v) = s"
  "markerOffset (handleScroll s t (markerOffset v) v) = markerOffset v"
  "sgn (scrollVelocity (handleScroll s t m v)) = sgn (s - lastScrollTop v)"
  by (simp_all add: handleScroll_def Let_def)

lemma handler_derived [simp]:
  "prefix_size (handleScroll s t m v) i = prefix_size v i" "offsets_ok (handleScroll s t m v) = offsets_ok v"
  "range_in (handleScroll s t m v) = range_in v"
  by (rule prefix_size_cong, rule getSize_cong, simp_all) (rule offsets_ok_cong, rule getSize_cong, simp_all add: range_in_def)

lemma scroll_end_derived [simp]:
  "prefix_size (handleScrollend v) i = prefix_size v i" "offsets_ok (handleScrollend v) = offsets_ok v"
  "range_in (handleScrollend v) = range_in v" "viewportHeight (handleScrollend v) = viewportHeight v" "scrollVelocity (handleScrollend v) = 0"
  "items (handleScrollend v) = items v" "markerOffset (handleScrollend v) = markerOffset v"
  by (rule prefix_size_cong, rule getSize_cong, simp_all add: handleScrollend_def)
    (rule offsets_ok_cong, rule getSize_cong, simp_all add: range_in_def)

lemma tick_range_in:
  assumes "offsets_ok v" "0 < viewportHeight v" "range_in v"
  shows "range_in (run_tick e v) \<and> (range_ok v \<or> e = Scroll_end \<longrightarrow> range_ok (run_tick e v))"
proof (cases e)
  case Scroll_end
  have "range_ok (frame (handleScrollend v))"
    using assms by (intro frame_makes_ok) simp_all
  then show ?thesis by (simp add: Scroll_end range_ok_def)
next
  case (Scroll s t)
  let ?v = "handleScroll s t (markerOffset v) v"
  have "range_in (frame ?v)"
    using assms(3) frame_start_ok(1,2) [of ?v] frame_stop_ok(1) [of ?v] frame_range [of ?v] assms(1,2) by (auto simp: range_in_def)
  moreover have "range_ok (frame ?v)" if r: "range_ok v"
  proof (rule frame_keeps_ok)
    show "top_ok ?v" if "sgn (scrollVelocity ?v) = 1"
    proof -
      have "sgn (s - lastScrollTop v) = 1" using that by (simp only: handler_fields)
      then have "lastScrollTop v \<le> s" by (simp add: sgn_1_pos)
      then show ?thesis using r by (auto simp: range_ok_def top_ok_def view_top_def max_def split: if_splits)
    qed
    show "bottom_ok ?v" if "sgn (scrollVelocity ?v) = - 1"
    proof -
      have "sgn (s - lastScrollTop v) = - 1" using that by (simp only: handler_fields)
      then have "s \<le> lastScrollTop v" by (simp add: sgn_1_neg)
      then show ?thesis using r by (auto simp: range_ok_def bottom_ok_def view_top_def)
    qed
  qed (use assms in simp_all)
  ultimately show ?thesis by (simp add: Scroll)
qed

lemma tick_derived [simp]: "offsets_ok (run_tick e v) = offsets_ok v" "viewportHeight (run_tick e v) = viewportHeight v"
  "prefix_size (run_tick e v) i = prefix_size v i" "items (run_tick e v) = items v" "markerOffset (run_tick e v) = markerOffset v"
  by (cases e; simp)+

lemma tick_scroll [simp]: "lastScrollTop (run_tick (Scroll s t) v) = s"
  by simp

lemma ticks_range:
  "offsets_ok v \<Longrightarrow> 0 < viewportHeight v \<Longrightarrow> range_in v \<Longrightarrow>
    offsets_ok (fold run_tick es v) \<and> (range_ok v \<or> Scroll_end \<in> set es \<longrightarrow> range_ok (fold run_tick es v))"
proof (induction es arbitrary: v)
  case (Cons e es)
  note t = tick_range_in [OF Cons.prems, of e]
  show ?case using Cons.IH [of "run_tick e v"] Cons.prems t by auto
qed simp

text \<open>
  C33. However a list is scrolled, with a frame after each event: if its rendered range lies within the list, and
  its visible items are rendered at the beginning or scrolling has come to an end once, every visible item is rendered.
\<close>

theorem visible_items_are_rendered:
  assumes "offsets_ok v" and "0 < viewportHeight v" and "range_in v" and "range_ok v \<or> Scroll_end \<in> set es"
    and "visible (fold run_tick es v) i"
  shows "int i \<in> set (computedItems (fold run_tick es v))"
  using ticks_range [OF assms(1-3), of es] assms(4,5) by (intro range_ok_renders) auto

text \<open>Updating the offsets makes them right.\<close>

lemma update_makes_offsets_ok:
  assumes "length (offsets v) = items v" "0 < items v" "\<forall>i < items v. 0 < getSize v i"
  shows "offsets_ok (updateOffsets v)"
proof -
  have "getSize (updateOffsets v) = getSize v" by (rule getSize_cong) (simp_all add: updateOffsets_def)
  moreover from this have "prefix_size (updateOffsets v) i = prefix_size v i" for i by (rule prefix_size_cong)
  ultimately show ?thesis
    using assms(2,3) updateOffsets_prefix [OF assms(1,2)] by (simp add: offsets_ok_def) (simp add: updateOffsets_def)
qed

text \<open>A hundred items of twenty pixels in a list that shows five hundred pixels.\<close>

definition hundred_items :: virtual where
  "hundred_items =
     items_changed 100 \<lparr>items = 0, itemHeight = 20, first = 0, last_item = 25, paddingTop = 0, paddingBottom = 0, markerOffset = 0,
       sizes = [], offsets = [], targetScrollIndex = - 1, viewportHeight = 500, lastScrollTop = 0, scrollVelocity = 0, lastScrollTime = 0\<rparr>"

lemma hundred_size: "getSize hundred_items i = 20"
  by (simp add: getSize_def hundred_items_def items_changed_def updateOffsets_def slot_def or_zero_def)

lemma hundred_prefix: "prefix_size hundred_items i = 20 * of_nat i"
  by (induction i) (simp_all add: hundred_size algebra_simps)

lemma hundred_ok: "offsets_ok hundred_items"
  unfolding hundred_items_def items_changed_def
  by (rule update_makes_offsets_ok) (simp_all add: getSize_def slot_def or_zero_def)

lemma hundred_fields: "items hundred_items = 100" "viewportHeight hundred_items = 500" "first hundred_items = 0" "last_item hundred_items = 25"
  "lastScrollTop hundred_items = 0" "markerOffset hundred_items = 0"
  by (simp_all add: hundred_items_def items_changed_def updateOffsets_def)

theorem visible_items_are_rendered_witness:
  "int 60 \<in> set (computedItems (fold run_tick [Scroll 1000 100, Scroll 1100 110] hundred_items))"
proof (rule visible_items_are_rendered [OF hundred_ok])
  show "0 < viewportHeight hundred_items" "range_in hundred_items" by (simp_all add: hundred_fields range_in_def)
  show "range_ok hundred_items \<or> Scroll_end \<in> set [Scroll 1000 100, Scroll 1100 110]"
    by (simp add: range_ok_def range_in_def top_ok_def bottom_ok_def hundred_fields hundred_prefix view_top_def)
  show "visible (fold run_tick [Scroll 1000 100, Scroll 1100 110] hundred_items) 60"
    by (simp add: visible_def view_top_def hundred_fields hundred_prefix del: prefix_size_simps run_tick.simps)
qed

text \<open>
  Scrolling far up and then a little down before the frame: the frame looks only at the last direction
  and leaves the range where it was.
\<close>

lemma two_events_one_frame:
  assumes "offsets_ok v" "sgn (scrollVelocity v) = 1" "frame_stop v \<le> last_item v" "viewportHeight v \<noteq> 0"
  shows "first (frame v) = first v" "last_item (frame v) = last_item v"
  using frame_range [OF assms(4)] assms(2,3) by simp_all

definition scrolled_down :: virtual where
  "scrolled_down = hundred_items\<lparr>first := 50, last_item := 100, lastScrollTop := 1000\<rparr>"

lemma coalesced_events_miss_items:
  "visible (frame (handleScroll 410 20 0 (handleScroll 400 10 0 scrolled_down))) 30"
  "int 30 \<notin> set (computedItems (frame (handleScroll 410 20 0 (handleScroll 400 10 0 scrolled_down))))"
proof -
  let ?v = "handleScroll 410 20 0 (handleScroll 400 10 0 scrolled_down)"
  have size: "getSize scrolled_down = getSize hundred_items" by (rule getSize_cong) (simp_all add: scrolled_down_def)
  have ok: "offsets_ok scrolled_down"
    using hundred_ok offsets_ok_cong [OF size] by (simp add: scrolled_down_def)
  have px: "prefix_size scrolled_down i = 20 * of_nat i" for i by (simp add: prefix_size_cong [OF size] hundred_prefix)
  have f: "items scrolled_down = 100" "viewportHeight scrolled_down = 500" "first scrolled_down = 50" "last_item scrolled_down = 100"
    "markerOffset scrolled_down = 0" by (simp_all add: scrolled_down_def hundred_fields)
  have m: "markerOffset ?v = 0" by (simp add: handleScroll_def f)
  have "sgn (scrollVelocity ?v) = sgn (410 - lastScrollTop (handleScroll 400 10 0 scrolled_down))" by (simp only: handler_fields)
  then have d: "sgn (scrollVelocity ?v) = 1" by (simp only: handler_fields) simp
  have "frame_stop ?v \<le> last_item ?v" using frame_stop_ok(2) [of ?v] ok by (simp add: f)
  then have "first (frame ?v) = 50" using two_events_one_frame(1) [OF _ d] ok by (simp add: f)
  then show "int 30 \<notin> set (computedItems (frame ?v))" by (simp add: computedItems_def)
  show "visible (frame ?v) 30" using m by (simp add: visible_def view_top_def px f del: prefix_size_simps)
qed

text \<open>
  The height of the padded list is the sum of the sizes only when the range reaches its end; otherwise
  the last item is missing.
\<close>

lemma padded_height:
  assumes "offsets_ok v" "range_in v" "viewportHeight v \<noteq> 0" "first (frame v) \<le> last_item (frame v)" "range_in (frame v)"
    "last_item (frame v) \<le> int (items v)"
  shows "paddingTop (frame v) + (prefix_size v (nat (last_item (frame v))) - prefix_size v (nat (first (frame v)))) + paddingBottom (frame v) =
    (if last_item (frame v) = int (items v) then prefix_size v (items v) else prefix_size v (items v - 1))"
proof -
  let ?f = "first (frame v)" and ?l = "last_item (frame v)"
  have r: "0 \<le> ?f" "?f < int (items v)" "0 \<le> ?l" using assms(5) by (simp_all add: range_in_def)
  have "paddingTop (frame v) = calculateOffset v ?f" "paddingBottom (frame v) = calculateOffset v (int (items v)) - calculateOffset v ?l"
    using assms(3) by (simp_all add: frame_def Let_def)
  then show ?thesis
    using r assms(6) by (auto simp: calculateOffset_ok [OF assms(1)] min_def nat_less_iff)
qed

end
