(* ===== verification/VuetifyValidation.thy ===== *)
theory VuetifyValidation
  imports VuetifyHelpers
begin

text \<open>
  Vuetify's validation of inputs (\<^verbatim>\<open>src/v2/lens3/ui/assets/index.js\<close>, \<open>useValidation\<close>): the text fields
  and selects of the application hold the messages of the rules that their value breaks. A rule may
  answer later; \<open>validate\<close> waits for each answer in turn, so several calls can be under way at a time,
  each with the rules that it still has to ask and the answer that it waits for.

  No form is provided in this program (\<open>useForm\<close> gives null). Rules are functions of the value; a rule that
  raises or answers with an error ends its call. Calls are numbered in the order in which they begin; any
  of them may be the next to go on.

  Shown: however calls and changes of the value interleave, once the call that ended last began after the last
  change, the messages are the first of those that the rules give for the value; a call by itself always ends; the number
  of messages keeps to the limit. An older call that ends last leaves messages for a value
  that is no more.
\<close>

section \<open>Props and rules\<close>

datatype rule = Value jsval | Function "jsval \<Rightarrow> js_error + jsval"

record validation_props =
  disabled :: "bool option"
  readonly_prop :: "bool option"
  error :: bool
  errorMessages :: jsval
  maxErrors :: jsval
  rules :: "rule list"
  validateOn :: jsval
  validationValue :: jsval

record call =
  silent :: bool
  remaining :: "rule list"
  results :: "jsval list"
  awaited :: "js_error + jsval"

record validation =
  vprops :: validation_props
  model :: jsval
  focused :: bool
  blur_watch :: bool
  internalErrorMessages :: "jsval list"
  isPristine :: bool
  isValidating :: bool
  calls :: "(nat \<times> call) list"
  next_call :: nat

definition useValidation :: "validation_props \<Rightarrow> jsval \<Rightarrow> bool \<Rightarrow> validation" where
  "useValidation ps m f =
     \<lparr>vprops = ps, model = m, focused = f, blur_watch = False, internalErrorMessages = [], isPristine = True,
      isValidating = False, calls = [], next_call = 0\<rparr>"

section \<open>Computed values\<close>

definition validationModel :: "validation \<Rightarrow> jsval" where
  "validationModel v = (if validationValue (vprops v) = JUndef then model v else validationValue (vprops v))"

definition isDirty :: "validation \<Rightarrow> bool" where
  "isDirty v =
     (let full = (\<lambda>x. wrapInArray (if x = JStr [] then JNull else x) \<noteq> []) in full (model v) \<or> full (validationModel v))"

definition isDisabled :: "validation \<Rightarrow> bool" where
  "isDisabled v = (case disabled (vprops v) of Some d \<Rightarrow> d | None \<Rightarrow> False)"

definition isReadonly :: "validation \<Rightarrow> bool" where
  "isReadonly v = (case readonly_prop (vprops v) of Some d \<Rightarrow> d | None \<Rightarrow> False)"

definition has_length :: "jsval \<Rightarrow> bool" where
  "has_length x = (case x of JStr s \<Rightarrow> s \<noteq> [] | JArr xs \<Rightarrow> xs \<noteq> [] | _ \<Rightarrow> False)"

definition shown_messages :: "validation \<Rightarrow> jsval list" where
  "shown_messages v =
     (let p = vprops v in
      if has_length (errorMessages p)
      then take (case to_number (maxErrors p) of None \<Rightarrow> 0 | Some n \<Rightarrow> nat n) (wrapInArray (errorMessages p) @ internalErrorMessages v)
      else internalErrorMessages v)"

record validate_on =
  on_blur :: bool
  on_input :: bool
  on_submit :: bool
  on_lazy :: bool

definition validate_on :: "validation_props \<Rightarrow> validate_on" where
  "validate_on p =
     (let value = (if truthy (validateOn p) then to_string (validateOn p) else ''input'');
          value = (if value = ''lazy'' then ''input lazy'' else value);
          set2 = set (split_on CHR '' '' value)
      in \<lparr>on_blur = ''blur'' \<in> set2 \<or> ''input'' \<in> set2, on_input = ''input'' \<in> set2, on_submit = ''submit'' \<in> set2,
          on_lazy = ''lazy'' \<in> set2\<rparr>)"

text \<open>Whether the value is valid; \<open>None\<close> is not known yet.\<close>

definition isValid :: "validation \<Rightarrow> bool option" where
  "isValid v =
     (let p = vprops v in
      if error p \<or> has_length (errorMessages p) then Some False
      else if rules p = [] then Some True
      else if isPristine v then if internalErrorMessages v \<noteq> [] \<or> on_lazy (validate_on p) then None else Some True
      else Some (internalErrorMessages v = []))"

definition validationClasses :: "string \<Rightarrow> validation \<Rightarrow> (string \<times> bool) list" where
  "validationClasses name v =
     [(name @ ''--error'', isValid v = Some False), (name @ ''--dirty'', isDirty v),
      (name @ ''--disabled'', isDisabled v), (name @ ''--readonly'', isReadonly v)]"

section \<open>Validating\<close>

definition call_rule :: "rule \<Rightarrow> jsval \<Rightarrow> js_error + jsval" where
  "call_rule r val = (case r of Value x \<Rightarrow> Inr x | Function f \<Rightarrow> f val)"

definition enough :: "validation_props \<Rightarrow> nat \<Rightarrow> bool" where
  "enough p n =
     (case to_number (if nullish (maxErrors p) then JNum 1 else maxErrors p) of None \<Rightarrow> False | Some m \<Rightarrow> m \<le> int n)"

text \<open>The messages that an answer gives: none, or the answer itself.\<close>

definition message :: "jsval \<Rightarrow> jsval list" where
  "message result =
     (case result of
        JBool True \<Rightarrow> []
      | JBool False \<Rightarrow> [JStr []]
      | JStr s \<Rightarrow> [JStr s]
      | _ \<Rightarrow> [])"

text \<open>The loop up to the next rule whose answer it awaits, or to its end.\<close>

definition next_rule :: "validation \<Rightarrow> bool \<Rightarrow> rule list \<Rightarrow> jsval list \<Rightarrow> call + jsval list" where
  "next_rule v si rs res =
     (case rs of
        [] \<Rightarrow> Inr res
      | r # rest \<Rightarrow>
          if enough (vprops v) (length res) then Inr res
          else Inl \<lparr>silent = si, remaining = rest, results = res, awaited = call_rule r (validationModel v)\<rparr>)"

definition finish :: "bool \<Rightarrow> jsval list \<Rightarrow> validation \<Rightarrow> validation" where
  "finish si res v = v\<lparr>internalErrorMessages := res, isValidating := False, isPristine := si\<rparr>"

text \<open>A call begins, and a call goes on when its answer has come; with each, whether the call has ended with messages.\<close>

definition validate :: "bool \<Rightarrow> validation \<Rightarrow> validation \<times> bool" where
  "validate si v =
     (let v' = v\<lparr>isValidating := True, next_call := Suc (next_call v)\<rparr> in
      case next_rule v' si (rules (vprops v)) [] of
        Inl c \<Rightarrow> (v'\<lparr>calls := calls v' @ [(next_call v, c)]\<rparr>, False)
      | Inr res \<Rightarrow> (finish si res v', True))"

definition resume :: "nat \<Rightarrow> validation \<Rightarrow> validation \<times> bool" where
  "resume k v =
     (case map_of (calls v) k of
        None \<Rightarrow> (v, False)
      | Some c \<Rightarrow>
          (case awaited c of
             Inl e \<Rightarrow> (v\<lparr>calls := filter (\<lambda>x. fst x \<noteq> k) (calls v)\<rparr>, False)
           | Inr result \<Rightarrow>
               (case next_rule v (silent c) (remaining c) (results c @ message result) of
                  Inl c' \<Rightarrow> (v\<lparr>calls := map (\<lambda>x. if fst x = k then (k, c') else x) (calls v)\<rparr>, False)
                | Inr res \<Rightarrow> (finish (silent c) res (v\<lparr>calls := filter (\<lambda>x. fst x \<noteq> k) (calls v)\<rparr>), True))))"

text \<open>The watchers: the value has changed, the input gets or loses the focus.\<close>

definition model_watch :: "validation \<Rightarrow> validation \<times> bool" where
  "model_watch v =
     (if on_input (validate_on (vprops v)) then
        if \<not> nullish (validationModel v) then validate False v
        else if focused v then (v\<lparr>blur_watch := True\<rparr>, False) else (v, False)
      else (v, False))"

definition blur_once :: "validation \<Rightarrow> validation \<times> bool" where
  "blur_once v =
     (if blur_watch v then let v' = v\<lparr>blur_watch := False\<rparr> in if \<not> focused v then validate False v' else (v', False)
      else (v, False))"

definition focus_watch :: "validation \<Rightarrow> validation \<times> bool" where
  "focus_watch v = (if on_blur (validate_on (vprops v)) \<and> \<not> focused v then validate False v else (v, False))"

definition resetValidation :: "validation \<Rightarrow> validation \<times> bool" where
  "resetValidation v =
     (let v' = v\<lparr>isPristine := True\<rparr> in
      if \<not> on_lazy (validate_on (vprops v)) then validate True v' else (v'\<lparr>internalErrorMessages := []\<rparr>, False))"

definition on_mounted :: "validation \<Rightarrow> validation \<times> bool" where
  "on_mounted v = (if \<not> on_lazy (validate_on (vprops v)) then validate True v else (v, False))"

section \<open>Runs\<close>

datatype event = Input jsval | Props validation_props | Focus bool | Mounted | Model_watch | Focus_watch | Blur_watch | Reset_validation | Resume nat

fun val_step :: "event \<Rightarrow> validation \<Rightarrow> validation \<times> bool" where
  "val_step (Input m) v = (v\<lparr>model := m\<rparr>, False)"
| "val_step (Props p) v = (v\<lparr>vprops := p\<rparr>, False)"
| "val_step (Focus f) v = (v\<lparr>focused := f\<rparr>, False)"
| "val_step Mounted v = on_mounted v"
| "val_step Model_watch v = model_watch v"
| "val_step Focus_watch v = focus_watch v"
| "val_step Blur_watch v = blur_once v"
| "val_step Reset_validation v = resetValidation v"
| "val_step (Resume k) v = resume k v"

text \<open>
  The runs count the changes of the value and the props, remember for every call how many there had
  been when it began, and for the messages how many when the call began that gave them, as long as they were not
  cleared.
\<close>

definition changes :: "event \<Rightarrow> nat" where
  "changes ev = (case ev of Input _ \<Rightarrow> 1 | Props _ \<Rightarrow> 1 | _ \<Rightarrow> 0)"

definition ended_after :: "event \<Rightarrow> bool \<Rightarrow> nat \<Rightarrow> (nat \<Rightarrow> nat) \<Rightarrow> nat option \<Rightarrow> nat option" where
  "ended_after ev ended n begun last_ended =
     (if ended then Some (case ev of Resume k \<Rightarrow> begun k | _ \<Rightarrow> n)
      else case ev of Reset_validation \<Rightarrow> None | _ \<Rightarrow> last_ended)"

inductive val_run :: "validation \<Rightarrow> nat \<Rightarrow> (nat \<Rightarrow> nat) \<Rightarrow> nat option \<Rightarrow> bool" where
  run_start: "val_run (useValidation ps m f) 0 (\<lambda>_. 0) None"
| run_step: "val_run v n begun last_ended \<Longrightarrow> val_step ev v = (v', ended) \<Longrightarrow>
    val_run v' (n + changes ev) (begun(next_call v := n)) (ended_after ev ended n begun last_ended)"

section \<open>What the messages should be\<close>

definition answers :: "rule list \<Rightarrow> jsval \<Rightarrow> jsval list" where
  "answers rs val = concat (map (\<lambda>r. case call_rule r val of Inl e \<Rightarrow> [] | Inr x \<Rightarrow> message x) rs)"

definition limit :: "validation_props \<Rightarrow> jsval list \<Rightarrow> jsval list" where
  "limit p xs =
     (case to_number (if nullish (maxErrors p) then JNum 1 else maxErrors p) of None \<Rightarrow> xs | Some m \<Rightarrow> take (nat m) xs)"

definition expected_messages :: "validation \<Rightarrow> jsval list" where
  "expected_messages v = limit (vprops v) (answers (rules (vprops v)) (validationModel v))"

lemma answers_simps [simp]:
  "answers [] val = []" "answers (rs @ ss) val = answers rs val @ answers ss val"
  "answers (r # rs) val = (case call_rule r val of Inl e \<Rightarrow> [] | Inr x \<Rightarrow> message x) @ answers rs val"
  by (simp_all add: answers_def)

lemma message_length: "length (message x) \<le> 1"
  by (auto simp: message_def split: jsval.split bool.split)

text \<open>A list that the limit lets through, and that is all the limit lets through once it is reached.\<close>

definition within :: "validation_props \<Rightarrow> jsval list \<Rightarrow> bool" where
  "within p xs = (limit p xs = xs \<and> (enough p (length xs) \<longrightarrow> (\<forall>zs. limit p (xs @ zs) = xs)))"

lemma within_Nil: "within p []"
  by (auto simp: within_def limit_def enough_def split: option.split)

lemma within_more:
  assumes "\<not> enough p (length xs)" "length ys \<le> 1"
  shows "within p (xs @ ys)"
proof (cases "to_number (if nullish (maxErrors p) then JNum 1 else maxErrors p)")
  case None
  then show ?thesis by (simp add: within_def limit_def enough_def)
next
  case (Some m)
  then have m: "int (length xs) < m" using assms(1) by (simp add: enough_def)
  then have "length (xs @ ys) \<le> nat m" using assms(2) by simp
  moreover have "nat m = length (xs @ ys)" if "m \<le> int (length (xs @ ys))" using that calculation by linarith
  ultimately show ?thesis using Some by (auto simp: within_def limit_def enough_def)
qed

text \<open>A call that began after the last change has asked the first rules about the present value.\<close>

definition call_ok :: "validation \<Rightarrow> call \<Rightarrow> bool" where
  "call_ok v c \<longleftrightarrow>
     (\<exists>ds r. rules (vprops v) = ds @ r # remaining c \<and> results c = answers ds (validationModel v) \<and>
        \<not> enough (vprops v) (length (results c)) \<and> awaited c = call_rule r (validationModel v))"

lemma next_rule_ok:
  assumes "rules (vprops v) = ds @ rs" "res = answers ds (validationModel v)" "within (vprops v) res"
  shows "next_rule v si rs res = Inl c \<Longrightarrow> call_ok v c \<and> silent c = si" "next_rule v si rs res = Inr out \<Longrightarrow> out = expected_messages v"
proof -
  show "call_ok v c \<and> silent c = si" if "next_rule v si rs res = Inl c"
    using that assms(1,2) by (auto simp: next_rule_def call_ok_def split: list.splits if_splits)
  show "out = expected_messages v" if "next_rule v si rs res = Inr out"
    using that assms by (auto simp: next_rule_def expected_messages_def within_def split: list.splits if_splits)
qed

lemma call_goes_on:
  assumes "call_ok v c" "awaited c = Inr x"
  obtains ds where "rules (vprops v) = ds @ remaining c" "results c @ message x = answers ds (validationModel v)"
    "within (vprops v) (results c @ message x)"
proof -
  obtain ds r where c: "rules (vprops v) = ds @ r # remaining c" "results c = answers ds (validationModel v)"
    "\<not> enough (vprops v) (length (results c))" "awaited c = call_rule r (validationModel v)" using assms(1) by (auto simp: call_ok_def)
  have "call_rule r (validationModel v) = Inr x" using c(4) assms(2) by simp
  then show ?thesis
    by (intro that [of "ds @ [r]"]) (use c(1,2) within_more [OF c(3) message_length] in auto)
qed

section \<open>The invariant\<close>

definition val_inv :: "validation \<Rightarrow> nat \<Rightarrow> (nat \<Rightarrow> nat) \<Rightarrow> nat option \<Rightarrow> bool" where
  "val_inv v n begun last_ended \<longleftrightarrow>
     (\<forall>(k, c) \<in> set (calls v). k < next_call v \<and> (begun k = n \<longrightarrow> call_ok v c)) \<and>
     (\<forall>k. begun k \<le> n) \<and> (\<forall>x. last_ended = Some x \<longrightarrow> x \<le> n) \<and>
     (last_ended = Some n \<longrightarrow> internalErrorMessages v = expected_messages v)"

text \<open>What the invariant depends on.\<close>

lemma same_value:
  assumes "vprops v' = vprops v" "model v' = model v"
  shows "call_ok v' c = call_ok v c" "expected_messages v' = expected_messages v" "validationModel v' = validationModel v"
  using assms by (simp_all add: call_ok_def expected_messages_def validationModel_def)

lemma validate_inv:
  assumes "val_inv v n begun last_ended" "validate si v = (v', ended)"
  shows "val_inv v' n (begun(next_call v := n)) (if ended then Some n else last_ended)"
proof -
  let ?v = "v\<lparr>isValidating := True, next_call := Suc (next_call v)\<rparr>"
  have same: "validationModel ?v = validationModel v" "vprops ?v = vprops v" by (simp_all add: validationModel_def)
  have inv: "\<And>k c. (k, c) \<in> set (calls v) \<Longrightarrow> k < next_call v \<and> (begun k = n \<longrightarrow> call_ok v c)" "\<And>k. begun k \<le> n"
    "\<And>x. last_ended = Some x \<Longrightarrow> x \<le> n" "last_ended = Some n \<Longrightarrow> internalErrorMessages v = expected_messages v"
    using assms(1) by (auto simp: val_inv_def)
  have old: "(k, c) \<in> set (calls v) \<Longrightarrow> k \<noteq> next_call v" for k c using inv(1) by fastforce
  note nr = next_rule_ok [of ?v "[]" "rules (vprops v)" "[]" si, OF _ _ within_Nil, simplified]
  show ?thesis
  proof (cases "next_rule ?v si (rules (vprops v)) []")
    case (Inl c)
    then have v': "v' = ?v\<lparr>calls := calls v @ [(next_call v, c)]\<rparr>" "\<not> ended" using assms(2) by (auto simp: validate_def Let_def)
    have "call_ok ?v c" using nr(1) Inl by simp
    then have "call_ok v' c" using same_value(1) [of v' ?v c] v' by simp
    moreover have "call_ok v' d = call_ok v d" "expected_messages v' = expected_messages v" for d
      using same_value [of v' v] v' by simp_all
    ultimately show ?thesis using inv old v' by (auto simp: val_inv_def less_Suc_eq split: if_splits)
  next
    case (Inr res)
    then have v': "v' = finish si res ?v" "ended" using assms(2) by (auto simp: validate_def Let_def)
    have "res = expected_messages v'" using nr(2) Inr same_value(2) [of v' ?v] v' by (simp add: finish_def)
    moreover have "call_ok v' d = call_ok v d" for d using same_value(1) [of v' v] v' by (simp add: finish_def)
    ultimately show ?thesis using inv old v' by (auto simp: val_inv_def finish_def less_Suc_eq split: if_splits)
  qed
qed

lemma resume_inv:
  assumes "val_inv v n begun last_ended" "resume k v = (v', ended)"
  shows "val_inv v' n begun (if ended then Some (begun k) else last_ended)"
proof (cases "map_of (calls v) k")
  case None
  then show ?thesis using assms by (simp add: resume_def)
next
  case (Some c)
  then have mem: "(k, c) \<in> set (calls v)" by (rule map_of_SomeD)
  have inv: "\<And>k c. (k, c) \<in> set (calls v) \<Longrightarrow> k < next_call v \<and> (begun k = n \<longrightarrow> call_ok v c)" "\<And>k. begun k \<le> n"
    "\<And>x. last_ended = Some x \<Longrightarrow> x \<le> n" "last_ended = Some n \<Longrightarrow> internalErrorMessages v = expected_messages v"
    using assms(1) by (auto simp: val_inv_def)
  show ?thesis
  proof (cases "awaited c")
    case (Inl e)
    then have v': "v' = v\<lparr>calls := filter (\<lambda>x. fst x \<noteq> k) (calls v)\<rparr>" "\<not> ended" using assms(2) Some by (auto simp: resume_def)
    moreover have "call_ok v' d = call_ok v d" "expected_messages v' = expected_messages v" for d
      using same_value [of v' v] v' by simp_all
    ultimately show ?thesis using inv by (auto simp: val_inv_def)
  next
    case x: (Inr x)
    show ?thesis
    proof (cases "next_rule v (silent c) (remaining c) (results c @ message x)")
      case (Inl c')
      then have v': "v' = v\<lparr>calls := map (\<lambda>x. if fst x = k then (k, c') else x) (calls v)\<rparr>" "\<not> ended"
        using assms(2) Some x by (auto simp: resume_def)
      moreover have "call_ok v' d = call_ok v d" "expected_messages v' = expected_messages v" for d
        using same_value [of v' v] v' by simp_all
      moreover have "call_ok v c'" if "begun k = n"
      proof -
        have "call_ok v c" using inv(1) [OF mem] that by simp
        then show ?thesis using call_goes_on [OF _ x] next_rule_ok(1) Inl by metis
      qed
      ultimately show ?thesis using inv by (auto simp: val_inv_def split: if_splits)
    next
      case (Inr res)
      then have v': "v' = finish (silent c) res (v\<lparr>calls := filter (\<lambda>x. fst x \<noteq> k) (calls v)\<rparr>)" "ended"
        using assms(2) Some x by (auto simp: resume_def)
      moreover have "call_ok v' d = call_ok v d" "expected_messages v' = expected_messages v" for d
        using same_value [of v' v] v' by (simp_all add: finish_def)
      moreover have "res = expected_messages v" if "begun k = n"
      proof -
        have "call_ok v c" using inv(1) [OF mem] that by simp
        then show ?thesis using call_goes_on [OF _ x] next_rule_ok(2) Inr by metis
      qed
      ultimately show ?thesis using inv by (auto simp: val_inv_def finish_def)
    qed
  qed
qed

text \<open>The events that do not begin or continue a call.\<close>

lemma flags_inv:
  assumes "val_inv v n begun last_ended" "vprops v' = vprops v" "model v' = model v" "calls v' = calls v" "next_call v' = next_call v"
    and "internalErrorMessages v' = internalErrorMessages v"
  shows "val_inv v' n begun last_ended"
  using assms(1) same_value [OF assms(2,3)] assms(4-6) by (simp add: val_inv_def)

lemma cleared_inv:
  assumes "val_inv v n begun None" "vprops v' = vprops v" "model v' = model v" "calls v' = calls v" "next_call v' = next_call v"
  shows "val_inv v' n begun None"
  using assms(1) same_value [OF assms(2,3)] assms(4,5) by (simp add: val_inv_def)

lemma begun_fresh: "val_inv v n begun last_ended \<Longrightarrow> val_inv v n (begun(next_call v := n)) last_ended"
  by (auto simp: val_inv_def)

lemma value_changed:
  assumes "val_inv v n begun last_ended" "calls v' = calls v" "next_call v' = next_call v"
  shows "val_inv v' (Suc n) begun last_ended"
proof -
  have "begun k \<noteq> Suc n" for k
  proof -
    have "begun k \<le> n" using assms(1) by (simp add: val_inv_def)
    then show ?thesis by linarith
  qed
  moreover have "last_ended \<noteq> Some (Suc n)" using assms(1) by (auto simp: val_inv_def)
  ultimately show ?thesis using assms by (auto simp: val_inv_def le_SucI)
qed

lemma validated_after:
  assumes "val_inv v n begun last_ended" "validate si v0 = (v', ended)" "vprops v0 = vprops v" "model v0 = model v"
    "calls v0 = calls v" "next_call v0 = next_call v" "internalErrorMessages v0 = internalErrorMessages v"
  shows "val_inv v' n (begun(next_call v := n)) (if ended then Some n else last_ended)"
  using validate_inv [OF flags_inv [OF assms(1) assms(3-7)] assms(2)] assms(6) by simp

lemma resume_next_call: "resume k v = (v', ended) \<Longrightarrow> next_call v' = next_call v"
  by (auto simp: resume_def finish_def split: option.splits sum.splits)

lemma val_run_inv: "val_run v n begun last_ended \<Longrightarrow> val_inv v n begun last_ended"
proof (induction rule: val_run.induct)
  case (run_start ps m f)
  then show ?case by (simp add: val_inv_def useValidation_def)
next
  case (run_step v n begun last_ended ev v' ended)
  note inv = run_step.IH and st = run_step.hyps(2)
  show ?case
  proof (cases ev)
    case (Input m)
    then have "val_inv v' (Suc n) (begun(next_call v := n)) last_ended" using st by (intro value_changed [OF begun_fresh [OF inv]]) auto
    then show ?thesis using Input st by (auto simp: fun_upd_def changes_def ended_after_def)
  next
    case (Props p)
    then have "val_inv v' (Suc n) (begun(next_call v := n)) last_ended" using st by (intro value_changed [OF begun_fresh [OF inv]]) auto
    then show ?thesis using Props st by (auto simp: fun_upd_def changes_def ended_after_def)
  next
    case (Focus f)
    then show ?thesis using flags_inv [OF begun_fresh [OF inv], of v'] st by (auto simp: fun_upd_def changes_def ended_after_def)
  next
    case Mounted
    then show ?thesis using st validated_after [OF inv, of True v v' ended] begun_fresh [OF inv]
      by (auto simp: fun_upd_def changes_def ended_after_def on_mounted_def split: if_splits)
  next
    case Model_watch
    then show ?thesis
      using st validated_after [OF inv, of False v v' ended] begun_fresh [OF inv] flags_inv [OF begun_fresh [OF inv], of v']
      by (auto simp: fun_upd_def changes_def ended_after_def model_watch_def split: if_splits)
  next
    case Focus_watch
    then show ?thesis using st validated_after [OF inv, of False v v' ended] begun_fresh [OF inv]
      by (auto simp: fun_upd_def changes_def ended_after_def focus_watch_def split: if_splits)
  next
    case Blur_watch
    then show ?thesis
      using st validated_after [OF inv, of False "v\<lparr>blur_watch := False\<rparr>" v' ended] begun_fresh [OF inv] flags_inv [OF begun_fresh [OF inv], of v']
      by (auto simp: fun_upd_def changes_def ended_after_def blur_once_def Let_def split: if_splits)
  next
    case Reset_validation
    have inv': "val_inv v n begun None" using inv by (simp add: val_inv_def)
    have "val_inv v' n (begun(next_call v := n)) (if ended then Some n else None)"
    proof (cases "on_lazy (validate_on (vprops v))")
      case True
      then have "v' = v\<lparr>isPristine := True, internalErrorMessages := []\<rparr>" "\<not> ended" using Reset_validation st by (simp_all add: resetValidation_def Let_def)
      then show ?thesis using cleared_inv [OF begun_fresh [OF inv'], of v'] by simp
    next
      case False
      then show ?thesis
        using Reset_validation st validated_after [OF inv', of True "v\<lparr>isPristine := True\<rparr>" v' ended] by (simp add: resetValidation_def Let_def)
    qed
    then show ?thesis by (auto simp: fun_upd_def Reset_validation changes_def ended_after_def split: if_splits)
  next
    case (Resume k)
    then have "val_inv v' n begun (if ended then Some (begun k) else last_ended)" using st resume_inv [OF inv] by simp
    then have "val_inv v' n (begun(next_call v := n)) (if ended then Some (begun k) else last_ended)"
      using begun_fresh [of v' n begun] resume_next_call [of k v v' ended] st Resume by simp
    then show ?thesis using Resume by (auto simp: fun_upd_def changes_def ended_after_def split: if_splits)
  qed
qed

text \<open>
  C34. However changes of the value and validations interleave, and in whatever order the rules
  answer: if the validation that ended last began after the last change, the messages are those of
  the rules that the present value breaks, in the order of the rules, up to the limit.
\<close>

theorem settled_messages_are_current:
  assumes "val_run v n begun (Some n)"
  shows "internalErrorMessages v = expected_messages v"
  using val_run_inv [OF assms] by (simp add: val_inv_def)

text \<open>The verdict follows: without other errors a value is valid iff every rule accepts it.\<close>

lemma settled_verdict:
  assumes "val_run v n begun (Some n)" "\<not> isPristine v" "\<not> error (vprops v)" "\<not> has_length (errorMessages (vprops v))"
    and "limit (vprops v) [x] = [x]" "rules (vprops v) \<noteq> []"
  shows "isValid v = Some (answers (rules (vprops v)) (validationModel v) = [])"
proof -
  let ?all = "answers (rules (vprops v)) (validationModel v)"
  have pos: "limit (vprops v) xs = [] \<longleftrightarrow> xs = []" for xs
    using assms(5) by (auto simp: limit_def split: option.splits)
  have "internalErrorMessages v = limit (vprops v) ?all"
    using val_run_inv [OF assms(1)] by (simp add: val_inv_def expected_messages_def)
  then show ?thesis using assms(2-4,6) pos by (simp add: isValid_def Let_def)
qed

section \<open>A call ends\<close>

definition rules_answer :: "validation \<Rightarrow> bool" where
  "rules_answer v = (\<forall>r \<in> set (rules (vprops v)). \<exists>x. call_rule r (validationModel v) = Inr x)"

text \<open>A call goes on until it ends, while nothing else happens.\<close>

primrec finish_call :: "nat \<Rightarrow> nat \<Rightarrow> validation \<Rightarrow> validation" where
  "finish_call 0 k v = v"
| "finish_call (Suc i) k v = (if map_of (calls v) k = None then v else finish_call i k (fst (resume k v)))"

lemma replaced_call: "map_of xs k = Some c \<Longrightarrow> map_of (map (\<lambda>x. if fst x = k then (k, c') else x) xs) k = Some c'"
  by (induction xs) (auto split: if_splits)

lemma finish_call_ends:
  "rules_answer v \<Longrightarrow> map_of (calls v) k = Some c \<Longrightarrow> call_ok v c \<Longrightarrow> length (remaining c) < i \<Longrightarrow>
    distinct (map fst (calls v)) \<Longrightarrow>
    map_of (calls (finish_call i k v)) k = None \<and> internalErrorMessages (finish_call i k v) = expected_messages v \<and>
    isPristine (finish_call i k v) = silent c \<and> \<not> isValidating (finish_call i k v)"
proof (induction i arbitrary: v c)
  case (Suc i)
  obtain x where x: "awaited c = Inr x" using Suc.prems(1,3) by (force simp: rules_answer_def call_ok_def)
  obtain ds where ds: "rules (vprops v) = ds @ remaining c" "results c @ message x = answers ds (validationModel v)"
    "within (vprops v) (results c @ message x)" using call_goes_on [OF Suc.prems(3) x] by blast
  note nr = next_rule_ok [OF ds, of "silent c"]
  show ?case
  proof (cases "next_rule v (silent c) (remaining c) (results c @ message x)")
    case (Inl c')
    let ?v = "v\<lparr>calls := map (\<lambda>x. if fst x = k then (k, c') else x) (calls v)\<rparr>"
    have r: "fst (resume k v) = ?v" using Suc.prems(2) x Inl by (simp add: resume_def)
    have "map_of (calls ?v) k = Some c'" using replaced_call [OF Suc.prems(2)] by simp
    moreover have "length (remaining c') < i" using Inl Suc.prems(4) by (auto simp: next_rule_def split: list.splits if_splits)
    moreover have "map fst (calls ?v) = map fst (calls v)" by simp
    moreover have "call_ok ?v c'" "silent c' = silent c" using nr(1) [OF Inl] by (simp_all add: same_value(1) [of ?v v])
    moreover have "rules_answer ?v" "expected_messages ?v = expected_messages v" using Suc.prems(1) same_value [of ?v v] by (simp_all add: rules_answer_def)
    ultimately have "map_of (calls (finish_call i k ?v)) k = None \<and> internalErrorMessages (finish_call i k ?v) = expected_messages v \<and>
        isPristine (finish_call i k ?v) = silent c \<and> \<not> isValidating (finish_call i k ?v)"
      using Suc.IH [of ?v c'] Suc.prems(5) by (simp del: map_map)
    then show ?thesis using Suc.prems(2) r by simp
  next
    case (Inr res)
    let ?v = "finish (silent c) res (v\<lparr>calls := filter (\<lambda>x. fst x \<noteq> k) (calls v)\<rparr>)"
    have r: "fst (resume k v) = ?v" using Suc.prems(2) x Inr by (simp add: resume_def)
    have none: "map_of (calls ?v) k = None" by (simp add: finish_def map_of_eq_None_iff) force
    have "finish_call i k ?v = ?v" using none by (cases i) simp_all
    then show ?thesis using Suc.prems(2) r none nr(2) [OF Inr] by (simp add: finish_def)
  qed
qed simp

text \<open>A validation that is alone ends, with the messages of the present value.\<close>

lemma validation_ends:
  fixes si :: bool and v :: validation
  assumes "rules_answer v" "\<forall>x \<in> set (calls v). fst x < next_call v" "distinct (map fst (calls v))"
  defines "v' \<equiv> finish_call (length (rules (vprops v))) (next_call v) (fst (validate si v))"
  shows "map_of (calls v') (next_call v) = None \<and> internalErrorMessages v' = expected_messages v \<and> isPristine v' = si \<and> \<not> isValidating v'"
proof -
  let ?v = "v\<lparr>isValidating := True, next_call := Suc (next_call v)\<rparr>"
  have fresh: "map_of (calls v) (next_call v) = None" using assms(2) by (force simp: map_of_eq_None_iff)
  have sv: "expected_messages ?v = expected_messages v" "rules_answer ?v = rules_answer v" using same_value [of ?v v] by (simp_all add: rules_answer_def)
  note nr = next_rule_ok [of ?v "[]" "rules (vprops v)" "[]" si, OF _ _ within_Nil, simplified]
  show ?thesis
  proof (cases "next_rule ?v si (rules (vprops v)) []")
    case (Inl c)
    let ?w = "?v\<lparr>calls := calls v @ [(next_call v, c)]\<rparr>"
    have w: "fst (validate si v) = ?w" using Inl by (simp add: validate_def Let_def)
    have "map_of (calls ?w) (next_call v) = Some c" using fresh by (simp add: map_add_def)
    moreover have "call_ok ?w c" "silent c = si" using nr(1) Inl same_value(1) [of ?w ?v c] by simp_all
    moreover have "length (remaining c) < length (rules (vprops v))" using Inl by (auto simp: next_rule_def split: list.splits if_splits)
    moreover have "rules_answer ?w" "expected_messages ?w = expected_messages v"
      using assms(1) same_value [of ?w v] by (simp_all add: rules_answer_def)
    moreover have "distinct (map fst (calls ?w))" using assms(2,3) by auto
    ultimately show ?thesis unfolding v'_def w using finish_call_ends [of ?w "next_call v" c "length (rules (vprops v))"] by simp
  next
    case (Inr res)
    let ?w = "finish si res ?v"
    have w: "fst (validate si v) = ?w" using Inr by (simp add: validate_def Let_def)
    have none: "map_of (calls ?w) (next_call v) = None" using fresh by (simp add: finish_def)
    have "finish_call i (next_call v) ?w = ?w" for i using none by (cases i) simp_all
    then show ?thesis unfolding v'_def w using none nr(2) Inr sv(1) by (simp add: finish_def)
  qed
qed

section \<open>Examples\<close>

text \<open>A name must not be empty; a bucket name must not be taken, which the server answers.\<close>

definition required :: "jsval \<Rightarrow> js_error + jsval" where
  "required x = Inr (if x = JStr [] then JStr ''required'' else JBool True)"

definition not_taken :: "jsval \<Rightarrow> js_error + jsval" where
  "not_taken x = Inr (if x = JStr ''home'' then JStr ''taken'' else JBool True)"

definition name_props :: validation_props where
  "name_props = \<lparr>disabled = None, readonly_prop = None, error = False, errorMessages = JArr [], maxErrors = JNum 1,
     rules = [Function required, Function not_taken], validateOn = JUndef, validationValue = JUndef\<rparr>"

text \<open>A run from the events.\<close>

fun run_events :: "event list \<Rightarrow> validation \<times> nat \<times> (nat \<Rightarrow> nat) \<times> nat option \<Rightarrow> validation \<times> nat \<times> (nat \<Rightarrow> nat) \<times> nat option" where
  "run_events [] r = r"
| "run_events (ev # evs) (v, n, begun, le) =
     run_events evs (fst (val_step ev v), n + changes ev, begun(next_call v := n), ended_after ev (snd (val_step ev v)) n begun le)"

lemma run_events_run: "val_run v n begun le \<Longrightarrow> run_events evs (v, n, begun, le) = (v', n', begun', le') \<Longrightarrow> val_run v' n' begun' le'"
proof (induction evs "(v, n, begun, le)" arbitrary: v n begun le rule: run_events.induct)
  case (2 ev evs v n begun le)
  then show ?case using run_step [OF "2.prems"(1), of ev "fst (val_step ev v)" "snd (val_step ev v)"] by simp
qed simp

definition name_events :: "event list" where
  "name_events = [Input (JStr ''home''), Model_watch, Resume 0, Resume 0]"

theorem settled_messages_are_current_witness:
  "internalErrorMessages (fst (run_events name_events (useValidation name_props (JStr []) True, 0, \<lambda>_. 0, None))) = [JStr ''taken'']"
proof -
  let ?r = "run_events name_events (useValidation name_props (JStr []) True, 0, \<lambda>_. 0, None)"
  have "val_run (fst ?r) (fst (snd ?r)) (fst (snd (snd ?r))) (snd (snd (snd ?r)))" by (rule run_events_run [OF run_start]) simp
  moreover have "snd (snd (snd ?r)) = Some (fst (snd ?r))" by code_simp
  ultimately have "internalErrorMessages (fst ?r) = expected_messages (fst ?r)" by (intro settled_messages_are_current) simp
  moreover have "expected_messages (fst ?r) = [JStr ''taken'']" by code_simp
  ultimately show ?thesis by simp
qed

text \<open>
  The answer to an older call comes last: its messages replace those of the newer one, although no call is
  under way any more.
\<close>

definition slow_events :: "event list" where
  "slow_events = [Input (JStr ''home''), Model_watch, Resume 0, Input (JStr ''data''), Model_watch, Resume 1, Resume 1, Resume 0]"

lemma older_call_wins:
  "case run_events slow_events (useValidation name_props (JStr []) True, 0, \<lambda>_. 0, None) of
     (v, n, begun, le) \<Rightarrow> map fst (calls v) = [] \<and> internalErrorMessages v = [JStr ''taken''] \<and> expected_messages v = []"
  by code_simp

end
