(* ===== verification/Spec2Isabelle.thy ===== *)
theory Spec2Isabelle
  imports App_Contract Ui2_Contract Picker_Contract VuetifyNested VueDiff VueScheduler VueProps VueProxy
    VuetifyLayout VuetifyOverlay VuetifyVirtual VuetifyValidation
begin

text \<open>
  A verification library for the user interfaces of Lenticularis-S3 (lens3), the service that
  gives the users of a cluster S3 endpoints for their file systems. A user's browser talks to the
  registrar, the web server that keeps the pools (S3 endpoints), their buckets and access keys.
  Two interfaces are served with it: the Vue interface
  (\<^verbatim>\<open>src/v2/lens3/ui/assets/index.js\<close>, one file with the application code, Vue and
  Vuetify) and the simple interface (\<^verbatim>\<open>src/v2/lens3/ui2/lens3ui.js\<close>).

  \<^bold>\<open>Parts and theories.\<close> The definitions carry the names of the functions they translate.

  \<^item> \<open>Prelude\<close>: JavaScript values, conversions, property reads, \<open>JSON.stringify\<close>, and the
    monad of computations with a state and exceptions in which the handlers are written, with
    its rules for symbolic execution (\<open>js_exec\<close>) and invariants (\<open>js_keeps_intros\<close>).
  \<^item> \<open>JsDate\<close>: the calendar of the language (\<open>MakeDay\<close>, the civil date of a day), the printed
    forms of dates. Civil dates and day numbers are inverse to each other (\<open>civil_make_day\<close>,
    \<open>make_day_civil\<close>).
  \<^item> \<open>Wire\<close>: requests and replies. \<open>Registrar\<close>: the registrar's side of the API
    (\<^verbatim>\<open>registrar.go\<close>, \<^verbatim>\<open>table.go\<close>, \<^verbatim>\<open>poolprop.go\<close>): records, the JSON of its responses,
    the decoding of request bodies. \<open>Key_Lists\<close>: the locale with what a display of keys promises.
  \<^item> \<open>Ui2\<close>: the simple interface, page and state, every operation and handler; \<open>Ui2_Runs\<close>:
    its runs, with any order of replies and clicks; \<open>Ui2_Contract\<close>: it against the registrar.
  \<^item> \<open>App\<close>: the state and the operations of the Vue interface (\<open>api_*\<close>, \<open>set_*\<close>, \<open>kick_*\<close>,
    \<open>submit_request\<close>); \<open>App_View\<close>: its templates as functions to trees of nodes with
    handlers; \<open>App_Runs\<close>: its runs; \<open>App_Contract\<close>: it against the registrar.
  \<^item> \<open>VueShared\<close>: the helpers of Vue on names, classes, styles, texts and lists.
  \<^item> \<open>VuetifyHelpers\<close>: Vuetify's helpers on objects, paths, attributes, strings.
    \<open>VuetifyModel\<close>: two-way binding (\<open>useProxiedModel\<close>) and the locale \<open>proxied_model\<close>, which
    \<open>VuetifyNested\<close> (trees of items, opening and selecting) and \<open>VuetifyGroup\<close> (groups of items)
    interpret.
  \<^item> \<open>VuetifyDate\<close>: Vuetify's date adapter; \<open>VuetifyPicker\<close>: calendar and date picker;
    \<open>Picker_Contract\<close>: the picker and the pool editor together.
  \<^item> \<open>VuetifyLayout\<close>: the places of app bar, footer and main content. \<open>VuetifyOverlay\<close>: the place of a
    menu next to its activator, and the stack of overlays. \<open>VuetifyVirtual\<close>: the lists of which only
    the visible part is rendered. \<open>VuetifyValidation\<close>: the rules of inputs and their messages.
  \<^item> \<open>VueDiff\<close>: the part of Vue's renderer that brings the children of an element into the order
    of a new list. \<open>VueScheduler\<close>: the queue of jobs and its flush. \<open>VueReactivity\<close>: refs,
    computed refs and watchers, what they track and how a write reaches them. \<open>VueProxy\<close>:
    reactive objects, arrays, maps and sets, the keys that reads track and writes trigger, and the
    proxies that stand for them. \<open>VueProps\<close>: the props, attributes and events of components.
  \<^item> this theory: the two interfaces side by side.

  \<^bold>\<open>What is shown.\<close> Of both interfaces: what the page shows after a response is what the
  registrar's record says; the buttons of a row act on the pool, bucket or key of that row (in the
  simple interface as long as the lists of pools were printable, which those of the registrar are);
  requests carry the current token; error responses change nothing but the message; bodies of
  requests decode at the registrar into what was typed, with the exception of the simple
  interface's request for a key, which is refused; from corresponding states the two send the
  same requests. The states reachable with any interleaving of clicks and replies keep the
  invariants; the Vue interface always renders. Of the date picker: six full weeks are shown, a
  click selects the clicked day, and the day is what the key expires on, in every time zone. Of
  Vuetify's items and groups: loops end, trees stay well-formed, the shown states follow from the
  selected leaves, limits hold. Of its layout: every point of the window belongs to one part; menus
  end inside the window, unless an activator above or below them is wider than it; visible items of long lists are rendered; the messages of an input are those of its
  present value once the last validation began after the last change. Of Vue's renderer: the children end up in the new order, with the
  elements of kept children reused. Of its scheduler: waiting jobs stay in order, and a flush
  ends once the jobs stop calling the scheduler, with every waiting job run that was not deactivated
  or taken back meanwhile. Of its reactivity: a computed
  ref always gives the value that computing everything anew would give, a watcher that is not
  scheduled is up to date, and running the scheduled jobs brings all of them up to date; a write to
  a reactive object schedules every watcher whose reads it changes, and an object has one proxy. Of its
  components: props and attributes follow the values passed last, in full and in optimized
  updates, a skipped update would change nothing, declared events reach their handlers.

  \<^bold>\<open>Loops.\<close> Loops that end only under a condition (walks through the tree of items, the walks to
  the ends of a week, \<open>chunk\<close>, \<open>step\<close>) are partial functions to \<open>option\<close>; the theorems
  state that they return, under the condition, and for the weeks that they do not for invalid dates. The other loops are recursions on lists or have
  a measure. Computed refs ask each other for values, and triggers go from one to the next, to a
  depth that is an argument in \<open>VueReactivity\<close>; more than the number of computed refs is enough. The loop that places
  a menu (\<open>place_loop\<close>) is bounded by the counter of the code, which is shown never to be reached.

  \<^bold>\<open>Not modelled.\<close> The rest of the bundled Vue (mounting, component life cycle; of reactive
  objects the mutating methods of arrays, \<open>forEach\<close> and refs inside objects) and Vuetify
  (activators and scrolling of overlays, transitions, colours, the templates of its components) and the web font
  loader; \<^verbatim>\<open>index.html\<close> and styles, which hold no logic; the registrar's handlers, the
  multiplexer and the key-value store in Go, which are other programs behind the API; the first
  version under \<^verbatim>\<open>src/v1\<close>, whose interfaces are earlier copies of the same files. Numbers are
  integers and strings have characters with codes below 256; object identity appears only where
  a theory says so. Dates are in the range of the language's dates, except in the walks to the ends
  of a week, and sizes in the layout are whole pixels. Callbacks that raise out of the scheduler's loops
  are not modelled. What the code takes from outside (the host's time zone and formatters, the
  current time, replies) is an argument.

  \<^bold>\<open>Plan.\<close> Next: the registrar's handlers as the other end of the contract.
\<close>

section \<open>The two interfaces\<close>

text \<open>The requests an operation sends from a state.\<close>

definition app_sends :: "(app, unit) js \<Rightarrow> app \<Rightarrow> request list" where
  "app_sends m s = drop (length (App.app.sent s)) (App.app.sent (js_state m s))"

definition ui2_sends :: "(ui2, unit) js \<Rightarrow> ui2 \<Rightarrow> request list" where
  "ui2_sends m u = drop (length (Ui2.ui2.sent u)) (Ui2.ui2.sent (js_state m u))"

text \<open>
  The two interfaces show the same: same base path and token, same pool in the editor, same
  list of pools, and the forms are filled in the same way.
\<close>

definition same_view :: "app \<Rightarrow> ui2 \<Rightarrow> bool" where
  "same_view s u \<longleftrightarrow>
     App.app.base_path s = Ui2.ui2.base_path u \<and>
     App.app.x_csrf_token s = Ui2.pool_data.x_csrf_token (Ui2.ui2.data u) \<and>
     App.app_data.pool_name (App.app.data s) = Ui2.pool_data.pool_name (Ui2.ui2.data u) \<and>
     App.app_data.pool_list (App.app.data s) = Ui2.pool_data.pool_desc_list (Ui2.ui2.data u) \<and>
     page_ok u \<and>
     (case (document u ''pool_directory'', document u ''group_choices'',
            document u ''bucket_name'', document u ''bucket_policy'') of
        (Some d, Some g, Some b, Some w) \<Rightarrow>
          App.app_data.buckets_directory (App.app.data s) = JStr (el_value d) \<and>
          App.app_data.group (App.app.data s) = JStr (el_value g) \<and>
          App.app_data.bucket_name (App.app.data s) = JStr (el_value b) \<and>
          App.app_data.bucket_policy (App.app.data s) = JStr (el_value w)
      | _ \<Rightarrow> False)"

lemma app_submit: "app_sends (App.submit_request op m p b k) s =
  [\<lparr>rq_method = m, rq_path = p, rq_body = b, rq_headers = App.request_headers (App.app.x_csrf_token s)\<rparr>]"
  by (simp add: app_sends_def js_state_def App.submit_request_def js_exec)

lemma ui2_submit:
  assumes "page_ok u"
  shows "ui2_sends (Ui2.submit_request op m p b k) u =
    [\<lparr>rq_method = m, rq_path = p, rq_body = b,
      rq_headers = Ui2.request_headers (Ui2.pool_data.x_csrf_token (Ui2.ui2.data u))\<rparr>]"
  by (rule submit_request_ok [OF assms, of op m p b k]) (simp add: ui2_sends_def js_state_def)

lemma same_headers: "App.request_headers t = Ui2.request_headers t"
  by (simp add: App.request_headers_def Ui2.request_headers_def)

lemma sends_bind_gets [simp]:
  "app_sends (js_bind (js_gets g) f) s = app_sends (f (g s)) s"
  "ui2_sends (js_bind (js_gets h) k) u = ui2_sends (k (h u)) u"
  by (simp_all add: app_sends_def ui2_sends_def js_state_def js_bind_def js_gets_def)

lemma sends_bind_lift [simp]:
  "app_sends (js_bind (js_lift r) f) s = (case r of Inl e \<Rightarrow> [] | Inr x \<Rightarrow> app_sends (f x) s)"
  "ui2_sends (js_bind (js_lift r) k) u = (case r of Inl e \<Rightarrow> [] | Inr x \<Rightarrow> ui2_sends (k x) u)"
  by (auto simp: app_sends_def ui2_sends_def js_state_def js_bind_def js_lift_def split: sum.split)

lemma sends_element_value:
  "document u i = Some e \<Longrightarrow> ui2_sends (js_bind (element_value i) f) u = ui2_sends (f (el_value e)) u"
  by (simp add: ui2_sends_def js_state_def js_bind_def element_value_def)

lemma ui2_sends_after_display:
  assumes "page_ok u"
  obtains u' where "ui2_sends (js_block [display_pool_make False, m]) u = ui2_sends m u'"
    and "page_ok u'" "Ui2.ui2.data u' = Ui2.ui2.data u" "Ui2.ui2.base_path u' = Ui2.ui2.base_path u"
proof -
  obtain e where e: "document u ''pool_make_section'' = Some e"
    using page_ok_element [OF assms, of "''pool_make_section''"] by (auto simp: page_ids_def)
  let ?u = "u\<lparr>document := (document u)(''pool_make_section'' \<mapsto> e\<lparr>el_display := ''none''\<rparr>)\<rparr>"
  have "display_pool_make False u = (Inr (), ?u)"
    using e by (simp add: display_pool_make_def set_display_ok)
  then have "ui2_sends (js_block [display_pool_make False, m]) u = ui2_sends m ?u"
    by (auto simp: ui2_sends_def js_state_def js_block_Cons_ok js_block.simps js_bind_def js_return_def
        split: prod.splits sum.splits)
  with page_ok_upd [OF assms] that show thesis by simp
qed

text \<open>
  C1. Two users who see the same in the two interfaces and click the
  same button send the same requests: for the user information, the list of pools, making and
  deleting a pool, making and deleting a bucket, deleting a key.
\<close>

theorem interfaces_send_same_requests:
  assumes "same_view s u"
  shows "app_sends App.api_get_user_info s = ui2_sends Ui2.api_get_user_info u \<and>
    app_sends App.api_list_pools s = ui2_sends Ui2.api_list_pools u \<and>
    app_sends App.kick_make_pool s = ui2_sends Ui2.kick_make_pool u \<and>
    app_sends (App.kick_delete_pool n) s = ui2_sends (Ui2.kick_delete_pool (dec_nat n)) u \<and>
    app_sends App.kick_make_bucket s = ui2_sends Ui2.kick_make_bucket u \<and>
    app_sends (App.kick_delete_bucket b) s = ui2_sends (Ui2.kick_delete_bucket b) u \<and>
    app_sends (App.kick_delete_secret k) s = ui2_sends (Ui2.kick_delete_secret k) u"
proof -
  have page: "page_ok u" using assms by (simp add: same_view_def)
  obtain d g b' w where doc: "document u ''pool_directory'' = Some d" "document u ''group_choices'' = Some g"
      "document u ''bucket_name'' = Some b'" "document u ''bucket_policy'' = Some w"
    and fields: "App.app_data.buckets_directory (App.app.data s) = JStr (el_value d)"
      "App.app_data.group (App.app.data s) = JStr (el_value g)"
      "App.app_data.bucket_name (App.app.data s) = JStr (el_value b')"
      "App.app_data.bucket_policy (App.app.data s) = JStr (el_value w)"
    using assms by (auto simp: same_view_def split: option.splits)
  note same = assms [unfolded same_view_def, THEN conjunct1]
    assms [unfolded same_view_def, THEN conjunct2, THEN conjunct1]
    assms [unfolded same_view_def, THEN conjunct2, THEN conjunct2, THEN conjunct1]
    assms [unfolded same_view_def, THEN conjunct2, THEN conjunct2, THEN conjunct2, THEN conjunct1]
  note submit = app_submit ui2_submit [OF page] same_headers same
  have "app_sends App.kick_make_pool s = ui2_sends Ui2.kick_make_pool u"
  proof -
    obtain u' where u': "ui2_sends (js_block [display_pool_make False, Ui2.api_make_pool (el_value d) (el_value g)]) u =
        ui2_sends (Ui2.api_make_pool (el_value d) (el_value g)) u'"
      "page_ok u'" "Ui2.ui2.data u' = Ui2.ui2.data u" "Ui2.ui2.base_path u' = Ui2.ui2.base_path u"
      by (rule ui2_sends_after_display [OF page])
    then show ?thesis
      using ui2_submit [OF u'(2)] doc fields same
      by (simp add: App.kick_make_pool_def App.api_make_pool_def Ui2.kick_make_pool_def
          Ui2.api_make_pool_def sends_element_value app_submit same_headers Let_def del: json_stringify.simps)
  qed
  moreover have "app_sends (App.kick_delete_pool n) s = ui2_sends (Ui2.kick_delete_pool (dec_nat n)) u"
    by (simp add: App.kick_delete_pool_def App.api_delete_pool_def Ui2.kick_delete_pool_def
        Ui2.api_delete_pool_def submit split: sum.split)
  moreover have "app_sends App.kick_make_bucket s = ui2_sends Ui2.kick_make_bucket u"
    using doc fields
    by (simp add: App.kick_make_bucket_def App.current_pool_def App.api_make_bucket_def
        Ui2.kick_make_bucket_def Ui2.api_make_bucket_def Ui2.pool_path_def sends_element_value submit Let_def
        del: json_stringify.simps)
  ultimately show ?thesis
    by (simp add: App.api_get_user_info_def Ui2.api_get_user_info_def App.api_list_pools_def
        Ui2.api_list_pools_def App.kick_delete_bucket_def App.api_delete_bucket_def App.current_pool_def
        App.pool_path_def Ui2.pool_path_def Ui2.kick_delete_bucket_def Ui2.api_delete_bucket_def
        App.kick_delete_secret_def App.api_delete_secret_def Ui2.kick_delete_secret_def
        Ui2.api_delete_secret_def submit)
qed

theorem interfaces_send_same_requests_witness:
  "app_sends App.api_get_user_info (mounted\<lparr>App.app.base_path := ''/api~''\<rparr>) = ui2_sends Ui2.api_get_user_info blank_page \<and>
   app_sends App.api_list_pools (mounted\<lparr>App.app.base_path := ''/api~''\<rparr>) = ui2_sends Ui2.api_list_pools blank_page \<and>
   app_sends App.kick_make_pool (mounted\<lparr>App.app.base_path := ''/api~''\<rparr>) = ui2_sends Ui2.kick_make_pool blank_page"
proof -
  have "same_view (mounted\<lparr>App.app.base_path := ''/api~''\<rparr>) blank_page"
    by (simp add: same_view_def mounted_def init_app_data_def blank_page_def blank_element_def
        init_pool_data_def page_ok_def page_ids_def)
  from interfaces_send_same_requests [OF this] show ?thesis by blast
qed

end
